(* ===== verification/Router_Prelude.thy ===== *)
theory Router_Prelude
  imports Main "HOL-Library.Char_ord" "HOL-Library.Code_Target_Nat"
begin

text \<open>
  Shared vocabulary of the development. A JavaScript \<open>Buffer\<close> is its list of bytes and a
  JavaScript string is the list of bytes of its UTF-8 encoding (a lone surrogate is its
  three-byte generalised form), so both are \<open>string\<close>, the type of lists of 8-bit characters.
  The searches the code makes in strings and buffers are for ASCII patterns, whose
  occurrences are the same in both views; where the code reads \<open>.length\<close> of a string the
  model counts UTF-16 code units with \<open>js_length\<close>. \<open>undefined\<close> is \<open>None\<close>.
\<close>

named_theorems list_facts
named_theorems outcome_simps

type_synonym bytes = string

section \<open>Prefixes, searches, splitting\<close>

fun starts_with :: "'a list \<Rightarrow> 'a list \<Rightarrow> bool" where
  "starts_with [] s = True"
| "starts_with (p # ps) [] = False"
| "starts_with (p # ps) (c # cs) = (p = c \<and> starts_with ps cs)"

lemma starts_with_iff: "starts_with p s \<longleftrightarrow> take (length p) s = p"
  by (induction p s rule: starts_with.induct) auto

lemma starts_with_iff_append: "starts_with p s \<longleftrightarrow> (\<exists>t. s = p @ t)"
  by (metis append_eq_conv_conj append_take_drop_id starts_with_iff)

lemma starts_with_append [simp]: "starts_with p (p @ s)"
  by (simp add: starts_with_iff)

lemma starts_with_mono [list_facts]: "starts_with p s \<Longrightarrow> starts_with p (s @ x)"
  by (auto simp: starts_with_iff_append)

lemma starts_with_back [list_facts]:
  "starts_with p (s @ x) \<Longrightarrow> length p \<le> length s \<Longrightarrow> starts_with p s"
  by (simp add: starts_with_iff)

lemma starts_with_length [list_facts]: "starts_with p s \<Longrightarrow> length p \<le> length s"
  by (auto simp: starts_with_iff_append)

text \<open>The index of the first occurrence, \<open>indexOf\<close>; \<open>-1\<close> is \<open>None\<close>.\<close>

fun index_of :: "'a list \<Rightarrow> 'a list \<Rightarrow> nat option" where
  "index_of p [] = (if p = [] then Some 0 else None)"
| "index_of p (c # cs) =
     (if starts_with p (c # cs) then Some 0 else map_option Suc (index_of p cs))"

lemma index_of_Some:
  "index_of p s = Some i \<Longrightarrow> i + length p \<le> length s \<and> starts_with p (drop i s)"
  by (induction s arbitrary: i) (force split: if_splits dest: starts_with_length)+

lemma index_of_first:
  "index_of p s = Some i \<Longrightarrow> j < i \<Longrightarrow> \<not> starts_with p (drop j s)"
proof (induction s arbitrary: i j)
  case Nil
  then show ?case by (simp split: if_splits)
next
  case (Cons c s)
  show ?case
  proof (cases j)
    case 0
    with Cons.prems show ?thesis by (auto split: if_splits)
  next
    case (Suc j')
    with Cons show ?thesis by (auto split: if_splits)
  qed
qed

lemma index_of_None: "index_of p s = None \<Longrightarrow> \<not> starts_with p (drop j s)"
proof (induction s arbitrary: j)
  case Nil
  then show ?case by (cases p) auto
next
  case (Cons c s)
  then show ?case by (cases j) (auto split: if_splits)
qed

lemma index_of_eqI:
  "starts_with p (drop i s) \<Longrightarrow> i \<le> length s \<Longrightarrow> (\<And>j. j < i \<Longrightarrow> \<not> starts_with p (drop j s))
    \<Longrightarrow> index_of p s = Some i"
proof (induction s arbitrary: i)
  case Nil
  then show ?case by (cases p) auto
next
  case (Cons c s)
  show ?case
  proof (cases i)
    case 0
    with Cons.prems show ?thesis by simp
  next
    case (Suc i')
    have "\<not> starts_with p (c # s)"
      using Cons.prems(3) [of 0] Suc by simp
    moreover have "index_of p s = Some i'"
    proof (rule Cons.IH)
      show "starts_with p (drop i' s)" "i' \<le> length s"
        using Cons.prems(1,2) Suc by simp_all
      show "\<not> starts_with p (drop j s)" if "j < i'" for j
        using Cons.prems(3) [of "Suc j"] Suc that by simp
    qed
    ultimately show ?thesis using Suc by simp
  qed
qed

text \<open>An occurrence that is found stays the first one when the text grows.\<close>

lemma index_of_mono: "index_of p s = Some i \<Longrightarrow> index_of p (s @ x) = Some i"
proof (rule index_of_eqI)
  assume found: "index_of p s = Some i"
  note at = index_of_Some [OF found]
  show "starts_with p (drop i (s @ x))" and "i \<le> length (s @ x)"
    using at by (auto intro: starts_with_mono)
  show "\<not> starts_with p (drop j (s @ x))" if "j < i" for j
  proof
    assume "starts_with p (drop j (s @ x))"
    moreover have "length p \<le> length (drop j s)" using at that by auto
    ultimately have "starts_with p (drop j s)"
      using at that by (simp add: starts_with_iff)
    with index_of_first [OF found that] show False ..
  qed
qed

definition contains_sub :: "'a list \<Rightarrow> 'a list \<Rightarrow> bool" where
  "contains_sub s p \<longleftrightarrow> index_of p s \<noteq> None"

text \<open>\<open>split\<close> at every occurrence of one character, and \<open>join\<close>.\<close>

fun split_at_char :: "'a \<Rightarrow> 'a list \<Rightarrow> 'a list list" where
  "split_at_char c [] = [[]]"
| "split_at_char c (x # xs) =
     (if x = c then [] # split_at_char c xs
      else (case split_at_char c xs of [] \<Rightarrow> [[x]] | y # ys \<Rightarrow> (x # y) # ys))"

fun join :: "'a list \<Rightarrow> 'a list list \<Rightarrow> 'a list" where
  "join sep [] = []"
| "join sep [x] = x"
| "join sep (x # y # ys) = x @ sep @ join sep (y # ys)"

lemma split_at_char_nonempty [simp]: "split_at_char c s \<noteq> []"
  by (induction s) (auto split: list.splits)

lemma join_Cons: "ys \<noteq> [] \<Longrightarrow> join sep (x # ys) = x @ sep @ join sep ys"
  by (cases ys) auto

lemma join_hd: "join sep ((c # y) # ys) = c # join sep (y # ys)"
  by (cases ys) auto

lemma join_split [simp]: "join [c] (split_at_char c s) = s"
  by (induction s) (auto simp: join_Cons join_hd split: list.splits)

lemma join_append: "g \<noteq> [] \<Longrightarrow> c \<noteq> [] \<Longrightarrow> join sep (g @ c) = join sep g @ sep @ join sep c"
proof (induction g)
  case (Cons a g)
  then show ?case by (cases "g = []") (simp_all add: join_Cons)
qed simp

lemma join_nonempty_concat: "[] \<notin> set gs \<Longrightarrow> join sep (map (join sep) gs) = join sep (concat gs)"
proof (induction gs)
  case (Cons g gs)
  show ?case
  proof (cases "gs = []")
    case False
    then have "concat gs \<noteq> []" using Cons.prems by (cases gs) auto
    have "g \<noteq> []" using Cons.prems by auto
    from join_append [OF this \<open>concat gs \<noteq> []\<close>, of sep] Cons False show ?thesis by (simp add: join_Cons)
  qed simp
qed simp

lemma split_at_char_no_sep: "c \<notin> set x \<Longrightarrow> split_at_char c x = [x]"
  by (induction x) auto

lemma split_at_char_append: "c \<notin> set x \<Longrightarrow> split_at_char c (x @ c # s) = x # split_at_char c s"
  by (induction x) auto

lemma split_join: "xs \<noteq> [] \<Longrightarrow> (\<And>x. x \<in> set xs \<Longrightarrow> c \<notin> set x) \<Longrightarrow> split_at_char c (join [c] xs) = xs"
proof (induction xs)
  case (Cons x xs)
  then show ?case by (cases "xs = []") (simp_all add: join_Cons split_at_char_no_sep split_at_char_append)
qed simp

lemma split_at_char_sep: "x \<in> set (split_at_char c s) \<Longrightarrow> c \<notin> set x"
  by (induction s arbitrary: x) (auto split: if_splits list.splits)

lemma split_at_char_set: "x \<in> set (split_at_char c s) \<Longrightarrow> set x \<subseteq> set s"
proof (induction s arbitrary: x)
  case (Cons a s)
  obtain y ys where "split_at_char c s = y # ys" by (meson neq_Nil_conv split_at_char_nonempty)
  with Cons.prems Cons.IH [of y] Cons.IH [of x] show ?case by (auto split: if_splits)
qed simp

section \<open>Characters and lengths\<close>

abbreviation byte_of :: "char \<Rightarrow> nat" where
  "byte_of c \<equiv> of_char c"

definition LF :: char where "LF = CHR 0x0A"
definition CR :: char where "CR = CHR 0x0D"

text \<open>
  UTF-16 code units of a string given by its UTF-8 bytes: a continuation byte counts
  nothing, the lead byte of a four-byte sequence counts two (a surrogate pair).
\<close>

definition unit_count :: "char \<Rightarrow> nat" where
  "unit_count c = (if CHR 0x80 \<le> c \<and> c \<le> CHR 0xBF then 0 else if CHR 0xF0 \<le> c then 2 else 1)"

definition js_length :: "string \<Rightarrow> nat" where
  "js_length s = sum_list (map unit_count s)"

lemma js_length_simps [simp]:
  "js_length [] = 0" "js_length (c # s) = unit_count c + js_length s"
  "js_length (s @ t) = js_length s + js_length t"
  by (simp_all add: js_length_def)

lemma js_length_le: "js_length s \<le> 2 * length s"
  by (induction s) (auto simp: unit_count_def)

fun drop_while :: "('a \<Rightarrow> bool) \<Rightarrow> 'a list \<Rightarrow> 'a list" where
  "drop_while p [] = []"
| "drop_while p (x # xs) = (if p x then drop_while p xs else x # xs)"

definition lower_char :: "char \<Rightarrow> char" where
  "lower_char c = (if CHR ''A'' \<le> c \<and> c \<le> CHR ''Z'' then char_of (of_char c + (32::nat)) else c)"

definition to_lower :: "string \<Rightarrow> string" where
  "to_lower s = map lower_char s"

section \<open>White space (the class \<open>\s\<close> and \<open>trim\<close>)\<close>

text \<open>
  The number of bytes of the white-space character at the head of a string, 0 when the
  head is not white space: TAB, LF, VT, FF, CR, SPACE, U+00A0, U+1680, U+2000 to U+200A,
  U+2028, U+2029, U+202F, U+205F, U+3000 and U+FEFF.
\<close>

definition ws_len :: "string \<Rightarrow> nat" where
  "ws_len s =
    (case s of [] \<Rightarrow> 0
     | a # r \<Rightarrow>
        if a = CHR 0x20 \<or> (CHR 0x09 \<le> a \<and> a \<le> CHR 0x0D) then 1
        else (case r of [] \<Rightarrow> 0
          | b # r' \<Rightarrow>
             if a = CHR 0xC2 \<and> b = CHR 0xA0 then 2
             else (case r' of [] \<Rightarrow> 0
               | c # _ \<Rightarrow>
                  if (a = CHR 0xE1 \<and> b = CHR 0x9A \<and> c = CHR 0x80)
                   \<or> (a = CHR 0xE2 \<and> b = CHR 0x80 \<and>
                       ((CHR 0x80 \<le> c \<and> c \<le> CHR 0x8A) \<or> c = CHR 0xA8 \<or> c = CHR 0xA9 \<or> c = CHR 0xAF))
                   \<or> (a = CHR 0xE2 \<and> b = CHR 0x81 \<and> c = CHR 0x9F)
                   \<or> (a = CHR 0xE3 \<and> b = CHR 0x80 \<and> c = CHR 0x80)
                   \<or> (a = CHR 0xEF \<and> b = CHR 0xBB \<and> c = CHR 0xBF)
                  then 3 else 0)))"

function trim_start :: "string \<Rightarrow> string" where
  "trim_start s = (if ws_len s = 0 \<or> s = [] then s else trim_start (drop (ws_len s) s))"
  by pat_completeness auto
termination
  by (relation "measure length") auto

declare trim_start.simps [simp del]

lemma trim_start_Nil [simp]: "trim_start [] = []"
  by (subst trim_start.simps) simp

lemma trim_start_suffix: "\<exists>p. s = p @ trim_start s"
proof (induction s rule: trim_start.induct)
  case (1 s)
  show ?case
  proof (cases "ws_len s = 0 \<or> s = []")
    case True
    then show ?thesis by (subst trim_start.simps) simp
  next
    case False
    with 1 obtain p where "drop (ws_len s) s = p @ trim_start (drop (ws_len s) s)" by blast
    then have "s = (take (ws_len s) s @ p) @ trim_start (drop (ws_len s) s)"
      by (metis append.assoc append_take_drop_id)
    then have "\<exists>q. s = q @ trim_start (drop (ws_len s) s)" ..
    with False show ?thesis by (simp add: trim_start.simps [of s])
  qed
qed

text \<open>\<open>trim\<close>: the end is cut by the longest white-space suffix.\<close>

fun all_ws :: "string \<Rightarrow> bool" where
  "all_ws s = (trim_start s = [])"

fun trim_end :: "string \<Rightarrow> string" where
  "trim_end [] = []"
| "trim_end (c # cs) = (if all_ws (c # cs) then [] else c # trim_end cs)"

definition trim :: "string \<Rightarrow> string" where
  "trim s = trim_end (trim_start s)"

end
