(* ===== verification/Utf8_Text.thy ===== *)
theory Utf8_Text
  imports Router_Prelude
begin

text \<open>
  UTF-8 decoding as the WHATWG decoder and Node's \<open>Buffer.toString\<close> do it. Strings are
  kept as their UTF-8 bytes, so a fatal decode is the identity on well-formed input and fails
  otherwise (\<open>fatal_utf8\<close>), and the replacing decode (\<open>utf8_lossy\<close>) writes
  U+FFFD for each maximal ill-formed subpart.
\<close>

definition is_ascii :: "char \<Rightarrow> bool" where "is_ascii a \<longleftrightarrow> a \<le> CHR 0x7F"
definition is_cont :: "char \<Rightarrow> bool" where "is_cont c \<longleftrightarrow> CHR 0x80 \<le> c \<and> c \<le> CHR 0xBF"
definition is_lead2 :: "char \<Rightarrow> bool" where "is_lead2 a \<longleftrightarrow> CHR 0xC2 \<le> a \<and> a \<le> CHR 0xDF"
definition is_lead3 :: "char \<Rightarrow> bool" where "is_lead3 a \<longleftrightarrow> CHR 0xE0 \<le> a \<and> a \<le> CHR 0xEF"
definition is_lead4 :: "char \<Rightarrow> bool" where "is_lead4 a \<longleftrightarrow> CHR 0xF0 \<le> a \<and> a \<le> CHR 0xF4"

definition lead3_ok :: "char \<Rightarrow> char \<Rightarrow> bool" where
  "lead3_ok a b \<longleftrightarrow> is_cont b \<and> (a = CHR 0xE0 \<longrightarrow> CHR 0xA0 \<le> b) \<and> (a = CHR 0xED \<longrightarrow> b \<le> CHR 0x9F)"

definition lead4_ok :: "char \<Rightarrow> char \<Rightarrow> bool" where
  "lead4_ok a b \<longleftrightarrow> is_cont b \<and> (a = CHR 0xF0 \<longrightarrow> CHR 0x90 \<le> b) \<and> (a = CHR 0xF4 \<longrightarrow> b \<le> CHR 0x8F)"

text \<open>
  The length of the well-formed sequence at the head (0 when there is none), and of the
  maximal ill-formed subpart that one replacement character stands for.
\<close>

fun seq_len :: "bytes \<Rightarrow> nat" where
  "seq_len [] = 0"
| "seq_len (a # s) =
     (if is_ascii a then 1
      else if is_lead2 a then (case s of b # _ \<Rightarrow> if is_cont b then 2 else 0 | _ \<Rightarrow> 0)
      else if is_lead3 a then
        (case s of b # c # _ \<Rightarrow> if lead3_ok a b \<and> is_cont c then 3 else 0 | _ \<Rightarrow> 0)
      else if is_lead4 a then
        (case s of b # c # d # _ \<Rightarrow> if lead4_ok a b \<and> is_cont c \<and> is_cont d then 4 else 0 | _ \<Rightarrow> 0)
      else 0)"

fun bad_len :: "bytes \<Rightarrow> nat" where
  "bad_len [] = 0"
| "bad_len (a # s) =
     (if is_lead3 a then (case s of b # _ \<Rightarrow> if lead3_ok a b then 2 else 1 | _ \<Rightarrow> 1)
      else if is_lead4 a then
        (case s of b # s' \<Rightarrow>
           if lead4_ok a b then (case s' of c # _ \<Rightarrow> if is_cont c then 3 else 2 | _ \<Rightarrow> 2) else 1
         | _ \<Rightarrow> 1)
      else 1)"

function utf8_valid :: "bytes \<Rightarrow> bool" where
  "utf8_valid s =
     (if s = [] then True else if seq_len s = 0 then False else utf8_valid (drop (seq_len s) s))"
  by pat_completeness auto
termination
  by (relation "measure length") auto

definition fffd :: string where "fffd = [CHR 0xEF, CHR 0xBF, CHR 0xBD]"

function utf8_lossy :: "bytes \<Rightarrow> string" where
  "utf8_lossy s =
     (if s = [] then []
      else if seq_len s \<noteq> 0 then take (seq_len s) s @ utf8_lossy (drop (seq_len s) s)
      else fffd @ utf8_lossy (drop (Suc (bad_len s - 1)) s))"
  by pat_completeness auto
termination
  by (relation "measure length") auto

declare utf8_valid.simps [simp del] utf8_lossy.simps [simp del]

definition fatal_utf8 :: "bytes \<Rightarrow> string option" where
  "fatal_utf8 b = (if utf8_valid b then Some b else None)"

lemma utf8_valid_Nil [simp]: "utf8_valid []"
  by (subst utf8_valid.simps) simp

lemma utf8_lossy_Nil [simp]: "utf8_lossy [] = []"
  by (subst utf8_lossy.simps) simp

lemma seq_len_le: "seq_len s \<le> length s"
  by (cases s) (auto split: list.splits)

lemma seq_len_append: "seq_len s \<noteq> 0 \<Longrightarrow> seq_len (s @ t) = seq_len s"
  by (cases s) (auto split: list.splits if_splits)

lemma utf8_valid_append: "utf8_valid s \<Longrightarrow> utf8_valid (s @ t) = utf8_valid t"
proof (induction s rule: utf8_valid.induct)
  case (1 s)
  show ?case
  proof (cases "s = []")
    case False
    with "1.prems" have n: "seq_len s \<noteq> 0" and v: "utf8_valid (drop (seq_len s) s)"
      using utf8_valid.simps [of s] by (auto split: if_splits)
    have "utf8_valid (s @ t) = utf8_valid (drop (seq_len s) s @ t)"
      using n False seq_len_append [OF n, of t] seq_len_le [of s]
      by (subst utf8_valid.simps) simp
    also have "\<dots> = utf8_valid t"
      using "1.IH" False n v by simp
    finally show ?thesis .
  qed simp
qed

lemma utf8_lossy_valid: "utf8_valid s \<Longrightarrow> utf8_lossy s = s"
proof (induction s rule: utf8_valid.induct)
  case (1 s)
  show ?case
  proof (cases "s = []")
    case False
    with "1.prems" have "seq_len s \<noteq> 0" "utf8_valid (drop (seq_len s) s)"
      using utf8_valid.simps [of s] by (auto split: if_splits)
    with "1.IH" False show ?thesis
      by (subst utf8_lossy.simps) simp
  qed simp
qed

lemma utf8_valid_ascii: "\<forall>c \<in> set s. is_ascii c \<Longrightarrow> utf8_valid s"
  by (induction s) (auto simp: utf8_valid.simps [of "_ # _"])

lemma fatal_utf8_Some: "fatal_utf8 b = Some t \<longleftrightarrow> utf8_valid b \<and> t = b"
  by (auto simp: fatal_utf8_def)

lemma fatal_utf8_None: "fatal_utf8 b = None \<longleftrightarrow> \<not> utf8_valid b"
  by (auto simp: fatal_utf8_def)

section \<open>Encoding\<close>

text \<open>\<open>TextEncoder.encode\<close> and \<open>Buffer.from(s, "utf8")\<close> write U+FFFD for a lone surrogate.\<close>

definition surrogate_head :: "string \<Rightarrow> bool" where
  "surrogate_head s \<longleftrightarrow> (case s of a # b # _ \<Rightarrow> a = CHR 0xED \<and> CHR 0xA0 \<le> b \<and> b \<le> CHR 0xBF | _ \<Rightarrow> False)"

function text_encode :: "string \<Rightarrow> string" where
  "text_encode s =
     (if s = [] then []
      else if seq_len s \<noteq> 0 then take (seq_len s) s @ text_encode (drop (seq_len s) s)
      else if surrogate_head s then fffd @ text_encode (drop 3 s)
      else hd s # text_encode (drop 1 s))"
  by pat_completeness auto
termination
  by (relation "measure length") auto

declare text_encode.simps [simp del]

lemma text_encode_valid: "utf8_valid s \<Longrightarrow> text_encode s = s"
proof (induction s rule: utf8_valid.induct)
  case (1 s)
  show ?case
  proof (cases "s = []")
    case True
    then show ?thesis by (subst text_encode.simps) simp
  next
    case False
    with "1.prems" have "seq_len s \<noteq> 0" "utf8_valid (drop (seq_len s) s)"
      using utf8_valid.simps [of s] by (auto split: if_splits)
    with "1.IH" False show ?thesis
      by (subst text_encode.simps) simp
  qed
qed

lemma text_encode_ascii: "text_encode s = t \<Longrightarrow> \<forall>c \<in> set t. is_ascii c \<Longrightarrow> s = t"
proof (induction s arbitrary: t rule: text_encode.induct)
  case (1 s)
  have fffd: "\<not> (\<forall>c \<in> set fffd. is_ascii c)" by (simp add: fffd_def is_ascii_def)
  consider "s = []" | "s \<noteq> []" "seq_len s \<noteq> 0" | "s \<noteq> []" "seq_len s = 0" "surrogate_head s"
    | "s \<noteq> []" "seq_len s = 0" "\<not> surrogate_head s" by blast
  then show ?case
  proof cases
    case 1
    then show ?thesis using "1.prems"(1) by (simp add: text_encode.simps [of "[]"])
  next
    case 2
    then have t: "t = take (seq_len s) s @ text_encode (drop (seq_len s) s)"
      using "1.prems"(1) text_encode.simps [of s] by simp
    then have "drop (seq_len s) s = text_encode (drop (seq_len s) s)"
      using "1.IH"(1) [OF 2 refl] "1.prems"(2) by simp
    then show ?thesis using t by (metis append_take_drop_id)
  next
    case 3
    then have "t = fffd @ text_encode (drop 3 s)" using "1.prems"(1) text_encode.simps [of s] by simp
    then show ?thesis using fffd "1.prems"(2) by simp
  next
    case 4
    then have t: "t = hd s # text_encode (drop 1 s)" using "1.prems"(1) text_encode.simps [of s] by simp
    then have "drop 1 s = text_encode (drop 1 s)"
      using "1.IH"(3) [of "text_encode (drop 1 s)"] 4 t "1.prems"(2) by simp
    then show ?thesis using t 4 by (cases s) simp_all
  qed
qed

end
