(* ===== verification/Json.thy ===== *)
theory Json
  imports Utf8_Text "HOL-Library.AList"
begin

text \<open>
  JSON values and the library functions \<open>JSON.parse\<close> and \<open>JSON.stringify\<close>, as the
  relay uses them. An object is the list of its properties in insertion order; a number is
  the decimal \<open>m / 10 ^ e\<close> in lowest terms (\<open>e = 0\<close> for an integer), which is the number
  the program sees as long as it is a double in the range that JavaScript prints without an
  exponent. The round trip \<open>json_parse (json_stringify j) = Some j\<close> and the absence of
  line breaks in printed text are the laws that the stream stages rest on.
\<close>

datatype json =
    JNull
  | JBool bool
  | JNum int nat
  | JStr string
  | JArr "json list"
  | JObj "(string \<times> json) list"

abbreviation JInt :: "int \<Rightarrow> json" where "JInt i \<equiv> JNum i 0"

section \<open>Property access\<close>

text \<open>\<open>v?.k\<close>: a property that is absent, and any property of a value that has none, is
  \<open>undefined\<close>.\<close>

fun obj_get :: "json \<Rightarrow> string \<Rightarrow> json option" where
  "obj_get (JObj kvs) k = map_of kvs k"
| "obj_get _ k = None"

definition opt_get :: "json option \<Rightarrow> string \<Rightarrow> json option" where
  "opt_get v k = (case v of None \<Rightarrow> None | Some j \<Rightarrow> obj_get j k)"

text \<open>\<open>{...v, [k]: x}\<close>: a property that is there keeps its place, a new one goes last.\<close>

fun with_prop :: "json \<Rightarrow> string \<Rightarrow> json \<Rightarrow> json" where
  "with_prop (JObj kvs) k v = JObj (AList.update k v kvs)"
| "with_prop _ k v = JObj [(k, v)]"

fun without_prop :: "json \<Rightarrow> string \<Rightarrow> json" where
  "without_prop (JObj kvs) k = JObj (AList.delete k kvs)"
| "without_prop j k = j"

fun is_obj :: "json \<Rightarrow> bool" where "is_obj (JObj _) = True" | "is_obj _ = False"

fun as_str :: "json option \<Rightarrow> string option" where
  "as_str (Some (JStr s)) = Some s"
| "as_str _ = None"

fun as_arr :: "json option \<Rightarrow> json list option" where
  "as_arr (Some (JArr xs)) = Some xs"
| "as_arr _ = None"

text \<open>\<open>Number.isInteger\<close>\<close>
fun as_int :: "json option \<Rightarrow> int option" where
  "as_int (Some (JNum m 0)) = Some m"
| "as_int _ = None"

fun truthy :: "json option \<Rightarrow> bool" where
  "truthy None = False"
| "truthy (Some JNull) = False"
| "truthy (Some (JBool b)) = b"
| "truthy (Some (JNum m e)) = (m \<noteq> 0)"
| "truthy (Some (JStr s)) = (s \<noteq> [])"
| "truthy (Some (JArr _)) = True"
| "truthy (Some (JObj _)) = True"

lemma obj_get_with_prop [simp]:
  "is_obj j \<Longrightarrow> obj_get (with_prop j k v) k' = (if k' = k then Some v else obj_get j k')"
  by (cases j) (auto simp: update_conv')

lemma obj_get_without_prop [simp]:
  "is_obj j \<Longrightarrow> obj_get (without_prop j k) k' = (if k' = k then None else obj_get j k')"
  by (cases j) (auto simp: delete_conv')

lemma is_obj_with_prop [simp]: "is_obj (with_prop j k v)"
  by (cases j) auto

lemma obj_get_is_obj: "obj_get j k = Some v \<Longrightarrow> is_obj j"
  by (cases j) auto

lemma as_str_Some [simp]: "as_str v = Some s \<longleftrightarrow> v = Some (JStr s)"
  by (cases v rule: as_str.cases) auto

lemma as_arr_Some [simp]: "as_arr v = Some xs \<longleftrightarrow> v = Some (JArr xs)"
  by (cases v rule: as_arr.cases) auto

lemma as_int_Some [simp]: "as_int v = Some i \<longleftrightarrow> v = Some (JNum i 0)"
  by (cases v rule: as_int.cases) auto

section \<open>Printing\<close>

definition digit :: "nat \<Rightarrow> char" where "digit n = char_of (48 + n)"

fun nat_str :: "nat \<Rightarrow> string" where
  "nat_str n = (if n < 10 then [digit n] else nat_str (n div 10) @ [digit (n mod 10)])"

declare nat_str.simps [simp del]

definition int_str :: "int \<Rightarrow> string" where
  "int_str i = (if i < 0 then CHR ''-'' # nat_str (nat (- i)) else nat_str (nat i))"

definition num_str :: "int \<Rightarrow> nat \<Rightarrow> string" where
  "num_str m e =
     (if e = 0 then int_str m
      else let d = nat_str (nat \<bar>m\<bar>);
               p = replicate (Suc e - length d) (CHR ''0'') @ d
           in (if m < 0 then ''-'' else []) @ take (length p - e) p @ ''.'' @ drop (length p - e) p)"

definition hex_digit :: "nat \<Rightarrow> char" where
  "hex_digit n = (if n < 10 then digit n else char_of (87 + n))"

definition u_escape :: "nat \<Rightarrow> string" where
  "u_escape n = [CHR 0x5C, CHR ''u'', hex_digit (n div 4096 mod 16), hex_digit (n div 256 mod 16),
     hex_digit (n div 16 mod 16), hex_digit (n mod 16)]"

definition esc_char :: "char \<Rightarrow> string" where
  "esc_char c =
     (if c = CHR 0x22 then [CHR 0x5C, CHR 0x22]
      else if c = CHR 0x5C then [CHR 0x5C, CHR 0x5C]
      else if c = CHR 0x08 then [CHR 0x5C, CHR ''b'']
      else if c = CHR 0x0C then [CHR 0x5C, CHR ''f'']
      else if c = LF then [CHR 0x5C, CHR ''n'']
      else if c = CR then [CHR 0x5C, CHR ''r'']
      else if c = CHR 0x09 then [CHR 0x5C, CHR ''t'']
      else if c < CHR 0x20 then u_escape (byte_of c)
      else [c])"

text \<open>A lone surrogate at the head of a string, in its three-byte form.\<close>

definition surrogate_at :: "string \<Rightarrow> bool" where
  "surrogate_at s = (case s of
     a # b # c # _ \<Rightarrow> a = CHR 0xED \<and> CHR 0xA0 \<le> b \<and> b \<le> CHR 0xBF \<and> is_cont c | _ \<Rightarrow> False)"

definition surrogate_value :: "string \<Rightarrow> nat" where
  "surrogate_value s = 0xD000 + (byte_of (s ! 1) - 0x80) * 64 + (byte_of (s ! 2) - 0x80)"

fun json_escape :: "string \<Rightarrow> string" where
  "json_escape [] = []"
| "json_escape (c # cs) =
     (if surrogate_at (c # cs) then u_escape (surrogate_value (c # cs)) @ json_escape (drop 2 cs)
      else esc_char c @ json_escape cs)"

definition quote :: "string \<Rightarrow> string" where
  "quote s = CHR 0x22 # json_escape s @ [CHR 0x22]"

lemma size_member_snd [termination_simp]:
  "(k, v) \<in> set kvs \<Longrightarrow> size v < Suc (size_list (size_prod (\<lambda>x. 0) size) kvs)"
  by (induction kvs) auto

fun json_stringify :: "json \<Rightarrow> string" where
  "json_stringify JNull = ''null''"
| "json_stringify (JBool b) = (if b then ''true'' else ''false'')"
| "json_stringify (JNum m e) = num_str m e"
| "json_stringify (JStr s) = quote s"
| "json_stringify (JArr xs) = ''['' @ join '','' (map json_stringify xs) @ '']''"
| "json_stringify (JObj kvs) =
     ''{'' @ join '','' (map (\<lambda>(k, v). quote k @ '':'' @ json_stringify v) kvs) @ ''}''"

section \<open>Parsing\<close>

definition is_digit :: "char \<Rightarrow> bool" where "is_digit c \<longleftrightarrow> CHR ''0'' \<le> c \<and> c \<le> CHR ''9''"

definition digits_value :: "string \<Rightarrow> nat" where
  "digits_value s = foldl (\<lambda>a c. a * 10 + (byte_of c - 48)) 0 s"

fun norm_num :: "int \<Rightarrow> nat \<Rightarrow> json" where
  "norm_num m 0 = JNum m 0"
| "norm_num m (Suc e) = (if m mod 10 = 0 then norm_num (m div 10) e else JNum m (Suc e))"

definition scale_num :: "int \<Rightarrow> int \<Rightarrow> json" where
  "scale_num m x = (if x \<ge> 0 then JNum (m * 10 ^ nat x) 0 else norm_num m (nat (- x)))"

definition parse_exponent :: "string \<Rightarrow> (int \<times> string) option" where
  "parse_exponent s =
     (case s of [] \<Rightarrow> Some (0, [])
      | c # r \<Rightarrow>
         if c \<noteq> CHR ''e'' \<and> c \<noteq> CHR ''E'' then Some (0, s)
         else let sgn = (if starts_with ''-'' r then -1 else 1);
                  r' = (if starts_with ''-'' r \<or> starts_with ''+'' r then tl r else r);
                  ds = takeWhile is_digit r'
              in if ds = [] then None
                 else Some (sgn * int (digits_value ds), dropWhile is_digit r'))"

definition parse_number :: "string \<Rightarrow> (json \<times> string) option" where
  "parse_number s =
     (let sgn = (if starts_with ''-'' s then -1 else 1);
          s1 = (if starts_with ''-'' s then tl s else s);
          ip = takeWhile is_digit s1; s2 = dropWhile is_digit s1;
          dot = starts_with ''.'' s2;
          fp = (if dot then takeWhile is_digit (tl s2) else []);
          s3 = (if dot then dropWhile is_digit (tl s2) else s2)
      in if ip = [] \<or> (hd ip = CHR ''0'' \<and> length ip > 1) \<or> (dot \<and> fp = []) then None
         else (case parse_exponent s3 of None \<Rightarrow> None
               | Some (x, r) \<Rightarrow>
                   Some (scale_num (sgn * int (digits_value (ip @ fp))) (x - int (length fp)), r)))"

definition hex_value :: "char \<Rightarrow> nat option" where
  "hex_value c =
     (if is_digit c then Some (byte_of c - 48)
      else if CHR ''a'' \<le> c \<and> c \<le> CHR ''f'' then Some (byte_of c - 87)
      else if CHR ''A'' \<le> c \<and> c \<le> CHR ''F'' then Some (byte_of c - 55)
      else None)"

definition hex4 :: "string \<Rightarrow> nat option" where
  "hex4 s = (case s of a # b # c # d # _ \<Rightarrow>
      (case (hex_value a, hex_value b, hex_value c, hex_value d) of
         (Some w, Some x, Some y, Some z) \<Rightarrow> Some (w * 4096 + x * 256 + y * 16 + z) | _ \<Rightarrow> None)
    | _ \<Rightarrow> None)"

text \<open>The (generalised) UTF-8 bytes of a code point.\<close>

definition code_point :: "nat \<Rightarrow> string" where
  "code_point n =
     (if n < 0x80 then [char_of n]
      else if n < 0x800 then [char_of (0xC0 + n div 64), char_of (0x80 + n mod 64)]
      else if n < 0x10000 then
        [char_of (0xE0 + n div 4096), char_of (0x80 + n div 64 mod 64), char_of (0x80 + n mod 64)]
      else [char_of (0xF0 + n div 262144), char_of (0x80 + n div 4096 mod 64),
            char_of (0x80 + n div 64 mod 64), char_of (0x80 + n mod 64)])"

definition simple_escape :: "char \<Rightarrow> char option" where
  "simple_escape c =
     (if c = CHR 0x22 then Some (CHR 0x22) else if c = CHR 0x5C then Some (CHR 0x5C)
      else if c = CHR ''/'' then Some (CHR ''/'') else if c = CHR ''b'' then Some (CHR 0x08)
      else if c = CHR ''f'' then Some (CHR 0x0C) else if c = CHR ''n'' then Some LF
      else if c = CHR ''r'' then Some CR else if c = CHR ''t'' then Some (CHR 0x09) else None)"

text \<open>One \<open>\u\<close> escape after its \<open>\u\<close>: the bytes it stands for and how many characters it
  takes. A high surrogate takes the low surrogate that follows it.\<close>

definition unicode_escape :: "string \<Rightarrow> (string \<times> nat) option" where
  "unicode_escape s =
     (case hex4 s of None \<Rightarrow> None
      | Some h \<Rightarrow>
         if 0xD800 \<le> h \<and> h \<le> 0xDBFF \<and> starts_with [CHR 0x5C, CHR ''u''] (drop 4 s) then
           (case hex4 (drop 6 s) of None \<Rightarrow> None
            | Some l \<Rightarrow>
               if 0xDC00 \<le> l \<and> l \<le> 0xDFFF
               then Some (code_point (0x10000 + (h - 0xD800) * 1024 + (l - 0xDC00)), 10)
               else Some (code_point h, 4))
         else Some (code_point h, 4))"

fun parse_str :: "string \<Rightarrow> (string \<times> string) option" where
  "parse_str [] = None"
| "parse_str (c # cs) =
     (if c = CHR 0x22 then Some ([], cs)
      else if c = CHR 0x5C then
        (case cs of [] \<Rightarrow> None
         | e # es \<Rightarrow>
            if e = CHR ''u'' then
              (case unicode_escape es of None \<Rightarrow> None
               | Some (t, n) \<Rightarrow> map_option (apfst ((@) t)) (parse_str (drop n es)))
            else (case simple_escape e of None \<Rightarrow> None
               | Some d \<Rightarrow> map_option (apfst (Cons d)) (parse_str es)))
      else if c < CHR 0x20 then None
      else map_option (apfst (Cons c)) (parse_str cs))"

definition is_json_ws :: "char \<Rightarrow> bool" where
  "is_json_ws c \<longleftrightarrow> c = CHR 0x20 \<or> c = LF \<or> c = CR \<or> c = CHR 0x09"

abbreviation skip_ws :: "string \<Rightarrow> string" where "skip_ws \<equiv> dropWhile is_json_ws"

definition obj_of :: "(string \<times> json) list \<Rightarrow> (string \<times> json) list" where
  "obj_of ms = foldl (\<lambda>m (k, v). AList.update k v m) [] ms"

fun parse_value :: "nat \<Rightarrow> string \<Rightarrow> (json \<times> string) option"
and parse_elems :: "nat \<Rightarrow> string \<Rightarrow> (json list \<times> string) option"
and parse_members :: "nat \<Rightarrow> string \<Rightarrow> ((string \<times> json) list \<times> string) option"
where
  "parse_value 0 s = None"
| "parse_value (Suc n) s =
     (case s of [] \<Rightarrow> None
      | c # cs \<Rightarrow>
         if c = CHR ''{'' then
           (if starts_with ''}'' (skip_ws cs) then Some (JObj [], tl (skip_ws cs))
            else map_option (apfst (\<lambda>ms. JObj (obj_of ms))) (parse_members n (skip_ws cs)))
         else if c = CHR ''['' then
           (if starts_with '']'' (skip_ws cs) then Some (JArr [], tl (skip_ws cs))
            else map_option (apfst JArr) (parse_elems n (skip_ws cs)))
         else if c = CHR 0x22 then map_option (apfst JStr) (parse_str cs)
         else if starts_with ''null'' s then Some (JNull, drop 4 s)
         else if starts_with ''true'' s then Some (JBool True, drop 4 s)
         else if starts_with ''false'' s then Some (JBool False, drop 5 s)
         else parse_number s)"
| "parse_elems 0 s = None"
| "parse_elems (Suc n) s =
     (case parse_value n s of None \<Rightarrow> None
      | Some (v, r) \<Rightarrow>
         (case skip_ws r of [] \<Rightarrow> None
          | c # r' \<Rightarrow>
             if c = CHR '','' then map_option (apfst (Cons v)) (parse_elems n (skip_ws r'))
             else if c = CHR '']'' then Some ([v], r') else None))"
| "parse_members 0 s = None"
| "parse_members (Suc n) s =
     (case s of [] \<Rightarrow> None
      | c # cs \<Rightarrow>
         if c \<noteq> CHR 0x22 then None
         else (case parse_str cs of None \<Rightarrow> None
           | Some (k, r) \<Rightarrow>
              (case skip_ws r of [] \<Rightarrow> None
               | c1 # r1 \<Rightarrow>
                  if c1 \<noteq> CHR '':'' then None
                  else (case parse_value n (skip_ws r1) of None \<Rightarrow> None
                    | Some (v, r2) \<Rightarrow>
                       (case skip_ws r2 of [] \<Rightarrow> None
                        | c3 # r3 \<Rightarrow>
                           if c3 = CHR '','' then
                             map_option (apfst (Cons (k, v))) (parse_members n (skip_ws r3))
                           else if c3 = CHR ''}'' then Some ([(k, v)], r3) else None)))))"

definition json_parse :: "string \<Rightarrow> json option" where
  "json_parse s =
     (case parse_value (2 * length s + 2) (skip_ws s) of None \<Rightarrow> None
      | Some (j, r) \<Rightarrow> if skip_ws r = [] then Some j else None)"

end
