(* ===== verification/Json_Laws.thy ===== *)
theory Json_Laws
  imports Json
begin

text \<open>
  The laws of \<open>json_parse\<close> and \<open>json_stringify\<close>: a value that a parser can have
  produced (\<open>json_ok\<close>: distinct property names, numbers in lowest terms, strings without
  lone surrogates) is read back from its printed text, and printed text holds no line break,
  so it fits one \<open>data:\<close> line of an event stream. The locale \<open>json_codec\<close> is the
  interface the stages of the relay use; its interpretation \<open>js\<close> discharges it.
\<close>


section \<open>Numbers\<close>

lemma digit_props [simp]:
  "n < 10 \<Longrightarrow> is_digit (digit n)" "n < 10 \<Longrightarrow> byte_of (digit n) = 48 + n"
  by (simp_all add: digit_def is_digit_def less_eq_char_def)

lemma digit_zero [simp]: "digit 0 = CHR ''0''"
  by code_simp

lemma digit_inj_zero: "n < 10 \<Longrightarrow> (digit n = CHR ''0'') = (n = 0)"
proof
  assume n: "n < 10" and "digit n = CHR ''0''"
  then have "byte_of (digit n) = (48::nat)" by simp
  with n show "n = 0" by simp
next
  show "digit n = CHR ''0''" if "n = 0" using that digit_zero by simp
qed

lemma nat_str_digits: "\<forall>c \<in> set (nat_str n). is_digit c"
proof (induction n rule: nat_str.induct)
  case (1 n)
  then show ?case by (cases "n < 10") (simp_all add: nat_str.simps [of n])
qed

lemma nat_str_nonempty [simp]: "nat_str n \<noteq> []"
  by (simp add: nat_str.simps [of n])

lemma nat_str_zero: "hd (nat_str n) = CHR ''0'' \<Longrightarrow> n = 0"
proof (induction n rule: nat_str.induct)
  case (1 n)
  show ?case
  proof (cases "n < 10")
    case True
    with "1.prems" show ?thesis by (simp add: nat_str.simps [of n] digit_inj_zero)
  next
    case False
    with "1.prems" have "hd (nat_str (n div 10)) = CHR ''0''"
      by (simp add: nat_str.simps [of n])
    with "1.IH" False have "n div 10 = 0" by blast
    with False show ?thesis by simp
  qed
qed

lemma digits_value_Nil [simp]: "digits_value [] = 0"
  by (simp add: digits_value_def)

lemma digits_value_snoc [simp]: "digits_value (s @ [c]) = digits_value s * 10 + (byte_of c - 48)"
  by (simp add: digits_value_def)

lemma digits_value_nat_str [simp]: "digits_value (nat_str n) = n"
proof (induction n rule: nat_str.induct)
  case (1 n)
  show ?case
  proof (cases "n < 10")
    case True
    then have "digits_value ([] @ [digit n]) = n" by (simp only: digits_value_snoc) simp
    with True show ?thesis by (simp add: nat_str.simps [of n])
  next
    case False
    with 1 show ?thesis by (simp add: nat_str.simps [of n])
  qed
qed

lemma digits_value_zeros [simp]: "digits_value (replicate k (CHR ''0'') @ s) = digits_value s"
proof -
  have "foldl (\<lambda>a c. a * 10 + (byte_of c - 48)) 0 (replicate k (CHR ''0'')) = (0::nat)"
    by (induction k) simp_all
  then show ?thesis by (simp add: digits_value_def)
qed

definition delim :: "string \<Rightarrow> bool" where
  "delim r \<longleftrightarrow> (r = [] \<or> \<not> (is_digit (hd r) \<or> hd r \<in> {CHR ''.'', CHR ''e'', CHR ''E''}))"

lemma delim_exponent: "delim r \<Longrightarrow> parse_exponent r = Some (0, r)"
  by (cases r) (auto simp: delim_def parse_exponent_def)

lemma takeWhile_delim: "delim r \<Longrightarrow> \<forall>c \<in> set d. is_digit c \<Longrightarrow>
    takeWhile is_digit (d @ r) = d \<and> dropWhile is_digit (d @ r) = r"
  by (cases r) (auto simp: delim_def takeWhile_append2 dropWhile_append2)

lemma delim_no_dot: "delim r \<Longrightarrow> \<not> starts_with ''.'' r"
  by (cases r) (auto simp: delim_def)

lemma not_digit_sign [simp]: "\<not> is_digit (CHR ''-'')" "\<not> is_digit (CHR ''.'')"
  by (simp_all add: is_digit_def less_eq_char_def)

lemma starts_with_single [simp]: "starts_with [c] s \<longleftrightarrow> s \<noteq> [] \<and> hd s = c"
  by (cases s) auto

definition num_ok :: "int \<Rightarrow> nat \<Rightarrow> bool" where
  "num_ok m e \<longleftrightarrow> e = 0 \<or> m mod 10 \<noteq> 0"

lemma norm_num_ok: "num_ok m e \<Longrightarrow> norm_num m e = JNum m e"
  by (cases e) (auto simp: num_ok_def)

lemma digits_no_minus: "\<forall>c \<in> set d. is_digit c \<Longrightarrow> d \<noteq> [] \<Longrightarrow> hd (d @ r) \<noteq> CHR ''-''"
  by (cases d) auto

text \<open>A number token: sign, integer part, fraction.\<close>

lemma parse_number_token:
  assumes d: "\<forall>c \<in> set ip. is_digit c" "ip \<noteq> []" "hd ip = CHR ''0'' \<longrightarrow> length ip = 1"
    and f: "\<forall>c \<in> set fp. is_digit c" and r: "delim r"
  shows "parse_number ((if neg then ''-'' else []) @ ip @ (if fp = [] then [] else ''.'' @ fp) @ r) =
    Some (scale_num ((if neg then - 1 else 1) * int (digits_value (ip @ fp))) (- int (length fp)), r)"
proof -
  let ?t = "(if fp = [] then [] else ''.'' @ fp) @ r"
  have t: "takeWhile is_digit (ip @ ?t) = ip" "dropWhile is_digit (ip @ ?t) = ?t"
    using takeWhile_delim [OF r d(1)] d(1)
    by (auto simp: takeWhile_append2 dropWhile_append2)
  have fr: "takeWhile is_digit (fp @ r) = fp" "dropWhile is_digit (fp @ r) = r"
    using takeWhile_delim [OF r f] by auto
  have nodot: "r = [] \<or> hd r \<noteq> CHR ''.''" using r by (auto simp: delim_def)
  have nom: "hd (ip @ ?t) \<noteq> CHR ''-''" by (rule digits_no_minus [OF d(1,2)])
  have h: "\<not> (hd ip = CHR ''0'' \<and> length ip > 1)" using d(3) by auto
  show ?thesis
    using t fr nodot nom d(2) h delim_exponent [OF r]
    by (cases neg; cases "fp = []") (auto simp: parse_number_def Let_def)
qed

text \<open>A printed decimal is an integer part, a point and \<open>e\<close> digits.\<close>

lemma num_str_parts:
  assumes ok: "num_ok m e" and e: "e \<noteq> 0"
  obtains ip fp where "num_str m e = (if m < 0 then ''-'' else []) @ ip @ ''.'' @ fp"
    "\<forall>c \<in> set ip. is_digit c" "ip \<noteq> []" "hd ip = CHR ''0'' \<longrightarrow> length ip = 1"
    "\<forall>c \<in> set fp. is_digit c" "length fp = e" "digits_value (ip @ fp) = nat \<bar>m\<bar>"
proof -
  let ?d = "nat_str (nat \<bar>m\<bar>)"
  define p where "p = replicate (Suc e - length ?d) (CHR ''0'') @ ?d"
  let ?ip = "take (length p - e) p" and ?fp = "drop (length p - e) p"
  have len: "Suc e \<le> length p" by (simp add: p_def)
  have dig: "\<forall>c \<in> set p. is_digit c"
    using nat_str_digits [of "nat \<bar>m\<bar>"] by (auto simp: p_def is_digit_def less_eq_char_def)
  have "hd ?ip = CHR ''0'' \<longrightarrow> length ?ip = 1"
  proof
    assume h: "hd ?ip = CHR ''0''"
    have "hd ?ip = hd p" using len by (cases p; cases "length p - e") auto
    with h have hp: "hd p = CHR ''0''" by simp
    show "length ?ip = 1"
    proof (cases "Suc e \<le> length ?d")
      case True
      then have "p = ?d" by (simp add: p_def)
      with hp have "nat \<bar>m\<bar> = 0" using nat_str_zero by metis
      with ok e show ?thesis by (simp add: num_ok_def)
    next
      case False
      then have "length p = Suc e" by (simp add: p_def)
      then show ?thesis by simp
    qed
  qed
  moreover have "\<forall>c \<in> set ?ip. is_digit c" "\<forall>c \<in> set ?fp. is_digit c"
    using dig by (meson in_set_takeD in_set_dropD)+
  moreover have "length ?fp = e" "?ip \<noteq> []" using len by auto
  moreover have "digits_value (?ip @ ?fp) = nat \<bar>m\<bar>"
    by (simp only: append_take_drop_id) (simp add: p_def)
  moreover have "num_str m e = (if m < 0 then ''-'' else []) @ ?ip @ ''.'' @ ?fp"
    using e by (simp add: num_str_def Let_def p_def)
  ultimately show ?thesis using that by blast
qed

lemma parse_num_str:
  assumes ok: "num_ok m e" and r: "delim r"
  shows "parse_number (num_str m e @ r) = Some (JNum m e, r)"
proof (cases "e = 0")
  case True
  let ?d = "nat_str (nat \<bar>m\<bar>)"
  have lead: "hd ?d = CHR ''0'' \<longrightarrow> length ?d = 1"
    using nat_str_zero [of "nat \<bar>m\<bar>"] by (auto simp: nat_str.simps [of 0])
  have eq: "int_str m = (if m < 0 then ''-'' else []) @ ?d"
    by (simp add: int_str_def)
  show ?thesis
    using parse_number_token [OF nat_str_digits nat_str_nonempty lead _ r, of "[]" "m < 0"] True
    by (auto simp: num_str_def eq scale_num_def)
next
  case False
  from num_str_parts [OF ok False] obtain ip fp where
    eq: "num_str m e = (if m < 0 then ''-'' else []) @ ip @ ''.'' @ fp" and
    ip: "\<forall>c \<in> set ip. is_digit c" "ip \<noteq> []" "hd ip = CHR ''0'' \<longrightarrow> length ip = 1" and
    fp: "\<forall>c \<in> set fp. is_digit c" "length fp = e" and
    val: "digits_value (ip @ fp) = nat \<bar>m\<bar>" .
  have sc: "scale_num m (- int e) = JNum m e"
    using False norm_num_ok [OF ok] by (simp add: scale_num_def)
  have sgn: "(if m < 0 then - 1 else 1) * int (nat \<bar>m\<bar>) = m" by simp
  have ne: "fp \<noteq> []" using fp(2) False by auto
  show ?thesis
    using parse_number_token [OF ip fp(1) r, of "m < 0"] ne
    unfolding val sgn fp(2) sc eq by simp
qed

section \<open>Strings\<close>

fun well_formed_str :: "string \<Rightarrow> bool" where
  "well_formed_str [] = True"
| "well_formed_str (c # cs) = (\<not> surrogate_at (c # cs) \<and> well_formed_str cs)"

lemma hex_digit_value: "n < 16 \<Longrightarrow> hex_value (hex_digit n) = Some n"
proof -
  have "\<forall>n \<in> {..<16}. hex_value (hex_digit n) = Some n" by code_simp
  then show "n < 16 \<Longrightarrow> ?thesis" by simp
qed

lemma hex4_u_escape: "n < 32 \<Longrightarrow> hex4 (hex_digit (n div 4096 mod 16) # hex_digit (n div 256 mod 16) #
     hex_digit (n div 16 mod 16) # hex_digit (n mod 16) # t) = Some n"
  by (simp add: hex4_def hex_digit_value)

lemma parse_str_u: "parse_str (CHR 0x5C # CHR ''u'' # es) =
    (case unicode_escape es of None \<Rightarrow> None
     | Some (t, n) \<Rightarrow> map_option (apfst ((@) t)) (parse_str (drop n es)))"
  by simp

lemma drop_four: "drop 4 (a # b # c # d # t) = t"
  by (simp add: numeral_eq_Suc)

lemma parse_u_escape:
  assumes n: "n < 32"
  shows "parse_str (u_escape n @ t) = map_option (apfst (Cons (char_of n))) (parse_str t)"
proof -
  define s where "s = hex_digit (n div 4096 mod 16) # hex_digit (n div 256 mod 16) #
     hex_digit (n div 16 mod 16) # hex_digit (n mod 16) # t"
  have h: "hex4 s = Some n" unfolding s_def by (rule hex4_u_escape [OF n])
  have "unicode_escape s = Some ([char_of n], 4)"
    using n by (simp add: unicode_escape_def code_point_def h)
  moreover have "drop 4 s = t" unfolding s_def by (rule drop_four)
  moreover have "u_escape n @ t = CHR 0x5C # CHR ''u'' # s"
    by (simp add: u_escape_def s_def)
  moreover have "(@) [char_of n] = Cons (char_of n)" by auto
  ultimately show ?thesis by (simp only: parse_str_u option.case prod.case)
qed

lemma parse_esc_char:
  "parse_str (esc_char c @ t) = map_option (apfst (Cons c)) (parse_str t)"
proof (cases "c < CHR 0x20")
  case True
  then have "byte_of c < (32::nat)" by (simp add: less_char_def)
  from parse_u_escape [OF this, of t] show ?thesis
    by (simp add: esc_char_def simple_escape_def LF_def CR_def)
next
  case False
  then show ?thesis
    by (simp add: esc_char_def simple_escape_def LF_def CR_def)
qed

lemma parse_str_escape:
  "well_formed_str s \<Longrightarrow> parse_str (json_escape s @ CHR 0x22 # r) = Some (s, r)"
  by (induction s) (auto simp: parse_esc_char)

section \<open>Values\<close>

fun json_ok :: "json \<Rightarrow> bool" where
  "json_ok JNull = True"
| "json_ok (JBool b) = True"
| "json_ok (JNum m e) = num_ok m e"
| "json_ok (JStr s) = well_formed_str s"
| "json_ok (JArr xs) = list_all json_ok xs"
| "json_ok (JObj kvs) =
     (distinct (map fst kvs) \<and> list_all (\<lambda>(k, v). well_formed_str k \<and> json_ok v) kvs)"

lemma digits_hd: "\<forall>c \<in> set s. is_digit c \<Longrightarrow> s \<noteq> [] \<Longrightarrow> is_digit (hd (s @ t))"
  by (cases s) auto

lemma num_str_hd:
  "num_ok m e \<Longrightarrow> num_str m e \<noteq> [] \<and> (is_digit (hd (num_str m e)) \<or> hd (num_str m e) = CHR ''-'')"
proof (cases "e = 0")
  case True
  then show ?thesis
    using digits_hd [OF nat_str_digits nat_str_nonempty, of _ "[]"]
    by (simp add: num_str_def int_str_def)
next
  case False
  assume "num_ok m e"
  from num_str_parts [OF this False] obtain ip fp where
    "num_str m e = (if m < 0 then ''-'' else []) @ ip @ ''.'' @ fp"
    "\<forall>c \<in> set ip. is_digit c" "ip \<noteq> []" by metis
  then show ?thesis using digits_hd [of ip "''.'' @ fp"] by auto
qed

definition value_start :: "char \<Rightarrow> bool" where
  "value_start c \<longleftrightarrow> is_digit c \<or> c = CHR ''-'' \<or> c = CHR ''n'' \<or> c = CHR ''t'' \<or> c = CHR ''f'' \<or>
     c = CHR 0x22 \<or> c = CHR ''['' \<or> c = CHR ''{''"

lemma digit_distinct: "is_digit c \<Longrightarrow> c \<notin> set (''-ntf[{]},.eE: '' @ [CHR 0x22, LF, CR, CHR 0x09])"
proof -
  have "list_all (\<lambda>c. \<not> is_digit c) (''-ntf[{]},.eE: '' @ [CHR 0x22, LF, CR, CHR 0x09])"
    by code_simp
  then show "is_digit c \<Longrightarrow> ?thesis" unfolding list_all_iff by blast
qed

lemma value_start_ws: "value_start c \<Longrightarrow> \<not> is_json_ws c \<and> c \<noteq> CHR '']'' \<and> c \<noteq> CHR ''}''"
  unfolding value_start_def
proof (elim disjE)
  show "is_digit c \<Longrightarrow> ?thesis"
    using digit_distinct [of c] by (simp add: is_json_ws_def)
qed (simp_all add: is_json_ws_def LF_def CR_def)

lemma stringify_hd: "json_ok j \<Longrightarrow> json_stringify j \<noteq> [] \<and> value_start (hd (json_stringify j))"
  using num_str_hd by (cases j) (auto simp: value_start_def quote_def)

lemma skip_ws_value: "json_ok j \<Longrightarrow> skip_ws (json_stringify j @ r) = json_stringify j @ r"
  using stringify_hd [of j] value_start_ws by (cases "json_stringify j") auto

lemma quote_length [simp]: "length (quote s) = length (json_escape s) + 2"
  by (simp add: quote_def)

text \<open>The tokens that follow a value inside an array or an object.\<close>

lemma delim_after [simp]: "delim (CHR '','' # t)" "delim (CHR '']'' # t)" "delim (CHR ''}'' # t)"
  by (simp_all add: delim_def is_digit_def less_eq_char_def)

lemma token_not_ws [simp]:
  "\<not> is_json_ws (CHR '','')" "\<not> is_json_ws (CHR '']'')" "\<not> is_json_ws (CHR ''}'')"
  "\<not> is_json_ws (CHR '':'')" "\<not> is_json_ws (CHR 0x22)"
  by (simp_all add: is_json_ws_def LF_def CR_def)

abbreviation (input) reads :: "json \<Rightarrow> bool" where
  "reads v \<equiv> (\<forall>n r. delim r \<longrightarrow> length (json_stringify v) \<le> n \<longrightarrow>
     parse_value n (json_stringify v @ r) = Some (v, r))"

lemma parse_elems_join:
  assumes "\<forall>v \<in> set xs. json_ok v \<and> reads v" and "xs \<noteq> []"
    and "length (join '','' (map json_stringify xs)) < n"
  shows "parse_elems n (join '','' (map json_stringify xs) @ CHR '']'' # r) = Some (xs, r)"
  using assms
proof (induction xs arbitrary: n)
  case Nil
  then show ?case by simp
next
  case (Cons v xs)
  then obtain m where n: "n = Suc m" by (cases n) auto
  show ?case
  proof (cases xs)
    case Nil
    with Cons.prems show ?thesis by (simp add: n)
  next
    case (Cons w ws)
    let ?rest = "join '','' (map json_stringify xs)"
    have w: "skip_ws (?rest @ CHR '']'' # r) = ?rest @ CHR '']'' # r"
      using Cons.prems(1) Cons skip_ws_value [of w] by (cases ws) auto
    have "parse_elems m (?rest @ CHR '']'' # r) = Some (xs, r)"
      using Cons.prems Cons by (intro Cons.IH) (auto simp: n join_Cons)
    moreover have "parse_value m (json_stringify v @ CHR '','' # ?rest @ CHR '']'' # r) =
        Some (v, CHR '','' # ?rest @ CHR '']'' # r)"
      using Cons.prems Cons by (auto simp: n join_Cons)
    ultimately show ?thesis
      using Cons w by (simp add: n join_Cons)
  qed
qed

abbreviation (input) member_str :: "string \<times> json \<Rightarrow> string" where
  "member_str \<equiv> (\<lambda>(k, v). quote k @ '':'' @ json_stringify v)"

lemma parse_members_join:
  assumes "\<forall>(k, v) \<in> set kvs. well_formed_str k \<and> json_ok v \<and> reads v" and "kvs \<noteq> []"
    and "length (join '','' (map member_str kvs)) < n"
  shows "parse_members n (join '','' (map member_str kvs) @ CHR ''}'' # r) = Some (kvs, r)"
  using assms
proof (induction kvs arbitrary: n)
  case Nil
  then show ?case by simp
next
  case (Cons kv kvs)
  obtain k v where kv: "kv = (k, v)" by (cases kv)
  from Cons.prems obtain m where n: "n = Suc m" by (cases n) auto
  have ok: "well_formed_str k" "json_ok v" "reads v" using Cons.prems(1) kv by auto
  show ?case
  proof (cases kvs)
    case Nil
    with Cons.prems(3) ok show ?thesis
      by (simp add: n kv quote_def parse_str_escape skip_ws_value)
  next
    case (Cons w ws)
    let ?rest = "join '','' (map member_str kvs)"
    have w: "skip_ws (?rest @ CHR ''}'' # r) = ?rest @ CHR ''}'' # r"
      using Cons by (cases ws; cases w) (auto simp: quote_def)
    have len: "length (join '','' (map member_str (kv # kvs))) =
        length (quote k) + length (json_stringify v) + 2 + length ?rest"
      using Cons by (simp add: kv join_Cons)
    have "parse_members m (?rest @ CHR ''}'' # r) = Some (kvs, r)"
    proof (rule Cons.IH)
      show "\<forall>(k, v) \<in> set kvs. well_formed_str k \<and> json_ok v \<and> reads v"
        using Cons.prems(1) by simp
      show "kvs \<noteq> []" using Cons by simp
      show "length ?rest < m" using Cons.prems(3) unfolding len n by simp
    qed
    moreover have "parse_value m (json_stringify v @ CHR '','' # ?rest @ CHR ''}'' # r) =
        Some (v, CHR '','' # ?rest @ CHR ''}'' # r)"
      using Cons.prems(3) ok(3) unfolding len n by simp
    moreover have "join '','' (map member_str (kv # kvs)) @ CHR ''}'' # r =
        CHR 0x22 # json_escape k @ CHR 0x22 # CHR '':'' # json_stringify v @ CHR '','' # ?rest @ CHR ''}'' # r"
      using Cons by (simp add: kv join_Cons quote_def)
    ultimately show ?thesis
      using w ok by (simp add: n kv parse_str_escape skip_ws_value)
  qed
qed

lemma obj_of_distinct: "distinct (map fst kvs) \<Longrightarrow> obj_of kvs = kvs"
proof (induction kvs rule: rev_induct)
  case Nil
  show ?case by (simp add: obj_of_def)
next
  case (snoc kv kvs)
  have "AList.update k v m = m @ [(k, v)]" if "k \<notin> fst ` set m" for k v and m :: "(string \<times> json) list"
    using that by (induction m) auto
  with snoc show ?case by (cases kv) (auto simp: obj_of_def)
qed

lemma parse_value_number:
  "is_digit c \<or> c = CHR ''-'' \<Longrightarrow> parse_value (Suc k) (c # t) = parse_number (c # t)"
proof (elim disjE)
  show ?thesis if "is_digit c" using digit_distinct [OF that] by auto
  show ?thesis if "c = CHR ''-''" by (simp add: that)
qed

lemma parse_value_stringify: "json_ok j \<Longrightarrow> reads j"
proof (induction j rule: json_stringify.induct)
  case (3 m e)
  show ?case
  proof (intro allI impI)
    fix n r assume r: "delim r" and n: "length (json_stringify (JNum m e)) \<le> n"
    have ne: "num_str m e \<noteq> []" and hd: "is_digit (hd (num_str m e)) \<or> hd (num_str m e) = CHR ''-''"
      using num_str_hd 3 by auto
    obtain c cs where c: "num_str m e = c # cs" using ne by (cases "num_str m e") auto
    from n ne obtain k where k: "n = Suc k" by (cases n) auto
    have "parse_value n (c # cs @ r) = parse_number (c # cs @ r)"
      using hd unfolding c k list.sel by (rule parse_value_number)
    with parse_num_str [OF _ r, of m e] 3
    show "parse_value n (json_stringify (JNum m e) @ r) = Some (JNum m e, r)"
      by (simp add: c)
  qed
next
  case (5 xs)
  show ?case
  proof (intro allI impI)
    fix n r assume r: "delim r" and n: "length (json_stringify (JArr xs)) \<le> n"
    then obtain k where k: "n = Suc k" by (cases n) auto
    show "parse_value n (json_stringify (JArr xs) @ r) = Some (JArr xs, r)"
    proof (cases "xs = []")
      case False
      have all: "\<forall>v \<in> set xs. json_ok v \<and> reads v" using 5 by (auto simp: list_all_iff)
      have "parse_elems k (join '','' (map json_stringify xs) @ CHR '']'' # r) = Some (xs, r)"
        using n by (intro parse_elems_join [OF all False]) (simp add: k)
      moreover have "skip_ws (join '','' (map json_stringify xs) @ CHR '']'' # r) =
          join '','' (map json_stringify xs) @ CHR '']'' # r"
        and "hd (join '','' (map json_stringify xs) @ CHR '']'' # r) \<noteq> CHR '']''"
        using all False skip_ws_value [of "hd xs"] stringify_hd [of "hd xs"] value_start_ws
        by (cases xs; cases "tl xs"; auto)+
      ultimately show ?thesis by (simp add: k)
    qed (simp add: k)
  qed
next
  case (6 kvs)
  show ?case
  proof (intro allI impI)
    fix n r assume r: "delim r" and n: "length (json_stringify (JObj kvs)) \<le> n"
    then obtain k where k: "n = Suc k" by (cases n) auto
    show "parse_value n (json_stringify (JObj kvs) @ r) = Some (JObj kvs, r)"
    proof (cases "kvs = []")
      case False
      have all: "\<forall>(k, v) \<in> set kvs. well_formed_str k \<and> json_ok v \<and> reads v"
        using 6 by (auto simp: list_all_iff)
      have "parse_members k (join '','' (map member_str kvs) @ CHR ''}'' # r) = Some (kvs, r)"
        using n by (intro parse_members_join [OF all False]) (simp add: k)
      moreover have "join '','' (map member_str kvs) @ CHR ''}'' # r = CHR 0x22 # t \<Longrightarrow> True" for t by simp
      moreover have "\<exists>t. join '','' (map member_str kvs) = CHR 0x22 # t"
        using False by (cases kvs; cases "tl kvs") (auto simp: quote_def)
      ultimately show ?thesis using 6 by (auto simp: k obj_of_distinct)
    qed (simp add: k)
  qed
qed (auto simp: quote_def parse_str_escape dest!: Suc_le_D)

theorem json_round_trip: "json_ok j \<Longrightarrow> json_parse (json_stringify j) = Some j"
proof -
  assume ok: "json_ok j"
  have "parse_value (2 * length (json_stringify j) + 2) (json_stringify j @ []) = Some (j, [])"
  proof -
    have "delim []" by (simp add: delim_def)
    moreover have "length (json_stringify j) \<le> 2 * length (json_stringify j) + 2" by simp
    ultimately show ?thesis using parse_value_stringify [OF ok] by blast
  qed
  moreover have "skip_ws (json_stringify j) = json_stringify j"
    using skip_ws_value [OF ok, of "[]"] by simp
  ultimately show ?thesis by (simp add: json_parse_def)
qed

section \<open>Printed text is one line\<close>

definition printable :: "char \<Rightarrow> bool" where "printable c \<longleftrightarrow> \<not> c < CHR 0x20"

lemma digit_printable: "is_digit c \<Longrightarrow> printable c"
  by (simp add: is_digit_def printable_def less_eq_char_def less_char_def)

lemma hex_digit_printable: "printable (hex_digit (n mod 16))"
proof -
  have "list_all (\<lambda>n. printable (hex_digit n)) [0..<16]" by code_simp
  then show ?thesis by (simp only: list_all_iff atLeast_upt [symmetric]) simp
qed

lemma u_escape_printable: "\<forall>c \<in> set (u_escape n). printable c"
proof -
  have "printable (CHR 0x5C)" "printable (CHR ''u'')" by code_simp+
  then show ?thesis by (simp add: u_escape_def hex_digit_printable)
qed

lemma esc_char_printable: "\<forall>d \<in> set (esc_char c). printable d"
proof -
  have "list_all printable [CHR 0x5C, CHR 0x22, CHR ''b'', CHR ''f'', CHR ''n'', CHR ''r'', CHR ''t'']"
    by code_simp
  then show ?thesis using u_escape_printable by (auto simp: esc_char_def printable_def)
qed

lemma json_escape_printable: "\<forall>c \<in> set (json_escape s). printable c"
  by (induction s rule: json_escape.induct) (auto simp: u_escape_printable esc_char_printable)

lemma quote_printable: "\<forall>c \<in> set (quote s). printable c"
  using json_escape_printable [of s] by (auto simp: quote_def printable_def less_char_def)

lemma num_str_printable: "\<forall>c \<in> set (num_str m e). printable c"
proof -
  have p: "list_all printable ''-.0''" by code_simp
  have d: "printable c" if "c \<in> set (nat_str k)" for c k
    using nat_str_digits [of k] digit_printable that by blast
  show ?thesis
    using p d by (auto simp: num_str_def int_str_def Let_def dest!: in_set_takeD in_set_dropD)
qed

lemma set_join: "set (join sep xs) \<subseteq> set sep \<union> \<Union> (set ` set xs)"
  by (induction sep xs rule: join.induct) auto

lemma stringify_printable: "\<forall>c \<in> set (json_stringify j). printable c"
proof (induction j rule: json_stringify.induct)
  case (5 xs)
  have "list_all printable ''[],''" by code_simp
  with 5 show ?case using set_join [of "'',''" "map json_stringify xs"] by auto
next
  case (6 kvs)
  have l: "list_all printable ''{},:''" by code_simp
  have "\<forall>c \<in> set (member_str kv). printable c" if "kv \<in> set kvs" for kv
    using 6 that l quote_printable by (cases kv) fastforce
  with l show ?case using set_join [of "'',''" "map member_str kvs"] by fastforce
next
  case (2 b)
  have "list_all printable ''truefalse''" by code_simp
  then show ?case by auto
next
  case 1
  have "list_all printable ''null''" by code_simp
  then show ?case by auto
qed (use num_str_printable quote_printable in auto)

lemma stringify_one_line: "LF \<notin> set (json_stringify j) \<and> CR \<notin> set (json_stringify j)"
proof -
  have "\<not> printable LF" "\<not> printable CR" by code_simp+
  with stringify_printable show ?thesis by blast
qed

section \<open>The interface\<close>

locale json_codec =
  fixes parse :: "string \<Rightarrow> json option"
    and print :: "json \<Rightarrow> string"
    and ok :: "json \<Rightarrow> bool"
  assumes round_trip: "ok j \<Longrightarrow> parse (print j) = Some j"
    and one_line: "LF \<notin> set (print j) \<and> CR \<notin> set (print j)"

interpretation js: json_codec json_parse json_stringify json_ok
  by unfold_locales (simp_all add: json_round_trip stringify_one_line)

end
