(* ===== verification/Sse_Frames.thy ===== *)
theory Sse_Frames
  imports Json_Laws
begin

text \<open>
  Framing shared by the stages that rewrite a Responses event stream
  (\<open>item-lifecycle-normalizer.mjs\<close>, \<open>message-phase.mjs\<close>,
  \<open>reasoning-tag-stripper.mjs\<close>): where a frame ends, the lines of a frame, and the locale
  \<open>frame_stage\<close>, the contract of a stage that buffers bytes, cuts frames and hands each to
  a handler. Its consequence is that the way the network cuts the byte stream into chunks
  cannot be seen in the output.
\<close>

section \<open>Frame boundaries\<close>

definition CRLF_SEP :: bytes where "CRLF_SEP = [CR, LF, CR, LF]"
definition LF_SEP :: bytes where "LF_SEP = [LF, LF]"

definition find_frame_end :: "bytes \<Rightarrow> (nat \<times> bytes) option" where
  "find_frame_end buf =
     (let crlf = index_of CRLF_SEP buf; lf = index_of LF_SEP buf
      in case crlf of
           Some c \<Rightarrow> (if lf = None \<or> c \<le> the lf then Some (c, CRLF_SEP) else Some (the lf, LF_SEP))
         | None \<Rightarrow> (case lf of Some l \<Rightarrow> Some (l, LF_SEP) | None \<Rightarrow> None))"

lemma find_frame_end_sound:
  "find_frame_end b = Some (i, sep) \<Longrightarrow>
     sep \<noteq> [] \<and> i + length sep \<le> length b \<and> starts_with sep (drop i b)"
  by (auto simp: find_frame_end_def Let_def CRLF_SEP_def LF_SEP_def split: option.splits if_splits
      dest: index_of_Some)

text \<open>A CRLF boundary that straddles the end of the buffer cannot precede an LF boundary
  that is inside it: the two would disagree on the bytes they share.\<close>

lemma nth_starts_with: "starts_with p s \<Longrightarrow> k < length p \<Longrightarrow> s ! k = p ! k \<and> k < length s"
  by (auto simp: starts_with_iff_append nth_append)

lemma crlf_before_lf_inside:
  assumes lf: "starts_with LF_SEP (drop l b)" and c: "starts_with CRLF_SEP (drop c (b @ x))"
    and le: "c \<le> l"
  shows "c + length CRLF_SEP \<le> length b"
proof (rule ccontr)
  assume "\<not> ?thesis"
  then have big: "length b < c + 4" by (simp add: CRLF_SEP_def)
  have l2: "l + 2 \<le> length b" using starts_with_length [OF lf] by (auto simp: LF_SEP_def)
  have at: "b ! l = LF \<and> b ! Suc l = LF"
    using nth_starts_with [OF lf, of 0] nth_starts_with [OF lf, of 1] l2 by (simp add: LF_SEP_def)
  have byte: "b ! (c + k) = CRLF_SEP ! k" if "k < 4" "c + k < length b" for k
  proof -
    have "drop c (b @ x) ! k = (b @ x) ! (c + k)" using that by (intro nth_drop) simp
    then show ?thesis using nth_starts_with [OF c, of k] that by (simp add: CRLF_SEP_def nth_append)
  qed
  have neq: "CR \<noteq> LF" by (simp add: CR_def LF_def)
  consider "l = c" | "l = Suc c" | "l = Suc (Suc c)" using big l2 le by linarith
  then show False
  proof cases
    case 1
    with byte [of 0] at neq l2 show False by (simp add: CRLF_SEP_def)
  next
    case 2
    with byte [of 2] at neq l2 show False by (simp add: CRLF_SEP_def numeral_2_eq_2)
  next
    case 3
    with byte [of 2] at neq l2 show False by (simp add: CRLF_SEP_def numeral_2_eq_2)
  qed
qed

text \<open>A frame boundary that is found stays the boundary when more bytes arrive.\<close>

lemma find_frame_end_stable:
  assumes "find_frame_end b = Some r"
  shows "find_frame_end (b @ x) = Some r"
proof (cases "index_of CRLF_SEP b")
  case (Some c)
  then have c: "index_of CRLF_SEP (b @ x) = Some c" by (rule index_of_mono)
  show ?thesis
  proof (cases "index_of LF_SEP b")
    case (Some l)
    with c \<open>index_of CRLF_SEP b = Some c\<close> assms index_of_mono [OF Some, of x] show ?thesis
      by (simp add: find_frame_end_def)
  next
    case None
    with assms \<open>index_of CRLF_SEP b = Some c\<close> have r: "r = (c, CRLF_SEP)"
      by (simp add: find_frame_end_def)
    have "c \<le> l" if l: "index_of LF_SEP (b @ x) = Some l" for l
    proof (rule ccontr)
      assume "\<not> c \<le> l"
      with index_of_Some [OF \<open>index_of CRLF_SEP b = Some c\<close>]
      have "length LF_SEP \<le> length (drop l b)" "l \<le> length b"
        by (auto simp: LF_SEP_def CRLF_SEP_def)
      with index_of_Some [OF l] have "starts_with LF_SEP (drop l b)"
        by (auto intro: starts_with_back)
      with index_of_None [OF None] show False by blast
    qed
    with c r show ?thesis
      by (cases "index_of LF_SEP (b @ x)") (simp_all add: find_frame_end_def)
  qed
next
  case None
  with assms obtain l where l: "index_of LF_SEP b = Some l" and r: "r = (l, LF_SEP)"
    by (auto simp: find_frame_end_def split: option.splits)
  note l' = index_of_mono [OF l, of x]
  have "\<not> c \<le> l" if c: "index_of CRLF_SEP (b @ x) = Some c" for c
  proof
    assume "c \<le> l"
    have "c + length CRLF_SEP \<le> length b"
      using crlf_before_lf_inside \<open>c \<le> l\<close> index_of_Some [OF l] index_of_Some [OF c] by blast
    with index_of_Some [OF c] have "starts_with CRLF_SEP (drop c b)"
      by (auto intro: starts_with_back)
    with index_of_None [OF None] show False by blast
  qed
  with l' r show ?thesis
    by (cases "index_of CRLF_SEP (b @ x)") (simp_all add: find_frame_end_def)
qed

section \<open>Lines of a frame\<close>

definition strip_cr :: "string \<Rightarrow> string" where
  "strip_cr s = (if s \<noteq> [] \<and> last s = CR then butlast s else s)"

text \<open>\<open>split(/\r?\n/)\<close>: a carriage return goes with the line feed after it.\<close>

definition split_lines :: "string \<Rightarrow> string list" where
  "split_lines s =
     (let ps = split_at_char LF s in map strip_cr (butlast ps) @ [last ps])"

definition DATA_FIELD :: string where "DATA_FIELD = ''data:''"

text \<open>The value of a \<open>data:\<close> line: what follows the colon, less one space.\<close>

definition data_value :: "string \<Rightarrow> string" where
  "data_value line =
     (let value = drop 5 line in if starts_with '' '' value then tl value else value)"

definition data_lines :: "string \<Rightarrow> string list" where
  "data_lines text = map data_value (filter (starts_with DATA_FIELD) (split_lines text))"

definition DONE_MARK :: string where "DONE_MARK = ''[DONE]''"

lemma split_at_char_no: "c \<notin> set s \<Longrightarrow> split_at_char c s = [s]"
  by (induction s) auto

lemma split_lines_one: "LF \<notin> set s \<Longrightarrow> split_lines s = [s]"
  by (simp add: split_lines_def split_at_char_no)

section \<open>Stages\<close>

text \<open>
  A stage holds a buffer of undecided bytes and may give up rewriting (\<open>pass\<close>). \<open>drain\<close>
  cuts frames off the buffer while it can, \<open>handle\<close> is what it does with one frame (its
  bytes and its separator); \<open>push\<close>ed buffers are the result's list. A handler that keeps
  the stage alive neither reads nor writes the buffer; one that gives up relays it.
\<close>

fun feed_chunks :: "(bytes \<Rightarrow> 's \<Rightarrow> 's \<times> bytes list) \<Rightarrow> bytes list \<Rightarrow> 's \<Rightarrow> 's \<times> bytes" where
  "feed_chunks tr [] s = (s, [])"
| "feed_chunks tr (c # cs) s =
     (let (s1, o1) = tr c s; (s2, o2) = feed_chunks tr cs s1 in (s2, concat o1 @ o2))"

fun run_handler :: "(bytes \<Rightarrow> bytes \<Rightarrow> 's \<Rightarrow> 's \<times> bytes list) \<Rightarrow> (bytes \<times> bytes) list \<Rightarrow> 's \<Rightarrow> 's \<times> bytes list" where
  "run_handler h [] s = (s, [])"
| "run_handler h ((f, sep) # fs) s =
     (let (s1, o1) = h f sep s; (s2, o2) = run_handler h fs s1 in (s2, o1 @ o2))"

locale frame_stage =
  fixes buf :: "'s \<Rightarrow> bytes" and set_buf :: "bytes \<Rightarrow> 's \<Rightarrow> 's" and pass :: "'s \<Rightarrow> bool"
    and find :: "bytes \<Rightarrow> (nat \<times> bytes) option"
    and handle :: "bytes \<Rightarrow> bytes \<Rightarrow> 's \<Rightarrow> 's \<times> bytes list"
    and drain :: "'s \<Rightarrow> 's \<times> bytes list"
    and transform :: "bytes \<Rightarrow> 's \<Rightarrow> 's \<times> bytes list"
  assumes buf_set [simp]: "buf (set_buf b s) = b"
    and set_set [simp]: "set_buf b (set_buf c s) = set_buf b s"
    and set_buf_same [simp]: "set_buf (buf s) s = s"
    and pass_set [simp]: "pass (set_buf b s) = pass s"
    and find_sound: "find b = Some (i, sep) \<Longrightarrow> sep \<noteq> [] \<and> i + length sep \<le> length b"
    and find_stable: "find b = Some r \<Longrightarrow> find (b @ x) = Some r"
    and drain_stop: "buf s = [] \<or> pass s \<or> find (buf s) = None \<Longrightarrow> drain s = (s, [])"
    and drain_step: "buf s \<noteq> [] \<Longrightarrow> \<not> pass s \<Longrightarrow> find (buf s) = Some (i, sep) \<Longrightarrow>
        drain s = (let (s1, o1) = handle (take (i + length sep) (buf s)) sep
                                    (set_buf (drop (i + length sep) (buf s)) s);
                       (s2, o2) = drain s1 in (s2, o1 @ o2))"
    and transform_pass: "pass s \<Longrightarrow> transform piece s = (s, [piece])"
    and transform_live: "\<not> pass s \<Longrightarrow> transform piece s = drain (set_buf (buf s @ piece) s)"
    and handle_live: "\<not> pass s \<Longrightarrow> handle frame sep s = (s1, o1) \<Longrightarrow> \<not> pass s1 \<Longrightarrow>
        buf s1 = buf s \<and> (\<forall>x. handle frame sep (set_buf x s) = (set_buf x s1, o1))"
    and handle_dead: "\<not> pass s \<Longrightarrow> handle frame sep s = (s1, o1) \<Longrightarrow> pass s1 \<Longrightarrow>
        buf s1 = [] \<and>
        (\<forall>x. \<exists>o2. handle frame sep (set_buf (buf s @ x) s) = (s1, o2) \<and> concat o2 = concat o1 @ x)"
begin

text \<open>Draining a buffer that later grows gives the same bytes as draining it when grown.\<close>

lemma drain_append:
  assumes "\<not> pass s" and "drain s = (s1, o1)"
  shows "\<exists>o2. concat o2 = concat o1 @ concat (snd (transform x s1)) \<and>
     drain (set_buf (buf s @ x) s) = (fst (transform x s1), o2)"
  using assms
proof (induction "length (buf s)" arbitrary: s s1 o1 rule: less_induct)
  case less
  show ?case
  proof (cases "find (buf s)")
    case None
    then have "drain s = (s, [])" by (intro drain_stop) simp
    with less.prems show ?thesis
      by (intro exI [of _ "snd (transform x s1)"]) (auto simp: transform_live)
  next
    case (Some r)
    obtain i sep where r: "r = (i, sep)" by (cases r)
    let ?n = "i + length sep"
    note found = Some [unfolded r]
    have n: "?n \<le> length (buf s)" "0 < ?n" using find_sound [OF found] by auto
    then have ne: "buf s \<noteq> []" by auto
    let ?frame = "take ?n (buf s)" and ?rest = "drop ?n (buf s)"
    let ?t = "set_buf ?rest s"
    obtain s' o' where h: "handle ?frame sep ?t = (s', o')" by fastforce
    obtain s2 o2 where d: "drain s' = (s2, o2)" by fastforce
    have dr: "drain s = (s2, o' @ o2)"
      using drain_step [OF ne less.prems(1) found] h d by simp
    with less.prems(2) have eq: "s1 = s2" "o1 = o' @ o2" by simp_all
    let ?g = "set_buf (buf s @ x) s"
    have gf: "find (buf ?g) = Some (i, sep)" using find_stable [OF found] by simp
    have parts: "take ?n (buf s @ x) = ?frame" "drop ?n (buf s @ x) = ?rest @ x" using n by simp_all
    have gs: "drain ?g = (let (u1, p1) = handle ?frame sep (set_buf (?rest @ x) s);
        (u2, p2) = drain u1 in (u2, p1 @ p2))"
    proof -
      have "buf ?g \<noteq> []" "\<not> pass ?g" using ne less.prems(1) by simp_all
      from drain_step [OF this gf] show ?thesis unfolding buf_set set_set parts .
    qed
    show ?thesis
    proof (cases "pass s'")
      case False
      have live: "buf s' = ?rest" "handle ?frame sep (set_buf (?rest @ x) ?t) = (set_buf (?rest @ x) s', o')"
        using handle_live [OF _ h False] less.prems(1) by simp_all
      obtain p where p: "concat p = concat o2 @ concat (snd (transform x s2))"
        "drain (set_buf (buf s' @ x) s') = (fst (transform x s2), p)"
      proof -
        have "length (buf s') < length (buf s)" using n unfolding live(1) length_drop by linarith
        from less.hyps [OF this False d] show ?thesis using that by blast
      qed
      with gs live eq show ?thesis by (intro exI [of _ "o' @ p"]) simp
    next
      case True
      have st: "drain s' = (s', [])" by (rule drain_stop) (use True in blast)
      obtain p where p: "handle ?frame sep (set_buf (?rest @ x) s) = (s', p)" "concat p = concat o' @ x"
        using handle_dead [OF _ h True] less.prems(1) by auto
      from st d have "s2 = s'" "o2 = []" by simp_all
      with gs p st eq True show ?thesis by (simp add: transform_pass)
    qed
  qed
qed

theorem chunking_invisible:
  "fst (transform (a @ b) s) = fst (transform b (fst (transform a s))) \<and>
   concat (snd (transform (a @ b) s)) =
     concat (snd (transform a s)) @ concat (snd (transform b (fst (transform a s))))"
proof (cases "pass s")
  case True
  then show ?thesis by (simp add: transform_pass)
next
  case False
  let ?t = "set_buf (buf s @ a) s"
  obtain s1 o1 where d: "drain ?t = (s1, o1)" by fastforce
  have "\<not> pass ?t" using False by simp
  from drain_append [OF this d, of b] False d show ?thesis
    by (auto simp: transform_live)
qed

text \<open>Any number of chunks: what comes out depends on the bytes only.\<close>

theorem feed_chunks_once: "cs \<noteq> [] \<Longrightarrow> feed_chunks transform cs s = feed_chunks transform [concat cs] s"
proof (induction cs arbitrary: s rule: list_nonempty_induct)
  case (single c)
  show ?case by simp
next
  case (cons c cs)
  show ?case
    using chunking_invisible [of c "concat cs" s] cons.IH [of "fst (transform c s)"]
    by (simp add: case_prod_unfold Let_def)
qed

text \<open>Whole frames that keep the stage alive: the stage is its handler, frame by frame.\<close>

lemma drain_frames:
  assumes "\<forall>(f, sep) \<in> set fs. \<exists>i. find f = Some (i, sep) \<and> i + length sep = length f"
    and "\<forall>(f, sep) \<in> set fs. \<forall>s. \<not> pass s \<longrightarrow> \<not> pass (fst (handle f sep s))"
    and "\<not> pass s" and "buf s = concat (map fst fs)"
  shows "drain s = run_handler handle fs (set_buf [] s)"
  using assms
proof (induction fs arbitrary: s)
  case Nil
  have "set_buf [] s = s" using set_buf_same [of s] Nil(4) by simp
  then show ?case using Nil by (simp add: drain_stop)
next
  case (Cons fr fs)
  obtain f sep where fr: "fr = (f, sep)" by (cases fr)
  obtain i where i: "find f = Some (i, sep)" "i + length sep = length f" using Cons.prems(1) fr by auto
  from find_stable [OF i(1)] have found: "find (buf s) = Some (i, sep)" by (simp add: Cons.prems(4) fr)
  have ne: "buf s \<noteq> []" using find_sound [OF found] by auto
  obtain s1 o1 where h: "handle f sep (set_buf (concat (map fst fs)) s) = (s1, o1)" by fastforce
  have live: "\<not> pass s1" using Cons.prems(2,3) h fr pass_set by (metis (mono_tags, lifting) case_prodD fst_conv list.set_intros(1))
  from handle_live [OF _ h live] Cons.prems(3) have a: "buf s1 = concat (map fst fs)"
    "\<And>x. handle f sep (set_buf x s) = (set_buf x s1, o1)" by simp_all
  have "drain s = (let (s2, o2) = drain s1 in (s2, o1 @ o2))"
    using drain_step [OF ne Cons.prems(3) found] h by (simp add: Cons.prems(4) fr i(2))
  also have "drain s1 = run_handler handle fs (set_buf [] s1)"
    using Cons.IH [of s1] Cons.prems(1,2) live a(1) by simp
  finally show ?case by (simp add: fr a(2))
qed

lemma feed_frames:
  assumes "\<forall>(f, sep) \<in> set fs. \<exists>i. find f = Some (i, sep) \<and> i + length sep = length f"
    and "\<forall>(f, sep) \<in> set fs. \<forall>s. \<not> pass s \<longrightarrow> \<not> pass (fst (handle f sep s))"
    and "\<not> pass s" and "buf s = []" and "concat cs = concat (map fst fs)"
  shows "feed_chunks transform cs s =
    (fst (run_handler handle fs s), concat (snd (run_handler handle fs s)))"
proof (cases "cs = []")
  case True
  have "fs = []"
  proof (cases fs)
    case (Cons fr gs)
    with assms(1) obtain i where "find (fst fr) = Some (i, snd fr)" "i + length (snd fr) = length (fst fr)"
      by (cases fr) auto
    with find_sound have "fst fr \<noteq> []" by fastforce
    with assms(5) True Cons show ?thesis by simp
  qed
  with True show ?thesis by simp
next
  case False
  have "set_buf [] s = s" using set_buf_same [of s] assms(4) by simp
  then have "drain (set_buf (concat cs) s) = run_handler handle fs s"
    using drain_frames [OF assms(1,2), of "set_buf (concat cs) s"] assms(3,5) by simp
  with feed_chunks_once [OF False] assms(3,4) show ?thesis
    by (simp add: transform_live case_prod_unfold Let_def)
qed

end

end
