(* ===== verification/Item_Lifecycle.thy ===== *)
theory Item_Lifecycle
  imports Sse_Frames "HOL-Library.Multiset"
begin

text \<open>
  \<open>item-lifecycle-normalizer.mjs\<close>: restores sequential item lifecycles. While an output
  item is open, events of other items are held and replayed after it closes; frames are never
  rewritten. The state is the class's private fields; each operation returns the new state and
  the buffers it pushed.
\<close>

section \<open>Frames\<close>

datatype parsed = NoEvent | TerminalMark | Event json

text \<open>\<open>parseBlock\<close>: the repeated \<open>data:\<close> fields are joined with a line feed.\<close>

definition parse_block :: "string \<Rightarrow> parsed" where
  "parse_block block =
     (let ls = data_lines block in
      if ls = [] then NoEvent
      else let text = join [LF] ls in
        if text = DONE_MARK then TerminalMark
        else (case json_parse text of Some e \<Rightarrow> Event e | None \<Rightarrow> NoEvent))"

definition ITEM_ADDED :: string where "ITEM_ADDED = ''response.output_item.added''"
definition ITEM_DONE :: string where "ITEM_DONE = ''response.output_item.done''"
definition TERMINAL_TYPES :: "string list" where
  "TERMINAL_TYPES = [''response.completed'', ''response.done'']"

text \<open>\<open>event?.type\<close> where it is a string; the code compares it with strings only.\<close>

definition event_type :: "json \<Rightarrow> string option" where
  "event_type e = as_str (obj_get e ''type'')"

definition event_index :: "json \<Rightarrow> int option" where
  "event_index e = as_int (obj_get e ''output_index'')"

section \<open>State\<close>

record held_block =
  original :: bytes
  btype :: "string option"
  bindex :: int

type_synonym group = "int \<times> held_block list"

record normalizer =
  nz_buffer :: bytes
  nz_pass :: bool
  nz_open :: "int option"
  nz_queue :: "group list"

definition new_normalizer :: normalizer where
  "new_normalizer = \<lparr>nz_buffer = [], nz_pass = False, nz_open = None, nz_queue = []\<rparr>"

section \<open>Holding and releasing\<close>

fun hold :: "int \<Rightarrow> held_block \<Rightarrow> group list \<Rightarrow> group list" where
  "hold idx b [] = [(idx, [b])]"
| "hold idx b ((j, bs) # q) = (if j = idx then (j, bs @ [b]) # q else (j, bs) # hold idx b q)"

definition held_frames :: "group list \<Rightarrow> bytes list" where
  "held_frames q = concat (map (\<lambda>(j, bs). map original bs) q)"

text \<open>\<open>#flushHeld\<close>\<close>

definition flush_held :: "normalizer \<Rightarrow> normalizer \<times> bytes list" where
  "flush_held s = (s\<lparr>nz_queue := [], nz_open := None\<rparr>, held_frames (nz_queue s))"

text \<open>The inner loop of \<open>#drainHeld\<close>: one group, block by block.\<close>

fun emit_group :: "int option \<Rightarrow> held_block list \<Rightarrow> int option" where
  "emit_group opn [] = opn"
| "emit_group opn (b # bs) =
     emit_group (if btype b = Some ITEM_ADDED then Some (bindex b)
                 else if btype b = Some ITEM_DONE then None else opn) bs"

text \<open>\<open>#drainHeld\<close>: promote groups until one is left open.\<close>

fun drain_held :: "int option \<Rightarrow> group list \<Rightarrow> int option \<times> group list \<times> bytes list" where
  "drain_held opn [] = (opn, [], [])"
| "drain_held opn ((j, bs) # q) =
     (if opn \<noteq> None then (opn, (j, bs) # q, [])
      else let opn1 = emit_group None bs in
        if opn1 \<noteq> None then (opn1, q, map original bs)
        else let (opn2, q2, out) = drain_held None q in (opn2, q2, map original bs @ out))"

section \<open>One frame\<close>

text \<open>\<open>#handle\<close>\<close>

definition handle_parsed :: "bytes \<Rightarrow> parsed \<Rightarrow> normalizer \<Rightarrow> normalizer \<times> bytes list" where
  "handle_parsed orig parsed s =
     (case parsed of
        NoEvent \<Rightarrow> (s, [orig])
      | TerminalMark \<Rightarrow> (let (s', out) = flush_held s in (s', out @ [orig]))
      | Event event \<Rightarrow>
          let type = event_type event in
          if type \<in> Some ` set TERMINAL_TYPES
          then (let (s', out) = flush_held s in (s', out @ [orig]))
          else (case event_index event of
              None \<Rightarrow> (s, [orig])
            | Some idx \<Rightarrow>
                (case nz_open s of
                   None \<Rightarrow>
                     (if type = Some ITEM_ADDED then s\<lparr>nz_open := Some idx\<rparr> else s, [orig])
                 | Some opn \<Rightarrow>
                     if idx = opn then
                       (if type = Some ITEM_DONE then
                          (let (opn', q', out) = drain_held None (nz_queue s)
                           in (s\<lparr>nz_open := opn', nz_queue := q'\<rparr>, orig # out))
                        else (s, [orig]))
                     else (s\<lparr>nz_queue := hold idx \<lparr>original = orig, btype = type, bindex = idx\<rparr>
                              (nz_queue s)\<rparr>, []))))"

text \<open>\<open>#disable\<close>: relay the frame and the rest of the buffer, and rewrite nothing more.\<close>

definition disable :: "bytes \<Rightarrow> normalizer \<Rightarrow> normalizer \<times> bytes list" where
  "disable orig s =
     (let (s1, out) = flush_held s
      in (s1\<lparr>nz_buffer := [], nz_pass := True\<rparr>,
          out @ (if orig \<noteq> [] then [orig] else []) @
          (if nz_buffer s1 \<noteq> [] then [nz_buffer s1] else [])))"

text \<open>\<open>#handleFrame\<close>\<close>

definition handle_frame :: "bytes \<Rightarrow> bytes \<Rightarrow> normalizer \<Rightarrow> normalizer \<times> bytes list" where
  "handle_frame orig sep s =
     (let block = take (length orig - length sep) orig in
      case fatal_utf8 block of
        None \<Rightarrow> disable orig s
      | Some text \<Rightarrow> handle_parsed orig (parse_block text) s)"

section \<open>The transform\<close>

lemma handle_frame_buffer:
  "nz_buffer (fst (handle_frame orig sep s)) \<in> {nz_buffer s, []}"
  by (auto simp: handle_frame_def disable_def flush_held_def handle_parsed_def Let_def
      split: option.splits parsed.splits prod.splits if_splits)

text \<open>\<open>#drainBuffer\<close>; at the end of the stream the remainder is one frame without separator.\<close>

function drain_buffer :: "bool \<Rightarrow> normalizer \<Rightarrow> normalizer \<times> bytes list" where
  "drain_buffer flush s =
     (if nz_buffer s = [] \<or> nz_pass s then (s, [])
      else (case find_frame_end (nz_buffer s) of
          None \<Rightarrow>
            if \<not> flush then (s, [])
            else handle_frame (nz_buffer s) [] (s\<lparr>nz_buffer := []\<rparr>)
        | Some (i, sep) \<Rightarrow>
            let n = i + length sep;
                r = handle_frame (take n (nz_buffer s)) sep (s\<lparr>nz_buffer := drop n (nz_buffer s)\<rparr>);
                r2 = drain_buffer flush (fst r)
            in (fst r2, snd r @ snd r2)))"
  by pat_completeness auto
termination
proof (relation "measure (\<lambda>(f, s). length (nz_buffer s))")
  fix flush :: bool and s :: normalizer and x i sep n r
  assume "\<not> (nz_buffer s = [] \<or> nz_pass s)" and "find_frame_end (nz_buffer s) = Some x"
    and "(i, sep) = x" and n: "n = i + length sep"
    and r: "r = handle_frame (take n (nz_buffer s)) sep (s\<lparr>nz_buffer := drop n (nz_buffer s)\<rparr>)"
  then have "sep \<noteq> []" "nz_buffer s \<noteq> []" using find_frame_end_sound by blast+
  moreover have "nz_buffer (fst r) \<in> {drop n (nz_buffer s), []}"
    using handle_frame_buffer [of "take n (nz_buffer s)" sep "s\<lparr>nz_buffer := drop n (nz_buffer s)\<rparr>"]
    by (simp add: r)
  ultimately show "((flush, fst r), flush, s) \<in> measure (\<lambda>(f, s). length (nz_buffer s))"
    by (auto simp: n)
qed simp

declare drain_buffer.simps [simp del]

text \<open>\<open>_transform\<close> and \<open>_flush\<close>\<close>

definition nz_transform :: "bytes \<Rightarrow> normalizer \<Rightarrow> normalizer \<times> bytes list" where
  "nz_transform piece s =
     (if nz_pass s then (s, [piece])
      else drain_buffer False (s\<lparr>nz_buffer := nz_buffer s @ piece\<rparr>))"

definition nz_flush :: "normalizer \<Rightarrow> normalizer \<times> bytes list" where
  "nz_flush s =
     (if nz_pass s then
        (s\<lparr>nz_buffer := []\<rparr>, if nz_buffer s \<noteq> [] then [nz_buffer s] else [])
      else let (s1, o1) = drain_buffer True s; (s2, o2) = flush_held s1 in (s2, o1 @ o2))"

text \<open>A whole stream: the chunks in order, then the end of the stream.\<close>

definition normalize_stream :: "bytes list \<Rightarrow> bytes" where
  "normalize_stream cs =
     (let (s, out) = feed_chunks nz_transform cs new_normalizer in out @ concat (snd (nz_flush s)))"

text \<open>\<open>itemLifecycleNormalizerTransform\<close>: which responses the stage is installed on.\<close>

definition normalizer_for :: "string \<Rightarrow> normalizer option" where
  "normalizer_for content_type =
     (if contains_sub (to_lower content_type) ''text/event-stream'' then Some new_normalizer else None)"


section \<open>Chunk boundaries\<close>

lemma handle_parsed_buffer:
  "handle_parsed f p (s\<lparr>nz_buffer := x\<rparr>) =
     (let (s1, o1) = handle_parsed f p s in (s1\<lparr>nz_buffer := x\<rparr>, o1))"
  "nz_buffer (fst (handle_parsed f p s)) = nz_buffer s"
  "nz_pass (fst (handle_parsed f p s)) = nz_pass s"
proof -
  have "handle_parsed f p (s\<lparr>nz_buffer := x\<rparr>) =
     (let (s1, o1) = handle_parsed f p s in (s1\<lparr>nz_buffer := x\<rparr>, o1)) \<and>
    nz_buffer (fst (handle_parsed f p s)) = nz_buffer s \<and>
    nz_pass (fst (handle_parsed f p s)) = nz_pass s"
  proof (cases p)
    case (Event e)
    then show ?thesis
      by (cases "event_index e"; cases "nz_open s")
        (simp_all add: handle_parsed_def flush_held_def Let_def case_prod_unfold)
  qed (simp_all add: handle_parsed_def flush_held_def Let_def case_prod_unfold)
  then show
    "handle_parsed f p (s\<lparr>nz_buffer := x\<rparr>) =
       (let (s1, o1) = handle_parsed f p s in (s1\<lparr>nz_buffer := x\<rparr>, o1))"
    "nz_buffer (fst (handle_parsed f p s)) = nz_buffer s"
    "nz_pass (fst (handle_parsed f p s)) = nz_pass s" by simp_all
qed

lemma handle_frame_live:
  assumes h: "handle_frame f sep s = (s1, o1)" and p: "\<not> nz_pass s1"
  shows "nz_buffer s1 = nz_buffer s \<and>
    handle_frame f sep (s\<lparr>nz_buffer := x\<rparr>) = (s1\<lparr>nz_buffer := x\<rparr>, o1)"
proof (cases "fatal_utf8 (take (length f - length sep) f)")
  case None
  with assms show ?thesis by (auto simp: handle_frame_def disable_def flush_held_def Let_def)
next
  case (Some t)
  with h have "handle_parsed f (parse_block t) s = (s1, o1)" by (simp add: handle_frame_def Let_def)
  with Some handle_parsed_buffer [where f=f and p="parse_block t" and s=s] show ?thesis
    by (simp add: handle_frame_def Let_def)
qed

lemma handle_frame_dead:
  assumes "\<not> nz_pass s" and h: "handle_frame f sep s = (s1, o1)" and "nz_pass s1"
  shows "nz_buffer s1 = [] \<and> (\<exists>o2. handle_frame f sep (s\<lparr>nz_buffer := nz_buffer s @ x\<rparr>) = (s1, o2) \<and>
    concat o2 = concat o1 @ x)"
proof (cases "fatal_utf8 (take (length f - length sep) f)")
  case None
  with h show ?thesis by (auto simp: handle_frame_def disable_def flush_held_def Let_def)
next
  case (Some t)
  with h handle_parsed_buffer(3) [where f=f and p="parse_block t" and s=s] assms show ?thesis
    by (simp add: handle_frame_def Let_def)
qed

interpretation nz: frame_stage nz_buffer "\<lambda>b s. s\<lparr>nz_buffer := b\<rparr>" nz_pass find_frame_end
  handle_frame "drain_buffer False" nz_transform
proof unfold_locales
  show "drain_buffer False s = (s, [])"
    if "nz_buffer s = [] \<or> nz_pass s \<or> find_frame_end (nz_buffer s) = None" for s
    using that by (subst drain_buffer.simps) auto
  show "drain_buffer False s =
      (let (s1, o1) = handle_frame (take (i + length sep) (nz_buffer s)) sep
             (s\<lparr>nz_buffer := drop (i + length sep) (nz_buffer s)\<rparr>);
           (s2, o2) = drain_buffer False s1 in (s2, o1 @ o2))"
    if "nz_buffer s \<noteq> []" "\<not> nz_pass s" "find_frame_end (nz_buffer s) = Some (i, sep)" for s i sep
    using that by (subst drain_buffer.simps) (simp add: Let_def case_prod_unfold)
  show "nz_buffer s1 = nz_buffer s \<and>
      (\<forall>x. handle_frame f sep (s\<lparr>nz_buffer := x\<rparr>) = (s1\<lparr>nz_buffer := x\<rparr>, o1))"
    if "\<not> nz_pass s" "handle_frame f sep s = (s1, o1)" "\<not> nz_pass s1" for s f sep s1 o1
    using handle_frame_live [OF that(2,3)] by blast
  show "nz_buffer s1 = [] \<and> (\<forall>x. \<exists>o2. handle_frame f sep (s\<lparr>nz_buffer := nz_buffer s @ x\<rparr>) = (s1, o2) \<and>
      concat o2 = concat o1 @ x)"
    if "\<not> nz_pass s" "handle_frame f sep s = (s1, o1)" "nz_pass s1" for s f sep s1 o1
    using handle_frame_dead [OF that] by blast
  show "sep \<noteq> [] \<and> i + length sep \<le> length b" if "find_frame_end b = Some (i, sep)" for b i sep
    using find_frame_end_sound [OF that] by blast
qed (auto simp: nz_transform_def find_frame_end_stable)

section \<open>Nothing is lost, nothing is added\<close>

lemma held_frames_simps [simp]:
  "held_frames [] = []" "held_frames ((j, bs) # q) = map original bs @ held_frames q"
  by (simp_all add: held_frames_def)

lemma mset_hold [simp]: "mset (held_frames (hold i b q)) = add_mset (original b) (mset (held_frames q))"
  by (induction i b q rule: hold.induct) auto

lemma mset_drain_held:
  "drain_held opn q = (opn', q', out) \<Longrightarrow> mset out + mset (held_frames q') = mset (held_frames q)"
  by (induction opn q arbitrary: opn' q' out rule: drain_held.induct)
    (auto simp: Let_def split: if_splits prod.splits)

lemma handle_parsed_conserves:
  "handle_parsed f p s = (s', out) \<Longrightarrow>
     mset out + mset (held_frames (nz_queue s')) = add_mset f (mset (held_frames (nz_queue s)))"
  by (auto simp: handle_parsed_def flush_held_def Let_def dest: mset_drain_held
      split: parsed.splits option.splits if_splits prod.splits)

definition settled :: "normalizer \<Rightarrow> bool" where
  "settled s \<longleftrightarrow> (nz_pass s \<longrightarrow> nz_buffer s = [] \<and> nz_queue s = [])"

lemma account_step:
  assumes "a + h1 = f1 + h" and "b + h2 = f2 + h1"
  shows "(a + b) + h2 = (f1 + f2) + (h :: 'a multiset)"
proof -
  have "(a + b) + h2 = f2 + (a + h1)" unfolding add.assoc assms(2) by (simp add: ac_simps)
  then show ?thesis by (simp add: assms(1) ac_simps)
qed

text \<open>The frames that a frame's bytes become: itself, or itself and the abandoned buffer.\<close>

lemma handle_frame_conserves:
  assumes "handle_frame f sep s = (s', out)" and "\<not> nz_pass s"
  shows "settled s' \<and> (\<exists>fs. f @ nz_buffer s = concat fs @ nz_buffer s' \<and>
    mset out + mset (held_frames (nz_queue s')) = mset fs + mset (held_frames (nz_queue s)))"
proof (cases "fatal_utf8 (take (length f - length sep) f)")
  case None
  with assms have "settled s'" "nz_buffer s' = []" "nz_queue s' = []"
    "out = held_frames (nz_queue s) @ (if f \<noteq> [] then [f] else []) @
      (if nz_buffer s \<noteq> [] then [nz_buffer s] else [])"
    by (auto simp: handle_frame_def disable_def flush_held_def settled_def)
  then show ?thesis
    by (intro conjI exI [of _ "(if f \<noteq> [] then [f] else []) @ (if nz_buffer s \<noteq> [] then [nz_buffer s] else [])"])
      auto
next
  case (Some t)
  with assms have h: "handle_parsed f (parse_block t) s = (s', out)"
    by (simp add: handle_frame_def)
  then have "nz_buffer s' = nz_buffer s" "nz_pass s' = nz_pass s"
    using handle_parsed_buffer(2,3) [where f=f and p="parse_block t" and s=s] by simp_all
  with handle_parsed_conserves [OF h] assms(2) show ?thesis
    by (auto simp: settled_def intro!: exI [of _ "[f]"])
qed

lemma drain_buffer_conserves:
  assumes "drain_buffer flush s = (s', out)" and "settled s"
  shows "settled s' \<and> (\<exists>fs. nz_buffer s = concat fs @ nz_buffer s' \<and>
    mset out + mset (held_frames (nz_queue s')) = mset fs + mset (held_frames (nz_queue s)))
    \<and> (flush \<longrightarrow> nz_buffer s' = [])"
  using assms
proof (induction flush s arbitrary: s' out rule: drain_buffer.induct)
  case (1 flush s)
  show ?case
  proof (cases "nz_buffer s = [] \<or> nz_pass s")
    case True
    with "1.prems" show ?thesis
      by (auto simp: drain_buffer.simps [of flush s] settled_def intro!: exI [of _ "[]"])
  next
    case False
    show ?thesis
    proof (cases "find_frame_end (nz_buffer s)")
      case None
      show ?thesis
      proof (cases flush)
        case True
        with None False "1.prems"(1)
        have "handle_frame (nz_buffer s) [] (s\<lparr>nz_buffer := []\<rparr>) = (s', out)"
          by (simp add: drain_buffer.simps [of True s])
        from handle_frame_conserves [OF this] handle_frame_buffer [of "nz_buffer s" "[]" "s\<lparr>nz_buffer := []\<rparr>"] this False
        show ?thesis by auto
      next
        case f: False
        with None False "1.prems" show ?thesis
          by (auto simp: drain_buffer.simps [of False s] intro!: exI [of _ "[]"])
      qed
    next
      case (Some r)
      obtain i sep where r: "r = (i, sep)" by (cases r)
      let ?n = "i + length sep"
      let ?t = "s\<lparr>nz_buffer := drop ?n (nz_buffer s)\<rparr>"
      obtain s1 o1 where h: "handle_frame (take ?n (nz_buffer s)) sep ?t = (s1, o1)" by fastforce
      obtain s2 o2 where d: "drain_buffer flush s1 = (s2, o2)" by fastforce
      have eq: "s' = s2" "out = o1 @ o2"
        using "1.prems"(1) False Some h d by (simp_all add: drain_buffer.simps [of flush s] r)
      from handle_frame_conserves [OF h] False obtain fs1 where
        a: "settled s1" "nz_buffer s = concat fs1 @ nz_buffer s1"
        "mset o1 + mset (held_frames (nz_queue s1)) = mset fs1 + mset (held_frames (nz_queue s))"
        by auto
      have "settled s2 \<and> (\<exists>fs. nz_buffer s1 = concat fs @ nz_buffer s2 \<and>
          mset o2 + mset (held_frames (nz_queue s2)) = mset fs + mset (held_frames (nz_queue s1))) \<and>
          (flush \<longrightarrow> nz_buffer s2 = [])"
        using "1.IH" [OF False Some r [symmetric] refl refl, of s2 o2] a(1) d unfolding h fst_conv by blast
      then obtain fs2 where
        b: "settled s2" "nz_buffer s1 = concat fs2 @ nz_buffer s2"
        "mset o2 + mset (held_frames (nz_queue s2)) = mset fs2 + mset (held_frames (nz_queue s1))"
        "flush \<longrightarrow> nz_buffer s2 = []" by blast
      have accounts: "mset out + mset (held_frames (nz_queue s')) =
          mset (fs1 @ fs2) + mset (held_frames (nz_queue s))"
        unfolding eq mset_append by (rule account_step [OF a(3) b(3)])
      show ?thesis
        by (intro conjI exI [of _ "fs1 @ fs2"] accounts)
          (use a(2) b(1,2,4) in \<open>simp_all add: eq\<close>)
    qed
  qed
qed


lemma feed_conserves:
  assumes "settled s" and "feed_chunks nz_transform cs s = (s', out)"
  shows "settled s' \<and> (\<exists>fs gs. nz_buffer s @ concat cs = concat fs @ nz_buffer s' \<and> out = concat gs \<and>
    mset gs + mset (held_frames (nz_queue s')) = mset fs + mset (held_frames (nz_queue s)))"
  using assms
proof (induction cs arbitrary: s s' out)
  case Nil
  then show ?case by (auto intro!: exI [of _ "[]"])
next
  case (Cons c cs)
  obtain s1 o1 where t: "nz_transform c s = (s1, o1)" by fastforce
  obtain s2 o2 where f: "feed_chunks nz_transform cs s1 = (s2, o2)" by fastforce
  have eq: "s' = s2" "out = concat o1 @ o2" using Cons.prems t f by simp_all
  have "settled s1 \<and> (\<exists>fs. nz_buffer s @ c = concat fs @ nz_buffer s1 \<and>
    mset o1 + mset (held_frames (nz_queue s1)) = mset fs + mset (held_frames (nz_queue s)))"
  proof (cases "nz_pass s")
    case True
    with t Cons.prems(1) show ?thesis
      by (auto simp: nz_transform_def settled_def intro!: exI [of _ "[c]"])
  next
    case False
    with t have "drain_buffer False (s\<lparr>nz_buffer := nz_buffer s @ c\<rparr>) = (s1, o1)"
      by (simp add: nz_transform_def)
    from drain_buffer_conserves [OF this] False show ?thesis by (simp add: settled_def)
  qed
  then obtain fs1 where a: "settled s1" "nz_buffer s @ c = concat fs1 @ nz_buffer s1"
    "mset o1 + mset (held_frames (nz_queue s1)) = mset fs1 + mset (held_frames (nz_queue s))" by blast
  from Cons.IH [OF a(1) f] obtain fs2 gs2 where b: "settled s2"
    "nz_buffer s1 @ concat cs = concat fs2 @ nz_buffer s2" "o2 = concat gs2"
    "mset gs2 + mset (held_frames (nz_queue s2)) = mset fs2 + mset (held_frames (nz_queue s1))" by blast
  have bytes: "nz_buffer s @ concat (c # cs) = concat (fs1 @ fs2) @ nz_buffer s2"
  proof -
    have "nz_buffer s @ concat (c # cs) = (nz_buffer s @ c) @ concat cs" by simp
    also have "\<dots> = concat fs1 @ nz_buffer s1 @ concat cs" by (simp add: a(2))
    finally show ?thesis by (simp add: b(2))
  qed
  have "mset (o1 @ gs2) + mset (held_frames (nz_queue s2)) =
      mset (fs1 @ fs2) + mset (held_frames (nz_queue s))"
    unfolding mset_append by (rule account_step [OF a(3) b(4)])
  with bytes b(1,3) eq show ?case
    by (intro conjI exI [of _ "fs1 @ fs2"] exI [of _ "o1 @ gs2"]) simp_all
qed

lemma flush_conserves:
  assumes "settled s"
  shows "\<exists>fs. nz_buffer s = concat fs \<and>
    mset (snd (nz_flush s)) = mset fs + mset (held_frames (nz_queue s))"
proof (cases "nz_pass s")
  case True
  with assms show ?thesis by (auto simp: nz_flush_def settled_def intro!: exI [of _ "[]"])
next
  case False
  obtain s1 o1 where d: "drain_buffer True s = (s1, o1)" by fastforce
  from drain_buffer_conserves [OF d assms] obtain fs where
    "nz_buffer s = concat fs" "mset o1 + mset (held_frames (nz_queue s1)) = mset fs + mset (held_frames (nz_queue s))"
    by auto
  with d False show ?thesis
    by (auto simp: nz_flush_def flush_held_def)
qed

section \<open>Runs over whole frames\<close>

text \<open>A frame as it is on the wire: its block decodes and its separator ends it.\<close>

definition whole_frame :: "bytes \<Rightarrow> bool" where
  "whole_frame f = (case find_frame_end f of
     Some (i, sep) \<Rightarrow> i + length sep = length f \<and> utf8_valid (take i f) | None \<Rightarrow> False)"

definition frame_parsed :: "bytes \<Rightarrow> parsed" where
  "frame_parsed f = (case find_frame_end f of
     Some (i, sep) \<Rightarrow> parse_block (take i f) | None \<Rightarrow> NoEvent)"

fun run_frames :: "bytes list \<Rightarrow> normalizer \<Rightarrow> normalizer \<times> bytes list" where
  "run_frames [] s = (s, [])"
| "run_frames (f # fs) s =
     (let (s1, o1) = handle_parsed f (frame_parsed f) s; (s2, o2) = run_frames fs s1 in (s2, o1 @ o2))"

lemma handle_parsed_nz [simp]:
  "nz_buffer (fst (handle_parsed f p s)) = nz_buffer s" "nz_pass (fst (handle_parsed f p s)) = nz_pass s"
  by (rule handle_parsed_buffer)+

lemma run_frames_nz [simp]:
  "nz_buffer (fst (run_frames fs s)) = nz_buffer s \<and> nz_pass (fst (run_frames fs s)) = nz_pass s"
  by (induction fs arbitrary: s) (simp_all add: case_prod_unfold Let_def)

lemma drain_buffer_step:
  "nz_buffer s \<noteq> [] \<Longrightarrow> \<not> nz_pass s \<Longrightarrow> find_frame_end (nz_buffer s) = Some (i, sep) \<Longrightarrow>
     take (i + length sep) (nz_buffer s) = f \<Longrightarrow> drop (i + length sep) (nz_buffer s) = rest \<Longrightarrow>
     drain_buffer flush s =
       (let (s1, o1) = handle_frame f sep (s\<lparr>nz_buffer := rest\<rparr>); (s2, o2) = drain_buffer flush s1
        in (s2, o1 @ o2))"
  by (subst drain_buffer.simps) (simp add: Let_def case_prod_unfold)

lemma drain_buffer_frames:
  assumes "\<forall>f \<in> set fs. whole_frame f" and "\<not> nz_pass s" and "nz_buffer s = concat fs"
  shows "drain_buffer flush s =
    (let (s1, o1) = run_frames fs (s\<lparr>nz_buffer := []\<rparr>) in (s1, o1))"
  using assms
proof (induction fs arbitrary: s)
  case Nil
  then show ?case by (subst drain_buffer.simps) simp
next
  case (Cons f fs)
  from Cons.prems(1) obtain i sep where f: "find_frame_end f = Some (i, sep)"
    "i + length sep = length f" "utf8_valid (take i f)"
    by (auto simp: whole_frame_def split: option.splits)
  from find_frame_end_stable [OF f(1)] have found: "find_frame_end (nz_buffer s) = Some (i, sep)"
    by (simp add: Cons.prems(3))
  have ne: "nz_buffer s \<noteq> []" using find_frame_end_sound [OF found] by auto
  let ?t = "s\<lparr>nz_buffer := concat fs\<rparr>"
  have cut: "length f - length sep = i" using f(2) by simp
  have h: "handle_frame f sep ?t = handle_parsed f (frame_parsed f) ?t"
    by (simp add: handle_frame_def cut fatal_utf8_def f frame_parsed_def)
  let ?s1 = "fst (handle_parsed f (frame_parsed f) ?t)"
  have s1: "?s1\<lparr>nz_buffer := []\<rparr> = fst (handle_parsed f (frame_parsed f) (s\<lparr>nz_buffer := []\<rparr>))"
    "snd (handle_parsed f (frame_parsed f) ?t) = snd (handle_parsed f (frame_parsed f) (s\<lparr>nz_buffer := []\<rparr>))"
    using handle_parsed_buffer(1) [where f=f and p="frame_parsed f" and s="?t" and x="[]"] by (simp_all add: case_prod_unfold Let_def)
  have "drain_buffer flush s = (let r2 = drain_buffer flush ?s1 in
      (fst r2, snd (handle_parsed f (frame_parsed f) ?t) @ snd r2))"
    using drain_buffer_step [OF ne Cons.prems(2) found, of f "concat fs" flush] f(2) h Cons.prems(3)
    by (simp add: Let_def case_prod_unfold)
  also have "drain_buffer flush ?s1 = run_frames fs (?s1\<lparr>nz_buffer := []\<rparr>)"
    using Cons.IH [of ?s1] Cons.prems by simp
  finally show ?case using s1 by (simp add: case_prod_unfold Let_def)
qed

lemma nz_feed_frames:
  assumes "\<forall>f \<in> set fs. whole_frame f" and "concat cs = concat fs"
  shows "feed_chunks nz_transform cs new_normalizer =
    (fst (run_frames fs new_normalizer), concat (snd (run_frames fs new_normalizer)))"
proof -
  have new: "\<not> nz_pass new_normalizer" "new_normalizer\<lparr>nz_buffer := []\<rparr> = new_normalizer"
    "nz_buffer new_normalizer = []"
    by (simp_all add: new_normalizer_def)
  have one: "feed_chunks nz_transform [concat fs] new_normalizer =
    (fst (run_frames fs new_normalizer), concat (snd (run_frames fs new_normalizer)))"
    using drain_buffer_frames [OF assms(1), of "new_normalizer\<lparr>nz_buffer := concat fs\<rparr>" False] new
    by (simp add: nz_transform_def case_prod_unfold Let_def)
  show ?thesis
  proof (cases "cs = []")
    case True
    with assms have "fs = []"
      by (cases fs) (auto simp: whole_frame_def dest: find_frame_end_sound split: option.splits)
    with True show ?thesis by simp
  next
    case False
    from nz.feed_chunks_once [OF this] assms(2) one show ?thesis by simp
  qed
qed

lemma normalize_stream_frames:
  assumes "\<forall>f \<in> set fs. whole_frame f" and "concat cs = concat fs"
  shows "normalize_stream cs = concat (snd (run_frames fs new_normalizer)) @
    concat (held_frames (nz_queue (fst (run_frames fs new_normalizer))))"
proof -
  let ?s = "fst (run_frames fs new_normalizer)"
  have "nz_buffer ?s = []" "\<not> nz_pass ?s" by (simp_all add: new_normalizer_def)
  then have "snd (nz_flush ?s) = held_frames (nz_queue ?s)"
    by (simp add: nz_flush_def drain_buffer.simps [of True ?s] flush_held_def)
  with nz_feed_frames [OF assms] show ?thesis by (simp add: normalize_stream_def)
qed

section \<open>Sequential lifecycles\<close>

text \<open>What the client requires: between an item's \<open>added\<close> and its \<open>done\<close> no event of
  another item. The terminal frames end every item.\<close>

definition is_terminal :: "parsed \<Rightarrow> bool" where
  "is_terminal p = (case p of TerminalMark \<Rightarrow> True | NoEvent \<Rightarrow> False
     | Event e \<Rightarrow> event_type e \<in> Some ` set TERMINAL_TYPES)"

definition item_of :: "parsed \<Rightarrow> int option" where
  "item_of p = (if is_terminal p then None
     else (case p of Event e \<Rightarrow> event_index e | _ \<Rightarrow> None))"

definition next_open :: "int option \<Rightarrow> parsed \<Rightarrow> int option" where
  "next_open opn p =
     (if is_terminal p then None
      else (case (p, item_of p) of
          (Event e, Some i) \<Rightarrow>
            if event_type e = Some ITEM_ADDED then Some i
            else if event_type e = Some ITEM_DONE then None else opn
        | _ \<Rightarrow> opn))"

fun sequential :: "int option \<Rightarrow> parsed list \<Rightarrow> bool" where
  "sequential opn [] = True"
| "sequential opn (p # ps) =
     ((opn \<noteq> None \<longrightarrow> item_of p \<noteq> None \<longrightarrow> item_of p = opn) \<and> sequential (next_open opn p) ps)"

definition final_open :: "int option \<Rightarrow> parsed list \<Rightarrow> int option" where
  "final_open opn ps = foldl next_open opn ps"

lemma final_open_simps [simp]:
  "final_open opn [] = opn" "final_open opn (p # ps) = final_open (next_open opn p) ps"
  by (simp_all add: final_open_def)

lemma sequential_append:
  "sequential opn (ps @ qs) \<longleftrightarrow> sequential opn ps \<and> sequential (final_open opn ps) qs"
  by (induction ps arbitrary: opn) auto

lemma final_open_append: "final_open opn (ps @ qs) = final_open (final_open opn ps) qs"
  by (induction ps arbitrary: opn) auto

text \<open>What a held block remembers of its frame.\<close>

definition block_ok :: "int \<Rightarrow> held_block \<Rightarrow> bool" where
  "block_ok j b \<longleftrightarrow> bindex b = j \<and> item_of (frame_parsed (original b)) = Some j \<and>
     (\<exists>e. frame_parsed (original b) = Event e \<and> btype b = event_type e)"

definition queue_ok :: "group list \<Rightarrow> bool" where
  "queue_ok q \<longleftrightarrow> distinct (map fst q) \<and> (\<forall>(j, bs) \<in> set q. \<forall>b \<in> set bs. block_ok j b)"

definition lifecycle_ok :: "normalizer \<Rightarrow> bool" where
  "lifecycle_ok s \<longleftrightarrow> queue_ok (nz_queue s) \<and>
     (case nz_open s of None \<Rightarrow> nz_queue s = [] | Some i \<Rightarrow> i \<notin> fst ` set (nz_queue s))"

lemma block_ok_next:
  "block_ok j b \<Longrightarrow> next_open opn (frame_parsed (original b)) =
     (if btype b = Some ITEM_ADDED then Some (bindex b)
      else if btype b = Some ITEM_DONE then None else opn)"
  by (auto simp: block_ok_def next_open_def item_of_def split: if_splits)

lemma emit_group_sequential:
  assumes "\<forall>b \<in> set bs. block_ok j b" and "opn \<in> {None, Some j}"
  shows "sequential opn (map (frame_parsed \<circ> original) bs) \<and>
    final_open opn (map (frame_parsed \<circ> original) bs) = emit_group opn bs \<and>
    emit_group opn bs \<in> {None, Some j}"
  using assms
proof (induction bs arbitrary: opn)
  case (Cons b bs)
  then have b: "block_ok j b" and "bindex b = j" "item_of (frame_parsed (original b)) = Some j"
    by (auto simp: block_ok_def)
  with Cons.IH [of "next_open opn (frame_parsed (original b))"] Cons.prems
  show ?case by (auto simp: block_ok_next [OF b])
qed simp

lemma drain_held_ok:
  assumes "drain_held None q = (opn, q', out)" and "queue_ok q"
  shows "sequential None (map frame_parsed out) \<and> final_open None (map frame_parsed out) = opn \<and>
    queue_ok q' \<and> set q' \<subseteq> set q \<and> (case opn of None \<Rightarrow> q' = [] | Some i \<Rightarrow> i \<notin> fst ` set q')"
  using assms
proof (induction q arbitrary: opn q' out)
  case (Cons g q)
  obtain j bs where g: "g = (j, bs)" by (cases g)
  have ok: "\<forall>b \<in> set bs. block_ok j b" "queue_ok q" "j \<notin> fst ` set q"
    using Cons.prems(2) by (auto simp: queue_ok_def g)
  note e = emit_group_sequential [OF ok(1), of None, simplified, unfolded comp_def]
  show ?case
  proof (cases "emit_group None bs")
    case None
    obtain opn2 q2 out2 where r: "drain_held None q = (opn2, q2, out2)" using prod_cases3 by blast
    with Cons.prems(1) None have eq: "opn = opn2" "q' = q2" "out = map original bs @ out2"
      by (simp_all add: g)
    from Cons.IH [OF r ok(2)] e None show ?thesis unfolding eq
      by (cases opn2) (auto simp: sequential_append final_open_append comp_def)
  next
    case (Some i)
    with Cons.prems(1) have eq: "opn = Some i" "q' = q" "out = map original bs" by (simp_all add: g)
    from Some e have "i = j" by simp
    with Some e ok show ?thesis by (auto simp: eq comp_def)
  qed
qed simp


lemma queue_ok_hold:
  "queue_ok q \<Longrightarrow> block_ok i b \<Longrightarrow> queue_ok (hold i b q) \<and>
     fst ` set (hold i b q) = insert i (fst ` set q)"
  by (induction i b q rule: hold.induct) (auto simp: queue_ok_def)

lemma drain_held_frames: "drain_held opn q = (opn', q', out) \<Longrightarrow> out @ held_frames q' = held_frames q"
  by (induction opn q arbitrary: opn' q' out rule: drain_held.induct)
    (auto simp: Let_def split: if_splits prod.splits)

text \<open>The cases of \<open>#handle\<close>, by what the frame is.\<close>

lemma handle_parsed_cases:
  assumes "lifecycle_ok s" and "handle_parsed f (frame_parsed f) s = (s', out)"
  obtains (terminal) "is_terminal (frame_parsed f)" "nz_open s' = None" "nz_queue s' = []"
      "out = held_frames (nz_queue s) @ [f]"
  | (plain) "\<not> is_terminal (frame_parsed f)" "item_of (frame_parsed f) \<in> {None, nz_open s}"
      "nz_open s' = nz_open s" "nz_queue s' = nz_queue s" "out = [f]"
      "next_open (nz_open s) (frame_parsed f) = nz_open s"
  | (opened) i where "\<not> is_terminal (frame_parsed f)" "nz_open s = None"
      "item_of (frame_parsed f) = Some i" "next_open None (frame_parsed f) = nz_open s'"
      "nz_open s' \<in> {None, Some i}" "nz_queue s = []" "nz_queue s' = []" "out = [f]"
  | (closed) i out' where "\<not> is_terminal (frame_parsed f)" "nz_open s = Some i"
      "item_of (frame_parsed f) = Some i" "next_open (Some i) (frame_parsed f) = None"
      "drain_held None (nz_queue s) = (nz_open s', nz_queue s', out')" "out = f # out'"
  | (held) i j b where "\<not> is_terminal (frame_parsed f)" "nz_open s = Some j" "i \<noteq> j"
      "item_of (frame_parsed f) = Some i" "block_ok i b" "original b = f"
      "nz_queue s' = hold i b (nz_queue s)" "nz_open s' = Some j" "out = []"
proof (cases "is_terminal (frame_parsed f)")
  case True
  with assms(2) show thesis
    by (intro terminal) (auto simp: is_terminal_def handle_parsed_def flush_held_def Let_def split: parsed.splits)
next
  case live: False
  show thesis
  proof (cases "item_of (frame_parsed f)")
    case None
    with live assms(2) show thesis
      by (intro plain) (auto simp: item_of_def is_terminal_def next_open_def handle_parsed_def Let_def
          split: parsed.splits option.splits)
  next
    case (Some i)
    then obtain e where e: "frame_parsed f = Event e" "event_index e = Some i"
      "event_type e \<notin> Some ` set TERMINAL_TYPES"
      using live by (auto simp: item_of_def is_terminal_def split: parsed.splits)
    note next_e = next_open_def [of _ "Event e"]
    show thesis
    proof (cases "nz_open s")
      case None
      with assms e live Some show thesis
        by (intro opened [of i]) (auto simp: lifecycle_ok_def handle_parsed_def next_e ITEM_ADDED_def
            ITEM_DONE_def)
    next
      case (Some j)
      note opn = this
      consider "i \<noteq> j" | "i = j" "event_type e = Some ITEM_DONE" | "i = j" "event_type e \<noteq> Some ITEM_DONE"
        by blast
      then show thesis
      proof cases
        case 1
        with assms(2) e live opn \<open>item_of (frame_parsed f) = Some i\<close> show thesis
          by (intro held [of j i "\<lparr>original = f, btype = event_type e, bindex = i\<rparr>"])
            (auto simp: handle_parsed_def block_ok_def)
      next
        case 2
        obtain a q out' where d: "drain_held None (nz_queue s) = (a, q, out')" using prod_cases3 by blast
        with 2 assms(2) e live opn \<open>item_of (frame_parsed f) = Some i\<close> show thesis
          by (intro closed [of i out'])
            (auto simp: handle_parsed_def next_e ITEM_ADDED_def ITEM_DONE_def)
      next
        case 3
        with assms(2) e live opn \<open>item_of (frame_parsed f) = Some i\<close> show thesis
          by (intro plain) (auto simp: handle_parsed_def next_e)
      qed
    qed
  qed
qed


lemma items_hold:
  assumes "queue_ok q" and "block_ok i b"
  shows "filter (\<lambda>f. item_of (frame_parsed f) = Some k) (held_frames (hold i b q)) =
    filter (\<lambda>f. item_of (frame_parsed f) = Some k) (held_frames q @ [original b])"
  using assms
proof (induction i b q rule: hold.induct)
  case (2 i b j bs q)
  have others: "item_of (frame_parsed f) \<noteq> Some j" if "f \<in> set (held_frames q)" for f
    using 2(2) that by (fastforce simp: queue_ok_def held_frames_def block_ok_def)
  have b: "item_of (frame_parsed (original b)) = Some i" using 2(3) by (simp add: block_ok_def)
  show ?case
  proof (cases "j = i")
    case True
    with others b show ?thesis by (cases "k = i") (auto simp: filter_empty_conv)
  next
    case False
    from 2(2) have "queue_ok q" by (simp add: queue_ok_def)
    with 2(1) [OF False this 2(3)] False show ?thesis by simp
  qed
qed (simp add: block_ok_def)

lemma items_open:
  assumes "lifecycle_ok s" and "nz_open s \<in> {None, Some k}"
  shows "filter (\<lambda>f. item_of (frame_parsed f) = Some k) (held_frames (nz_queue s)) = []"
proof (cases "nz_open s")
  case None
  with assms show ?thesis by (simp add: lifecycle_ok_def)
next
  case (Some j)
  with assms have "j = k" "j \<notin> fst ` set (nz_queue s)" "queue_ok (nz_queue s)"
    by (simp_all add: lifecycle_ok_def)
  then show ?thesis
    by (fastforce simp: queue_ok_def held_frames_def block_ok_def filter_empty_conv)
qed

lemma handle_parsed_lifecycle:
  assumes ok: "lifecycle_ok s" and h: "handle_parsed f (frame_parsed f) s = (s', out)"
  shows "lifecycle_ok s' \<and>
    filter (\<lambda>f. item_of (frame_parsed f) = Some k) (out @ held_frames (nz_queue s')) =
      filter (\<lambda>f. item_of (frame_parsed f) = Some k) (held_frames (nz_queue s) @ [f]) \<and>
    (\<not> is_terminal (frame_parsed f) \<longrightarrow> sequential (nz_open s) (map frame_parsed out) \<and>
      final_open (nz_open s) (map frame_parsed out) = nz_open s')"
  using ok h
proof (cases rule: handle_parsed_cases)
  case terminal
  then show ?thesis by (simp add: lifecycle_ok_def queue_ok_def)
next
  case plain
  have "lifecycle_ok s'" using ok plain(3,4) by (cases "nz_open s") (simp_all add: lifecycle_ok_def queue_ok_def)
  with plain items_open [OF ok, of k] show ?thesis
    by (cases "item_of (frame_parsed f)") auto
next
  case (opened i)
  then show ?thesis by (auto simp: lifecycle_ok_def queue_ok_def split: option.splits)
next
  case (closed i out')
  from ok have "queue_ok (nz_queue s)" by (simp add: lifecycle_ok_def)
  from drain_held_ok [OF closed(5) this] have d: "lifecycle_ok s'" "sequential None (map frame_parsed out')"
    "final_open None (map frame_parsed out') = nz_open s'"
    by (auto simp: lifecycle_ok_def)
  have "filter (\<lambda>f. item_of (frame_parsed f) = Some k) (out @ held_frames (nz_queue s')) =
      filter (\<lambda>f. item_of (frame_parsed f) = Some k) (f # held_frames (nz_queue s))"
    using drain_held_frames [OF closed(5)] closed(6) by simp
  also have "\<dots> = filter (\<lambda>f. item_of (frame_parsed f) = Some k) (held_frames (nz_queue s) @ [f])"
    using items_open [OF ok, of i] closed(2,3) by (cases "k = i") auto
  finally show ?thesis using d closed by simp
next
  case (held i j b)
  have q: "queue_ok (nz_queue s)" using ok by (simp add: lifecycle_ok_def)
  from queue_ok_hold [OF q held(5)] items_hold [OF q held(5), of k] held ok show ?thesis
    by (auto simp: lifecycle_ok_def)
qed

lemma run_frames_lifecycle:
  assumes "lifecycle_ok s"
  shows "lifecycle_ok (fst (run_frames fs s)) \<and>
    filter (\<lambda>f. item_of (frame_parsed f) = Some k)
        (snd (run_frames fs s) @ held_frames (nz_queue (fst (run_frames fs s)))) =
      filter (\<lambda>f. item_of (frame_parsed f) = Some k) (held_frames (nz_queue s) @ fs) \<and>
    ((\<forall>f \<in> set fs. \<not> is_terminal (frame_parsed f)) \<longrightarrow>
      sequential (nz_open s) (map frame_parsed (snd (run_frames fs s))))"
  using assms
proof (induction fs arbitrary: s)
  case (Cons f fs)
  obtain s1 o1 where h: "handle_parsed f (frame_parsed f) s = (s1, o1)" by fastforce
  note a = handle_parsed_lifecycle [OF Cons.prems h]
  from Cons.IH [of s1] a [of k] h show ?case
    by (auto simp: case_prod_unfold Let_def sequential_append)
qed simp

lemma run_frames_clean:
  assumes "sequential (nz_open s) (map frame_parsed fs)" and "lifecycle_ok s" and "nz_queue s = []"
  shows "snd (run_frames fs s) = fs \<and> nz_queue (fst (run_frames fs s)) = []"
  using assms
proof (induction fs arbitrary: s)
  case (Cons f fs)
  obtain s1 o1 where h: "handle_parsed f (frame_parsed f) s = (s1, o1)" by fastforce
  from handle_parsed_lifecycle [OF Cons.prems(2) h] have ok: "lifecycle_ok s1" by blast
  from Cons.prems(2) h have "o1 = [f] \<and> nz_queue s1 = [] \<and> nz_open s1 = next_open (nz_open s) (frame_parsed f)"
    using Cons.prems(1,3)
    by (cases rule: handle_parsed_cases) (auto simp: next_open_def)
  with Cons.IH [of s1] Cons.prems(1) ok h show ?case by (simp add: Let_def case_prod_unfold)
qed simp

lemma run_frames_conserves:
  "mset (snd (run_frames fs s)) + mset (held_frames (nz_queue (fst (run_frames fs s)))) =
     mset fs + mset (held_frames (nz_queue s))"
proof (induction fs arbitrary: s)
  case (Cons f fs)
  obtain s1 o1 where h: "handle_parsed f (frame_parsed f) s = (s1, o1)" by fastforce
  have "mset o1 + mset (held_frames (nz_queue s1)) = mset [f] + mset (held_frames (nz_queue s))"
    using handle_parsed_conserves [OF h] by simp
  from account_step [OF this Cons.IH [of s1]] h show ?case by (simp add: case_prod_unfold Let_def)
qed simp

lemma new_normalizer_fields [simp]:
  "nz_open new_normalizer = None" "nz_queue new_normalizer = []"
  "nz_buffer new_normalizer = []" "\<not> nz_pass new_normalizer"
  by (simp_all add: new_normalizer_def)

lemma lifecycle_ok_new [simp]: "lifecycle_ok new_normalizer"
  by (simp add: lifecycle_ok_def queue_ok_def)


section \<open>Properties\<close>

text \<open>C15: chunk boundaries are invisible. However the network cuts the response body, the
  normaliser emits the same bytes as for the whole body at once.\<close>

theorem normalizer_chunking:
  assumes "concat cs = concat ds" and "cs \<noteq> []" and "ds \<noteq> []"
  shows "normalize_stream cs = normalize_stream ds"
  using nz.feed_chunks_once [OF assms(2)] nz.feed_chunks_once [OF assms(3)] assms(1)
  by (simp add: normalize_stream_def)





text \<open>order within an item.\<close>

theorem normalizer_item_order:
  assumes "\<forall>f \<in> set fs. whole_frame f" and "concat cs = concat fs"
  shows "\<exists>gs. normalize_stream cs = concat gs \<and> mset gs = mset fs \<and>
    (\<forall>k. filter (\<lambda>f. item_of (frame_parsed f) = Some k) gs =
         filter (\<lambda>f. item_of (frame_parsed f) = Some k) fs)"
proof -
  let ?r = "run_frames fs new_normalizer"
  let ?gs = "snd ?r @ held_frames (nz_queue (fst ?r))"
  have "normalize_stream cs = concat ?gs" using normalize_stream_frames [OF assms] by simp
  moreover have "mset ?gs = mset fs" using run_frames_conserves [where s = new_normalizer and fs = fs]
    by simp
  ultimately show ?thesis using run_frames_lifecycle [of new_normalizer fs]
    by (intro exI [of _ ?gs]) simp
qed

text \<open>clean streams pass unchanged.\<close>

theorem normalizer_clean:
  assumes "\<forall>f \<in> set fs. whole_frame f" and "sequential None (map frame_parsed fs)"
    and "concat cs = concat fs"
  shows "normalize_stream cs = concat cs"
  using normalize_stream_frames [OF assms(1,3)] run_frames_clean [of new_normalizer fs] assms(2,3)
  by simp


text \<open>A response whose two items overlap.\<close>

definition sample_event :: "string \<Rightarrow> int \<Rightarrow> bytes" where
  "sample_event kind i = ''data: '' @
     json_stringify (JObj [(''type'', JStr kind), (''output_index'', JInt i)]) @ [LF, LF]"

definition sample_overlap :: "bytes list" where
  "sample_overlap = [sample_event ITEM_ADDED 0, sample_event ITEM_ADDED 1,
     sample_event ITEM_DONE 1, sample_event ITEM_DONE 0]"

definition sample_clean :: "bytes list" where
  "sample_clean = [sample_event ITEM_ADDED 0, sample_event ITEM_DONE 0,
     sample_event ITEM_ADDED 1, sample_event ITEM_DONE 1]"

lemma normalizer_chunking_witness:
  "normalize_stream [''data: 1'', [LF, LF]] = normalize_stream [''data: 1'' @ [LF], [LF]]"
  by (rule normalizer_chunking) simp_all

lemma sample_overlap_frames:
  "(\<forall>f \<in> set sample_overlap. whole_frame f) \<and>
   (\<forall>f \<in> set sample_overlap. \<not> is_terminal (frame_parsed f)) \<and>
   \<not> sequential None (map frame_parsed sample_overlap)"
  by code_simp


lemma normalizer_item_order_witness:
  "\<exists>gs. normalize_stream sample_overlap = concat gs \<and> mset gs = mset sample_overlap \<and>
    (\<forall>k. filter (\<lambda>f. item_of (frame_parsed f) = Some k) gs =
         filter (\<lambda>f. item_of (frame_parsed f) = Some k) sample_overlap)"
  using sample_overlap_frames by (intro normalizer_item_order) simp_all

lemma sample_clean_frames:
  "(\<forall>f \<in> set sample_clean. whole_frame f) \<and> sequential None (map frame_parsed sample_clean)"
  by code_simp

lemma normalizer_clean_witness:
  "normalize_stream sample_clean = concat sample_clean"
  using sample_clean_frames by (intro normalizer_clean [of sample_clean]) simp_all

end
