(* ===== verification/Sse_Prefix.thy ===== *)
theory Sse_Prefix
  imports Json
begin

text \<open>
  \<open>sse-prefix.mjs\<close>: deciding from the first bytes of a body without a content type whether it is
  an event stream (\<open>classifySsePrefix\<close>), and the detector that holds the undecided prefix
  (\<open>HeaderlessSseDetector\<close>). The lemmas show when a verdict survives the arrival of more bytes,
  and that the detector returns the bytes it was given.
\<close>

section \<open>Classification\<close>

definition UTF8_BOM :: bytes where "UTF8_BOM = [CHR 0xEF, CHR 0xBB, CHR 0xBF]"

definition SSE_FIELDS :: "string list" where "SSE_FIELDS = [''event'', ''data'', ''id'', ''retry'']"

definition HEADERLESS_SSE_SNIFF_BYTES :: nat where "HEADERLESS_SSE_SNIFF_BYTES = 512"

datatype verdict = EventStream | Other | Pending

text \<open>U+2028 and U+2029, which the dot of a regular expression does not match.\<close>

definition line_separators :: "string list" where
  "line_separators = [[CHR 0xE2, CHR 0x80, CHR 0xA8], [CHR 0xE2, CHR 0x80, CHR 0xA9]]"

definition has_line_separator :: "string \<Rightarrow> bool" where
  "has_line_separator s \<longleftrightarrow> (\<exists>u \<in> set line_separators. contains_sub s u)"

text \<open>\<open>SSE_FIELD.test(line)\<close> for a line without carriage return or line feed.\<close>

definition sse_field_test :: "string \<Rightarrow> bool" where
  "sse_field_test line \<longleftrightarrow> (\<exists>f \<in> set SSE_FIELDS. line = f \<or>
     (starts_with (f @ '':'') line \<and> \<not> has_line_separator (drop (Suc (length f)) line)))"

definition starts_with_partial_bom :: "bytes \<Rightarrow> bool" where
  "starts_with_partial_bom b \<longleftrightarrow> length b < length UTF8_BOM \<and> starts_with b UTF8_BOM \<and> b \<noteq> []"

definition is_newline :: "char \<Rightarrow> bool" where "is_newline c \<longleftrightarrow> c = CR \<or> c = LF"

text \<open>The verdict on a last line that no newline ends.\<close>

definition open_line :: "bool \<Rightarrow> string \<Rightarrow> verdict" where
  "open_line fin line =
     (if starts_with '':'' line then EventStream
      else if \<exists>f \<in> set SSE_FIELDS. starts_with (f @ '':'') line then EventStream
      else if \<not> fin \<and> (\<exists>f \<in> set SSE_FIELDS. starts_with line f) then Pending
      else if fin \<and> sse_field_test line then EventStream else Other)"

text \<open>The loop of \<open>classifySsePrefix\<close> over the lines of the decoded text.\<close>

function classify_lines :: "bool \<Rightarrow> string \<Rightarrow> verdict" where
  "classify_lines fin s =
     (if s = [] then (if fin then Other else Pending)
      else let line = takeWhile (\<lambda>c. \<not> is_newline c) s; rest = dropWhile (\<lambda>c. \<not> is_newline c) s in
        if rest = [] then open_line fin line
        else if line = [] then
          classify_lines fin (drop (if starts_with [CR, LF] rest then 2 else 1) rest)
        else if starts_with '':'' line \<or> sse_field_test line then EventStream
        else Other)"
  by pat_completeness auto
termination
proof (relation "measure (\<lambda>(e, s). length s)")
  fix fin s line rest
  assume "rest = dropWhile (\<lambda>c. \<not> is_newline c) s" and "rest \<noteq> []"
  then have "length rest \<le> length s" "rest \<noteq> []" by (simp_all add: length_dropWhile_le)
  then have "length (drop k rest) < length s" if "0 < k" for k using that by (cases rest) auto
  then show "((fin, drop (if starts_with [CR, LF] rest then 2 else 1) rest), fin, s) \<in>
      measure (\<lambda>(e, s). length s)" by simp
qed simp

declare classify_lines.simps [simp del]

text \<open>\<open>classifySsePrefix\<close>\<close>

definition classify_sse_prefix :: "bool \<Rightarrow> bytes \<Rightarrow> verdict" where
  "classify_sse_prefix fin b =
     (if starts_with_partial_bom b then (if fin then Other else Pending)
      else classify_lines fin (utf8_lossy (if starts_with UTF8_BOM b then drop 3 b else b)))"

section \<open>The detector\<close>

record detector =
  dt_buffer :: bytes
  dt_decision :: "verdict option"
  dt_max :: nat

text \<open>The constructor; the option is what the caller passed as \<open>maxBytes\<close>.\<close>

definition new_detector :: "json option \<Rightarrow> detector" where
  "new_detector max_bytes = \<lparr>dt_buffer = [], dt_decision = None,
     dt_max = (case as_int max_bytes of
         Some n \<Rightarrow> if n \<ge> 0 then nat n else HEADERLESS_SSE_SNIFF_BYTES
       | None \<Rightarrow> HEADERLESS_SSE_SNIFF_BYTES)\<rparr>"

text \<open>\<open>#settle\<close>\<close>

definition settle :: "verdict \<Rightarrow> bytes \<Rightarrow> detector \<Rightarrow> detector \<times> verdict \<times> bytes list" where
  "settle d remainder s =
     (s\<lparr>dt_decision := Some d, dt_buffer := []\<rparr>, d,
      (if dt_buffer s \<noteq> [] then [dt_buffer s] else []) @ (if remainder \<noteq> [] then [remainder] else []))"

text \<open>\<open>write\<close>\<close>

definition dt_write :: "bytes \<Rightarrow> detector \<Rightarrow> detector \<times> verdict \<times> bytes list" where
  "dt_write chunk s =
     (case dt_decision s of
        Some d \<Rightarrow> (s, d, [chunk])
      | None \<Rightarrow>
          let capacity = dt_max s - length (dt_buffer s);
              prefix = take capacity chunk;
              remainder = drop (length prefix) chunk;
              s1 = (if prefix \<noteq> [] then s\<lparr>dt_buffer := dt_buffer s @ prefix\<rparr> else s);
              d = classify_sse_prefix False (dt_buffer s1);
              d = (if d = Pending \<and> (dt_max s \<le> length (dt_buffer s1) \<or> remainder \<noteq> [])
                   then Other else d)
          in if d = Pending then (s1, d, []) else settle d remainder s1)"

text \<open>\<open>end\<close>\<close>

definition dt_end :: "detector \<Rightarrow> detector \<times> verdict \<times> bytes list" where
  "dt_end s =
     (case dt_decision s of
        Some d \<Rightarrow> (s, d, [])
      | None \<Rightarrow>
          let d = classify_sse_prefix True (dt_buffer s)
          in settle (if d = EventStream then d else Other) [] s)"

text \<open>A body: the chunks in order, then the end; the last verdict and the bytes returned.\<close>

fun dt_feed :: "bytes list \<Rightarrow> detector \<Rightarrow> detector \<times> bytes" where
  "dt_feed [] s = (s, [])"
| "dt_feed (c # cs) s =
     (let (s1, _, o1) = dt_write c s; (s2, o2) = dt_feed cs s1 in (s2, concat o1 @ o2))"

definition detect :: "json option \<Rightarrow> bytes list \<Rightarrow> verdict \<times> bytes" where
  "detect max_bytes cs =
     (let (s, o1) = dt_feed cs (new_detector max_bytes); (s2, d, o2) = dt_end s
      in (d, o1 @ concat o2))"

section \<open>The detector returns what it was given\<close>

definition detector_ok :: "detector \<Rightarrow> bool" where
  "detector_ok s \<longleftrightarrow> length (dt_buffer s) \<le> dt_max s \<and> dt_decision s \<noteq> Some Pending \<and>
     (dt_decision s \<noteq> None \<longrightarrow> dt_buffer s = [])"

lemma dt_write_keeps:
  assumes "detector_ok s" and "dt_write c s = (s', d, out)"
  shows "detector_ok s' \<and> concat out @ dt_buffer s' = dt_buffer s @ c \<and> dt_max s' = dt_max s \<and>
    dt_decision s' = (if d = Pending then None else Some d)"
proof (cases "dt_decision s")
  case None
  let ?p = "take (dt_max s - length (dt_buffer s)) c"
  have l: "length (dt_buffer s @ ?p) \<le> dt_max s" using assms(1) by (auto simp: detector_ok_def)
  have rest: "drop (length ?p) c = drop (dt_max s - length (dt_buffer s)) c" by (cases "dt_max s - length (dt_buffer s) \<le> length c") auto
  from None assms(2) l show ?thesis unfolding dt_write_def rest
    by (auto simp: Let_def settle_def detector_ok_def split: if_splits)
next
  case (Some d)
  with assms show ?thesis by (auto simp: dt_write_def detector_ok_def)
qed

lemma dt_feed_keeps:
  "detector_ok s \<Longrightarrow> detector_ok (fst (dt_feed cs s)) \<and>
     snd (dt_feed cs s) @ dt_buffer (fst (dt_feed cs s)) = dt_buffer s @ concat cs \<and>
     dt_max (fst (dt_feed cs s)) = dt_max s"
proof (induction cs arbitrary: s)
  case (Cons c cs)
  obtain s1 d o1 where w: "dt_write c s = (s1, d, o1)" using prod_cases3 by blast
  from Cons.IH [of s1] dt_write_keeps [OF Cons.prems w] w show ?case
    by (simp add: case_prod_unfold Let_def)
qed simp

lemma detector_ok_new [simp]: "detector_ok (new_detector m)"
  by (simp add: detector_ok_def new_detector_def)

lemma dt_buffer_new [simp]: "dt_buffer (new_detector m) = []" "dt_decision (new_detector m) = None"
  by (simp_all add: new_detector_def)


section \<open>Verdicts that more bytes cannot change\<close>

lemma fffd_facts: "\<not> is_ascii (hd fffd)" "fffd \<noteq> []" "\<forall>c \<in> set fffd. \<not> is_newline c"
  by code_simp+

lemma bad_len_pos: "s \<noteq> [] \<Longrightarrow> 1 \<le> bad_len s \<and> bad_len s \<le> length s"
  by (cases s) (auto split: list.splits)

lemma bad_stable:
  assumes "seq_len s = 0" and "bad_len s < length s"
  shows "seq_len (s @ x) = 0 \<and> bad_len (s @ x) = bad_len s"
proof (cases s)
  case (Cons a s')
  consider "is_ascii a" | "\<not> is_ascii a" "is_lead2 a" | "\<not> is_ascii a" "\<not> is_lead2 a" "is_lead3 a"
    | "\<not> is_ascii a" "\<not> is_lead2 a" "\<not> is_lead3 a" "is_lead4 a"
    | "\<not> is_ascii a" "\<not> is_lead2 a" "\<not> is_lead3 a" "\<not> is_lead4 a" by blast
  then show ?thesis
    using assms unfolding Cons by cases (auto split: list.splits if_splits)
qed (use assms in simp)

definition parted :: "string \<Rightarrow> string \<Rightarrow> bool" where
  "parted q r \<longleftrightarrow> q = [] \<or> ((\<forall>c \<in> set q. \<not> is_newline c) \<and> \<not> is_ascii (hd q) \<and>
     r \<noteq> [] \<and> \<not> is_ascii (hd r))"

lemma utf8_lossy_nonascii:
  assumes "b \<noteq> []" and "\<not> is_ascii (hd b)"
  shows "utf8_lossy b \<noteq> [] \<and> \<not> is_ascii (hd (utf8_lossy b))"
proof (cases "seq_len b = 0")
  case True
  with assms show ?thesis using fffd_facts by (simp add: utf8_lossy.simps [of b])
next
  case False
  then obtain c cs where "take (seq_len b) b = hd b # cs"
    using assms by (cases b; cases "seq_len b") auto
  with assms False show ?thesis by (simp add: utf8_lossy.simps [of b])
qed

text \<open>Decoding a longer buffer keeps the decoded prefix, up to a sequence cut at its end.\<close>

lemma utf8_lossy_extend:
  "\<exists>p q r. utf8_lossy b = p @ q \<and> utf8_lossy (b @ x) = p @ r \<and> parted q r"
proof (induction b rule: utf8_lossy.induct)
  case (1 b)
  show ?case
  proof (cases "b = []")
    case True
    then show ?thesis by (auto simp: parted_def)
  next
    case ne: False
    show ?thesis
    proof (cases "seq_len b = 0")
      case False
      from "1.IH"(1) [OF ne False] obtain p q r where
        "utf8_lossy (drop (seq_len b) b) = p @ q" "utf8_lossy (drop (seq_len b) b @ x) = p @ r" "parted q r"
        by blast
      with ne False seq_len_append [OF False, of x] seq_len_le [of b] show ?thesis
        by (intro exI [of _ "take (seq_len b) b @ p"] exI [of _ q] exI [of _ r])
          (simp add: utf8_lossy.simps [of b] utf8_lossy.simps [of "b @ x"])
    next
      case bad: True
      have pos: "1 \<le> bad_len b" "bad_len b \<le> length b" using bad_len_pos [OF ne] by simp_all
      show ?thesis
      proof (cases "bad_len b = length b")
        case True
        have "\<not> is_ascii (hd b)" using ne bad by (cases b) auto
        with utf8_lossy_nonascii [of "b @ x"] ne have
          "utf8_lossy (b @ x) \<noteq> [] \<and> \<not> is_ascii (hd (utf8_lossy (b @ x)))" by simp
        moreover have "utf8_lossy b = fffd" using True ne bad pos by (simp add: utf8_lossy.simps [of b])
        ultimately show ?thesis using fffd_facts
          by (intro exI [of _ "[]"] exI [of _ fffd] exI [of _ "utf8_lossy (b @ x)"]) (simp add: parted_def)
      next
        case False
        with pos have lt: "bad_len b < length b" by simp
        from "1.IH"(2) [OF ne] bad obtain p q r where
          "utf8_lossy (drop (bad_len b) b) = p @ q" "utf8_lossy (drop (bad_len b) b @ x) = p @ r" "parted q r"
          using pos by auto
        with ne bad bad_stable [OF bad lt, of x] pos show ?thesis
          by (intro exI [of _ "fffd @ p"] exI [of _ q] exI [of _ r])
            (simp add: utf8_lossy.simps [of b] utf8_lossy.simps [of "b @ x"])
      qed
    qed
  qed
qed


lemma fields_ascii: "\<forall>f \<in> set SSE_FIELDS. \<forall>c \<in> set (f @ '':''). is_ascii c \<and> \<not> is_newline c"
  by code_simp

lemma prefix_ascii:
  assumes "starts_with f (p @ q)" and "\<forall>c \<in> set f. is_ascii c" and "q \<noteq> []" and "\<not> is_ascii (hd q)"
  shows "starts_with f p"
  using assms by (induction f p rule: starts_with.induct) (auto simp: neq_Nil_conv)

lemma field_prefix_cases:
  "starts_with f (p @ q) \<Longrightarrow> starts_with f p \<or> starts_with p f"
  by (induction f p rule: starts_with.induct) auto

lemma starts_with_snoc: "starts_with p (f @ [c]) \<Longrightarrow> starts_with p f \<or> p = f @ [c]"
  by (induction p f rule: starts_with.induct) (auto dest: starts_with_length)

lemma contains_sub_iff: "contains_sub s u \<longleftrightarrow> (\<exists>a b. s = a @ u @ b)"
proof
  assume "contains_sub s u"
  then obtain i where i: "index_of u s = Some i" by (auto simp: contains_sub_def)
  then obtain b where "drop i s = u @ b" using index_of_Some by (fastforce simp: starts_with_iff_append)
  then show "\<exists>a b. s = a @ u @ b" by (metis append_take_drop_id)
next
  assume "\<exists>a b. s = a @ u @ b"
  then obtain a b where "s = a @ u @ b" by blast
  then have "starts_with u (drop (length a) s)" by simp
  with index_of_None [of u s "length a"] show "contains_sub s u" by (auto simp: contains_sub_def)
qed

lemma no_separator_part: "\<not> has_line_separator (a @ l @ b) \<Longrightarrow> \<not> has_line_separator l"
  by (auto simp: has_line_separator_def contains_sub_iff) (metis append.assoc)

definition field_line :: "string \<Rightarrow> bool" where
  "field_line l \<longleftrightarrow> starts_with '':'' l \<or> (\<exists>f \<in> set SSE_FIELDS. starts_with (f @ '':'') l)"

text \<open>What a decided line says about every longer line.\<close>

lemma field_line_stays: "field_line l \<Longrightarrow> field_line (l @ x)"
  by (auto simp: field_line_def intro: starts_with_mono)

lemma field_line_back:
  assumes "field_line (p @ q)" and "\<forall>f \<in> set SSE_FIELDS. \<not> starts_with p f" and "p \<noteq> []"
  shows "field_line p"
proof -
  from assms(1) consider "starts_with '':'' (p @ q)" |
    f where "f \<in> set SSE_FIELDS" "starts_with (f @ '':'') (p @ q)" by (auto simp: field_line_def)
  then show ?thesis
  proof cases
    case 1
    with assms(3) show ?thesis by (cases p) (auto simp: field_line_def)
  next
    case 2
    with field_prefix_cases starts_with_snoc [of p f] assms(2)
    have "starts_with (f @ '':'') p" by fastforce
    with 2 show ?thesis by (auto simp: field_line_def)
  qed
qed

lemma field_line_cut:
  assumes "field_line (p @ q)" and "q \<noteq> []" and "\<not> is_ascii (hd q)"
  shows "field_line p"
proof -
  have a: "is_ascii (CHR '':'')" by code_simp
  from assms(1) consider "starts_with '':'' (p @ q)" |
    f where "f \<in> set SSE_FIELDS" "starts_with (f @ '':'') (p @ q)" by (auto simp: field_line_def)
  then show ?thesis
  proof cases
    case 1
    with prefix_ascii [OF 1 _ assms(2,3)] a show ?thesis by (simp add: field_line_def)
  next
    case 2
    with prefix_ascii [OF 2(2) _ assms(2,3)] fields_ascii show ?thesis by (fastforce simp: field_line_def)
  qed
qed

text \<open>The verdict on one line: with a newline after it (\<open>closed\<close>) or at the end of the text.\<close>

lemma closed_verdict:
  "\<not> has_line_separator l \<Longrightarrow> l \<notin> set SSE_FIELDS \<Longrightarrow>
     (starts_with '':'' l \<or> sse_field_test l) = field_line l"
proof -
  assume n: "\<not> has_line_separator l" "l \<notin> set SSE_FIELDS"
  have "\<not> has_line_separator (drop k l)" for k
    using n(1) no_separator_part [of "take k l" "drop k l" "[]"] by simp
  with n show ?thesis by (auto simp: sse_field_test_def field_line_def)
qed

lemma open_verdict:
  assumes "\<not> has_line_separator l" and "\<forall>f \<in> set SSE_FIELDS. \<not> starts_with l f"
  shows "open_line e l = (if field_line l then EventStream else Other)"
proof -
  have "l \<notin> set SSE_FIELDS" using assms(2) starts_with_append [of _ "[]"] by force
  with closed_verdict [OF assms(1)] assms(2) show ?thesis
    by (auto simp: open_line_def field_line_def)
qed


lemma span_newline:
  assumes "\<forall>c \<in> set l. \<not> is_newline c" and "is_newline n"
  shows "takeWhile (\<lambda>c. \<not> is_newline c) (l @ n # x) = l" "dropWhile (\<lambda>c. \<not> is_newline c) (l @ n # x) = n # x"
  using assms by (simp_all add: takeWhile_append2 dropWhile_append2)

lemma newline_ascii: "is_newline c \<Longrightarrow> is_ascii c"
proof -
  have "is_ascii CR \<and> is_ascii LF" by code_simp
  then show "is_newline c \<Longrightarrow> is_ascii c" by (auto simp: is_newline_def)
qed

lemma verdict_pick: "a \<Longrightarrow> b = v \<Longrightarrow> f \<Longrightarrow> (if w then b else if a then v else u) = (if f then v else u')"
  by simp

lemma verdict_pick_not: "\<not> a \<Longrightarrow> b = u \<Longrightarrow> \<not> f \<Longrightarrow> (if w then b else if a then v else u) = (if f then v' else u)"
  by simp

text \<open>The last line, when the text seen so far has no newline.\<close>

lemma classify_lines_last:
  assumes nl: "\<forall>c \<in> set (p @ q). \<not> is_newline c" and d: "classify_lines False (p @ q) \<noteq> Pending"
    and pt: "parted q r" and sep: "\<not> has_line_separator (p @ r)"
  shows "classify_lines e (p @ r) = classify_lines False (p @ q)"
proof -
  have ne: "p @ q \<noteq> []" using d by (auto simp: classify_lines.simps [of False "[]"])
  have span: "takeWhile (\<lambda>c. \<not> is_newline c) (p @ q) = p @ q" "dropWhile (\<lambda>c. \<not> is_newline c) (p @ q) = []"
    using nl by (simp_all add: takeWhile_eq_all_conv dropWhile_eq_Nil_conv)
  have s: "classify_lines False (p @ q) = open_line False (p @ q)"
    using ne by (subst classify_lines.simps) (simp add: span del: append_is_Nil_conv)
  have np: "\<forall>f \<in> set SSE_FIELDS. \<not> starts_with (p @ q) f \<or> field_line (p @ q)"
    using d unfolding s by (auto simp: open_line_def field_line_def split: if_splits)
  have v: "open_line False (p @ q) = (if field_line (p @ q) then EventStream else Other)"
    using d unfolding s by (auto simp: open_line_def field_line_def split: if_splits)
  let ?l = "takeWhile (\<lambda>c. \<not> is_newline c) (p @ r)" and ?w = "dropWhile (\<lambda>c. \<not> is_newline c) (p @ r)"
  let ?r = "takeWhile (\<lambda>c. \<not> is_newline c) r"
  have l: "?l = p @ ?r" using nl by (simp add: takeWhile_append2)
  have sl: "\<not> has_line_separator ?l" using no_separator_part [of "[]" ?l ?w] sep by simp
  have odd: "q \<noteq> [] \<Longrightarrow> ?r \<noteq> [] \<and> \<not> is_ascii (hd ?r)"
    using pt newline_ascii by (cases r) (auto simp: parted_def)
  have lne: "?l \<noteq> []" using ne odd by (auto simp: l)
  have fl: "field_line ?l = field_line (p @ q)"
  proof (cases "q = []")
    case True
    with ne np field_line_back [of p ?r] field_line_stays [of p ?r] show ?thesis by (auto simp: l)
  next
    case False
    with pt odd [OF False] field_line_cut [of p q] field_line_cut [of p ?r] field_line_stays show ?thesis
      unfolding l parted_def by blast
  qed
  have nf: "\<forall>f \<in> set SSE_FIELDS. \<not> starts_with ?l f" if no: "\<not> field_line (p @ q)"
  proof (cases "q = []")
    case True
    with np no show ?thesis by (auto simp: l starts_with_iff_append)
  next
    case False
    show ?thesis
    proof (intro ballI notI)
      fix f assume f: "f \<in> set SSE_FIELDS" "starts_with ?l f"
      then have "hd ?r \<in> set f" using odd [OF False] by (auto simp: l starts_with_iff_append)
      with f(1) fields_ascii odd [OF False] show False by auto
    qed
  qed
  have nf': "?l \<notin> set SSE_FIELDS" if "\<not> field_line (p @ q)"
    using nf [OF that] starts_with_append [of ?l "[]"] by force
  have "classify_lines e (p @ r) = (if ?w = [] then open_line e ?l
      else if starts_with '':'' ?l \<or> sse_field_test ?l then EventStream else Other)"
    using lne by (subst classify_lines.simps) (auto simp: Let_def)
  also have "\<dots> = (if field_line (p @ q) then EventStream else Other)"
  proof (cases "field_line (p @ q)")
    case True
    with fl have "field_line ?l" by simp
    with sl closed_verdict [of ?l] have "starts_with '':'' ?l \<or> sse_field_test ?l"
      by (cases "?l \<in> set SSE_FIELDS") (auto simp: sse_field_test_def)
    moreover have "open_line e ?l = EventStream"
      using \<open>field_line ?l\<close> by (auto simp: open_line_def field_line_def)
    ultimately show ?thesis using True by (rule verdict_pick)
  next
    case False
    have "\<not> (starts_with '':'' ?l \<or> sse_field_test ?l)" "open_line e ?l = Other"
      using closed_verdict [OF sl nf' [OF False]] open_verdict [OF sl nf [OF False]] fl False by simp_all
    then show ?thesis using False by (rule verdict_pick_not)
  qed
  finally show ?thesis by (simp add: s v)
qed

lemma classify_lines_extend:
  assumes "classify_lines False (p @ q) \<noteq> Pending" and "parted q r" and "\<not> has_line_separator (p @ r)"
  shows "classify_lines e (p @ r) = classify_lines False (p @ q)"
  using assms
proof (induction "length p" arbitrary: p rule: less_induct)
  case less
  have qn: "\<forall>c \<in> set q. \<not> is_newline c" using less.prems(2) by (auto simp: parted_def)
  show ?case
  proof (cases "\<exists>c \<in> set p. is_newline c")
    case False
    with qn less.prems show ?thesis by (intro classify_lines_last) auto
  next
    case True
    then obtain l n p' where p: "p = l @ n # p'" "is_newline n" "\<forall>c \<in> set l. \<not> is_newline c"
      using split_list_first_prop [of p is_newline] by blast
    have step: "classify_lines f (p @ x) =
      (if l = [] then classify_lines f (drop (if starts_with [CR, LF] (n # p' @ x) then 2 else 1) (n # p' @ x))
       else if starts_with '':'' l \<or> sse_field_test l then EventStream else Other)" for f x
      using span_newline [OF p(3,2), of "p' @ x"]
      by (subst classify_lines.simps) (simp add: p(1) Let_def)
    show ?thesis
    proof (cases "l = []")
      case False
      then show ?thesis by (simp add: step)
    next
      case l: True
      define k where "k = (if starts_with [CR, LF] (n # p') then 1 else 0 :: nat)"
      have cut: "drop (if starts_with [CR, LF] (n # p' @ x) then 2 else 1) (n # p' @ x) = drop k p' @ x"
        if "p' \<noteq> [] \<or> x \<noteq> [] \<longrightarrow> p' \<noteq> [] \<or> \<not> is_ascii (hd x)" for x
        using that newline_ascii [of LF]
        by (cases p'; cases x) (auto simp: k_def is_newline_def)
      have sep: "\<not> has_line_separator (drop k p' @ r)"
      proof -
        have "p @ r = (n # take k p') @ (drop k p' @ r) @ []" by (simp add: p(1) l)
        with less.prems(3) show ?thesis using no_separator_part by metis
      qed
      have "p' \<noteq> [] \<or> q \<noteq> []"
      proof (rule ccontr)
        assume "\<not> (p' \<noteq> [] \<or> q \<noteq> [])"
        with less.prems(1) step [of False "[]"] l show False
          by (simp add: classify_lines.simps [of False "[]"])
      qed
      then have "p' \<noteq> [] \<or> (q \<noteq> [] \<and> r \<noteq> [] \<and> \<not> is_ascii (hd q) \<and> \<not> is_ascii (hd r))"
        using less.prems(2) by (auto simp: parted_def)
      then have "classify_lines f (p @ x) = classify_lines f (drop k p' @ x)" if "x \<in> {q, r}" for f x
        unfolding step using l that cut [of x] by auto
      with less.hyps [of "drop k p'"] less.prems sep show ?thesis by (simp add: p(1) l)
    qed
  qed
qed


text \<open>The whole classifier, on bytes.\<close>

definition bom_free :: "bytes \<Rightarrow> bytes" where
  "bom_free b = (if starts_with UTF8_BOM b then drop 3 b else b)"

lemma bom_extend:
  assumes "\<not> starts_with_partial_bom b" and "b \<noteq> []"
  shows "\<not> starts_with_partial_bom (b @ x) \<and> bom_free (b @ x) = bom_free b @ x"
proof -
  have np: "\<not> (starts_with b UTF8_BOM \<and> length b < length UTF8_BOM)"
    using assms by (auto simp: starts_with_partial_bom_def)
  have whole: "starts_with b UTF8_BOM \<Longrightarrow> b = UTF8_BOM"
    using np starts_with_length [of b UTF8_BOM] by (auto simp: starts_with_iff)
  have same: "starts_with UTF8_BOM (b @ x) = starts_with UTF8_BOM b"
    using field_prefix_cases [of UTF8_BOM b x] starts_with_mono [of UTF8_BOM b x] whole by auto
  have "\<not> (starts_with (b @ x) UTF8_BOM \<and> length (b @ x) < length UTF8_BOM)"
    using np by (auto simp: starts_with_iff_append)
  then have "\<not> starts_with_partial_bom (b @ x)" by (auto simp: starts_with_partial_bom_def)
  moreover have "starts_with UTF8_BOM b \<Longrightarrow> 3 \<le> length b"
    using starts_with_length [of UTF8_BOM b] by (simp add: UTF8_BOM_def)
  ultimately show ?thesis by (simp add: bom_free_def same)
qed

lemma classify_stable:
  assumes "classify_sse_prefix False b \<noteq> Pending"
    and "\<not> has_line_separator (utf8_lossy (bom_free (b @ x)))"
  shows "classify_sse_prefix e (b @ x) = classify_sse_prefix False b"
proof -
  have nb: "\<not> starts_with_partial_bom b" "b \<noteq> []" using assms(1)
    by (auto simp: classify_sse_prefix_def UTF8_BOM_def classify_lines.simps [of False "[]"] split: if_splits)
  obtain p q r where pqr: "utf8_lossy (bom_free b) = p @ q" "utf8_lossy (bom_free b @ x) = p @ r" "parted q r"
    using utf8_lossy_extend by blast
  note e = bom_extend [OF nb, of x]
  have c: "classify_sse_prefix f b = classify_lines f (p @ q)"
    "classify_sse_prefix f (b @ x) = classify_lines f (p @ r)" for f
    using nb e pqr(1,2) by (simp_all add: classify_sse_prefix_def flip: bom_free_def)
  show ?thesis unfolding c
    using classify_lines_extend [OF _ pqr(3), of p e] assms e pqr(2) by (simp add: c)
qed


text \<open>What the detector has decided, as a function of the bytes alone.\<close>

definition sniffed :: "nat \<Rightarrow> bytes \<Rightarrow> verdict option" where
  "sniffed m b =
     (let d = classify_sse_prefix False (take m b)
      in if d \<noteq> Pending then Some d else if m \<le> length b then Some Other else None)"

lemma dt_write_sniffed:
  assumes "detector_ok s" and "dt_decision s = sniffed (dt_max s) b" and "dt_decision s = None \<Longrightarrow> dt_buffer s = b"
    and "0 < length b \<or> 0 < dt_max s"
    and sep: "\<not> has_line_separator (utf8_lossy (bom_free (take (dt_max s) (b @ c))))"
    and w: "dt_write c s = (s', d, out)"
  shows "dt_decision s' = sniffed (dt_max s) (b @ c) \<and> (dt_decision s' = None \<longrightarrow> dt_buffer s' = b @ c)"
proof (cases "dt_decision s")
  case None
  with assms have b: "dt_buffer s = b" by simp
  have lt: "length b < dt_max s"
    using assms(2) None by (auto simp: sniffed_def Let_def split: if_splits)
  then have tk: "take (dt_max s) (b @ c) = b @ take (dt_max s - length b) c" by simp
  have rest: "drop (length (take (dt_max s - length b) c)) c = drop (dt_max s - length b) c"
    by (cases "dt_max s - length b \<le> length c") auto
  from w None b lt show ?thesis
    by (auto simp: dt_write_def sniffed_def Let_def settle_def tk rest split: if_splits)
next
  case (Some v)
  with assms(2) consider "classify_sse_prefix False (take (dt_max s) b) = v" "v \<noteq> Pending" |
    "classify_sse_prefix False (take (dt_max s) b) = Pending" "v = Other" "dt_max s \<le> length b"
    by (auto simp: sniffed_def Let_def split: if_splits)
  then have "sniffed (dt_max s) (b @ c) = Some v"
  proof cases
    case 1
    have "take (dt_max s) (b @ c) = take (dt_max s) b @ take (dt_max s - length b) c" by simp
    with classify_stable [of "take (dt_max s) b" "take (dt_max s - length b) c" False] 1 sep
    show ?thesis by (simp add: sniffed_def Let_def)
  next
    case 2
    then show ?thesis by (simp add: sniffed_def Let_def)
  qed
  with Some w show ?thesis by (simp add: dt_write_def)
qed


section \<open>Separators in the bytes\<close>

lemma lead_e2: "hd s = CHR 0xE2 \<Longrightarrow> seq_len s \<noteq> 0 \<Longrightarrow> seq_len s = 3"
proof -
  have "\<not> is_ascii (CHR 0xE2) \<and> \<not> is_lead2 (CHR 0xE2) \<and> is_lead3 (CHR 0xE2)" by code_simp
  then show "hd s = CHR 0xE2 \<Longrightarrow> seq_len s \<noteq> 0 \<Longrightarrow> seq_len s = 3"
    by (cases s) (auto split: list.splits if_splits)
qed

lemma seq_tail_cont: "0 < i \<Longrightarrow> i < seq_len s \<Longrightarrow> is_cont (s ! i)"
proof (cases s)
  case (Cons a s')
  consider "is_ascii a" | "\<not> is_ascii a" "is_lead2 a" | "\<not> is_ascii a" "\<not> is_lead2 a" "is_lead3 a"
    | "\<not> is_ascii a" "\<not> is_lead2 a" "\<not> is_lead3 a" "is_lead4 a"
    | "\<not> is_ascii a" "\<not> is_lead2 a" "\<not> is_lead3 a" "\<not> is_lead4 a" by blast
  then show "0 < i \<Longrightarrow> i < seq_len s \<Longrightarrow> is_cont (s ! i)"
    unfolding Cons by cases
      (auto split: list.splits if_splits simp: less_Suc_eq numeral_2_eq_2 numeral_3_eq_3
        numeral_eq_Suc [of "num.Bit0 (num.Bit0 num.One)"] lead3_ok_def lead4_ok_def)
qed simp

lemma separator_at:
  "u \<in> set line_separators \<Longrightarrow> u = CHR 0xE2 # tl u \<and> length u = 3"
  by (auto simp: line_separators_def)

lemma lossy_separator:
  assumes "u \<in> set line_separators" and "utf8_lossy b = a @ u @ c"
  shows "contains_sub b u"
  using assms(2)
proof (induction b arbitrary: a c rule: utf8_lossy.induct)
  case (1 b)
  note u = separator_at [OF assms(1)]
  have ne: "b \<noteq> []" using "1.prems" u by auto
  obtain h k where hk: "utf8_lossy b = h @ utf8_lossy (drop k b)"
    "(seq_len b \<noteq> 0 \<and> h = take (seq_len b) b \<and> k = seq_len b) \<or> (seq_len b = 0 \<and> h = fffd \<and> k = Suc (bad_len b - 1))"
    using ne by (cases "seq_len b = 0") (auto simp: utf8_lossy.simps [of b])
  show ?case
  proof (cases "length h \<le> length a")
    case True
    with hk(1) "1.prems" have "utf8_lossy (drop k b) = drop (length h) a @ u @ c"
      by (metis append_eq_append_conv_if append_eq_conv_conj drop_append)
    with "1.IH" ne hk(2) have "contains_sub (drop k b) u" by blast
    then show ?thesis unfolding contains_sub_iff by (metis append.assoc append_take_drop_id)
  next
    case False
    let ?i = "length a"
    have at: "h ! ?i = CHR 0xE2"
    proof -
      have "(h @ utf8_lossy (drop k b)) ! ?i = CHR 0xE2" using hk(1) "1.prems" u by (metis nth_append_length append_Cons)
      with False show ?thesis by (simp add: nth_append)
    qed
    have nf: "c \<noteq> CHR 0xE2" if "c \<in> set fffd" for c using that by (auto simp: fffd_def)
    have ncont: "\<not> is_cont (CHR 0xE2)" by code_simp
    from hk(2) show ?thesis
    proof
      assume s: "seq_len b \<noteq> 0 \<and> h = take (seq_len b) b \<and> k = seq_len b"
      have i: "?i < seq_len b" using False s by simp
      have "b ! ?i = CHR 0xE2" using at s i by simp
      with seq_tail_cont [of ?i b] i ncont have z: "?i = 0" by force
      with at s i ne have "hd b = CHR 0xE2" by (simp add: hd_conv_nth)
      with lead_e2 s have "seq_len b = 3" by blast
      then have "take 3 b = u" using hk(1) "1.prems" s z u seq_len_le [of b]
        by (metis append_eq_append_conv_if append_self_conv2 length_0_conv take_all_iff length_take min.absorb2 take_append)
      then show ?thesis unfolding contains_sub_iff by (metis append_Nil append_take_drop_id)
    next
      assume "seq_len b = 0 \<and> h = fffd \<and> k = Suc (bad_len b - 1)"
      with nf at False nth_mem [of ?i h] show ?thesis by auto
    qed
  qed
qed

lemma lossy_no_separator: "\<not> has_line_separator b \<Longrightarrow> \<not> has_line_separator (utf8_lossy b)"
  unfolding has_line_separator_def contains_sub_iff [of "utf8_lossy b"]
  by (blast dest: lossy_separator)


lemma no_separator_drop: "\<not> has_line_separator l \<Longrightarrow> \<not> has_line_separator (drop k l)"
  using no_separator_part [of "take k l" "drop k l" "[]"] by simp

lemma no_separator_prefix:
  "\<not> has_line_separator (b @ c) \<Longrightarrow> \<not> has_line_separator (utf8_lossy (bom_free (take m b)))"
proof -
  assume n: "\<not> has_line_separator (b @ c)"
  have "b @ c = [] @ take m b @ (drop m b @ c)" by simp
  with n have "\<not> has_line_separator (take m b)" using no_separator_part by metis
  then have "\<not> has_line_separator (bom_free (take m b))"
    using no_separator_drop by (auto simp: bom_free_def)
  then show ?thesis by (rule lossy_no_separator)
qed

lemma dt_feed_sniffed:
  assumes "detector_ok s" and "dt_decision s = sniffed (dt_max s) b" and "dt_decision s = None \<Longrightarrow> dt_buffer s = b"
    and "0 < dt_max s" and "\<not> has_line_separator (b @ concat cs)"
  shows "dt_decision (fst (dt_feed cs s)) = sniffed (dt_max s) (b @ concat cs) \<and>
    (dt_decision (fst (dt_feed cs s)) = None \<longrightarrow> dt_buffer (fst (dt_feed cs s)) = b @ concat cs)"
  using assms
proof (induction cs arbitrary: s b)
  case (Cons c cs)
  obtain s1 d o1 where w: "dt_write c s = (s1, d, o1)" using prod_cases3 by blast
  have sep: "\<not> has_line_separator (utf8_lossy (bom_free (take (dt_max s) (b @ c))))"
    using no_separator_prefix [of "b @ c" "concat cs"] Cons.prems(5) by simp
  from dt_write_sniffed [OF Cons.prems(1,2,3) _ sep w] Cons.prems(4)
  have a: "dt_decision s1 = sniffed (dt_max s) (b @ c)" "dt_decision s1 = None \<longrightarrow> dt_buffer s1 = b @ c"
    by simp_all
  from dt_write_keeps [OF Cons.prems(1) w] have k: "detector_ok s1" "dt_max s1 = dt_max s" by simp_all
  from Cons.IH [of s1 "b @ c"] a k Cons.prems(4,5) w show ?case
    by (simp add: case_prod_unfold Let_def)
qed simp

lemma detect_sniffed:
  assumes "0 < dt_max (new_detector m)" and "\<not> has_line_separator (concat cs)"
  shows "fst (detect m cs) = (case sniffed (dt_max (new_detector m)) (concat cs) of
      Some d \<Rightarrow> d
    | None \<Rightarrow> if classify_sse_prefix True (concat cs) = EventStream then EventStream else Other)"
proof -
  have "sniffed (dt_max (new_detector m)) [] = None"
    using assms(1) by (simp add: sniffed_def classify_sse_prefix_def starts_with_partial_bom_def
        UTF8_BOM_def classify_lines.simps [of False "[]"])
  with dt_feed_sniffed [of "new_detector m" "[]" cs] assms
  show ?thesis
    by (auto simp: detect_def dt_end_def settle_def case_prod_unfold Let_def split: option.splits)
qed

section \<open>Properties\<close>

text \<open>the detector returns every byte it was given, once and in order, before the verdict
  and after it, and its verdict is never \<open>pending\<close> once the body ended.\<close>

theorem detect_returns_bytes: "snd (detect m cs) = concat cs \<and> fst (detect m cs) \<noteq> Pending"
proof -
  let ?s = "fst (dt_feed cs (new_detector m))"
  have k: "detector_ok ?s" "snd (dt_feed cs (new_detector m)) @ dt_buffer ?s = concat cs"
    using dt_feed_keeps [of "new_detector m" cs] by simp_all
  show ?thesis
  proof (cases "dt_decision ?s")
    case None
    with k show ?thesis by (auto simp: detect_def dt_end_def settle_def case_prod_unfold Let_def)
  next
    case (Some d)
    with k show ?thesis by (auto simp: detect_def dt_end_def detector_ok_def case_prod_unfold Let_def)
  qed
qed

text \<open>the detector never holds more than its byte limit.\<close>

theorem detector_bound:
  "length (dt_buffer (fst (dt_feed cs (new_detector m)))) \<le> dt_max (new_detector m)"
  using dt_feed_keeps [of "new_detector m" cs] by (simp add: detector_ok_def)

text \<open>a verdict is final: no byte that arrives later, and no end of the body, changes it, as
  long as the bytes hold no U+2028 or U+2029.\<close>

theorem classify_verdict_final:
  assumes "classify_sse_prefix False b \<noteq> Pending" and "\<not> has_line_separator (b @ x)"
  shows "classify_sse_prefix e (b @ x) = classify_sse_prefix False b"
  using classify_stable [OF assms(1)] no_separator_prefix [of "b @ x" "[]" "length (b @ x)"] assms(2)
  by simp

text \<open>how the body is cut into chunks does not change the verdict.\<close>

theorem detect_chunking:
  assumes "concat cs = concat ds" and "0 < dt_max (new_detector m)" and "\<not> has_line_separator (concat cs)"
  shows "fst (detect m cs) = fst (detect m ds)"
  using detect_sniffed [OF assms(2,3)] detect_sniffed [OF assms(2)] assms by simp

text \<open>the separator condition is needed. A data line that holds U+2028 is an event stream
  while its newline is missing and something else once the newline is there, so the same bytes
  get two verdicts.\<close>

theorem detect_separator_chunking:
  "fst (detect None [''data: '' @ hd line_separators, [LF, LF]]) = EventStream \<and>
   fst (detect None [''data: '' @ hd line_separators @ [LF, LF]]) = Other"
  by code_simp

lemma classify_verdict_final_witness:
  "classify_sse_prefix True (''data: 1'' @ [LF, LF]) = classify_sse_prefix False ''data: 1''"
proof (rule classify_verdict_final)
  show "classify_sse_prefix False ''data: 1'' \<noteq> Pending" by code_simp
  show "\<not> has_line_separator (''data: 1'' @ [LF, LF])" by code_simp
qed

lemma detect_chunking_witness:
  "fst (detect None [''da'', ''ta: 1'']) = fst (detect None [''data: 1''])"
proof (rule detect_chunking)
  show "0 < dt_max (new_detector None)" by code_simp
  show "\<not> has_line_separator (concat [''da'', ''ta: 1''])" by code_simp
qed simp

end
