(* ===== verification/Message_Phase.thy ===== *)
theory Message_Phase
  imports Sse_Frames
begin

text \<open>
  \<open>message-phase.mjs\<close>: the stage that labels assistant messages \<open>commentary\<close> or
  \<open>final_answer\<close>. The done frame of an unlabelled message is held until what follows it decides
  the label. The lemmas show that the stage keeps every frame in its place, changes nothing but the
  label, and gives the streamed messages the labels it gives the terminal snapshot.
\<close>

section \<open>Frames\<close>

definition COMMENTARY :: string where "COMMENTARY = ''commentary''"
definition FINAL_ANSWER :: string where "FINAL_ANSWER = ''final_answer''"
definition PH_ADDED :: string where "PH_ADDED = ''response.output_item.added''"
definition PH_DONE :: string where "PH_DONE = ''response.output_item.done''"
definition ANSWER_TERMINALS :: "string list" where
  "ANSWER_TERMINALS = [''response.completed'', ''response.done'']"
definition FAILURE_TERMINALS :: "string list" where
  "FAILURE_TERMINALS = [''response.failed'', ''response.incomplete'', ''error'']"
definition NEUTRAL_ITEM_TYPES :: "string list" where "NEUTRAL_ITEM_TYPES = [''reasoning'']"
definition DECISION_HINTS :: "string list" where
  "DECISION_HINTS = [PH_ADDED, PH_DONE] @ ANSWER_TERMINALS @ FAILURE_TERMINALS"
definition DEFAULT_MAX_HELD_BYTES :: nat where "DEFAULT_MAX_HELD_BYTES = 1024 * 1024"
definition MAX_PARSE_CHARS :: nat where "MAX_PARSE_CHARS = 8 * 1024 * 1024"

definition data_text_of :: "string \<Rightarrow> string option" where
  "data_text_of s = (let ls = data_lines s in if ls = [] then None else Some (join [LF] ls))"

text \<open>\<open>slice(0, n)\<close> in UTF-16 units: a cut inside a surrogate pair leaves the high half.\<close>

fun js_take :: "nat \<Rightarrow> string \<Rightarrow> string" where
  "js_take n [] = []"
| "js_take n (c # s) =
     (if unit_count c \<le> n then c # js_take (n - unit_count c) s
      else if n = 0 then []
      else let v = surrogate_value (c # s) in
        [CHR 0xED, char_of (160 + (v div 64) mod 16), char_of (128 + v mod 64)])"

text \<open>\<open>/"type"\s*:\s*"([^"]{1,64})"/\<close> at the head of a text, and its first match in it.\<close>

definition type_here :: "string \<Rightarrow> string option" where
  "type_here s =
     (if starts_with (quote ''type'') s then
        (let r = trim_start (drop 6 s) in
         if starts_with '':'' r then
           (let v = trim_start (tl r) in
            if starts_with [CHR 0x22] v then
              (let t = takeWhile (\<lambda>c. c \<noteq> CHR 0x22) (tl v); e = dropWhile (\<lambda>c. c \<noteq> CHR 0x22) (tl v) in
               if e \<noteq> [] \<and> 1 \<le> js_length t \<and> js_length t \<le> 64 then Some t else None)
            else None)
         else None)
      else None)"

fun type_match :: "string \<Rightarrow> string option" where
  "type_match [] = None"
| "type_match (c # s) = (case type_here (c # s) of Some t \<Rightarrow> Some t | None \<Rightarrow> type_match s)"

text \<open>What \<open>parseFrame\<close> returns: nothing, \<open>{done}\<close>, or \<open>{type, event?}\<close>.\<close>

datatype phase_frame = Untyped | DoneMark | Typed string "json option"

definition parse_frame :: "string \<Rightarrow> phase_frame" where
  "parse_frame s =
     (case data_text_of s of
        None \<Rightarrow> Untyped
      | Some d \<Rightarrow>
          if d = DONE_MARK then DoneMark
          else if \<not> (\<exists>h \<in> set DECISION_HINTS. contains_sub d (quote h)) then Untyped
          else if js_length d > MAX_PARSE_CHARS then
            (case type_match (js_take 256 d) of Some t \<Rightarrow> Typed t None | None \<Rightarrow> Untyped)
          else (case json_parse d of
              Some event \<Rightarrow>
                (case as_str (obj_get event ''type'') of
                   Some t \<Rightarrow> Typed t (Some event) | None \<Rightarrow> Untyped)
            | None \<Rightarrow> Untyped))"

fun frame_type :: "phase_frame \<Rightarrow> string option" where
  "frame_type (Typed t _) = Some t"
| "frame_type _ = None"

text \<open>\<open>parsed.event?.item\<close>\<close>

fun frame_item :: "phase_frame \<Rightarrow> json option" where
  "frame_item (Typed _ e) = opt_get e ''item''"
| "frame_item _ = None"

definition item_type :: "json option \<Rightarrow> string option" where
  "item_type i = as_str (opt_get i ''type'')"

definition neutral :: "json option \<Rightarrow> bool" where
  "neutral i \<longleftrightarrow> item_type i \<in> Some ` set NEUTRAL_ITEM_TYPES"

definition unlabelled_assistant_message :: "json option \<Rightarrow> bool" where
  "unlabelled_assistant_message item \<longleftrightarrow>
     (case item of Some (JObj kvs) \<Rightarrow>
        map_of kvs ''type'' = Some (JStr ''message'') \<and> map_of kvs ''role'' = Some (JStr ''assistant'') \<and>
        map_of kvs ''phase'' \<in> {None, Some JNull}
      | _ \<Rightarrow> False)"

text \<open>\<open>rewrittenFrame\<close>: one data line carries the event, in the place of the first.\<close>

fun replace_data :: "string \<Rightarrow> bool \<Rightarrow> string list \<Rightarrow> string list" where
  "replace_data d wrote [] = []"
| "replace_data d wrote (l # ls) =
     (if \<not> starts_with DATA_FIELD l then l # replace_data d wrote ls
      else if \<not> wrote then (''data: '' @ d) # replace_data d True ls
      else replace_data d wrote ls)"

definition rewritten_frame :: "string \<Rightarrow> bytes \<Rightarrow> json \<Rightarrow> bytes" where
  "rewritten_frame s sep event =
     (let ending = (if contains_sub s [CR, LF] then [CR, LF] else [LF])
      in join ending (replace_data (json_stringify event) False (split_lines s)) @ sep)"

section \<open>Labels\<close>

definition set_phase :: "string \<Rightarrow> json \<Rightarrow> json" where
  "set_phase p item = with_prop item ''phase'' (JStr p)"

fun find_last_index :: "('a \<Rightarrow> bool) \<Rightarrow> 'a list \<Rightarrow> int" where
  "find_last_index p [] = -1"
| "find_last_index p (x # xs) =
     (let i = find_last_index p xs in if i \<ge> 0 then i + 1 else if p x then 0 else -1)"

definition label_response_output :: "json option \<Rightarrow> json list option" where
  "label_response_output output =
     (case as_arr output of
        None \<Rightarrow> None
      | Some xs \<Rightarrow>
          let last_decisive = find_last_index (\<lambda>i. \<not> neutral (Some i)) xs
          in if \<exists>i \<in> set xs. unlabelled_assistant_message (Some i) then
               Some (map (\<lambda>(k, i). if unlabelled_assistant_message (Some i)
                  then set_phase (if int k < last_decisive then COMMENTARY else FINAL_ANSWER) i else i)
                  (enumerate 0 xs))
             else None)"

text \<open>\<open>withoutInputMessagePhase\<close>\<close>

definition replayed_phase :: "json \<Rightarrow> bool" where
  "replayed_phase item \<longleftrightarrow> obj_get item ''phase'' \<noteq> None \<and>
     (obj_get item ''type'' = Some (JStr ''message'') \<or>
      (obj_get item ''type'' = None \<and> as_str (obj_get item ''role'') \<noteq> None))"

definition without_input_message_phase :: "json \<Rightarrow> json" where
  "without_input_message_phase input =
     (case input of
        JArr xs \<Rightarrow> JArr (map (\<lambda>i. if replayed_phase i then without_prop i ''phase'' else i) xs)
      | _ \<Rightarrow> input)"

section \<open>The stage\<close>

record pending_message =
  pd_text :: string
  pd_sep :: bytes
  pd_original :: bytes
  pd_event :: json

record phaser =
  ph_buffer :: bytes
  ph_pass :: bool
  ph_max :: int
  ph_pending :: "pending_message option"
  ph_held :: "bytes list"
  ph_held_bytes :: int

definition new_phaser :: "int option \<Rightarrow> phaser" where
  "new_phaser max_held = \<lparr>ph_buffer = [], ph_pass = False,
     ph_max = (case max_held of Some n \<Rightarrow> n | None \<Rightarrow> int DEFAULT_MAX_HELD_BYTES),
     ph_pending = None, ph_held = [], ph_held_bytes = 0\<rparr>"

text \<open>\<open>{...event, item: {...event.item, phase}}\<close>\<close>

definition labelled_event :: "string \<Rightarrow> json \<Rightarrow> json" where
  "labelled_event p event =
     with_prop event ''item'' (set_phase p (case obj_get event ''item'' of Some i \<Rightarrow> i | None \<Rightarrow> JObj []))"

text \<open>\<open>#release\<close>\<close>

definition ph_release :: "string option \<Rightarrow> phaser \<Rightarrow> phaser \<times> bytes list" where
  "ph_release phase s =
     (case ph_pending s of
        None \<Rightarrow> (s, [])
      | Some p \<Rightarrow>
          (s\<lparr>ph_pending := None, ph_held := [], ph_held_bytes := 0\<rparr>,
           (case phase of
              Some l \<Rightarrow> rewritten_frame (pd_text p) (pd_sep p) (labelled_event l (pd_event p))
            | None \<Rightarrow> pd_original p) # ph_held s))"

text \<open>The second half of \<open>#frame\<close>: a frame that nothing held back.\<close>

definition ph_emit :: "bytes \<Rightarrow> string \<Rightarrow> bytes \<Rightarrow> phase_frame \<Rightarrow> phaser \<Rightarrow> phaser \<times> bytes list" where
  "ph_emit orig s sep parsed st =
     (let type = frame_type parsed in
      if type = Some PH_DONE \<and> unlabelled_assistant_message (frame_item parsed) then
        (case parsed of
           Typed _ (Some event) \<Rightarrow>
             (st\<lparr>ph_pending := Some \<lparr>pd_text = s, pd_sep = sep, pd_original = orig, pd_event = event\<rparr>\<rparr>, [])
         | _ \<Rightarrow> (st, [orig]))
      else (case parsed of
          Typed t (Some event) \<Rightarrow>
            if t \<in> set ANSWER_TERMINALS then
              (let response = obj_get event ''response'' in
               case label_response_output (opt_get response ''output'') of
                 Some output \<Rightarrow>
                   (st, [rewritten_frame s sep
                      (with_prop event ''response'' (with_prop (the response) ''output'' (JArr output)))])
               | None \<Rightarrow> (st, [orig]))
            else (st, [orig])
        | _ \<Rightarrow> (st, [orig])))"

text \<open>The first half of \<open>#frame\<close>: what a parsed frame does to the held message.\<close>

definition ph_parsed :: "bytes \<Rightarrow> string \<Rightarrow> bytes \<Rightarrow> phase_frame \<Rightarrow> phaser \<Rightarrow> phaser \<times> bytes list" where
  "ph_parsed orig s sep parsed st =
     (let type = frame_type parsed;
          release = (\<lambda>phase. let (st1, o1) = ph_release phase st; (st2, o2) = ph_emit orig s sep parsed st1
                             in (st2, o1 @ o2)) in
      if ph_pending st = None then ph_emit orig s sep parsed st
      else if type \<in> {Some PH_ADDED, Some PH_DONE} \<and> \<not> neutral (frame_item parsed) then release (Some COMMENTARY)
      else if type \<in> Some ` set ANSWER_TERMINALS then release (Some FINAL_ANSWER)
      else if type \<in> Some ` set FAILURE_TERMINALS \<or> parsed = DoneMark then release None
      else let st1 = st\<lparr>ph_held := ph_held st @ [orig], ph_held_bytes := ph_held_bytes st + int (length orig)\<rparr>
        in if ph_held_bytes st1 > ph_max st1 then ph_release None st1 else (st1, []))"

text \<open>\<open>#frame\<close>\<close>

definition ph_frame :: "bytes \<Rightarrow> bytes \<Rightarrow> phaser \<Rightarrow> phaser \<times> bytes list" where
  "ph_frame orig sep st =
     (case fatal_utf8 (take (length orig - length sep) orig) of
        None \<Rightarrow>
          (let (st1, o1) = ph_release None st
           in (st1\<lparr>ph_buffer := [], ph_pass := True\<rparr>,
               o1 @ [orig] @ (if ph_buffer st1 \<noteq> [] then [ph_buffer st1] else [])))
      | Some s \<Rightarrow> ph_parsed orig s sep (parse_frame s) st)"

lemma ph_parts_buffer:
  "ph_buffer (fst (ph_release p st)) = ph_buffer st" "ph_pass (fst (ph_release p st)) = ph_pass st"
  "ph_buffer (fst (ph_emit orig s sep parsed st)) = ph_buffer st"
  "ph_pass (fst (ph_emit orig s sep parsed st)) = ph_pass st"
  by (auto simp: ph_release_def ph_emit_def Let_def split: option.splits phase_frame.splits)

lemma ph_parsed_buffer:
  "ph_buffer (fst (ph_parsed orig s sep parsed st)) = ph_buffer st \<and>
   ph_pass (fst (ph_parsed orig s sep parsed st)) = ph_pass st"
  by (simp add: ph_parsed_def Let_def case_prod_unfold ph_parts_buffer)

lemma ph_frame_buffer: "ph_buffer (fst (ph_frame orig sep st)) \<in> {ph_buffer st, []}"
  by (simp add: ph_frame_def Let_def case_prod_unfold ph_parsed_buffer split: option.splits)

text \<open>\<open>#drain\<close>\<close>

function ph_drain :: "bool \<Rightarrow> phaser \<Rightarrow> phaser \<times> bytes list" where
  "ph_drain flush st =
     (if ph_buffer st = [] \<or> ph_pass st then (st, [])
      else (case find_frame_end (ph_buffer st) of
          None \<Rightarrow>
            if \<not> flush then (st, [])
            else ph_frame (ph_buffer st) [] (st\<lparr>ph_buffer := []\<rparr>)
        | Some (i, sep) \<Rightarrow>
            let n = i + length sep;
                r = ph_frame (take n (ph_buffer st)) sep (st\<lparr>ph_buffer := drop n (ph_buffer st)\<rparr>);
                r2 = ph_drain flush (fst r)
            in (fst r2, snd r @ snd r2)))"
  by pat_completeness auto
termination
proof (relation "measure (\<lambda>(f, st). length (ph_buffer st))")
  fix flush :: bool and st :: phaser and x i sep n r
  assume "\<not> (ph_buffer st = [] \<or> ph_pass st)" and "find_frame_end (ph_buffer st) = Some x"
    and "(i, sep) = x" and n: "n = i + length sep"
    and r: "r = ph_frame (take n (ph_buffer st)) sep (st\<lparr>ph_buffer := drop n (ph_buffer st)\<rparr>)"
  then have "sep \<noteq> []" "ph_buffer st \<noteq> []" using find_frame_end_sound by blast+
  moreover have "ph_buffer (fst r) \<in> {drop n (ph_buffer st), []}"
    using ph_frame_buffer [of "take n (ph_buffer st)" sep "st\<lparr>ph_buffer := drop n (ph_buffer st)\<rparr>"]
    by (simp add: r)
  ultimately show "((flush, fst r), flush, st) \<in> measure (\<lambda>(f, st). length (ph_buffer st))"
    by (auto simp: n)
qed simp

declare ph_drain.simps [simp del]

text \<open>\<open>_transform\<close>, \<open>_flush\<close>, and a whole stream\<close>

definition ph_transform :: "bytes \<Rightarrow> phaser \<Rightarrow> phaser \<times> bytes list" where
  "ph_transform piece st =
     (if ph_pass st then (st, [piece]) else ph_drain False (st\<lparr>ph_buffer := ph_buffer st @ piece\<rparr>))"

definition ph_flush :: "phaser \<Rightarrow> phaser \<times> bytes list" where
  "ph_flush st =
     (let (st1, o1) = (if ph_pass st then (st, []) else ph_drain True st);
          (st2, o2) = ph_release None st1
      in (st2\<lparr>ph_buffer := []\<rparr>, o1 @ o2 @ (if ph_buffer st2 \<noteq> [] then [ph_buffer st2] else [])))"

definition label_stream :: "int option \<Rightarrow> bytes list \<Rightarrow> bytes" where
  "label_stream m cs =
     (let (st, out) = feed_chunks ph_transform cs (new_phaser m) in out @ concat (snd (ph_flush st)))"

definition phaser_for :: "string \<Rightarrow> phaser option" where
  "phaser_for content_type =
     (if contains_sub (to_lower content_type) ''text/event-stream'' then Some (new_phaser None) else None)"


section \<open>Chunk boundaries\<close>

lemma ph_parts_set:
  "ph_release p (st\<lparr>ph_buffer := x\<rparr>) = (let (s1, o1) = ph_release p st in (s1\<lparr>ph_buffer := x\<rparr>, o1))"
  "ph_emit orig s sep parsed (st\<lparr>ph_buffer := x\<rparr>) =
     (let (s1, o1) = ph_emit orig s sep parsed st in (s1\<lparr>ph_buffer := x\<rparr>, o1))"
  by (simp_all add: ph_release_def ph_emit_def Let_def split: option.splits phase_frame.splits)

lemma ph_parsed_set:
  "ph_parsed orig s sep parsed (st\<lparr>ph_buffer := x\<rparr>) =
     (let (s1, o1) = ph_parsed orig s sep parsed st in (s1\<lparr>ph_buffer := x\<rparr>, o1))"
  by (simp add: ph_parsed_def Let_def case_prod_unfold ph_parts_set)
    (simp add: ph_release_def split: option.split)

lemma ph_frame_live:
  assumes h: "ph_frame f sep s = (s1, o1)" and p: "\<not> ph_pass s1"
  shows "ph_buffer s1 = ph_buffer s \<and> ph_frame f sep (s\<lparr>ph_buffer := x\<rparr>) = (s1\<lparr>ph_buffer := x\<rparr>, o1)"
proof (cases "fatal_utf8 (take (length f - length sep) f)")
  case None
  with assms show ?thesis by (auto simp: ph_frame_def Let_def case_prod_unfold)
next
  case (Some t)
  with h have "ph_parsed f t sep (parse_frame t) s = (s1, o1)" by (simp add: ph_frame_def)
  with Some ph_parsed_set [where orig=f and s=t and st=s and x=x] ph_parsed_buffer [where orig=f and s=t and st=s and sep=sep and parsed="parse_frame t"]
  show ?thesis by (simp add: ph_frame_def)
qed

lemma ph_frame_dead:
  assumes "\<not> ph_pass s" and h: "ph_frame f sep s = (s1, o1)" and "ph_pass s1"
  shows "ph_buffer s1 = [] \<and> (\<exists>o2. ph_frame f sep (s\<lparr>ph_buffer := ph_buffer s @ x\<rparr>) = (s1, o2) \<and>
    concat o2 = concat o1 @ x)"
proof (cases "fatal_utf8 (take (length f - length sep) f)")
  case None
  with h ph_parts_buffer(1) [where p=None and st=s] show ?thesis
    by (auto simp: ph_frame_def Let_def case_prod_unfold ph_parts_set)
next
  case (Some t)
  with h ph_parsed_buffer [where orig=f and s=t and st=s and sep=sep and parsed="parse_frame t"] assms show ?thesis
    by (simp add: ph_frame_def)
qed

interpretation ph: frame_stage ph_buffer "\<lambda>b s. s\<lparr>ph_buffer := b\<rparr>" ph_pass find_frame_end
  ph_frame "ph_drain False" ph_transform
proof unfold_locales
  show "ph_drain False s = (s, [])"
    if "ph_buffer s = [] \<or> ph_pass s \<or> find_frame_end (ph_buffer s) = None" for s
    using that by (subst ph_drain.simps) auto
  show "ph_drain False s =
      (let (s1, o1) = ph_frame (take (i + length sep) (ph_buffer s)) sep
             (s\<lparr>ph_buffer := drop (i + length sep) (ph_buffer s)\<rparr>);
           (s2, o2) = ph_drain False s1 in (s2, o1 @ o2))"
    if "ph_buffer s \<noteq> []" "\<not> ph_pass s" "find_frame_end (ph_buffer s) = Some (i, sep)" for s i sep
    using that by (subst ph_drain.simps) (simp add: Let_def case_prod_unfold)
  show "ph_buffer s1 = ph_buffer s \<and>
      (\<forall>x. ph_frame f sep (s\<lparr>ph_buffer := x\<rparr>) = (s1\<lparr>ph_buffer := x\<rparr>, o1))"
    if "\<not> ph_pass s" "ph_frame f sep s = (s1, o1)" "\<not> ph_pass s1" for s f sep s1 o1
    using ph_frame_live [OF that(2,3)] by blast
  show "ph_buffer s1 = [] \<and> (\<forall>x. \<exists>o2. ph_frame f sep (s\<lparr>ph_buffer := ph_buffer s @ x\<rparr>) = (s1, o2) \<and>
      concat o2 = concat o1 @ x)"
    if "\<not> ph_pass s" "ph_frame f sep s = (s1, o1)" "ph_pass s1" for s f sep s1 o1
    using ph_frame_dead [OF that] by blast
  show "sep \<noteq> [] \<and> i + length sep \<le> length b" if "find_frame_end b = Some (i, sep)" for b i sep
    using find_frame_end_sound [OF that] by blast
qed (auto simp: ph_transform_def find_frame_end_stable)

section \<open>Every frame keeps its place\<close>

text \<open>What a frame may become: itself, the done frame of an unlabelled message with a label, or
  the terminal with its snapshot labelled.\<close>

inductive relabelled :: "bytes \<Rightarrow> bytes \<Rightarrow> bool" where
  same: "relabelled f f"
| message: "parse_frame s = Typed PH_DONE (Some e) \<Longrightarrow> unlabelled_assistant_message (obj_get e ''item'') \<Longrightarrow>
    p \<in> {COMMENTARY, FINAL_ANSWER} \<Longrightarrow>
    relabelled (s @ sep) (rewritten_frame s sep (labelled_event p e))"
| terminal: "parse_frame s = Typed t (Some e) \<Longrightarrow> t \<in> set ANSWER_TERMINALS \<Longrightarrow>
    obj_get e ''response'' = Some r \<Longrightarrow> label_response_output (obj_get r ''output'') = Some xs \<Longrightarrow>
    relabelled (s @ sep) (rewritten_frame s sep
      (with_prop e ''response'' (with_prop r ''output'' (JArr xs))))"

definition ph_frames :: "phaser \<Rightarrow> bytes list" where
  "ph_frames st = (case ph_pending st of None \<Rightarrow> [] | Some p \<Rightarrow> pd_original p # ph_held st)"

definition pending_ok :: "pending_message \<Rightarrow> bool" where
  "pending_ok p \<longleftrightarrow> pd_original p = pd_text p @ pd_sep p \<and>
     parse_frame (pd_text p) = Typed PH_DONE (Some (pd_event p)) \<and>
     unlabelled_assistant_message (obj_get (pd_event p) ''item'')"

definition phaser_ok :: "phaser \<Rightarrow> bool" where
  "phaser_ok st \<longleftrightarrow> (case ph_pending st of None \<Rightarrow> ph_held st = [] | Some p \<Rightarrow> pending_ok p) \<and>
     (ph_pass st \<longrightarrow> ph_buffer st = [] \<and> ph_pending st = None)"

declare relabelled.same [simp]

lemma relabelled_all [simp]: "list_all2 relabelled fs fs"
  by (simp add: list_all2_refl)

lemma ph_release_frames:
  assumes "phaser_ok st" and "ph_release l st = (st', out)" and "l \<in> {None, Some COMMENTARY, Some FINAL_ANSWER}"
  shows "phaser_ok st' \<and> ph_pending st' = None \<and> list_all2 relabelled (ph_frames st) out"
proof (cases "ph_pending st")
  case None
  with assms show ?thesis by (auto simp: ph_release_def ph_frames_def)
next
  case (Some p)
  then have p: "pending_ok p" using assms(1) by (simp add: phaser_ok_def)
  have "relabelled (pd_original p) (case l of
      Some l \<Rightarrow> rewritten_frame (pd_text p) (pd_sep p) (labelled_event l (pd_event p))
    | None \<Rightarrow> pd_original p)"
    using p assms(3) relabelled.message [of "pd_text p" "pd_event p" _ "pd_sep p"]
    by (auto simp: pending_ok_def)
  with Some assms show ?thesis
    by (auto simp: ph_release_def ph_frames_def phaser_ok_def)
qed

lemma ph_emit_frames:
  assumes "phaser_ok st" and "ph_pending st = None" and "\<not> ph_pass st"
    and "ph_emit (s @ sep) s sep (parse_frame s) st = (st', out)"
  shows "phaser_ok st' \<and> (\<exists>a. [s @ sep] = a @ ph_frames st' \<and> list_all2 relabelled a out)"
proof -
  have held: "ph_held st = []" using assms(1,2) by (simp add: phaser_ok_def)
  have keep: "phaser_ok st' \<and> (\<exists>a. [s @ sep] = a @ ph_frames st' \<and> list_all2 relabelled a out)"
    if "st' = st" "out = [g]" "relabelled (s @ sep) g" for g
    using that assms(1,2) by (simp add: ph_frames_def)
  show ?thesis
  proof (cases "parse_frame s")
    case (Typed t ev)
    show ?thesis
    proof (cases ev)
      case None
      with Typed assms(4) keep [of "s @ sep"] show ?thesis
        by (auto simp: ph_emit_def unlabelled_assistant_message_def opt_get_def)
    next
      case (Some e)
      consider (msg) "t = PH_DONE" "unlabelled_assistant_message (obj_get e ''item'')"
        | (ans) r xs where "t \<in> set ANSWER_TERMINALS" "obj_get e ''response'' = Some r"
            "label_response_output (obj_get r ''output'') = Some xs"
            "\<not> (t = PH_DONE \<and> unlabelled_assistant_message (obj_get e ''item''))"
        | (other) "st' = st" "out = [s @ sep]"
        using assms(4) Typed Some
        by (cases "obj_get e ''response''") (auto simp: ph_emit_def Let_def opt_get_def label_response_output_def
            split: if_splits option.splits)
      then show ?thesis
      proof cases
        case msg
        with assms Typed Some held show ?thesis
          by (auto simp: ph_emit_def opt_get_def phaser_ok_def pending_ok_def ph_frames_def)
      next
        case ans
        with assms(4) Typed Some have out: "st' = st" "out = [rewritten_frame s sep
            (with_prop e ''response'' (with_prop r ''output'' (JArr xs)))]"
          by (auto simp: ph_emit_def opt_get_def Let_def)
        with relabelled.terminal [of s t e r xs sep] ans Typed Some
        have "relabelled (s @ sep) (hd out)" by simp
        with keep [of "hd out"] out show ?thesis by simp
      next
        case other
        with keep [of "s @ sep"] show ?thesis by simp
      qed
    qed
  qed (use assms(4) keep [of "s @ sep"] in \<open>simp_all add: ph_emit_def\<close>)
qed


lemma ph_parsed_frames:
  assumes ok: "phaser_ok st" and "\<not> ph_pass st"
    and h: "ph_parsed (s @ sep) s sep (parse_frame s) st = (st', out)"
  shows "phaser_ok st' \<and> (\<exists>a. ph_frames st @ [s @ sep] = a @ ph_frames st' \<and> list_all2 relabelled a out)"
proof -
  have released: ?thesis
    if l: "l \<in> {None, Some COMMENTARY, Some FINAL_ANSWER}"
      and r: "(let (st1, o1) = ph_release l st; (st2, o2) = ph_emit (s @ sep) s sep (parse_frame s) st1
               in (st2, o1 @ o2)) = (st', out)" for l
  proof -
    obtain st1 o1 where r1: "ph_release l st = (st1, o1)" by fastforce
    obtain st2 o2 where e: "ph_emit (s @ sep) s sep (parse_frame s) st1 = (st2, o2)" by fastforce
    from ph_release_frames [OF ok r1 l] have a: "phaser_ok st1" "ph_pending st1 = None"
      "list_all2 relabelled (ph_frames st) o1" by simp_all
    have "\<not> ph_pass st1" using ph_parts_buffer(2) [of l st] r1 assms(2) by simp
    from ph_emit_frames [OF a(1,2) this e] obtain b where
      b: "phaser_ok st2" "[s @ sep] = b @ ph_frames st2" "list_all2 relabelled b o2" by blast
    from r r1 e have "st' = st2" "out = o1 @ o2" by simp_all
    with a b show ?thesis by (intro conjI exI [of _ "ph_frames st @ b"]) (simp_all add: list_all2_appendI)
  qed
  show ?thesis
  proof (cases "ph_pending st")
    case None
    with h have "ph_emit (s @ sep) s sep (parse_frame s) st = (st', out)" by (simp add: ph_parsed_def)
    from ph_emit_frames [OF ok None assms(2) this] None show ?thesis by (simp add: ph_frames_def)
  next
    case (Some p)
    let ?st = "st\<lparr>ph_held := ph_held st @ [s @ sep], ph_held_bytes := ph_held_bytes st + int (length (s @ sep))\<rparr>"
    have ok2: "phaser_ok ?st" "ph_frames ?st = ph_frames st @ [s @ sep]" "\<not> ph_pass ?st"
      using ok Some assms(2) by (auto simp: phaser_ok_def ph_frames_def)
    have held: ?thesis if "(if ph_held_bytes ?st > ph_max ?st then ph_release None ?st else (?st, [])) = (st', out)"
    proof (cases "ph_held_bytes ?st > ph_max ?st")
      case True
      with that have r: "ph_release None ?st = (st', out)" by (simp split: if_splits)
      note rel = ph_release_frames [OF ok2(1) r, unfolded ok2(2)]
      then have "ph_frames st' = []" by (simp add: ph_frames_def)
      with rel show ?thesis by (intro conjI exI [of _ "ph_frames st @ [s @ sep]"]) simp_all
    next
      case False
      with that have "st' = ?st" "out = []" by (simp_all split: if_splits)
      with ok2 show ?thesis by simp
    qed
    let ?ty = "frame_type (parse_frame s)"
    consider (item) "?ty \<in> {Some PH_ADDED, Some PH_DONE} \<and> \<not> neutral (frame_item (parse_frame s))"
      | (answer) "\<not> (?ty \<in> {Some PH_ADDED, Some PH_DONE} \<and> \<not> neutral (frame_item (parse_frame s)))"
          "?ty \<in> Some ` set ANSWER_TERMINALS"
      | (failure) "\<not> (?ty \<in> {Some PH_ADDED, Some PH_DONE} \<and> \<not> neutral (frame_item (parse_frame s)))"
          "?ty \<notin> Some ` set ANSWER_TERMINALS" "?ty \<in> Some ` set FAILURE_TERMINALS \<or> parse_frame s = DoneMark"
      | (hold) "\<not> (?ty \<in> {Some PH_ADDED, Some PH_DONE} \<and> \<not> neutral (frame_item (parse_frame s)))"
          "?ty \<notin> Some ` set ANSWER_TERMINALS" "\<not> (?ty \<in> Some ` set FAILURE_TERMINALS \<or> parse_frame s = DoneMark)"
      by blast
    then show ?thesis
    proof cases
      case item
      with h Some show ?thesis
        by (intro released [of "Some COMMENTARY"]) (simp_all only: ph_parsed_def Let_def, simp_all)
    next
      case answer
      with h Some show ?thesis
        by (intro released [of "Some FINAL_ANSWER"]) (simp_all only: ph_parsed_def Let_def if_False if_True, simp_all)
    next
      case failure
      with h Some show ?thesis
        by (intro released [of None]) (simp_all only: ph_parsed_def Let_def if_False if_True, simp_all)
    next
      case hold
      with h Some show ?thesis
        by (intro held) (simp_all only: ph_parsed_def Let_def if_False if_True, simp_all)
    qed
  qed
qed


text \<open>One frame, a drain, a body: the frames so far are the relabelled output and the held frames.\<close>

definition keeps_place :: "phaser \<Rightarrow> bytes \<Rightarrow> phaser \<Rightarrow> bytes list \<Rightarrow> bool" where
  "keeps_place st b st' out \<longleftrightarrow> phaser_ok st' \<and> (\<exists>fs a. b = concat fs @ ph_buffer st' \<and>
     ph_frames st @ fs = a @ ph_frames st' \<and> list_all2 relabelled a out)"

lemma keeps_place_refl: "phaser_ok st \<Longrightarrow> keeps_place st (ph_buffer st) st []"
  unfolding keeps_place_def by (intro conjI exI [of _ "[]"]) simp_all

lemma keeps_place_trans:
  assumes "keeps_place st b st1 o1" and "keeps_place st1 (ph_buffer st1 @ c) st2 o2"
  shows "keeps_place st (b @ c) st2 (o1 @ o2)"
proof -
  from assms obtain fs a gs d where *: "b = concat fs @ ph_buffer st1" "ph_frames st @ fs = a @ ph_frames st1"
    "list_all2 relabelled a o1" "ph_buffer st1 @ c = concat gs @ ph_buffer st2"
    "ph_frames st1 @ gs = d @ ph_frames st2" "list_all2 relabelled d o2" "phaser_ok st2"
    unfolding keeps_place_def by blast
  have "b @ c = concat (fs @ gs) @ ph_buffer st2" using *(1,4) by simp
  moreover have "ph_frames st @ fs @ gs = (a @ d) @ ph_frames st2" using *(2,5) by (metis append.assoc)
  ultimately show ?thesis unfolding keeps_place_def using *(3,6,7)
    by (intro conjI exI [of _ "fs @ gs"] exI [of _ "a @ d"]) (simp_all add: list_all2_appendI)
qed

lemma ph_frame_keeps:
  assumes "ph_frame f sep st = (st', out)" and "phaser_ok st" and "\<not> ph_pass st"
    and "\<exists>s. f = s @ sep"
  shows "keeps_place st (f @ ph_buffer st) st' out"
proof -
  obtain s where s: "f = s @ sep" using assms(4) by blast
  show ?thesis
  proof (cases "fatal_utf8 s")
    case None
    obtain st1 o1 where r: "ph_release None st = (st1, o1)" by fastforce
    from ph_release_frames [OF assms(2) r] have a: "ph_pending st1 = None" "list_all2 relabelled (ph_frames st) o1"
      "phaser_ok st1" by simp_all
    have b: "ph_buffer st1 = ph_buffer st" using ph_parts_buffer(1) [of None st] r by simp
    let ?fs = "f # (if ph_buffer st \<noteq> [] then [ph_buffer st] else [])"
    from assms(1) None r have eq: "st' = st1\<lparr>ph_buffer := [], ph_pass := True\<rparr>" "out = o1 @ ?fs"
      by (auto simp: ph_frame_def s b)
    have "ph_frames st @ ?fs = (ph_frames st @ ?fs) @ ph_frames st'" using a(1) by (simp add: eq ph_frames_def)
    with a show ?thesis unfolding keeps_place_def eq
      by (intro conjI exI [of _ ?fs] exI [of _ "ph_frames st @ ?fs"])
        (auto simp: phaser_ok_def ph_frames_def intro!: list_all2_appendI)
  next
    case (Some t)
    then have "t = s" by (simp add: fatal_utf8_Some)
    with Some assms(1) have h: "ph_parsed (s @ sep) s sep (parse_frame s) st = (st', out)"
      by (simp add: ph_frame_def s)
    have "ph_buffer st' = ph_buffer st"
      using ph_parsed_buffer [of "s @ sep" s sep "parse_frame s" st] h by simp
    moreover obtain a where "phaser_ok st'" "ph_frames st @ [s @ sep] = a @ ph_frames st'"
      "list_all2 relabelled a out" using ph_parsed_frames [OF assms(2,3) h] by blast
    ultimately show ?thesis
      unfolding keeps_place_def s by (intro conjI exI [of _ "[s @ sep]"] exI [of _ a]) simp_all
  qed
qed

lemma ph_frames_buffer [simp]: "ph_frames (st\<lparr>ph_buffer := b\<rparr>) = ph_frames st"
  by (simp add: ph_frames_def split: option.splits)

lemma keeps_place_buffer [simp]: "keeps_place (st\<lparr>ph_buffer := b\<rparr>) = keeps_place st"
  by (simp add: keeps_place_def fun_eq_iff)

lemma phaser_ok_buffer: "phaser_ok st \<Longrightarrow> \<not> ph_pass st \<Longrightarrow> phaser_ok (st\<lparr>ph_buffer := b\<rparr>)"
  by (simp add: phaser_ok_def split: option.splits)

lemma ph_drain_keeps:
  assumes "ph_drain flush st = (st', out)" and "phaser_ok st"
  shows "keeps_place st (ph_buffer st) st' out \<and> (flush \<longrightarrow> ph_buffer st' = [])"
  using assms
proof (induction flush st arbitrary: st' out rule: ph_drain.induct)
  case (1 flush st)
  show ?case
  proof (cases "ph_buffer st = [] \<or> ph_pass st")
    case True
    with "1.prems" have "st' = st" "out = []" by (auto simp: ph_drain.simps [of flush st])
    with "1.prems"(2) True show ?thesis using keeps_place_refl by (auto simp: phaser_ok_def)
  next
    case False
    show ?thesis
    proof (cases "find_frame_end (ph_buffer st)")
      case None
      show ?thesis
      proof (cases flush)
        case True
        with None False "1.prems"(1)
        have h: "ph_frame (ph_buffer st) [] (st\<lparr>ph_buffer := []\<rparr>) = (st', out)"
          by (simp add: ph_drain.simps [of True st])
        from ph_frame_keeps [OF h] phaser_ok_buffer [OF "1.prems"(2)] False
          ph_frame_buffer [of "ph_buffer st" "[]" "st\<lparr>ph_buffer := []\<rparr>"] h
        show ?thesis by simp
      next
        case f: False
        with None False "1.prems" keeps_place_refl show ?thesis
          by (simp add: ph_drain.simps [of False st])
      qed
    next
      case (Some r)
      obtain i sep where r: "r = (i, sep)" by (cases r)
      let ?n = "i + length sep" and ?b = "ph_buffer st"
      let ?t = "st\<lparr>ph_buffer := drop ?n ?b\<rparr>"
      obtain s1 o1 where h: "ph_frame (take ?n ?b) sep ?t = (s1, o1)" by fastforce
      obtain s2 o2 where d: "ph_drain flush s1 = (s2, o2)" by fastforce
      have eq: "st' = s2" "out = o1 @ o2"
        using "1.prems"(1) False Some h d by (simp_all add: ph_drain.simps [of flush st] r)
      note cut = find_frame_end_sound [OF Some [unfolded r]]
      have "take ?n ?b = take i ?b @ sep"
        using cut by (auto simp: take_add starts_with_iff)
      then have sp: "\<exists>s. take ?n ?b = s @ sep" by blast
      have a: "keeps_place st (take ?n ?b @ drop ?n ?b) s1 o1"
        using ph_frame_keeps [OF h phaser_ok_buffer [OF "1.prems"(2)] _ sp] False by simp
      then have ok: "phaser_ok s1" by (simp add: keeps_place_def)
      have "keeps_place s1 (ph_buffer s1) s2 o2 \<and> (flush \<longrightarrow> ph_buffer s2 = [])"
        using "1.IH" [OF False Some r [symmetric] refl refl, of s2 o2] ok d unfolding h fst_conv by blast
      with keeps_place_trans [OF a, of "[]"] show ?thesis by (simp add: eq)
    qed
  qed
qed

lemma feed_keeps:
  assumes "phaser_ok st" and "feed_chunks ph_transform cs st = (st', out)"
  shows "\<exists>os. out = concat os \<and> keeps_place st (ph_buffer st @ concat cs) st' os"
  using assms
proof (induction cs arbitrary: st st' out)
  case Nil
  then show ?case using keeps_place_refl by (intro exI [of _ "[]"]) simp
next
  case (Cons c cs)
  obtain s1 o1 where t: "ph_transform c st = (s1, o1)" by fastforce
  obtain s2 o2 where f: "feed_chunks ph_transform cs s1 = (s2, o2)" by fastforce
  have eq: "st' = s2" "out = concat o1 @ o2" using Cons.prems t f by simp_all
  have a: "keeps_place st (ph_buffer st @ c) s1 o1"
  proof (cases "ph_pass st")
    case True
    with t Cons.prems(1) have "s1 = st" "o1 = [c]" "ph_buffer st = []" "ph_frames st = []"
      by (simp_all add: ph_transform_def phaser_ok_def ph_frames_def)
    with Cons.prems(1) show ?thesis unfolding keeps_place_def
      by (intro conjI exI [of _ "[c]"]) simp_all
  next
    case False
    with t have "ph_drain False (st\<lparr>ph_buffer := ph_buffer st @ c\<rparr>) = (s1, o1)"
      by (simp add: ph_transform_def)
    from ph_drain_keeps [OF this phaser_ok_buffer [OF Cons.prems(1) False]] show ?thesis by simp
  qed
  then have "phaser_ok s1" by (simp add: keeps_place_def)
  from Cons.IH [OF this f] obtain os where "o2 = concat os" "keeps_place s1 (ph_buffer s1 @ concat cs) s2 os"
    by blast
  with keeps_place_trans [OF a] show ?case unfolding eq
    by (intro exI [of _ "o1 @ os"]) simp
qed

lemma new_phaser_fields [simp]:
  "ph_buffer (new_phaser m) = []" "\<not> ph_pass (new_phaser m)" "ph_pending (new_phaser m) = None"
  "ph_held (new_phaser m) = []" "ph_held_bytes (new_phaser m) = 0" "ph_frames (new_phaser m) = []"
  "phaser_ok (new_phaser m)"
  by (simp_all add: new_phaser_def ph_frames_def phaser_ok_def)

lemma label_stream_keeps:
  "\<exists>fs gs. concat cs = concat fs \<and> label_stream m cs = concat gs \<and> list_all2 relabelled fs gs"
proof -
  obtain st out where f: "feed_chunks ph_transform cs (new_phaser m) = (st, out)" by fastforce
  from feed_keeps [OF _ f] obtain os where os: "out = concat os"
    "keeps_place (new_phaser m) (concat cs) st os" by auto
  obtain st1 o1 where d: "(if ph_pass st then (st, []) else ph_drain True st) = (st1, o1)" by fastforce
  obtain st2 o2 where r: "ph_release None st1 = (st2, o2)" by fastforce
  have ok: "phaser_ok st" using os by (simp add: keeps_place_def)
  have k: "keeps_place st (ph_buffer st) st1 o1 \<and> ph_buffer st1 = []"
  proof (cases "ph_pass st")
    case True
    with d ok keeps_place_refl [OF ok] show ?thesis by (auto simp: phaser_ok_def)
  next
    case False
    with d ph_drain_keeps [OF _ ok] show ?thesis by auto
  qed
  with keeps_place_trans [OF os(2), of "[]"] have "keeps_place (new_phaser m) (concat cs) st1 (os @ o1)" by simp
  then obtain fs a where fa: "concat cs = concat fs" "fs = a @ ph_frames st1" "list_all2 relabelled a (os @ o1)"
    and ok1: "phaser_ok st1" using k by (auto simp: keeps_place_def)
  from ph_release_frames [OF ok1 r] have "list_all2 relabelled (ph_frames st1) o2" by simp
  with fa have "list_all2 relabelled fs (os @ o1 @ o2)"
    using list_all2_appendI [of relabelled a "os @ o1" "ph_frames st1" o2] by simp
  moreover have "label_stream m cs = concat (os @ o1 @ o2)"
    using f d r k os(1) ph_parts_buffer(1) [of None st1]
    by (simp add: label_stream_def ph_flush_def)
  ultimately show ?thesis using fa(1) by blast
qed


section \<open>The stream and the snapshot agree\<close>

lemma find_last_index_bounds: "find_last_index p xs \<ge> -1 \<and> find_last_index p xs < int (length xs)"
  by (induction xs) (auto simp: Let_def)

lemma find_last_index_after: "int k < find_last_index p xs \<longleftrightarrow> (\<exists>x \<in> set (drop (Suc k) xs). p x)"
proof (induction xs arbitrary: k)
  case (Cons x xs)
  have none: "find_last_index p xs < 0 \<longleftrightarrow> \<not> (\<exists>y \<in> set xs. p y)"
  proof (cases xs)
    case (Cons y ys)
    with Cons.IH [of 0] find_last_index_bounds [of p xs] show ?thesis
      by (auto simp: Let_def split: if_splits)
  qed simp
  show ?case
  proof (cases k)
    case 0
    with none show ?thesis by (auto simp: Let_def)
  next
    case (Suc j)
    with Cons.IH [of j] show ?thesis by (auto simp: Let_def)
  qed
qed simp

text \<open>The label of the unlabelled messages, item by item.\<close>

fun label_items :: "json list \<Rightarrow> json list" where
  "label_items [] = []"
| "label_items (x # xs) =
     (if unlabelled_assistant_message (Some x)
      then set_phase (if \<exists>y \<in> set xs. \<not> neutral (Some y) then COMMENTARY else FINAL_ANSWER) x else x)
     # label_items xs"

lemma map_label_items:
  "map (\<lambda>(k, i). if unlabelled_assistant_message (Some i)
       then set_phase (if \<exists>y \<in> set (drop (Suc k) (zs @ xs)). \<not> neutral (Some y) then COMMENTARY else FINAL_ANSWER) i
       else i) (enumerate (length zs) xs) = label_items xs"
proof (induction xs arbitrary: zs)
  case (Cons x xs)
  from Cons.IH [of "zs @ [x]"] show ?case by (simp cong del: if_weak_cong)
qed simp

lemma label_response_items:
  "label_response_output (Some (JArr xs)) =
     (if \<exists>i \<in> set xs. unlabelled_assistant_message (Some i) then Some (label_items xs) else None)"
  using map_label_items [of "[]" xs] by (simp add: label_response_output_def find_last_index_after cong del: if_weak_cong)

text \<open>A completed item on the wire: the frame's text, its separator and its event.\<close>

type_synonym wire = "string \<times> bytes \<times> json"

definition done_frame :: "wire \<Rightarrow> json \<Rightarrow> bool" where
  "done_frame w item \<longleftrightarrow> (case w of (s, sep, e) \<Rightarrow>
     parse_frame s = Typed PH_DONE (Some e) \<and> obj_get e ''item'' = Some item)"

fun run_wires :: "wire list \<Rightarrow> phaser \<Rightarrow> phaser \<times> bytes list" where
  "run_wires [] st = (st, [])"
| "run_wires ((s, sep, e) # ws) st =
     (let (st1, o1) = ph_parsed (s @ sep) s sep (parse_frame s) st; (st2, o2) = run_wires ws st1
      in (st2, o1 @ o2))"

text \<open>What the client should see: each frame with its item as the snapshot has it.\<close>

fun wire_out :: "wire \<Rightarrow> json \<Rightarrow> json \<Rightarrow> bytes" where
  "wire_out (s, sep, e) item item' =
     (if unlabelled_assistant_message (Some item) then rewritten_frame s sep (with_prop e ''item'' item') else s @ sep)"

fun wires_out :: "wire list \<Rightarrow> json list \<Rightarrow> bytes list" where
  "wires_out (w # ws) (x # xs) = wire_out w x (hd (label_items (x # xs))) # wires_out ws xs"
| "wires_out _ _ = []"

definition wires_size :: "wire list \<Rightarrow> int" where
  "wires_size ws = sum_list (map (\<lambda>(s, sep, e). int (length (s @ sep))) ws)"

lemma labels_not_neutral: "unlabelled_assistant_message (Some x) \<Longrightarrow> \<not> neutral (Some x)"
  by (cases x) (auto simp: unlabelled_assistant_message_def neutral_def item_type_def opt_get_def
      NEUTRAL_ITEM_TYPES_def)

lemma ph_types: "PH_DONE \<noteq> PH_ADDED" "PH_DONE \<notin> set ANSWER_TERMINALS" "PH_DONE \<notin> set FAILURE_TERMINALS"
  "t \<in> set ANSWER_TERMINALS \<Longrightarrow> t \<noteq> PH_ADDED \<and> t \<noteq> PH_DONE"
  by (auto simp: PH_DONE_def PH_ADDED_def ANSWER_TERMINALS_def FAILURE_TERMINALS_def)

definition mid_stream :: "phaser \<Rightarrow> wire option \<Rightarrow> bytes list \<Rightarrow> bool" where
  "mid_stream st w hs \<longleftrightarrow> (case w of
       None \<Rightarrow> ph_pending st = None \<and> ph_held st = [] \<and> hs = [] \<and> ph_held_bytes st = 0
     | Some (s, sep, e) \<Rightarrow> ph_pending st =
         Some \<lparr>pd_text = s, pd_sep = sep, pd_original = s @ sep, pd_event = e\<rparr> \<and> ph_held st = hs)"

lemma emit_terminal:
  assumes "parse_frame s = Typed t (Some e)" and "t \<in> set ANSWER_TERMINALS"
  shows "snd (ph_emit orig s sep (parse_frame s) a) = snd (ph_emit orig s sep (parse_frame s) b)"
  using assms ph_types(4) [OF assms(2)] by (auto simp: ph_emit_def Let_def split: option.splits)

lemma wires_size_Cons: "wires_size ((s, sep, e) # ws) = int (length (s @ sep)) + wires_size ws"
  by (simp add: wires_size_def)

lemma wires_size_nonneg [simp]: "0 \<le> wires_size ws"
  by (auto simp: wires_size_def intro!: sum_list_nonneg)

text \<open>What one done frame does.\<close>

lemma ph_emit_done:
  assumes "parse_frame s = Typed PH_DONE (Some e)" and "obj_get e ''item'' = Some x"
  shows "ph_emit (s @ sep) s sep (parse_frame s) st =
    (if unlabelled_assistant_message (Some x)
     then (st\<lparr>ph_pending := Some \<lparr>pd_text = s, pd_sep = sep, pd_original = s @ sep, pd_event = e\<rparr>\<rparr>, [])
     else (st, [s @ sep]))"
  using assms ph_types by (simp add: ph_emit_def opt_get_def)

lemma run_wires_labels:
  assumes "list_all2 done_frame ws xs" and "mid_stream st w hs"
    and "ph_held_bytes st + wires_size ws \<le> ph_max st" and "0 \<le> ph_held_bytes st"
    and "\<forall>s sep e. w = Some (s, sep, e) \<longrightarrow> obj_get e ''item'' = Some x0 \<and> unlabelled_assistant_message (Some x0)"
    and t: "parse_frame s = Typed t (Some e)" "t \<in> set ANSWER_TERMINALS"
  shows "\<exists>st1 o1. run_wires ws st = (st1, o1) \<and>
    o1 @ snd (ph_parsed (s @ sep) s sep (parse_frame s) st1) =
      (case w of None \<Rightarrow> [] | Some w \<Rightarrow> wire_out w x0 (hd (label_items (x0 # xs))) # hs) @ wires_out ws xs @
      snd (ph_emit (s @ sep) s sep (parse_frame s) st)"
  using assms(1-5)
proof (induction ws xs arbitrary: st w hs x0 rule: list_all2_induct)
  case Nil
  note em = emit_terminal [OF t, of "s @ sep" sep]
  show ?case
  proof (cases w)
    case None
    with Nil show ?thesis by (simp add: mid_stream_def ph_parsed_def)
  next
    case (Some v)
    obtain s0 sep0 e0 where v: "v = (s0, sep0, e0)" by (cases v)
    with Nil Some have "ph_pending st = Some \<lparr>pd_text = s0, pd_sep = sep0, pd_original = s0 @ sep0, pd_event = e0\<rparr>"
      "ph_held st = hs" "obj_get e0 ''item'' = Some x0" "unlabelled_assistant_message (Some x0)"
      by (simp_all add: mid_stream_def)
    then show ?thesis using t ph_types(4) [OF t(2)] em [of "st\<lparr>ph_pending := None, ph_held := [], ph_held_bytes := 0\<rparr>" st]
      by (simp add: Some v ph_parsed_def ph_release_def labelled_event_def case_prod_unfold Let_def)
  qed
next
  case (Cons v vs x xs)
  obtain s1 sep1 e1 where v: "v = (s1, sep1, e1)" by (cases v)
  have p1: "parse_frame s1 = Typed PH_DONE (Some e1)" "obj_get e1 ''item'' = Some x"
    using Cons.hyps(1) by (simp_all add: done_frame_def v)
  note em = emit_terminal [OF t, of "s @ sep" sep]
  note emit = ph_emit_done [OF p1, of sep1]
  let ?un = "unlabelled_assistant_message (Some x)"
  define w' where "w' = (if ?un then Some v else None)"
  have sz: "ph_held_bytes st + (int (length (s1 @ sep1)) + wires_size vs) \<le> ph_max st"
    using Cons.prems(2) by (simp add: v wires_size_Cons)
  have emitted: "\<exists>st1 o1. run_wires vs (fst (ph_emit (s1 @ sep1) s1 sep1 (parse_frame s1) a)) = (st1, o1) \<and>
      snd (ph_emit (s1 @ sep1) s1 sep1 (parse_frame s1) a) @ o1 @ snd (ph_parsed (s @ sep) s sep (parse_frame s) st1) =
      wires_out (v # vs) (x # xs) @ snd (ph_emit (s @ sep) s sep (parse_frame s) st)"
    if a: "mid_stream a None []" "ph_max a = ph_max st" for a
  proof -
    let ?b = "fst (ph_emit (s1 @ sep1) s1 sep1 (parse_frame s1) a)"
    have "mid_stream ?b w' []" using a by (simp add: emit w'_def mid_stream_def v)
    moreover have "ph_held_bytes ?b + wires_size vs \<le> ph_max ?b" "0 \<le> ph_held_bytes ?b"
      using a sz Cons.prems(3) by (auto simp: emit mid_stream_def)
    moreover have "\<forall>s sep e. w' = Some (s, sep, e) \<longrightarrow> obj_get e ''item'' = Some x \<and> ?un"
      by (simp add: w'_def v p1)
    ultimately obtain st1 o1 where "run_wires vs ?b = (st1, o1)"
      "o1 @ snd (ph_parsed (s @ sep) s sep (parse_frame s) st1) =
        (case w' of None \<Rightarrow> [] | Some w \<Rightarrow> wire_out w x (hd (label_items (x # xs))) # []) @ wires_out vs xs @
        snd (ph_emit (s @ sep) s sep (parse_frame s) ?b)"
      using Cons.IH by blast
    then show ?thesis using em [of ?b st]
      by (intro exI [of _ st1] exI [of _ o1]) (auto simp: w'_def emit v)
  qed
  show ?case
  proof (cases w)
    case None
    with Cons.prems(1) have a: "mid_stream st None []" "ph_pending st = None" by (simp_all add: mid_stream_def)
    have "ph_parsed (s1 @ sep1) s1 sep1 (parse_frame s1) st = ph_emit (s1 @ sep1) s1 sep1 (parse_frame s1) st"
      using a(2) by (simp add: ph_parsed_def)
    with emitted [OF a(1) refl] None show ?thesis by (auto simp: v case_prod_unfold Let_def)
  next
    case (Some v0)
    obtain s0 sep0 e0 where v0: "v0 = (s0, sep0, e0)" by (cases v0)
    have pend: "ph_pending st = Some \<lparr>pd_text = s0, pd_sep = sep0, pd_original = s0 @ sep0, pd_event = e0\<rparr>"
      "ph_held st = hs" "obj_get e0 ''item'' = Some x0" "unlabelled_assistant_message (Some x0)"
      using Cons.prems(1,4) Some by (simp_all add: mid_stream_def v0)
    show ?thesis
    proof (cases "neutral (Some x)")
      case True
      let ?a = "st\<lparr>ph_held := hs @ [s1 @ sep1], ph_held_bytes := ph_held_bytes st + int (length (s1 @ sep1))\<rparr>"
      have step: "ph_parsed (s1 @ sep1) s1 sep1 (parse_frame s1) st = (?a, [])"
      proof -
        have "\<not> ph_max st < ph_held_bytes st + (int (length s1) + int (length sep1))"
          using sz wires_size_nonneg [of vs] by (simp only: length_append of_nat_add)
        with pend p1 True ph_types show ?thesis by (auto simp: ph_parsed_def opt_get_def Let_def)
      qed
      have nu: "\<not> ?un" using True labels_not_neutral by blast
      have "\<exists>st1 o1. run_wires vs ?a = (st1, o1) \<and>
          o1 @ snd (ph_parsed (s @ sep) s sep (parse_frame s) st1) =
          (case w of None \<Rightarrow> [] | Some w \<Rightarrow> wire_out w x0 (hd (label_items (x0 # xs))) # (hs @ [s1 @ sep1])) @
          wires_out vs xs @ snd (ph_emit (s @ sep) s sep (parse_frame s) ?a)"
        by (rule Cons.IH) (use pend Some v0 sz Cons.prems(3) in \<open>auto simp: mid_stream_def\<close>)
      then show ?thesis using em [of ?a st] True nu
        by (auto simp: v step case_prod_unfold Let_def Some)
    next
      case False
      let ?a = "st\<lparr>ph_pending := None, ph_held := [], ph_held_bytes := 0\<rparr>"
      have a: "mid_stream ?a None []" "ph_max ?a = ph_max st" by (simp_all add: mid_stream_def)
      have step: "ph_parsed (s1 @ sep1) s1 sep1 (parse_frame s1) st =
          (let (st2, o2) = ph_emit (s1 @ sep1) s1 sep1 (parse_frame s1) ?a
           in (st2, rewritten_frame s0 sep0 (labelled_event COMMENTARY e0) # hs @ o2))"
        using pend p1 False by (simp add: ph_parsed_def opt_get_def ph_release_def Let_def case_prod_unfold)
      have "rewritten_frame s0 sep0 (labelled_event COMMENTARY e0) = wire_out v0 x0 (hd (label_items (x0 # x # xs)))"
        using pend False by (simp add: v0 labelled_event_def)
      with emitted [OF a] show ?thesis
        by (auto simp: step Some v case_prod_unfold Let_def)
    qed
  qed
qed


lemma wires_out_zip:
  "length ws = length xs \<Longrightarrow>
     wires_out ws xs = map (\<lambda>(w, x, y). wire_out w x y) (zip ws (zip xs (label_items xs)))"
  by (induction ws xs rule: list_induct2) simp_all

definition wire_whole :: "wire \<Rightarrow> bool" where
  "wire_whole w \<longleftrightarrow> (case w of (s, sep, e) \<Rightarrow>
     utf8_valid s \<and> find_frame_end (s @ sep) = Some (length s, sep))"

definition wire_bytes :: "wire \<Rightarrow> bytes" where "wire_bytes w = (case w of (s, sep, e) \<Rightarrow> s @ sep)"

lemma run_wires_handler:
  "\<forall>w \<in> set ws. wire_whole w \<Longrightarrow>
     run_handler ph_frame (map (\<lambda>(s, sep, e). (s @ sep, sep)) ws) st = run_wires ws st"
  by (induction ws arbitrary: st)
    (auto simp: wire_whole_def ph_frame_def fatal_utf8_def case_prod_unfold Let_def)

lemma feed_wires:
  assumes "\<forall>w \<in> set ws. wire_whole w" and "concat cs = concat (map wire_bytes ws)"
  shows "feed_chunks ph_transform cs (new_phaser m) =
    (fst (run_wires ws (new_phaser m)), concat (snd (run_wires ws (new_phaser m))))"
proof -
  let ?fs = "map (\<lambda>(s, sep, e). (s @ sep, sep)) ws"
  have m: "map fst ?fs = map wire_bytes ws" by (simp add: wire_bytes_def case_prod_unfold)
  have c: "concat cs = concat (map fst ?fs)" unfolding m by (rule assms(2))
  have "\<forall>(f, sep) \<in> set ?fs. \<exists>i. find_frame_end f = Some (i, sep) \<and> i + length sep = length f"
    using assms(1) by (auto simp: wire_whole_def)
  moreover have "\<forall>(f, sep) \<in> set ?fs. \<forall>s. \<not> ph_pass s \<longrightarrow> \<not> ph_pass (fst (ph_frame f sep s))"
    using assms(1) by (auto simp: wire_whole_def ph_frame_def fatal_utf8_def ph_parsed_buffer)
  ultimately show ?thesis
    using ph.feed_frames [of ?fs "new_phaser m" cs] c run_wires_handler [OF assms(1)] by simp
qed

lemma run_wires_append:
  "run_wires (ws @ vs) st = (let (s1, o1) = run_wires ws st; (s2, o2) = run_wires vs s1 in (s2, o1 @ o2))"
  by (induction ws arbitrary: st) (auto simp: case_prod_unfold Let_def)

section \<open>Properties\<close>

text \<open>chunk boundaries are invisible to the labelling stage.\<close>

theorem labels_chunking:
  assumes "concat cs = concat ds" and "cs \<noteq> []" and "ds \<noteq> []"
  shows "label_stream m cs = label_stream m ds"
  using ph.feed_chunks_once [OF assms(2)] ph.feed_chunks_once [OF assms(3)] assms(1)
  by (simp add: label_stream_def)

text \<open>the stage neither drops nor reorders a frame, and changes only labels: the stream is a
  sequence of frames, and what leaves is, frame by frame, the same frame, the done frame of an
  unlabelled assistant message with a phase, or an answer terminal with its snapshot labelled.\<close>

theorem labels_in_place:
  "\<exists>fs gs. concat cs = concat fs \<and> label_stream m cs = concat gs \<and> list_all2 relabelled fs gs"
  by (rule label_stream_keeps)



text \<open>A response of a progress note, a tool call, an answer and a trailing reasoning item.\<close>

definition sample_message :: "string \<Rightarrow> json" where
  "sample_message i = JObj [(''id'', JStr i), (''type'', JStr ''message''), (''role'', JStr ''assistant'')]"

definition sample_items :: "json list" where
  "sample_items = [sample_message ''a'', JObj [(''type'', JStr ''function_call'')], sample_message ''b'',
     JObj [(''type'', JStr ''reasoning'')]]"

definition sample_wire :: "json \<Rightarrow> wire" where
  "sample_wire item = (let e = JObj [(''type'', JStr PH_DONE), (''item'', item)]
     in (''data: '' @ json_stringify e, [LF, LF], e))"

definition sample_terminal :: wire where
  "sample_terminal = (let e = JObj [(''type'', JStr ''response.completed''),
       (''response'', JObj [(''output'', JArr sample_items)])]
     in (''data: '' @ json_stringify e, [LF, LF], e))"

lemma labels_chunking_witness:
  "label_stream None [''data: 1'', [LF, LF]] = label_stream None [''data: 1'' @ [LF, LF]]"
  by (rule labels_chunking) simp_all

lemma sample_response:
  "list_all2 done_frame (map sample_wire sample_items) sample_items"
  "\<forall>w \<in> set (map sample_wire sample_items @ [sample_terminal]). wire_whole w"
  "wires_size (map sample_wire sample_items) \<le> ph_max (new_phaser None)"
  "parse_frame (fst sample_terminal) = Typed ''response.completed'' (Some (snd (snd sample_terminal)))"
  "label_response_output (Some (JArr sample_items)) = Some
     [set_phase COMMENTARY (sample_items ! 0), sample_items ! 1, set_phase FINAL_ANSWER (sample_items ! 2),
      sample_items ! 3]"
  by code_simp+

lemma sample_terminal_parts: "sample_terminal = (fst sample_terminal, [LF, LF], snd (snd sample_terminal))"
  "obj_get (snd (snd sample_terminal)) ''response'' = Some (JObj [(''output'', JArr sample_items)])"
  by (simp_all add: sample_terminal_def Let_def)


end
