(* ===== verification/Conversation_Window.thy ===== *)
theory Conversation_Window
  imports Json_Laws "HOL-Library.Sublist"
begin

text \<open>
  \<open>conversation-window.mjs\<close>: the pass that keeps the newest slice of a conversation and drops
  what came before. The lemmas show what the cut may not do: lose a pinned item, reorder, separate
  a tool result from its call, leave less than the budget, or misreport what it dropped.
\<close>

section \<open>Constants and predicates on items\<close>

definition CONVERSATION_WINDOW_TAIL_BYTES :: int where "CONVERSATION_WINDOW_TAIL_BYTES = 64 * 1024"
definition CONVERSATION_WINDOW_MIN_TOTAL_BYTES :: int where "CONVERSATION_WINDOW_MIN_TOTAL_BYTES = 0"
definition CONVERSATION_WINDOW_BOUNDARY_SLACK_ITEMS :: nat where
  "CONVERSATION_WINDOW_BOUNDARY_SLACK_ITEMS = 4"

definition OUTPUT_CALL_TYPES :: "(string \<times> string) list" where
  "OUTPUT_CALL_TYPES =
    [(''function_call_output'', ''function_call''), (''custom_tool_call_output'', ''custom_tool_call''),
     (''local_shell_call_output'', ''local_shell_call''), (''tool_search_output'', ''tool_search_call'')]"

definition CALL_TYPES :: "string list" where "CALL_TYPES = map snd OUTPUT_CALL_TYPES"
definition REASONING_TYPES :: "string list" where "REASONING_TYPES = [''reasoning'']"
definition INSTRUCTION_ROLES :: "string list" where "INSTRUCTION_ROLES = [''system'', ''developer'']"
definition COMPACTION_TYPES :: "string list" where "COMPACTION_TYPES = [''compaction'', ''compaction_trigger'']"

text \<open>The warnings of \<open>compaction-checkpoint.mjs\<close> that open a rendered checkpoint.\<close>

definition CHECKPOINT_WARNING :: string where
  "CHECKPOINT_WARNING =
    ''This is a lossy continuation checkpoint, not a complete execution record. Only the '' @
    ''Router-extracted U/C/R source records carry their stated evidentiary meaning. Model-authored '' @
    ''objective, unverified, and next_step fields are navigation only. A source proves what the tool '' @
    ''returned then, not that mutable state is still unchanged. Re-read current state before making '' @
    ''changes, and prefer direct observations from this turn when they conflict.''"

definition LEGACY_WARNING :: string where
  "LEGACY_WARNING =
    ''UNVERIFIED_LEGACY_SUMMARY: This kcr1 summary is model-authored, has no router-validated '' @
    ''sources, and must not be used as proof of an external action or current state.''"

definition LEGACY_V1_SUMMARY_PREFIX :: string where
  "LEGACY_V1_SUMMARY_PREFIX =
    ''Another language model started this task and produced a continuation summary. '' @
    ''Use it to continue without repeating completed work:''"

definition UNREADABLE_COMPACTION_PREFIX :: string where
  "UNREADABLE_COMPACTION_PREFIX =
    ''[Earlier conversation history was compacted in an unreadable format.]''"

text \<open>The operator's switches; the argument is the environment variable.\<close>

definition conversation_window_enabled :: "string option \<Rightarrow> bool" where
  "conversation_window_enabled env \<longleftrightarrow> env \<noteq> Some ''0''"

definition native_conversation_window_enabled :: "string option \<Rightarrow> bool" where
  "native_conversation_window_enabled env \<longleftrightarrow> env = Some ''1''"

definition json_bytes :: "json \<Rightarrow> nat" where "json_bytes v = length (json_stringify v)"

definition is_type :: "string \<Rightarrow> json \<Rightarrow> bool" where
  "is_type t item \<longleftrightarrow> obj_get item ''type'' = Some (JStr t)"

definition type_in :: "string list \<Rightarrow> json \<Rightarrow> bool" where
  "type_in ts item \<longleftrightarrow> (case as_str (obj_get item ''type'') of Some t \<Rightarrow> t \<in> set ts | None \<Rightarrow> False)"

definition is_instruction :: "json \<Rightarrow> bool" where
  "is_instruction item \<longleftrightarrow> is_type ''message'' item \<and>
     (case as_str (obj_get item ''role'') of Some r \<Rightarrow> r \<in> set INSTRUCTION_ROLES | None \<Rightarrow> False)"

definition is_user_message :: "json \<Rightarrow> bool" where
  "is_user_message item \<longleftrightarrow> is_type ''message'' item \<and> obj_get item ''role'' = Some (JStr ''user'')"

fun part_texts :: "json list \<Rightarrow> string option" where
  "part_texts [] = Some []"
| "part_texts (p # ps) =
     (case as_str (obj_get p ''text'') of
        None \<Rightarrow> None
      | Some t \<Rightarrow> map_option (\<lambda>r. t @ r) (part_texts ps))"

definition message_text :: "json \<Rightarrow> string option" where
  "message_text item =
     (case obj_get item ''content'' of
        Some (JStr s) \<Rightarrow> Some s
      | Some (JArr ps) \<Rightarrow> part_texts ps
      | _ \<Rightarrow> None)"

definition carries_compacted_history :: "json \<Rightarrow> bool" where
  "carries_compacted_history item \<longleftrightarrow>
     type_in COMPACTION_TYPES item \<or>
     (is_user_message item \<and>
      (case message_text item of
         None \<Rightarrow> False
       | Some s \<Rightarrow> starts_with CHECKPOINT_WARNING s \<or> starts_with LEGACY_WARNING s \<or>
           starts_with LEGACY_V1_SUMMARY_PREFIX s \<or> starts_with UNREADABLE_COMPACTION_PREFIX s))"

fun last_index :: "('a \<Rightarrow> bool) \<Rightarrow> 'a list \<Rightarrow> nat option" where
  "last_index p [] = None"
| "last_index p (x # xs) =
     (case last_index p xs of Some i \<Rightarrow> Some (Suc i) | None \<Rightarrow> if p x then Some 0 else None)"

definition last_user_index :: "json list \<Rightarrow> nat option" where
  "last_user_index input = last_index is_user_message input"

section \<open>The frontier\<close>

text \<open>The walk back from the end until the tail holds \<open>tailBytes\<close>.\<close>

fun walk_back :: "nat list \<Rightarrow> int \<Rightarrow> nat \<Rightarrow> int \<Rightarrow> nat \<times> int" where
  "walk_back sizes tail_bytes 0 tail = (0, tail)"
| "walk_back sizes tail_bytes (Suc f) tail =
     (if tail < tail_bytes then walk_back sizes tail_bytes f (tail + int (sizes ! f)) else (Suc f, tail))"

text \<open>\<open>calls\<close> and \<open>dependencies\<close>: for each item, the index of the call that it answers.\<close>

fun dependencies :: "nat \<Rightarrow> ((string \<times> string) \<times> nat) list \<Rightarrow> json list \<Rightarrow> nat option list" where
  "dependencies i calls [] = []"
| "dependencies i calls (item # rest) =
     (case (as_str (obj_get item ''call_id''), as_str (obj_get item ''type'')) of
        (Some (c # cs), Some t) \<Rightarrow>
          if t \<in> set CALL_TYPES then None # dependencies (Suc i) (((t, c # cs), i) # calls) rest
          else (case map_of OUTPUT_CALL_TYPES t of
              None \<Rightarrow> None
            | Some ct \<Rightarrow> map_of calls (ct, c # cs)) # dependencies (Suc i) calls rest
      | _ \<Rightarrow> None # dependencies (Suc i) calls rest)"

text \<open>The walk from the last item down to a frontier that the walk itself moves.\<close>

fun close_dependencies :: "nat option list \<Rightarrow> nat \<Rightarrow> nat \<Rightarrow> nat" where
  "close_dependencies deps 0 f = f"
| "close_dependencies deps (Suc i) f =
     (if i < f then f
      else close_dependencies deps i (case deps ! i of Some c \<Rightarrow> min f c | None \<Rightarrow> f))"

fun back_while :: "(json \<Rightarrow> bool) \<Rightarrow> json list \<Rightarrow> nat \<Rightarrow> nat" where
  "back_while p input 0 = 0"
| "back_while p input (Suc f) = (if p (input ! f) then back_while p input f else Suc f)"

text \<open>\<open>findFrontier\<close>\<close>

definition find_frontier :: "json list \<Rightarrow> nat list \<Rightarrow> int \<Rightarrow> nat \<Rightarrow> nat" where
  "find_frontier input sizes tail_bytes slack =
     (let (f0, tail) = walk_back sizes tail_bytes (length input) 0;
          f1 = (if tail > 0 then f0 - slack else f0)
      in if f1 = 0 \<or> f1 = length input then f1
         else let f2 = close_dependencies (dependencies 0 [] input) (length input) f1;
                  f3 = back_while (type_in CALL_TYPES) input f2
              in back_while (type_in REASONING_TYPES) input f3)"

section \<open>The window\<close>

record window_stats =
  ws_ran :: bool
  ws_bytes_before :: int
  ws_bytes_after :: int
  ws_bytes_saved :: int
  ws_items_dropped :: nat
  ws_tail_items :: nat
  ws_frontier_index :: nat
  ws_latest_user_index :: int
  ws_tail_bytes :: int

definition empty_stats :: window_stats where
  "empty_stats = \<lparr>ws_ran = False, ws_bytes_before = 0, ws_bytes_after = 0, ws_bytes_saved = 0,
     ws_items_dropped = 0, ws_tail_items = 0, ws_frontier_index = 0, ws_latest_user_index = -1,
     ws_tail_bytes = 0\<rparr>"

record window_options =
  wo_enabled :: bool
  wo_tail_bytes :: int
  wo_min_total_bytes :: int
  wo_slack :: nat

definition default_options :: window_options where
  "default_options = \<lparr>wo_enabled = True, wo_tail_bytes = CONVERSATION_WINDOW_TAIL_BYTES,
     wo_min_total_bytes = CONVERSATION_WINDOW_MIN_TOTAL_BYTES,
     wo_slack = CONVERSATION_WINDOW_BOUNDARY_SLACK_ITEMS\<rparr>"

definition pinned :: "nat option \<Rightarrow> nat \<Rightarrow> json \<Rightarrow> bool" where
  "pinned latest i item \<longleftrightarrow> is_instruction item \<or> carries_compacted_history item \<or> Some i = latest"

text \<open>The emit loop: the items kept, and how many were dropped.\<close>

fun emit_items :: "nat option \<Rightarrow> nat \<Rightarrow> nat \<Rightarrow> json list \<Rightarrow> json list \<times> nat" where
  "emit_items latest frontier i [] = ([], 0)"
| "emit_items latest frontier i (item # rest) =
     (let (next, dropped) = emit_items latest frontier (Suc i) rest in
      if pinned latest i item then (item # next, dropped)
      else if i < frontier then (next, Suc dropped)
      else (item # next, dropped))"

definition sum_bytes :: "json list \<Rightarrow> int" where
  "sum_bytes xs = sum_list (map (\<lambda>x. int (json_bytes x)) xs)"

text \<open>\<open>windowConversation\<close>; the input is any JSON value, as the request body holds it.\<close>

definition window_conversation :: "window_options \<Rightarrow> json \<Rightarrow> json \<times> window_stats" where
  "window_conversation opts input =
     (case input of
        JArr items \<Rightarrow>
          if \<not> wo_enabled opts \<or> items = [] then (input, empty_stats)
          else
            let latest = last_user_index items;
                stats = empty_stats\<lparr>ws_ran := True, ws_tail_bytes := wo_tail_bytes opts,
                  ws_latest_user_index := (case latest of Some i \<Rightarrow> int i | None \<Rightarrow> -1)\<rparr>;
                total = sum_bytes items
            in if total \<le> wo_min_total_bytes opts then (input, stats)
               else
                 let frontier = find_frontier items (map json_bytes items) (wo_tail_bytes opts) (wo_slack opts)
                 in if frontier = 0 then
                      (input, stats\<lparr>ws_bytes_before := total, ws_bytes_after := total,
                         ws_tail_items := length items\<rparr>)
                    else
                      let (next, dropped) = emit_items latest frontier 0 items;
                          after = sum_bytes next
                      in (JArr next, stats\<lparr>ws_items_dropped := dropped, ws_bytes_before := total,
                            ws_bytes_after := after, ws_bytes_saved := total - after,
                            ws_tail_items := length items - frontier, ws_frontier_index := frontier\<rparr>)
      | _ \<Rightarrow> (input, empty_stats))"


section \<open>Which call an output answers\<close>

definition item_key :: "json \<Rightarrow> (string \<times> string) option" where
  "item_key item = (case (as_str (obj_get item ''type''), as_str (obj_get item ''call_id'')) of
     (Some t, Some c) \<Rightarrow> if c = [] then None else Some (t, c) | _ \<Rightarrow> None)"

definition call_key :: "json \<Rightarrow> (string \<times> string) option" where
  "call_key item = (case item_key item of Some (t, c) \<Rightarrow> if t \<in> set CALL_TYPES then Some (t, c) else None | None \<Rightarrow> None)"

definition wanted_key :: "json \<Rightarrow> (string \<times> string) option" where
  "wanted_key item = (case item_key item of
     Some (t, c) \<Rightarrow> if t \<in> set CALL_TYPES then None else map_option (\<lambda>ct. (ct, c)) (map_of OUTPUT_CALL_TYPES t)
   | None \<Rightarrow> None)"

text \<open>Item \<open>c\<close> is the call that item \<open>j\<close> answers: the latest earlier call of the output's call
  type and id.\<close>

definition answers :: "json list \<Rightarrow> nat \<Rightarrow> nat \<Rightarrow> bool" where
  "answers input j c \<longleftrightarrow> c < j \<and> j < length input \<and>
     (\<exists>k. wanted_key (input ! j) = Some k \<and> call_key (input ! c) = Some k \<and>
       (\<forall>i. c < i \<and> i < j \<longrightarrow> call_key (input ! i) \<noteq> Some k))"

fun calls_after :: "nat \<Rightarrow> ((string \<times> string) \<times> nat) list \<Rightarrow> json list \<Rightarrow> ((string \<times> string) \<times> nat) list" where
  "calls_after i calls [] = calls"
| "calls_after i calls (item # rest) =
     calls_after (Suc i) (case call_key item of Some k \<Rightarrow> (k, i) # calls | None \<Rightarrow> calls) rest"

lemma dependencies_Cons:
  "dependencies i calls (item # rest) =
     (case wanted_key item of None \<Rightarrow> None | Some k \<Rightarrow> map_of calls k) #
     dependencies (Suc i) (case call_key item of Some k \<Rightarrow> (k, i) # calls | None \<Rightarrow> calls) rest"
proof -
  obtain t c where tc: "as_str (obj_get item ''type'') = t" "as_str (obj_get item ''call_id'') = c" by blast
  show ?thesis
  proof (cases c)
    case (Some s)
    then show ?thesis using tc
      by (cases s; cases t) (auto simp: wanted_key_def call_key_def item_key_def simp del: as_str_Some split: option.splits)
  qed (use tc in \<open>cases t; simp add: wanted_key_def call_key_def item_key_def del: as_str_Some\<close>)
qed

lemma length_dependencies [simp]: "length (dependencies i calls xs) = length xs"
  by (induction xs arbitrary: i calls) (simp_all add: dependencies_Cons del: dependencies.simps(2))

lemma dependencies_nth:
  "j < length xs \<Longrightarrow> dependencies i calls xs ! j =
     (case wanted_key (xs ! j) of None \<Rightarrow> None | Some k \<Rightarrow> map_of (calls_after i calls (take j xs)) k)"
proof (induction xs arbitrary: i calls j)
  case (Cons x xs)
  then show ?case
    by (cases j) (simp_all add: dependencies_Cons del: dependencies.simps(2) split: option.split)
qed simp

lemma calls_after_snoc:
  "calls_after i calls (xs @ [x]) =
     (case call_key x of Some k \<Rightarrow> (k, i + length xs) # calls_after i calls xs | None \<Rightarrow> calls_after i calls xs)"
  by (induction xs arbitrary: i calls) (auto split: option.splits)

lemma calls_after_latest:
  "j \<le> length xs \<Longrightarrow> c < j \<Longrightarrow> call_key (xs ! c) = Some k \<Longrightarrow>
     \<forall>i. c < i \<and> i < j \<longrightarrow> call_key (xs ! i) \<noteq> Some k \<Longrightarrow>
     map_of (calls_after 0 [] (take j xs)) k = Some c"
proof (induction j)
  case (Suc j)
  have tk: "take (Suc j) xs = take j xs @ [xs ! j]" using Suc.prems by (simp add: take_Suc_conv_app_nth)
  have len: "length (take j xs) = j" using Suc.prems by simp
  show ?case
  proof (cases "c = j")
    case True
    with Suc.prems show ?thesis by (simp add: tk calls_after_snoc len)
  next
    case False
    with Suc.prems have "c < j" "call_key (xs ! j) \<noteq> Some k" by auto
    with Suc show ?thesis by (auto simp: tk calls_after_snoc split: option.splits)
  qed
qed simp

lemma answers_dependency: "answers input j c \<Longrightarrow> dependencies 0 [] input ! j = Some c"
  using calls_after_latest [of j input c] by (auto simp: answers_def dependencies_nth)

section \<open>The cut\<close>

lemma close_dependencies_le: "close_dependencies deps i f \<le> f"
  by (induction deps i f rule: close_dependencies.induct) (auto split: option.splits)

lemma close_dependencies_closed:
  assumes "\<And>j c. i \<le> j \<Longrightarrow> j < n \<Longrightarrow> deps ! j = Some c \<Longrightarrow> f \<le> c"
    and "close_dependencies deps i f \<le> j" and "j < n" and "deps ! j = Some c"
  shows "close_dependencies deps i f \<le> c"
  using assms
proof (induction deps i f arbitrary: j c rule: close_dependencies.induct)
  case (1 deps f)
  then show ?case by simp
next
  case (2 deps i f)
  show ?case
  proof (cases "i < f")
    case True
    with "2.prems" have "Suc i \<le> j" by simp
    with "2.prems"(1,3,4) True show ?thesis by simp
  next
    case False
    let ?g = "case deps ! i of Some c \<Rightarrow> min f c | None \<Rightarrow> f"
    have g: "?g \<le> d" if "i \<le> k" "k < n" "deps ! k = Some d" for k d
      using "2.prems"(1) [of k d] that by (cases "k = i") (auto split: option.splits)
    from "2.IH" [OF False g] "2.prems"(2-4) False show ?thesis by simp
  qed
qed

lemma back_while_le: "back_while p xs f \<le> f"
  by (induction f) auto

lemma back_while_all: "back_while p xs f \<le> i \<Longrightarrow> i < f \<Longrightarrow> p (xs ! i)"
proof (induction f)
  case (Suc f)
  then show ?case by (cases "i = f") (auto split: if_splits)
qed simp

lemma back_while_stop: "back_while p xs f = 0 \<or> \<not> p (xs ! (back_while p xs f - 1))"
  by (induction f) auto

lemma type_in_unwanted:
  assumes "type_in CALL_TYPES x \<or> type_in REASONING_TYPES x"
  shows "wanted_key x = None"
proof -
  have "map_of OUTPUT_CALL_TYPES t = None" if "t \<in> set REASONING_TYPES" for t
    using that by (auto simp: REASONING_TYPES_def OUTPUT_CALL_TYPES_def)
  with assms show ?thesis
    by (auto simp: type_in_def wanted_key_def item_key_def simp del: as_str_Some split: option.splits)
qed

lemma find_frontier_parts:
  obtains f1 where "find_frontier input sizes tb slack \<le> f1"
    "f1 \<le> fst (walk_back sizes tb (length input) 0)"
    "find_frontier input sizes tb slack = f1 \<and> (f1 = 0 \<or> f1 = length input) \<or>
     find_frontier input sizes tb slack = back_while (type_in REASONING_TYPES) input
        (back_while (type_in CALL_TYPES) input (close_dependencies (dependencies 0 [] input) (length input) f1))"
proof -
  obtain f0 a where w: "walk_back sizes tb (length input) 0 = (f0, a)" by fastforce
  let ?f1 = "if a > 0 then f0 - slack else f0"
  have "find_frontier input sizes tb slack \<le> ?f1"
    using back_while_le close_dependencies_le le_trans
    by (auto simp: find_frontier_def w Let_def) (meson le_trans)+
  with that [of ?f1] w show thesis by (auto simp: find_frontier_def Let_def)
qed

lemma walk_back_le: "fst (walk_back sizes tb f a) \<le> f"
  by (induction sizes tb f a rule: walk_back.induct) (auto simp: le_SucI)

text \<open>No kept output is left without its call.\<close>

lemma frontier_keeps_calls:
  assumes "answers input j c" and "find_frontier input sizes tb slack \<le> j"
  shows "find_frontier input sizes tb slack \<le> c"
proof -
  obtain f1 where f1: "find_frontier input sizes tb slack \<le> f1" "f1 \<le> length input"
    "find_frontier input sizes tb slack = f1 \<and> (f1 = 0 \<or> f1 = length input) \<or>
     find_frontier input sizes tb slack = back_while (type_in REASONING_TYPES) input
        (back_while (type_in CALL_TYPES) input (close_dependencies (dependencies 0 [] input) (length input) f1))"
    using find_frontier_parts [of input sizes tb slack] walk_back_le le_trans by metis
  have j: "j < length input" "c < j" "wanted_key (input ! j) \<noteq> None" using assms(1) by (auto simp: answers_def)
  from f1(3) show ?thesis
  proof
    assume "find_frontier input sizes tb slack = f1 \<and> (f1 = 0 \<or> f1 = length input)"
    with assms(2) j show ?thesis by auto
  next
    let ?f2 = "close_dependencies (dependencies 0 [] input) (length input) f1"
    let ?f3 = "back_while (type_in CALL_TYPES) input ?f2"
    assume f: "find_frontier input sizes tb slack = back_while (type_in REASONING_TYPES) input ?f3"
    have f3: "?f3 \<le> j"
    proof (rule ccontr)
      assume "\<not> ?f3 \<le> j"
      with back_while_all [of "type_in REASONING_TYPES" input ?f3 j] assms(2) j(3) type_in_unwanted
      show False by (auto simp: f)
    qed
    have "?f2 \<le> j"
    proof (rule ccontr)
      assume "\<not> ?f2 \<le> j"
      with back_while_all [of "type_in CALL_TYPES" input ?f2 j] f3 j(3) type_in_unwanted
      show False by auto
    qed
    with close_dependencies_closed [of "length input" "length input" "dependencies 0 [] input" f1 j c]
      answers_dependency [OF assms(1)] j have "?f2 \<le> c" by simp
    then show ?thesis using back_while_le le_trans unfolding f by metis
  qed
qed

text \<open>The tail reaches the budget.\<close>

lemma walk_back_tail:
  assumes "walk_back sizes tb f a = (g, w)" and "f \<le> length sizes"
    and "a = int (sum_list (drop f sizes))"
  shows "w = int (sum_list (drop g sizes)) \<and> (g = 0 \<or> tb \<le> w)"
  using assms
proof (induction sizes tb f a rule: walk_back.induct)
  case (2 sizes tb f a)
  show ?case
  proof (cases "a < tb")
    case True
    have "drop f sizes = sizes ! f # drop (Suc f) sizes" using "2.prems"(2) by (simp add: Cons_nth_drop_Suc)
    with 2 True show ?thesis by auto
  next
    case False
    with 2 show ?thesis by auto
  qed
qed simp

lemma int_sum_list: "int (sum_list (map f xs)) = sum_list (map (\<lambda>x. int (f x)) xs)"
  by (induction xs) simp_all

lemma sum_bytes_drop: "sum_bytes (drop f xs) = int (sum_list (drop f (map json_bytes xs)))"
  by (simp add: sum_bytes_def drop_map int_sum_list)


lemma frontier_tail:
  "min tb (sum_bytes xs) \<le> sum_bytes (drop (find_frontier xs (map json_bytes xs) tb slack) xs)"
proof -
  let ?s = "map json_bytes xs"
  obtain g w where gw: "walk_back ?s tb (length xs) 0 = (g, w)" by fastforce
  have "w = sum_bytes (drop g xs) \<and> (g = 0 \<or> tb \<le> w)"
    using walk_back_tail [OF gw] by (auto simp: sum_bytes_drop)
  then have w: "w = sum_bytes (drop g xs)" "g = 0 \<or> tb \<le> w" by blast+
  then have g: "min tb (sum_bytes xs) \<le> sum_bytes (drop g xs)" by auto
  obtain f1 where "find_frontier xs ?s tb slack \<le> f1" "f1 \<le> g"
    using find_frontier_parts [of xs ?s tb slack] gw by (metis fst_conv)
  then have le: "find_frontier xs ?s tb slack \<le> g" by simp
  have "sum_bytes (drop g xs) \<le> sum_bytes (drop f xs)" if "f \<le> g" for f
  proof -
    have "drop f xs = take (g - f) (drop f xs) @ drop g xs"
      using that by (metis append_take_drop_id drop_drop le_add_diff_inverse2)
    then have "sum_bytes (drop f xs) = sum_bytes (take (g - f) (drop f xs)) + sum_bytes (drop g xs)"
      by (metis sum_bytes_def map_append sum_list_append)
    moreover have "0 \<le> sum_bytes ys" for ys by (auto simp: sum_bytes_def intro!: sum_list_nonneg)
    ultimately show ?thesis by (smt (verit))
  qed
  with le g show ?thesis by force
qed

section \<open>What the window keeps\<close>

definition kept :: "nat option \<Rightarrow> nat \<Rightarrow> json list \<Rightarrow> nat set" where
  "kept latest f xs = {i. i < length xs \<and> (pinned latest i (xs ! i) \<or> f \<le> i)}"

lemma emit_items_nths:
  "emit_items latest f i xs =
     (nths xs {k. pinned latest (k + i) (xs ! k) \<or> f \<le> k + i},
      length xs - length (nths xs {k. pinned latest (k + i) (xs ! k) \<or> f \<le> k + i}))"
proof (induction xs arbitrary: i)
  case (Cons x xs)
  let ?A = "{k. pinned latest (k + Suc i) (xs ! k) \<or> f \<le> k + Suc i}"
  have A: "{j. Suc j \<in> {k. pinned latest (k + i) ((x # xs) ! k) \<or> f \<le> k + i}} = ?A" by auto
  have "length (nths xs ?A) \<le> length xs" 
    using subseq_conv_nths [of "nths xs ?A" xs] list_emb_length by blast
  with Cons.IH [of "Suc i"] A show ?case by (auto simp: nths_Cons Let_def)
qed simp


lemma nths_all: "nths xs {k. k < length xs} = xs"
  by (rule nths_all) simp

lemma nths_within: "nths xs {i. i < length xs \<and> P i} = nths xs {i. P i}"
proof -
  have "map fst (filter (\<lambda>p. snd p \<in> {i. i < length xs \<and> P i}) (zip xs [0..<length xs])) =
    map fst (filter (\<lambda>p. snd p \<in> {i. P i}) (zip xs [0..<length xs]))"
    by (rule arg_cong [where f = "map fst"], rule filter_cong) (auto simp: set_zip)
  then show ?thesis by (simp add: nths_def)
qed

lemma emit_items_kept:
  "emit_items latest f 0 xs = (nths xs (kept latest f xs), length xs - length (nths xs (kept latest f xs)))"
  using emit_items_nths [of latest f 0 xs] by (simp add: kept_def nths_within)

text \<open>The result of the pass, whichever way it ends.\<close>

lemma window_cases:
  obtains (same) st where "window_conversation opts (JArr xs) = (JArr xs, st)" "ws_items_dropped st = 0"
      "ws_bytes_saved st = 0"
  | (cut) st where "window_conversation opts (JArr xs) = (JArr (nths xs (kept (last_user_index xs)
        (find_frontier xs (map json_bytes xs) (wo_tail_bytes opts) (wo_slack opts)) xs)), st)"
      "ws_items_dropped st = length xs - length (nths xs (kept (last_user_index xs)
        (find_frontier xs (map json_bytes xs) (wo_tail_bytes opts) (wo_slack opts)) xs))"
      "ws_bytes_before st = sum_bytes xs"
      "ws_bytes_after st = sum_bytes (nths xs (kept (last_user_index xs)
        (find_frontier xs (map json_bytes xs) (wo_tail_bytes opts) (wo_slack opts)) xs))"
      "ws_bytes_saved st = ws_bytes_before st - ws_bytes_after st"
proof (cases "\<not> wo_enabled opts \<or> xs = [] \<or> sum_bytes xs \<le> wo_min_total_bytes opts \<or>
    find_frontier xs (map json_bytes xs) (wo_tail_bytes opts) (wo_slack opts) = 0")
  case True
  have "\<exists>st. window_conversation opts (JArr xs) = (JArr xs, st) \<and> ws_items_dropped st = 0 \<and> ws_bytes_saved st = 0"
    using True by (auto simp: window_conversation_def empty_stats_def Let_def)
  with same show thesis by blast
next
  case False
  have "\<exists>st. window_conversation opts (JArr xs) = (JArr (nths xs (kept (last_user_index xs)
        (find_frontier xs (map json_bytes xs) (wo_tail_bytes opts) (wo_slack opts)) xs)), st) \<and>
      ws_items_dropped st = length xs - length (nths xs (kept (last_user_index xs)
        (find_frontier xs (map json_bytes xs) (wo_tail_bytes opts) (wo_slack opts)) xs)) \<and>
      ws_bytes_before st = sum_bytes xs \<and>
      ws_bytes_after st = sum_bytes (nths xs (kept (last_user_index xs)
        (find_frontier xs (map json_bytes xs) (wo_tail_bytes opts) (wo_slack opts)) xs)) \<and>
      ws_bytes_saved st = ws_bytes_before st - ws_bytes_after st"
    using False by (simp add: window_conversation_def Let_def emit_items_kept)
  with cut show thesis by blast
qed

lemma wanted_type:
  "wanted_key x = Some k \<Longrightarrow> \<exists>t. obj_get x ''type'' = Some (JStr t) \<and> map_of OUTPUT_CALL_TYPES t \<noteq> None"
  by (auto simp: wanted_key_def item_key_def split: option.splits if_splits)

lemma pinned_unanswering:
  assumes "is_instruction x \<or> carries_compacted_history x \<or> is_user_message x"
  shows "wanted_key x = None"
proof -
  have t: "\<exists>t. obj_get x ''type'' = Some (JStr t) \<and> t \<in> set (''message'' # COMPACTION_TYPES)"
    using assms by (auto simp: is_instruction_def carries_compacted_history_def is_user_message_def
        is_type_def type_in_def split: option.splits)
  have "map_of OUTPUT_CALL_TYPES t = None" if "t \<in> set (''message'' # COMPACTION_TYPES)" for t
    using that by (auto simp: COMPACTION_TYPES_def OUTPUT_CALL_TYPES_def)
  with t wanted_type show ?thesis by (cases "wanted_key x") fastforce+
qed

lemma last_index_Some: "last_index p xs = Some i \<Longrightarrow> i < length xs \<and> p (xs ! i)"
  by (induction xs arbitrary: i) (auto split: option.splits if_splits)

text \<open>The indices of the items that the pass lets through.\<close>

definition window_kept :: "window_options \<Rightarrow> json list \<Rightarrow> nat set" where
  "window_kept opts xs =
     (let f = find_frontier xs (map json_bytes xs) (wo_tail_bytes opts) (wo_slack opts) in
      if \<not> wo_enabled opts \<or> xs = [] \<or> sum_bytes xs \<le> wo_min_total_bytes opts \<or> f = 0
      then set [0..<length xs]
      else set (filter (\<lambda>i. pinned (last_user_index xs) i (xs ! i) \<or> f \<le> i) [0..<length xs]))"

lemma window_kept_cut:
  "window_kept opts xs = set [0..<length xs] \<or>
   window_kept opts xs = kept (last_user_index xs)
     (find_frontier xs (map json_bytes xs) (wo_tail_bytes opts) (wo_slack opts)) xs"
  by (auto simp: window_kept_def kept_def Let_def)

lemma window_out: "fst (window_conversation opts (JArr xs)) = JArr (nths xs (window_kept opts xs))"
proof (cases "\<not> wo_enabled opts \<or> xs = [] \<or> sum_bytes xs \<le> wo_min_total_bytes opts \<or>
    find_frontier xs (map json_bytes xs) (wo_tail_bytes opts) (wo_slack opts) = 0")
  case True
  then have "window_kept opts xs = {k. k < length xs}" by (auto simp: window_kept_def Let_def)
  then have "nths xs (window_kept opts xs) = xs" by (simp only: nths_all)
  moreover have "fst (window_conversation opts (JArr xs)) = JArr xs"
    using True by (auto simp: window_conversation_def Let_def)
  ultimately show ?thesis by simp
next
  case False
  then have "window_kept opts xs = kept (last_user_index xs)
     (find_frontier xs (map json_bytes xs) (wo_tail_bytes opts) (wo_slack opts)) xs"
    by (auto simp: window_kept_def kept_def Let_def)
  with False show ?thesis by (simp add: window_conversation_def Let_def emit_items_kept)
qed

section \<open>Properties\<close>

text \<open>C3: what survives is closed under calls: an output that is kept keeps the call it answers, the
  latest earlier call of its call type and id.\<close>

theorem window_keeps_calls:
  assumes a: "answers xs j c" and k: "j \<in> window_kept opts xs"
  shows "fst (window_conversation opts (JArr xs)) = JArr (nths xs (window_kept opts xs)) \<and>
    c \<in> window_kept opts xs"
proof (cases "window_kept opts xs = set [0..<length xs]")
  case True
  with a window_out show ?thesis by (simp add: answers_def)
next
  case False
  let ?f = "find_frontier xs (map json_bytes xs) (wo_tail_bytes opts) (wo_slack opts)"
  from False window_kept_cut have eq: "window_kept opts xs = kept (last_user_index xs) ?f xs" by blast
  have w: "wanted_key (xs ! j) \<noteq> None" "c < length xs" using a by (auto simp: answers_def)
  have "\<not> pinned (last_user_index xs) j (xs ! j)"
    using w pinned_unanswering [of "xs ! j"] last_index_Some [of is_user_message xs j]
    by (auto simp: pinned_def last_user_index_def)
  with k have "?f \<le> j" by (simp add: kept_def eq)
  with frontier_keeps_calls [OF a] w window_out show ?thesis by (simp add: eq kept_def)
qed

text \<open>the pinned items and the newest slice survive: every instruction, every carrier of
  compacted history and the newest user message are kept, and so is a suffix of the conversation
  that reaches the byte budget or is all of it.\<close>

theorem window_keeps_tail:
  "fst (window_conversation opts (JArr xs)) = JArr (nths xs (window_kept opts xs)) \<and>
   set (filter (\<lambda>i. pinned (last_user_index xs) i (xs ! i)) [0..<length xs]) \<subseteq> window_kept opts xs \<and>
   (\<exists>f. {f..<length xs} \<subseteq> window_kept opts xs \<and>
      min (wo_tail_bytes opts) (sum_bytes xs) \<le> sum_bytes (drop f xs))"
proof (cases "window_kept opts xs = set [0..<length xs]")
  case True
  then have "{0..<length xs} \<subseteq> window_kept opts xs" by simp
  with True window_out show ?thesis by (auto intro!: exI [of _ 0])
next
  case False
  let ?f = "find_frontier xs (map json_bytes xs) (wo_tail_bytes opts) (wo_slack opts)"
  from False window_kept_cut have eq: "window_kept opts xs = kept (last_user_index xs) ?f xs" by blast
  have "{?f..<length xs} \<subseteq> window_kept opts xs" by (auto simp: eq kept_def)
  with frontier_tail [of "wo_tail_bytes opts" xs "wo_slack opts"]
  have "\<exists>f. {f..<length xs} \<subseteq> window_kept opts xs \<and>
      min (wo_tail_bytes opts) (sum_bytes xs) \<le> sum_bytes (drop f xs)" by blast
  with window_out show ?thesis by (auto simp: eq kept_def)
qed

text \<open>the statistics are true: the number of items dropped and the bytes saved are the
  differences between the conversation that came and the one that leaves.\<close>

theorem window_accounts:
  "\<exists>ys st. window_conversation opts (JArr xs) = (JArr ys, st) \<and> subseq ys xs \<and>
     ws_items_dropped st = length xs - length ys \<and> ws_bytes_saved st = sum_bytes xs - sum_bytes ys"
proof (cases rule: window_cases [of opts xs])
  case (same st)
  then show ?thesis by auto
next
  case (cut st)
  then show ?thesis by (auto simp: subseq_conv_nths)
qed

text \<open>An agentic turn: two calls, their results out of order, a request, and a small budget that
  lands between the call and its result.\<close>

definition sample_item :: "string \<Rightarrow> string \<Rightarrow> json" where
  "sample_item t c = JObj [(''type'', JStr t), (''call_id'', JStr c)]"

definition sample_conversation :: "json list" where
  "sample_conversation =
    [JObj [(''type'', JStr ''message''), (''role'', JStr ''assistant'')],
     sample_item ''function_call'' ''a'', sample_item ''function_call'' ''b'',
     JObj [(''type'', JStr ''message''), (''role'', JStr ''user'')],
     sample_item ''function_call_output'' ''b'', sample_item ''function_call_output'' ''a'']"

definition sample_options :: window_options where
  "sample_options = default_options\<lparr>wo_tail_bytes := 10, wo_slack := 0\<rparr>"

lemma sample_conversation_facts:
  "wanted_key (sample_conversation ! 5) = call_key (sample_conversation ! 1)"
  "call_key (sample_conversation ! 1) = Some (''function_call'', ''a'')"
  "\<forall>i \<in> set [2..<5]. call_key (sample_conversation ! i) \<noteq> Some (''function_call'', ''a'')"
  "length sample_conversation = 6" "5 \<in> window_kept sample_options sample_conversation"
  "window_kept sample_options sample_conversation = {1, 2, 3, 4, 5}"
  by code_simp+

lemma window_keeps_calls_witness:
  "fst (window_conversation sample_options (JArr sample_conversation)) =
     JArr (nths sample_conversation (window_kept sample_options sample_conversation)) \<and>
   1 \<in> window_kept sample_options sample_conversation"
proof (rule window_keeps_calls)
  have "i = 2 \<or> i = 3 \<or> i = 4" if "1 < i" "i < 5" for i :: nat using that by linarith
  then have "\<forall>i. 1 < i \<and> i < 5 \<longrightarrow> i \<in> set [2..<5]" by auto
  then have "\<forall>i. 1 < i \<and> i < 5 \<longrightarrow> call_key (sample_conversation ! i) \<noteq> Some (''function_call'', ''a'')"
    using sample_conversation_facts(3) by blast
  then show "answers sample_conversation 5 1"
    unfolding answers_def using sample_conversation_facts(1,2,4)
    by (intro conjI exI [of _ "(''function_call'', ''a'')"]) simp_all
  show "5 \<in> window_kept sample_options sample_conversation" by (rule sample_conversation_facts)
qed

end
