(* ===== verification/Upstream_Retry.thy ===== *)
theory Upstream_Retry
  imports Router_Prelude Complex_Main
begin

text \<open>
  \<open>upstream-retry.mjs\<close>: the bounded retry of a request that failed before any byte of the response
  reached the caller. What surrounds the loop (the upstream, the clock, the caller's signal) is an
  environment that answers by attempt. The lemmas show that a request is sent again only after a
  failure that is retryable, how often, and how long the waits can add up to.
\<close>

section \<open>Configuration\<close>

definition DEFAULT_RETRIES :: int where "DEFAULT_RETRIES = 2"
definition DEFAULT_BACKOFF_MS :: int where "DEFAULT_BACKOFF_MS = 250"
definition BACKOFF_FACTOR :: int where "BACKOFF_FACTOR = 3"
definition DEFAULT_BUDGET_MS :: int where "DEFAULT_BUDGET_MS = 5000"
definition MAX_RETRIES :: int where "MAX_RETRIES = 5"
definition MAX_BACKOFF_MS :: int where "MAX_BACKOFF_MS = 5000"
definition MAX_BUDGET_MS :: int where "MAX_BUDGET_MS = 60000"
definition MAX_CAUSE_DEPTH :: nat where "MAX_CAUSE_DEPTH = 8"

text \<open>\<open>clampedInteger\<close>; the first argument is \<open>Number(raw)\<close>, absent when it is not finite.\<close>

definition clamped_integer :: "rat option \<Rightarrow> int \<Rightarrow> int \<Rightarrow> int \<Rightarrow> int" where
  "clamped_integer value fallback lo hi =
     (case value of None \<Rightarrow> fallback | Some v \<Rightarrow> min hi (max lo \<lfloor>v\<rfloor>))"

definition native_retry_limit :: "rat option \<Rightarrow> int" where
  "native_retry_limit raw = clamped_integer raw DEFAULT_RETRIES 0 MAX_RETRIES"

definition native_retry_backoff_ms :: "rat option \<Rightarrow> int" where
  "native_retry_backoff_ms raw = clamped_integer raw DEFAULT_BACKOFF_MS 0 MAX_BACKOFF_MS"

definition native_retry_budget_ms :: "rat option \<Rightarrow> int" where
  "native_retry_budget_ms raw = clamped_integer raw DEFAULT_BUDGET_MS 0 MAX_BUDGET_MS"

section \<open>Which failures are retryable\<close>

definition RETRYABLE_STATUSES :: "int list" where
  "RETRYABLE_STATUSES = [502, 503, 504, 520, 521, 522, 523, 524]"

definition RETRYABLE_ERROR_CODES :: "string list" where
  "RETRYABLE_ERROR_CODES =
    [''EADDRNOTAVAIL'', ''ECONNABORTED'', ''ECONNREFUSED'', ''ECONNRESET'', ''EAI_AGAIN'',
     ''EHOSTUNREACH'', ''ENETDOWN'', ''ENETUNREACH'', ''ENOBUFS'', ''ENOTFOUND'', ''EPIPE'',
     ''ETIMEDOUT'', ''UND_ERR_CONNECT_TIMEOUT'', ''UND_ERR_HEADERS_TIMEOUT'', ''UND_ERR_SOCKET'']"

text \<open>What the loop reads of an error: its name, whether it carries a status, its code, its cause.\<close>

datatype js_error = JsError (err_name: "string option") (err_status: bool) (err_code: "string option")
  (err_cause: "js_error option")

definition is_retryable_status :: "int option \<Rightarrow> bool" where
  "is_retryable_status status \<longleftrightarrow> (case status of Some s \<Rightarrow> s \<in> set RETRYABLE_STATUSES | None \<Rightarrow> False)"

fun has_retryable_code :: "nat \<Rightarrow> js_error option \<Rightarrow> bool" where
  "has_retryable_code 0 cause = False"
| "has_retryable_code (Suc depth) None = False"
| "has_retryable_code (Suc depth) (Some e) =
     ((case err_code e of Some c \<Rightarrow> c \<in> set RETRYABLE_ERROR_CODES | None \<Rightarrow> False) \<or>
      has_retryable_code depth (err_cause e))"

definition is_retryable_transport_error :: "js_error \<Rightarrow> bool" where
  "is_retryable_transport_error e \<longleftrightarrow>
     err_name e \<notin> {Some ''AbortError'', Some ''TimeoutError''} \<and> \<not> err_status e \<and>
     has_retryable_code MAX_CAUSE_DEPTH (Some e)"

section \<open>The loop\<close>

datatype attempt = Responded "int option" | Failed js_error

text \<open>What the environment answers around attempt \<open>n\<close> (0 is the first).\<close>

record retry_env =
  sent :: "nat \<Rightarrow> attempt"
  started_at :: int
  clock :: "nat \<Rightarrow> int"
  signal_aborted :: "nat \<Rightarrow> bool"
  can_retry :: "nat \<Rightarrow> bool"
  aborted_in_sleep :: "nat \<Rightarrow> bool"

datatype settled = Response "int option" nat | Throw js_error | AbortThrown

record retry_result =
  outcome :: settled
  sends :: nat
  delays :: "int list"

definition settle_attempt :: "attempt \<Rightarrow> nat \<Rightarrow> settled" where
  "settle_attempt a retries = (case a of Responded s \<Rightarrow> Response s retries | Failed e \<Rightarrow> Throw e)"

definition retryable :: "attempt \<Rightarrow> bool" where
  "retryable a = (case a of Failed e \<Rightarrow> is_retryable_transport_error e | Responded s \<Rightarrow> is_retryable_status s)"

text \<open>\<open>fetchWithRetry\<close>; \<open>sends\<close> counts the requests, \<open>delays\<close> lists the waits.\<close>

function fetch_with_retry :: "retry_env \<Rightarrow> int \<Rightarrow> int \<Rightarrow> int \<Rightarrow> nat \<Rightarrow> retry_result" where
  "fetch_with_retry env retries backoff budget n =
     (let a = sent env n; done = \<lparr>outcome = settle_attempt a n, sends = 1, delays = []\<rparr> in
      if int n \<ge> retries then done
      else if \<not> retryable a then done
      else if signal_aborted env n \<or> \<not> can_retry env n then done
      else if clock env n - started_at env \<ge> budget then done
      else
        let delay = backoff * BACKOFF_FACTOR ^ n in
        if aborted_in_sleep env n then \<lparr>outcome = AbortThrown, sends = 1, delays = [delay]\<rparr>
        else let r = fetch_with_retry env retries backoff budget (Suc n)
             in r\<lparr>sends := Suc (sends r), delays := delay # delays r\<rparr>)"
  by pat_completeness auto
termination
  by (relation "measure (\<lambda>(env, retries, b, c, n). nat (retries - int n))") auto

declare fetch_with_retry.simps [simp del]

section \<open>How the loop ends\<close>

text \<open>Attempt \<open>n\<close> was worth another one.\<close>

definition goes_on :: "retry_env \<Rightarrow> int \<Rightarrow> nat \<Rightarrow> bool" where
  "goes_on env budget n \<longleftrightarrow> retryable (sent env n) \<and> \<not> signal_aborted env n \<and> can_retry env n \<and>
     clock env n - started_at env < budget"

lemma fetch_with_retry_run:
  "\<exists>m. (let r = fetch_with_retry env retries backoff budget n in
     sends r = Suc m \<and> int (n + m) \<le> max (int n) retries \<and>
     (\<forall>k. n \<le> k \<and> k < n + m \<longrightarrow> goes_on env budget k \<and> \<not> aborted_in_sleep env k) \<and>
     (outcome r = settle_attempt (sent env (n + m)) (n + m) \<and>
        delays r = map (\<lambda>k. backoff * BACKOFF_FACTOR ^ k) [n..<n + m] \<or>
      outcome r = AbortThrown \<and> aborted_in_sleep env (n + m) \<and> goes_on env budget (n + m) \<and>
        int (n + m) < retries \<and>
        delays r = map (\<lambda>k. backoff * BACKOFF_FACTOR ^ k) [n..<Suc (n + m)]))"
proof (induction env retries backoff budget n rule: fetch_with_retry.induct)
  case (1 env retries backoff budget n)
  note unfold = fetch_with_retry.simps [of env retries backoff budget n]
  show ?case
  proof (cases "int n \<ge> retries \<or> \<not> goes_on env budget n")
    case True
    then show ?thesis by (intro exI [of _ 0]) (auto simp: unfold goes_on_def Let_def)
  next
    case go: False
    show ?thesis
    proof (cases "aborted_in_sleep env n")
      case True
      with go show ?thesis by (intro exI [of _ 0]) (auto simp: unfold goes_on_def Let_def)
    next
      case False
      let ?r = "fetch_with_retry env retries backoff budget (Suc n)"
      have step: "fetch_with_retry env retries backoff budget n =
          ?r\<lparr>sends := Suc (sends ?r), delays := backoff * BACKOFF_FACTOR ^ n # delays ?r\<rparr>"
        using go False by (simp add: unfold goes_on_def Let_def)
      have "\<exists>m. (let r = ?r in
         sends r = Suc m \<and> int (Suc n + m) \<le> max (int (Suc n)) retries \<and>
         (\<forall>k. Suc n \<le> k \<and> k < Suc n + m \<longrightarrow> goes_on env budget k \<and> \<not> aborted_in_sleep env k) \<and>
         (outcome r = settle_attempt (sent env (Suc n + m)) (Suc n + m) \<and>
            delays r = map (\<lambda>k. backoff * BACKOFF_FACTOR ^ k) [Suc n..<Suc n + m] \<or>
          outcome r = AbortThrown \<and> aborted_in_sleep env (Suc n + m) \<and> goes_on env budget (Suc n + m) \<and>
            int (Suc n + m) < retries \<and>
            delays r = map (\<lambda>k. backoff * BACKOFF_FACTOR ^ k) [Suc n..<Suc (Suc n + m)]))"
        using go False by (intro "1.IH" [OF refl refl]) (auto simp: goes_on_def)
      then obtain m where m: "sends ?r = Suc m" "int (Suc n + m) \<le> max (int (Suc n)) retries"
        "\<forall>k. Suc n \<le> k \<and> k < Suc n + m \<longrightarrow> goes_on env budget k \<and> \<not> aborted_in_sleep env k"
        "outcome ?r = settle_attempt (sent env (Suc n + m)) (Suc n + m) \<and>
            delays ?r = map (\<lambda>k. backoff * BACKOFF_FACTOR ^ k) [Suc n..<Suc n + m] \<or>
          outcome ?r = AbortThrown \<and> aborted_in_sleep env (Suc n + m) \<and> goes_on env budget (Suc n + m) \<and>
            int (Suc n + m) < retries \<and>
            delays ?r = map (\<lambda>k. backoff * BACKOFF_FACTOR ^ k) [Suc n..<Suc (Suc n + m)]"
        unfolding Let_def by blast
      have "\<forall>k. n \<le> k \<and> k < n + Suc m \<longrightarrow> goes_on env budget k \<and> \<not> aborted_in_sleep env k"
        using m(3) go False by (metis add_Suc_right add_Suc not_less_eq_eq le_antisym)
      with m(1,2,4) go show ?thesis
        by (intro exI [of _ "Suc m"]) (auto simp: step upt_conv_Cons Let_def simp del: upt_Suc)
    qed
  qed
qed


lemma delays_within:
  assumes "0 \<le> backoff" and "0 \<le> retries"
  shows "\<exists>m. int m \<le> retries \<and> delays (fetch_with_retry env retries backoff budget 0) =
    map (\<lambda>k. backoff * BACKOFF_FACTOR ^ k) [0..<m]"
proof -
  obtain m where m: "int m \<le> max 0 retries"
    "delays (fetch_with_retry env retries backoff budget 0) = map (\<lambda>k. backoff * BACKOFF_FACTOR ^ k) [0..<m] \<or>
     int m < retries \<and> delays (fetch_with_retry env retries backoff budget 0) =
       map (\<lambda>k. backoff * BACKOFF_FACTOR ^ k) [0..<Suc m]"
    using fetch_with_retry_run [of env retries backoff budget 0] unfolding Let_def by auto
  with assms(2) show ?thesis by (elim disjE) (auto intro: exI [of _ m] exI [of _ "Suc m"] simp del: upt_Suc)
qed

lemma geometric: "2 * sum_list (map (\<lambda>k. b * BACKOFF_FACTOR ^ k) [0..<m]) = b * (3 ^ m - 1)"
  by (induction m) (simp_all add: BACKOFF_FACTOR_def algebra_simps)

section \<open>Properties\<close>

text \<open>C13: a request is sent again only after a failure that is retryable, that was cheap, and whose
  caller is still there and has been sent nothing; never more than \<open>retries\<close> times; and what the
  caller sees is what the last attempt brought, or the caller's own abort.\<close>

theorem retry_only_after_retryable:
  "\<exists>m. sends (fetch_with_retry env retries backoff budget 0) = Suc m \<and> int m \<le> max 0 retries \<and>
     {..<m} \<subseteq> {k. goes_on env budget k} \<and>
     outcome (fetch_with_retry env retries backoff budget 0) \<in> {settle_attempt (sent env m) m, AbortThrown}"
proof -
  obtain m where "sends (fetch_with_retry env retries backoff budget 0) = Suc m" "int m \<le> max 0 retries"
    "\<forall>k < m. goes_on env budget k"
    "outcome (fetch_with_retry env retries backoff budget 0) = settle_attempt (sent env m) m \<or>
     outcome (fetch_with_retry env retries backoff budget 0) = AbortThrown"
    using fetch_with_retry_run [of env retries backoff budget 0] unfolding Let_def by auto
  then show ?thesis by auto
qed

text \<open>the waits of a request add up to at most \<open>backoff * (3 ^ retries - 1) / 2\<close>.\<close>

theorem retry_wait_bound:
  assumes "0 \<le> backoff" and "0 \<le> retries"
  shows "2 * sum_list (delays (fetch_with_retry env retries backoff budget 0)) \<le> backoff * (3 ^ nat retries - 1)"
proof -
  obtain m where m: "int m \<le> retries" "delays (fetch_with_retry env retries backoff budget 0) =
    map (\<lambda>k. backoff * BACKOFF_FACTOR ^ k) [0..<m]"
    using delays_within [OF assms] by blast
  have "(3::int) ^ m \<le> 3 ^ nat retries" using m(1) by (intro power_increasing) auto
  then have "(3::int) ^ m - 1 \<le> 3 ^ nat retries - 1" by linarith
  then have "backoff * (3 ^ m - 1) \<le> backoff * (3 ^ nat retries - 1)"
    using assms(1) by (rule mult_left_mono)
  with geometric [of backoff m] m(2) show ?thesis by simp
qed

text \<open>with the defaults, three requests and a second of waiting are the most a turn costs.\<close>

theorem default_retry_cost:
  "sends (fetch_with_retry env (native_retry_limit None) (native_retry_backoff_ms None) budget 0) \<le> 3 \<and>
   sum_list (delays (fetch_with_retry env (native_retry_limit None) (native_retry_backoff_ms None) budget 0)) \<le> 1000"
proof -
  have c: "native_retry_limit None = 2" "native_retry_backoff_ms None = 250"
    by (simp_all add: native_retry_limit_def native_retry_backoff_ms_def clamped_integer_def
        DEFAULT_RETRIES_def DEFAULT_BACKOFF_MS_def)
  obtain m where "int m \<le> 2" "sends (fetch_with_retry env 2 250 budget 0) = Suc m"
    using fetch_with_retry_run [of env 2 250 budget 0] unfolding Let_def by auto
  moreover obtain k where k: "int k \<le> 2" "delays (fetch_with_retry env 2 250 budget 0) =
    map (\<lambda>k. 250 * BACKOFF_FACTOR ^ k) [0..<k]"
    using delays_within [of 250 2] by auto
  moreover have "(3::int) ^ k \<le> 3 ^ 2" using k(1) by (intro power_increasing) auto
  ultimately show ?thesis using geometric [of 250 k] by (simp add: c)
qed

text \<open>an answer that is not retryable is relayed as it is, from one request.\<close>

theorem not_retryable_relayed:
  assumes "\<not> retryable (sent env 0)"
  shows "fetch_with_retry env retries backoff budget 0 =
    \<lparr>outcome = settle_attempt (sent env 0) 0, sends = 1, delays = []\<rparr>"
  using assms by (subst fetch_with_retry.simps) (simp add: Let_def)

text \<open>An environment that always answers 503, quickly; and one that answers 429.\<close>

definition steady_env :: "int \<Rightarrow> retry_env" where
  "steady_env status = \<lparr>sent = (\<lambda>n. Responded (Some status)), started_at = 0, clock = (\<lambda>n. 10 * int n),
     signal_aborted = (\<lambda>n. False), can_retry = (\<lambda>n. True), aborted_in_sleep = (\<lambda>n. False)\<rparr>"

lemma retry_wait_bound_witness:
  "2 * sum_list (delays (fetch_with_retry (steady_env 503) 2 250 5000 0)) \<le> 250 * (3 ^ nat 2 - 1)"
  by (rule retry_wait_bound) simp_all

lemma not_retryable_relayed_witness:
  "fetch_with_retry (steady_env 429) 2 250 5000 0 =
    \<lparr>outcome = Response (Some 429) 0, sends = 1, delays = []\<rparr>"
  using not_retryable_relayed [of "steady_env 429" 2 250 5000]
  by (simp add: steady_env_def retryable_def is_retryable_status_def RETRYABLE_STATUSES_def settle_attempt_def)

end
