(* ===== verification/Protobuf_Lite.thy ===== *)
theory Protobuf_Lite
  imports Utf8_Text "HOL-Library.Word"
begin

unbundle bit_operations_syntax

text \<open>
  \<open>protobuf-lite.mjs\<close>: the varint and length-delimited subset of protobuf that the Cursor edge
  uses, and the Connect envelope. Bytes are 8-bit words, a \<open>BigInt\<close> that the code keeps
  non-negative is a natural number, a thrown \<open>Error\<close> is the left of a sum. A decoder takes the
  bytes from its offset on and returns what it left.
\<close>

type_synonym byte = "8 word"

datatype pb_error =
    NegativeVarint | MalformedVarint | MalformedFieldNumber | TruncatedFixed64 | TruncatedFixed32
  | TruncatedLengthDelimited | UnsupportedWireType nat | TruncatedEnvelope | TruncatedEnvelopePayload
  | LengthOutOfRange

section \<open>Encoding\<close>

text \<open>The loop of \<open>encodeVarint\<close>.\<close>

function varint_bytes :: "nat \<Rightarrow> byte list" where
  "varint_bytes n =
     (let b = of_nat n AND 0x7F; rest = drop_bit 7 n
      in if rest = 0 then [b] else (b OR 0x80) # varint_bytes rest)"
  by pat_completeness auto
termination
  by (relation "measure id") (auto simp: drop_bit_eq_div)

declare varint_bytes.simps [simp del]

definition encode_varint :: "int \<Rightarrow> pb_error + byte list" where
  "encode_varint value = (if value < 0 then Inl NegativeVarint else Inr (varint_bytes (nat value)))"

definition encode_bytes_field :: "nat \<Rightarrow> byte list \<Rightarrow> byte list" where
  "encode_bytes_field number value =
     varint_bytes (push_bit 3 number OR 2) @ varint_bytes (length value) @ value"

definition encode_string_field :: "nat \<Rightarrow> string \<Rightarrow> byte list" where
  "encode_string_field number s = encode_bytes_field number (map of_char s)"

definition encode_message_field :: "nat \<Rightarrow> byte list \<Rightarrow> byte list" where
  "encode_message_field number value = encode_bytes_field number value"

definition encode_varint_field :: "nat \<Rightarrow> int \<Rightarrow> pb_error + byte list" where
  "encode_varint_field number value =
     (case encode_varint value of
        Inl e \<Rightarrow> Inl e
      | Inr v \<Rightarrow> Inr (varint_bytes (push_bit 3 number) @ v))"

text \<open>\<open>encodeDoubleField\<close>; the double is given by its eight little-endian bytes.\<close>

definition encode_double_field :: "nat \<Rightarrow> byte list \<Rightarrow> byte list" where
  "encode_double_field number bytes8 = varint_bytes (push_bit 3 number OR 1) @ bytes8"

section \<open>Decoding\<close>

fun decode_varint_from :: "nat \<Rightarrow> nat \<Rightarrow> byte list \<Rightarrow> pb_error + nat \<times> byte list" where
  "decode_varint_from shift value [] = Inl MalformedVarint"
| "decode_varint_from shift value (b # bs) =
     (if shift > 63 then Inl MalformedVarint
      else let value' = value OR push_bit shift (unat (b AND 0x7F))
        in if b AND 0x80 = 0 then Inr (value', bs) else decode_varint_from (shift + 7) value' bs)"

definition decode_varint :: "byte list \<Rightarrow> pb_error + nat \<times> byte list" where
  "decode_varint buf = decode_varint_from 0 0 buf"

text \<open>\<open>Number(n)\<close> of a non-negative \<open>BigInt\<close>: to 53 bits, ties to even.\<close>

fun bit_length :: "nat \<Rightarrow> nat" where
  "bit_length n = (if n = 0 then 0 else Suc (bit_length (n div 2)))"

declare bit_length.simps [simp del]

definition js_number :: "nat \<Rightarrow> nat" where
  "js_number n =
     (if n < 2 ^ 53 then n
      else let e = bit_length n - 53; q = n div 2 ^ e; r = n mod 2 ^ e; half = 2 ^ (e - 1) in
        (if r > half \<or> (r = half \<and> odd q) then Suc q else q) * 2 ^ e)"

definition is_safe_integer :: "nat \<Rightarrow> bool" where "is_safe_integer n \<longleftrightarrow> n < 2 ^ 53"

datatype pb_value = Varint nat | Bytes "byte list"

record pb_field =
  pf_number :: nat
  pf_wire :: nat
  pf_value :: pb_value

text \<open>What one round of \<open>decodeFields\<close> reads.\<close>

definition decode_field :: "byte list \<Rightarrow> pb_error + pb_field \<times> byte list" where
  "decode_field buf =
     (case decode_varint buf of
        Inl e \<Rightarrow> Inl e
      | Inr (tag, rest) \<Rightarrow>
          let number = js_number (drop_bit 3 tag); wire = tag AND 7;
              field = (\<lambda>v. \<lparr>pf_number = number, pf_wire = wire, pf_value = v\<rparr>) in
          if number = 0 then Inl MalformedFieldNumber
          else if wire = 0 then
            (case decode_varint rest of
               Inl e \<Rightarrow> Inl e | Inr (v, rest') \<Rightarrow> Inr (field (Varint v), rest'))
          else if wire = 1 then
            (if length rest < 8 then Inl TruncatedFixed64 else Inr (field (Bytes (take 8 rest)), drop 8 rest))
          else if wire = 2 then
            (case decode_varint rest of
               Inl e \<Rightarrow> Inl e
             | Inr (l, rest') \<Rightarrow>
                 let len = js_number l in
                 if \<not> is_safe_integer len \<or> len > length rest' then Inl TruncatedLengthDelimited
                 else Inr (field (Bytes (take len rest')), drop len rest'))
          else if wire = 5 then
            (if length rest < 4 then Inl TruncatedFixed32 else Inr (field (Bytes (take 4 rest)), drop 4 rest))
          else Inl (UnsupportedWireType wire))"

lemma decode_varint_from_shorter: "decode_varint_from s v buf = Inr (n, rest) \<Longrightarrow> length rest < length buf"
  by (induction s v buf rule: decode_varint_from.induct) (auto simp: Let_def less_Suc_eq split: if_splits)

lemma decode_varint_shorter: "decode_varint buf = Inr (n, rest) \<Longrightarrow> length rest < length buf"
  unfolding decode_varint_def by (rule decode_varint_from_shorter)

lemma decode_field_shorter: "decode_field buf = Inr (f, rest) \<Longrightarrow> length rest < length buf"
  by (auto simp: decode_field_def Let_def dest!: decode_varint_shorter split: sum.splits if_splits)
    linarith+

text \<open>\<open>decodeFields\<close>\<close>

function decode_fields :: "byte list \<Rightarrow> pb_error + pb_field list" where
  "decode_fields buf =
     (if buf = [] then Inr []
      else (case decode_field buf of
          Inl e \<Rightarrow> Inl e
        | Inr (f, rest) \<Rightarrow>
            (case decode_fields rest of Inl e \<Rightarrow> Inl e | Inr fs \<Rightarrow> Inr (f # fs))))"
  by pat_completeness auto
termination
  by (relation "measure length") (auto dest: decode_field_shorter)

declare decode_fields.simps [simp del]

definition field_values :: "byte list \<Rightarrow> nat \<Rightarrow> pb_error + pb_value list" where
  "field_values buf number =
     (case decode_fields buf of
        Inl e \<Rightarrow> Inl e
      | Inr fs \<Rightarrow> Inr (map pf_value (filter (\<lambda>f. pf_number f = number) fs)))"

definition bytes_field :: "byte list \<Rightarrow> nat \<Rightarrow> pb_error + byte list option" where
  "bytes_field buf number =
     (case field_values buf number of
        Inl e \<Rightarrow> Inl e
      | Inr (Bytes b # _) \<Rightarrow> Inr (Some b)
      | Inr _ \<Rightarrow> Inr None)"

definition string_field :: "byte list \<Rightarrow> nat \<Rightarrow> pb_error + string option" where
  "string_field buf number =
     (case bytes_field buf number of
        Inl e \<Rightarrow> Inl e
      | Inr v \<Rightarrow> Inr (map_option (\<lambda>b. utf8_lossy (map (\<lambda>w. char_of (unat w)) b)) v))"

definition varint_field :: "byte list \<Rightarrow> nat \<Rightarrow> pb_error + nat option" where
  "varint_field buf number =
     (case field_values buf number of
        Inl e \<Rightarrow> Inl e
      | Inr (Varint v # _) \<Rightarrow> Inr (Some v)
      | Inr _ \<Rightarrow> Inr None)"

section \<open>The Connect envelope\<close>

definition uint32_be :: "nat \<Rightarrow> byte list" where
  "uint32_be n = map (\<lambda>s. of_nat (drop_bit s n)) [24, 16, 8, 0]"

definition read_uint32_be :: "byte list \<Rightarrow> nat" where
  "read_uint32_be b = foldl (\<lambda>a x. a * 256 + unat x) 0 b"

definition connect_envelope :: "byte list \<Rightarrow> nat \<Rightarrow> pb_error + byte list" where
  "connect_envelope payload flags =
     (if length payload \<ge> 2 ^ 32 then Inl LengthOutOfRange
      else Inr (of_nat flags # uint32_be (length payload) @ payload))"

definition decode_connect_envelope :: "byte list \<Rightarrow> pb_error + nat \<times> byte list" where
  "decode_connect_envelope buf =
     (if length buf < 5 then Inl TruncatedEnvelope
      else let len = read_uint32_be (take 4 (drop 1 buf)) in
        if length buf < 5 + len then Inl TruncatedEnvelopePayload
        else Inr (unat (hd buf), take len (drop 5 buf)))"


section \<open>Varints\<close>

lemma low7: "unat ((of_nat n :: byte) AND 0x7F) = take_bit 7 n"
proof -
  have "(of_nat n :: byte) AND 0x7F = take_bit 7 (of_nat n)"
    by (simp add: take_bit_eq_mask mask_eq_exp_minus_1)
  then show ?thesis by (simp add: unsigned_take_bit_eq unsigned_of_nat)
qed

lemma byte_parts:
  fixes b :: byte
  assumes "b = x AND 0x7F"
  shows "b AND 0x7F = b" "b AND 0x80 = 0" "(b OR 0x80) AND 0x7F = b" "(b OR 0x80) AND 0x80 \<noteq> 0"
proof -
  have c: "(0x7F :: byte) AND 0x80 = 0" "(0x80 :: byte) AND 0x7F = 0" by simp_all
  show "b AND 0x7F = b" "b AND 0x80 = 0"
    using c by (simp_all add: assms and.assoc)
  show "(b OR 0x80) AND 0x7F = b" by (simp add: assms bit.conj_disj_distrib2 and.assoc)
  have "(b OR 0x80) AND 0x80 = 0x80" by (simp add: assms bit.conj_disj_distrib2 and.assoc)
  then show "(b OR 0x80) AND 0x80 \<noteq> 0" by simp
qed

lemma push_split: "push_bit s (n :: nat) = push_bit s (take_bit 7 n) OR push_bit (s + 7) (drop_bit 7 n)"
proof (rule bit_eqI)
  fix m
  show "bit (push_bit s n) m = bit (push_bit s (take_bit 7 n) OR push_bit (s + 7) (drop_bit 7 n)) m"
    by (cases "m < s + 7") (auto simp: bit_simps)
qed

lemma decode_varint_bytes:
  assumes "n < 2 ^ (70 - 7 * k)" and "k \<le> 9"
  shows "decode_varint_from (7 * k) v (varint_bytes n @ rest) = Inr (v OR push_bit (7 * k) n, rest)"
  using assms
proof (induction n arbitrary: k v rule: varint_bytes.induct)
  case (1 n)
  let ?b = "(of_nat n :: byte) AND 0x7F"
  note b = byte_parts [of ?b "of_nat n", OF refl]
  show ?case
  proof (cases "drop_bit 7 n = 0")
    case True
    then have "take_bit 7 n = n" by (simp add: drop_bit_eq_div take_bit_eq_mod)
    with True b "1.prems"(2) low7 [of n] show ?thesis
      by (simp add: varint_bytes.simps [of n] Let_def)
  next
    case False
    then have big: "2 ^ 7 \<le> n" by (simp add: drop_bit_eq_div)
    have "k \<noteq> 9"
    proof
      assume "k = 9"
      with "1.prems"(1) big show False by simp
    qed
    with "1.prems"(2) have k: "Suc k \<le> 9" by simp
    have small: "drop_bit 7 n < 2 ^ (70 - 7 * Suc k)"
    proof -
      have "70 - 7 * k = 7 + (70 - 7 * Suc k)" using k by simp
      with "1.prems"(1) have "n < 2 ^ 7 * 2 ^ (70 - 7 * Suc k)" by (metis power_add)
      then show ?thesis unfolding drop_bit_eq_div by (simp add: less_mult_imp_div_less mult.commute)
    qed
    have e: "7 * k + 7 = 7 * Suc k" by simp
    have "decode_varint_from (7 * k) v (varint_bytes n @ rest) =
        decode_varint_from (7 * k + 7) (v OR push_bit (7 * k) (take_bit 7 n)) (varint_bytes (drop_bit 7 n) @ rest)"
      using b k False low7 [of n] by (simp add: varint_bytes.simps [of n] Let_def)
    also have "\<dots> = Inr ((v OR push_bit (7 * k) (take_bit 7 n)) OR push_bit (7 * k + 7) (drop_bit 7 n), rest)"
      unfolding e by (rule "1.IH" [OF refl refl False small k])
    finally show ?thesis by (simp add: or.assoc push_split [of "7 * k" n])
  qed
qed

lemma decode_encode_varint: "n < 2 ^ 70 \<Longrightarrow> decode_varint (varint_bytes n @ rest) = Inr (n, rest)"
  using decode_varint_bytes [of n 0 0 rest] by (simp add: decode_varint_def)


section \<open>Fields\<close>

lemma tag_parts:
  assumes "w < 8"
  shows "drop_bit 3 (push_bit 3 n OR w) = (n :: nat)" "(push_bit 3 n OR w) AND 7 = w"
proof -
  have m: "(7 :: nat) = mask 3" by (simp add: mask_eq_exp_minus_1)
  have w: "take_bit 3 w = w" "drop_bit 3 w = 0" using assms by (simp_all add: take_bit_eq_mod drop_bit_eq_div)
  show "drop_bit 3 (push_bit 3 n OR w) = n"
    by (simp add: drop_bit_or w drop_bit_push_bit)
  show "(push_bit 3 n OR w) AND 7 = w"
    unfolding m by (simp add: take_bit_or w take_bit_push_bit flip: take_bit_eq_mask)
qed

lemma tag_small: "n < 2 ^ 53 \<Longrightarrow> w < 8 \<Longrightarrow> push_bit 3 n OR w < (2 :: nat) ^ 70"
proof -
  assume n: "n < 2 ^ 53" "w < 8"
  have "push_bit 3 n < 2 ^ 56" using n(1) by (simp add: push_bit_eq_mult)
  then have "take_bit 56 (push_bit 3 n OR w) = push_bit 3 n OR w"
    using n(2) by (simp add: take_bit_or take_bit_nat_eq_self)
  then have "push_bit 3 n OR w < 2 ^ 56" by (metis take_bit_nat_less_exp)
  then show ?thesis by (rule less_le_trans) simp
qed

text \<open>The fields that the encoders write, and the encoder of each.\<close>

definition field_ok :: "pb_field \<Rightarrow> bool" where
  "field_ok f \<longleftrightarrow> 0 < pf_number f \<and> pf_number f < 2 ^ 53 \<and>
     (case pf_value f of
        Varint v \<Rightarrow> pf_wire f = 0 \<and> v < 2 ^ 70
      | Bytes b \<Rightarrow> pf_wire f = 1 \<and> length b = 8 \<or> pf_wire f = 2 \<and> length b < 2 ^ 53)"

definition encode_field :: "pb_field \<Rightarrow> pb_error + byte list" where
  "encode_field f =
     (case pf_value f of
        Varint v \<Rightarrow> encode_varint_field (pf_number f) (int v)
      | Bytes b \<Rightarrow> Inr ((if pf_wire f = 1 then encode_double_field else encode_bytes_field) (pf_number f) b))"

lemma decode_tagged:
  assumes "0 < n" and "n < 2 ^ 53" and "w < 8"
  shows "decode_field (varint_bytes (push_bit 3 n OR w) @ body) =
    (let field = (\<lambda>v. \<lparr>pf_number = n, pf_wire = w, pf_value = v\<rparr>) in
     if w = 0 then
       (case decode_varint body of Inl e \<Rightarrow> Inl e | Inr (v, rest') \<Rightarrow> Inr (field (Varint v), rest'))
     else if w = 1 then
       (if length body < 8 then Inl TruncatedFixed64 else Inr (field (Bytes (take 8 body)), drop 8 body))
     else if w = 2 then
       (case decode_varint body of
          Inl e \<Rightarrow> Inl e
        | Inr (l, rest') \<Rightarrow>
            let len = js_number l in
            if \<not> is_safe_integer len \<or> len > length rest' then Inl TruncatedLengthDelimited
            else Inr (field (Bytes (take len rest')), drop len rest'))
     else if w = 5 then
       (if length body < 4 then Inl TruncatedFixed32 else Inr (field (Bytes (take 4 body)), drop 4 body))
     else Inl (UnsupportedWireType w))"
proof -
  note tag = tag_parts [OF assms(3), of n] decode_encode_varint [OF tag_small [OF assms(2,3)], of body]
  have n: "js_number n = n" "n \<noteq> 0" using assms by (simp_all add: js_number_def)
  show ?thesis
    unfolding decode_field_def tag sum.case prod.case Let_def n(1) using n(2) by simp
qed

lemma decode_encode_field:
  assumes "field_ok f" and "encode_field f = Inr b"
  shows "decode_field (b @ rest) = Inr (f, rest)"
proof (cases "pf_value f")
  case (Varint v)
  with assms have b: "b = varint_bytes (push_bit 3 (pf_number f) OR 0) @ varint_bytes v" "v < 2 ^ 70"
    "pf_wire f = 0" "0 < pf_number f" "pf_number f < 2 ^ 53"
    by (auto simp: field_ok_def encode_field_def encode_varint_field_def encode_varint_def)
  with decode_tagged [of "pf_number f" 0 "varint_bytes v @ rest"] decode_encode_varint [OF b(2)] Varint
  show ?thesis by simp
next
  case (Bytes v)
  with assms(1) have n: "0 < pf_number f" "pf_number f < 2 ^ 53"
    and c: "pf_wire f = 1 \<and> length v = 8 \<or> pf_wire f = 2 \<and> length v < 2 ^ 53"
    by (auto simp: field_ok_def)
  from c show ?thesis
  proof
    assume w: "pf_wire f = 1 \<and> length v = 8"
    with assms(2) Bytes have "b = varint_bytes (push_bit 3 (pf_number f) OR 1) @ v"
      by (auto simp: encode_field_def encode_double_field_def)
    with w decode_tagged [OF n, of 1 "v @ rest"] Bytes show ?thesis by simp
  next
    assume w: "pf_wire f = 2 \<and> length v < 2 ^ 53"
    with assms(2) Bytes have "b = varint_bytes (push_bit 3 (pf_number f) OR 2) @ varint_bytes (length v) @ v"
      by (auto simp: encode_field_def encode_bytes_field_def)
    moreover have "length v < 2 ^ 70" using w by simp
    ultimately show ?thesis
      using w decode_tagged [OF n, of 2 "varint_bytes (length v) @ v @ rest"] Bytes
        decode_encode_varint [of "length v" "v @ rest"]
      by (simp add: js_number_def is_safe_integer_def Let_def)
  qed
qed

lemma decode_encode_fields:
  assumes "\<forall>f \<in> set fs. field_ok f" and "list_all2 (\<lambda>f b. encode_field f = Inr b) fs bs"
  shows "decode_fields (concat bs) = Inr fs"
  using assms(2,1)
proof (induction rule: list_all2_induct)
  case Nil
  show ?case by (simp add: decode_fields.simps)
next
  case (Cons f fs b bs)
  from Cons have d: "decode_field (b @ concat bs) = Inr (f, concat bs)" by (intro decode_encode_field) simp_all
  then have "b @ concat bs \<noteq> []" using decode_field_shorter by fastforce
  with Cons d show ?case by (simp add: decode_fields.simps [of "b @ concat bs"])
qed

section \<open>Envelopes\<close>

lemma base_256:
  "(n :: nat) = 256 * a + m0 \<Longrightarrow> a = 256 * b + m1 \<Longrightarrow> b = 256 * c + m2 \<Longrightarrow> m3 = c \<Longrightarrow>
     n = ((m3 * 256 + m2) * 256 + m1) * 256 + m0"
  by simp

lemma read_uint32: "n < 2 ^ 32 \<Longrightarrow> read_uint32_be (uint32_be n) = n"
proof -
  assume n: "n < 2 ^ 32"
  have u: "unat (of_nat (drop_bit s n) :: byte) = n div 2 ^ s mod 256" for s
    by (simp add: unat_of_nat drop_bit_eq_div)
  have e: "read_uint32_be (uint32_be n) =
      (((0 * 256 + n div 2 ^ 24 mod 256) * 256 + n div 2 ^ 16 mod 256) * 256 + n div 2 ^ 8 mod 256) * 256 + n div 2 ^ 0 mod 256"
    unfolding read_uint32_be_def uint32_be_def list.map foldl.simps u ..
  have "n = 256 * (n div 256) + n mod 256" by simp
  moreover have "n div 256 = 256 * (n div 65536) + n div 256 mod 256"
    using mult_div_mod_eq [of 256 "n div 256"] div_mult2_eq [of n 256 256] by simp
  moreover have "n div 65536 = 256 * (n div 16777216) + n div 65536 mod 256"
    using mult_div_mod_eq [of 256 "n div 65536"] div_mult2_eq [of n 65536 256] by simp
  moreover have "n div 16777216 mod 256 = n div 16777216" using n by simp
  ultimately have "n = ((n div 16777216 mod 256 * 256 + n div 65536 mod 256) * 256 + n div 256 mod 256) * 256 + n mod 256"
    by (rule base_256)
  moreover have "(2 :: nat) ^ 24 = 16777216" "(2 :: nat) ^ 16 = 65536" "(2 :: nat) ^ 8 = 256" "(2 :: nat) ^ 0 = 1"
    by simp_all
  ultimately show ?thesis unfolding e by (simp only: mult_0 add_0 div_by_1)
qed

section \<open>Properties\<close>

text \<open>a varint is read back as it was written, whatever follows it, and a negative value is
  refused rather than written.\<close>

theorem varint_round_trip:
  assumes "0 \<le> v" and "v < 2 ^ 70"
  shows "\<exists>b. encode_varint v = Inr b \<and> decode_varint (b @ rest) = Inr (nat v, rest)"
  using assms decode_encode_varint [of "nat v" rest] by (simp add: encode_varint_def nat_less_iff)

text \<open>a message of varint, double and length-delimited fields decodes to the fields that were
  encoded, in order.\<close>

theorem fields_round_trip:
  assumes "\<forall>f \<in> set fs. field_ok f" and "list_all2 (\<lambda>f b. encode_field f = Inr b) fs bs"
  shows "decode_fields (concat bs) = Inr fs"
  using assms by (rule decode_encode_fields)

text \<open>a Connect envelope gives back its payload and its flags byte, whatever follows it.\<close>

theorem connect_envelope_round_trip:
  assumes "connect_envelope payload flags = Inr b"
  shows "decode_connect_envelope (b @ rest) = Inr (flags mod 256, payload)"
proof -
  from assms have b: "length payload < 2 ^ 32" "b = of_nat flags # uint32_be (length payload) @ payload"
    by (auto simp: connect_envelope_def split: if_splits)
  have "length (uint32_be (length payload)) = 4" by (simp add: uint32_be_def)
  with b read_uint32 [OF b(1)] show ?thesis
    by (simp add: decode_connect_envelope_def unat_of_nat)
qed

lemma varint_round_trip_witness:
  "\<exists>b. encode_varint 300 = Inr b \<and> decode_varint (b @ [7]) = Inr (nat 300, [7])"
  by (rule varint_round_trip) simp_all

definition sample_fields :: "pb_field list" where
  "sample_fields = [\<lparr>pf_number = 1, pf_wire = 0, pf_value = Varint 300\<rparr>,
     \<lparr>pf_number = 2, pf_wire = 2, pf_value = Bytes [104, 105]\<rparr>]"

lemma fields_round_trip_witness:
  "decode_fields (concat [[8, 172, 2], [18, 2, 104, 105]]) = Inr sample_fields"
proof (rule fields_round_trip)
  show "\<forall>f \<in> set sample_fields. field_ok f" by (simp add: sample_fields_def field_ok_def)
  show "list_all2 (\<lambda>f b. encode_field f = Inr b) sample_fields [[8, 172, 2], [18, 2, 104, 105]]"
    by code_simp
qed

lemma connect_envelope_round_trip_witness:
  "decode_connect_envelope ([2, 0, 0, 0, 1, 65] @ [9]) = Inr (2 mod 256, [65])"
  by (rule connect_envelope_round_trip) code_simp

end
