(* ===== verification/Early_Tool_Done.thy ===== *)
theory Early_Tool_Done
  imports Json_Laws Complex_Main
begin

text \<open>
  \<open>early-tool-item-done.mjs\<close>: the stage that closes a tool item as soon as the next tool item
  opens. Each pushed frame is paired with the event it carries while the stage rewrites (raw bytes
  carry none), so that the lemmas can speak of the event stream that the client sees: its sequence
  numbers rise, and no tool item is done twice.
\<close>

section \<open>Frames\<close>

definition ET_TOOL_TYPES :: "string list" where "ET_TOOL_TYPES = [''function_call'', ''custom_tool_call'']"
definition ET_TERMINAL_TYPES :: "string list" where
  "ET_TERMINAL_TYPES = [''response.completed'', ''response.done'']"
definition ARG_DELTA_TYPES :: "string list" where
  "ARG_DELTA_TYPES = [''response.function_call_arguments.delta'', ''response.custom_tool_call_input.delta'']"
definition ARG_DONE_TYPES :: "string list" where
  "ARG_DONE_TYPES = [''response.function_call_arguments.done'', ''response.custom_tool_call_input.done'']"
definition MAX_SSE_FRAME_BYTES :: nat where "MAX_SSE_FRAME_BYTES = 8 * 1024 * 1024"
definition ET_ADDED :: string where "ET_ADDED = ''response.output_item.added''"
definition ET_DONE :: string where "ET_DONE = ''response.output_item.done''"

text \<open>\<open>newlineLength\<close>: the newline at the head of what follows an index.\<close>

fun newline_length :: "bytes \<Rightarrow> nat" where
  "newline_length [] = 0"
| "newline_length (c # s) =
     (if c = CR \<and> starts_with [LF] s then 2 else if c = CR \<or> c = LF then 1 else 0)"

function find_blank_line :: "nat \<Rightarrow> bytes \<Rightarrow> (nat \<times> bytes) option" where
  "find_blank_line i b =
     (if length b \<le> i then None
      else let first = newline_length (drop i b); second = newline_length (drop (i + first) b) in
        if first \<noteq> 0 \<and> second \<noteq> 0 then Some (i, take (first + second) (drop i b))
        else find_blank_line (Suc i) b)"
  by pat_completeness auto
termination
  by (relation "measure (\<lambda>(i, b). length b - i)") auto

declare find_blank_line.simps [simp del]

text \<open>\<open>sseField\<close> and the lines of a block.\<close>

definition sse_field :: "string \<Rightarrow> string \<times> string" where
  "sse_field line =
     (case index_of '':'' line of
        None \<Rightarrow> (line, [])
      | Some i \<Rightarrow> let v = drop (Suc i) line in (take i line, if starts_with '' '' v then tl v else v))"

fun split_newlines :: "string \<Rightarrow> string list" where
  "split_newlines [] = [[]]"
| "split_newlines (c # s) =
     (if c = LF then [] # split_newlines s
      else if c = CR then [] # (case s of d # t \<Rightarrow> if d = LF then split_newlines t else split_newlines s
                                | [] \<Rightarrow> [[]])
      else (case split_newlines s of l # ls \<Rightarrow> (c # l) # ls | [] \<Rightarrow> [[c]]))"

datatype block = NoEvent | Terminal | Conflict | BlockEvent json

text \<open>The fields of a block: the event name and the data line, or a conflict.\<close>

fun block_fields :: "string option \<Rightarrow> string option \<Rightarrow> string list \<Rightarrow> (string option \<times> string option) option" where
  "block_fields name data [] = Some (name, data)"
| "block_fields name data (raw # ls) =
     (if raw = [] then block_fields name data ls
      else (case sse_field raw of (n, v) \<Rightarrow>
        if n = ''event'' then (if name \<noteq> None then None else block_fields (Some (trim v)) data ls)
        else if n = ''data'' then (if data \<noteq> None then None else block_fields name (Some v) ls)
        else block_fields name data ls))"

definition parse_event_block :: "string \<Rightarrow> block" where
  "parse_event_block b =
     (case block_fields None None (split_newlines b) of
        None \<Rightarrow> Conflict
      | Some (name, None) \<Rightarrow> NoEvent
      | Some (name, Some d) \<Rightarrow>
          if d = ''[DONE]'' then Terminal
          else (case json_parse d of
              None \<Rightarrow> NoEvent
            | Some event \<Rightarrow>
                let type = obj_get event ''type'' in
                if name \<noteq> None \<and> name \<noteq> Some [] \<and> truthy type \<and> type \<noteq> Some (JStr (the name))
                then Conflict else BlockEvent event))"

text \<open>\<open>{...v}\<close> of an object or an array, and \<open>`${v}`\<close>.\<close>

definition spread :: "json \<Rightarrow> (string \<times> json) list" where
  "spread v = (case v of JObj kvs \<Rightarrow> kvs
     | JArr xs \<Rightarrow> map (\<lambda>(i, x). (nat_str i, x)) (enumerate 0 xs) | _ \<Rightarrow> [])"

fun template_str :: "json \<Rightarrow> string" where
  "template_str (JStr s) = s"
| "template_str (JArr xs) = join '','' (map (\<lambda>x. if x = JNull then [] else template_str x) xs)"
| "template_str (JObj _) = ''[object Object]''"
| "template_str v = json_stringify v"

text \<open>\<open>Buffer.from\<close>: a lone surrogate is written as U+FFFD.\<close>

fun to_bytes :: "string \<Rightarrow> bytes" where
  "to_bytes (a # b # c # s) =
     (if a = CHR 0xED \<and> CHR 0xA0 \<le> b \<and> b \<le> CHR 0xBF then fffd @ to_bytes s else a # to_bytes (b # c # s))"
| "to_bytes s = s"

definition frame_for :: "json option \<Rightarrow> json \<Rightarrow> string \<Rightarrow> bytes" where
  "frame_for type event newline =
     (let name = (case type of Some t \<Rightarrow> template_str t | None \<Rightarrow> ''undefined'');
          payload = JObj ((case type of Some t \<Rightarrow> [(''type'', t)] | None \<Rightarrow> []) @
            filter (\<lambda>(k, v). k \<noteq> ''type'') (spread event))
      in to_bytes (''event: '' @ name @ newline @ ''data: '' @ json_stringify payload @ newline @ newline))"

definition unwrap_custom_input :: "string \<Rightarrow> string" where
  "unwrap_custom_input s =
     (if \<not> starts_with ''{'' s then s
      else (case json_parse s of
          Some (JObj kvs) \<Rightarrow>
            (case map_of kvs ''content'' of
               Some (JStr c) \<Rightarrow> if (\<forall>k \<in> set (map fst kvs). k = ''content'' \<or> k = ''input'') then c else s
             | _ \<Rightarrow> s)
        | _ \<Rightarrow> s))"

section \<open>State\<close>

record open_tool =
  ot_item_id :: "string option"
  ot_call_id :: "string option"
  ot_output_index :: "json option"
  ot_item :: json
  ot_arguments :: string
  ot_input :: string
  ot_kind :: string
  ot_arguments_done :: bool

record early =
  et_buffer :: bytes
  et_open :: "open_tool option"
  et_closed :: "json list"
  et_closed_indexes :: "json list"
  et_newline :: string
  et_pass :: bool
  et_sequence :: "(int \<times> nat) option"
  et_search_from :: nat

definition new_early :: early where
  "new_early = \<lparr>et_buffer = [], et_open = None, et_closed = [], et_closed_indexes = [],
     et_newline = [LF], et_pass = False, et_sequence = None, et_search_from = 0\<rparr>"

text \<open>A pushed buffer, and the event it carries.\<close>

type_synonym pushed = "bytes \<times> json option"

text \<open>\<open>===\<close> on parsed values: two parsed objects are never the same.\<close>

fun js_same :: "json option \<Rightarrow> json option \<Rightarrow> bool" where
  "js_same (Some (JObj _)) _ = False"
| "js_same (Some (JArr _)) _ = False"
| "js_same a b = (a = b)"

definition js_has :: "json list \<Rightarrow> json option \<Rightarrow> bool" where
  "js_has xs v \<longleftrightarrow> (\<exists>x \<in> set xs. js_same (Some x) v)"

definition is_number :: "json option \<Rightarrow> bool" where
  "is_number v \<longleftrightarrow> (case v of Some (JNum _ _) \<Rightarrow> True | _ \<Rightarrow> False)"

definition supplied_identity :: "json option \<Rightarrow> bool" where
  "supplied_identity i \<longleftrightarrow> (case i of Some (JStr s) \<Rightarrow> s \<noteq> [] | _ \<Rightarrow> False)"

text \<open>Numbers \<open>m / 10 ^ e\<close>: comparison and successor.\<close>

definition num_le :: "int \<times> nat \<Rightarrow> int \<times> nat \<Rightarrow> bool" where
  "num_le a b \<longleftrightarrow> fst a * 10 ^ snd b \<le> fst b * 10 ^ snd a"

definition num_succ :: "int \<times> nat \<Rightarrow> int \<times> nat" where
  "num_succ a = (fst a + 10 ^ snd a, snd a)"

text \<open>\<open>#stamp\<close>: the new sequence, the event, and whether it is another object.\<close>

definition with_sequence :: "json \<Rightarrow> int \<times> nat \<Rightarrow> json" where
  "with_sequence event n = JObj (AList.update ''sequence_number'' (JNum (fst n) (snd n)) (spread event))"

definition seq_of :: "json \<Rightarrow> (int \<times> nat) option" where
  "seq_of ev = (case obj_get ev ''sequence_number'' of Some (JNum m e) \<Rightarrow> Some (m, e) | _ \<Rightarrow> None)"

text \<open>\<open>event && typeof event === "object"\<close>\<close>

fun is_object :: "json \<Rightarrow> bool" where
  "is_object (JObj _) = True"
| "is_object (JArr _) = True"
| "is_object _ = False"

definition stamp :: "(int \<times> nat) option \<Rightarrow> json \<Rightarrow> (int \<times> nat) option \<times> json \<times> bool" where
  "stamp sq event =
     (if \<not> is_object event then (sq, event, False)
      else (case seq_of event of
          Some n \<Rightarrow>
            (case sq of
               Some q \<Rightarrow>
                 if num_le n q then (Some (num_succ q), with_sequence event (num_succ q), True)
                 else (Some n, event, False)
             | None \<Rightarrow> (Some n, event, False))
        | None \<Rightarrow>
            (case sq of
               None \<Rightarrow> (None, event, False)
             | Some q \<Rightarrow> (Some (num_succ q), with_sequence event (num_succ q), True))))"

section \<open>The open tool item\<close>

definition same_open_identity :: "json option \<Rightarrow> json option \<Rightarrow> early \<Rightarrow> bool" where
  "same_open_identity i output_index s \<longleftrightarrow>
     (case et_open s of
        None \<Rightarrow> False
      | Some op \<Rightarrow>
          if supplied_identity i
          then i = map_option JStr (ot_item_id op) \<or> i = map_option JStr (ot_call_id op)
          else js_same output_index (ot_output_index op))"

definition matches_open :: "json \<Rightarrow> early \<Rightarrow> bool" where
  "matches_open event s = same_open_identity (obj_get event ''item_id'') (obj_get event ''output_index'') s"

definition held_text :: "open_tool \<Rightarrow> string" where
  "held_text op = (if ot_kind op = ''custom_tool_call'' then ot_input op else ot_arguments op)"

definition exceeds_argument_bound :: "nat \<Rightarrow> string \<Rightarrow> bool" where
  "exceeds_argument_bound extra current \<longleftrightarrow> length current + extra > MAX_SSE_FRAME_BYTES"

text \<open>\<open>#disableRewrite\<close>\<close>

definition disable_rewrite :: "bytes \<Rightarrow> early \<Rightarrow> early \<times> pushed list" where
  "disable_rewrite orig s =
     (s\<lparr>et_pass := True, et_open := None, et_buffer := []\<rparr>,
      (orig, None) # (if et_buffer s \<noteq> [] then [(et_buffer s, None)] else []))"

text \<open>A synthesised frame: the event is stamped and printed.\<close>

definition push_frame :: "string \<Rightarrow> json \<Rightarrow> early \<Rightarrow> early \<times> pushed list" where
  "push_frame type body s =
     (let (sq, event, _) = stamp (et_sequence s) body
      in (s\<lparr>et_sequence := sq\<rparr>, [(frame_for (Some (JStr type)) event (et_newline s), Some event)]))"

definition nonempty :: "string option \<Rightarrow> string option" where
  "nonempty s = (case s of Some [] \<Rightarrow> None | _ \<Rightarrow> s)"

definition already_closed :: "open_tool \<Rightarrow> early \<Rightarrow> bool" where
  "already_closed op s \<longleftrightarrow>
     (case nonempty (ot_item_id op) of Some i \<Rightarrow> js_has (et_closed s) (Some (JStr i)) | None \<Rightarrow> False) \<or>
     (case nonempty (ot_call_id op) of Some i \<Rightarrow> js_has (et_closed s) (Some (JStr i)) | None \<Rightarrow> False) \<or>
     (is_number (ot_output_index op) \<and> js_has (et_closed_indexes s) (ot_output_index op))"

definition lifecycle_id :: "open_tool \<Rightarrow> string option" where
  "lifecycle_id op = (case nonempty (ot_item_id op) of Some i \<Rightarrow> Some i | None \<Rightarrow> ot_call_id op)"

text \<open>The properties of an object literal that are not \<open>undefined\<close>.\<close>

definition defined_props :: "(string \<times> json option) list \<Rightarrow> json" where
  "defined_props ps = JObj (map (\<lambda>(k, v). (k, the v)) (filter (\<lambda>(k, v). v \<noteq> None) ps))"

text \<open>The events of \<open>#closeOpen\<close>: the argument's end, unless it was seen, and the item's.\<close>

definition args_done_body :: "open_tool \<Rightarrow> string \<times> json" where
  "args_done_body op =
     (let custom = (ot_kind op = ''custom_tool_call'');
          t = (if custom then ''response.custom_tool_call_input.done'' else ''response.function_call_arguments.done'')
      in (t, defined_props
         [(''type'', Some (JStr t)), (''item_id'', map_option JStr (lifecycle_id op)),
          (''output_index'', ot_output_index op),
          (if custom then (''input'', Some (JStr (unwrap_custom_input (ot_input op))))
           else (''arguments'', Some (JStr (ot_arguments op))))]))"

definition closed_item :: "open_tool \<Rightarrow> json" where
  "closed_item op =
     (let item = with_prop (ot_item op) ''status'' (JStr ''completed'')
      in if ot_kind op = ''custom_tool_call'' then with_prop item ''input'' (JStr (unwrap_custom_input (ot_input op)))
         else with_prop item ''arguments'' (JStr (ot_arguments op)))"

definition item_done_body :: "open_tool \<Rightarrow> json" where
  "item_done_body op = defined_props
     [(''type'', Some (JStr ET_DONE)), (''output_index'', ot_output_index op), (''item'', Some (closed_item op))]"

text \<open>\<open>#closeOpen\<close>\<close>

definition mark_closed :: "open_tool \<Rightarrow> early \<Rightarrow> early" where
  "mark_closed op s =
     s\<lparr>et_closed := (case nonempty (lifecycle_id op) of Some i \<Rightarrow> [JStr i] | None \<Rightarrow> []) @
         (case nonempty (ot_call_id op) of Some i \<Rightarrow> [JStr i] | None \<Rightarrow> []) @ et_closed s,
       et_closed_indexes := (if is_number (ot_output_index op) then [the (ot_output_index op)] else [])
         @ et_closed_indexes s\<rparr>"

definition close_open :: "early \<Rightarrow> early \<times> pushed list" where
  "close_open s =
     (case et_open s of
        None \<Rightarrow> (s, [])
      | Some op \<Rightarrow>
          if already_closed op s then (s\<lparr>et_open := None\<rparr>, [])
          else
            let s1 = mark_closed op s;
                (s2, o1) = (if ot_arguments_done op then (s1, [])
                  else push_frame (fst (args_done_body op)) (snd (args_done_body op)) s1);
                (s3, o2) = push_frame ET_DONE (item_done_body op) s2
            in (s3\<lparr>et_open := None\<rparr>, o1 @ o2))"

definition open_of :: "json \<Rightarrow> json \<Rightarrow> open_tool" where
  "open_of event item =
     \<lparr>ot_item_id = as_str (obj_get item ''id''), ot_call_id = as_str (obj_get item ''call_id''),
      ot_output_index = obj_get event ''output_index'', ot_item = item,
      ot_arguments = (case as_str (obj_get item ''arguments'') of Some a \<Rightarrow> a | None \<Rightarrow> []),
      ot_input = (case as_str (obj_get item ''input'') of Some a \<Rightarrow> a | None \<Rightarrow> []),
      ot_kind = (case as_str (obj_get item ''type'') of Some k \<Rightarrow> k | None \<Rightarrow> []),
      ot_arguments_done = False\<rparr>"

text \<open>The identity of a done event: \<open>item?.id || item?.call_id\<close>.\<close>

definition done_id :: "json \<Rightarrow> json option" where
  "done_id event =
     (let item = obj_get event ''item''; i = opt_get item ''id''
      in if truthy i then i else opt_get item ''call_id'')"

definition type_among :: "json \<Rightarrow> string list \<Rightarrow> bool" where
  "type_among event ts \<longleftrightarrow> (\<exists>t \<in> set ts. obj_get event ''type'' = Some (JStr t))"

definition tool_added :: "json \<Rightarrow> bool" where
  "tool_added event \<longleftrightarrow> type_among event [ET_ADDED] \<and>
     (\<exists>t \<in> set ET_TOOL_TYPES. opt_get (obj_get event ''item'') ''type'' = Some (JStr t))"

text \<open>The new held text when an argument is done.\<close>

definition done_arguments :: "json \<Rightarrow> open_tool \<Rightarrow> open_tool" where
  "done_arguments event op =
     (let next_args = (case as_str (obj_get event ''arguments'') of Some a \<Rightarrow> a | None \<Rightarrow> ot_arguments op);
          next_input = (if ot_kind op = ''custom_tool_call''
            then unwrap_custom_input (case as_str (obj_get event ''input'') of Some a \<Rightarrow> a
              | None \<Rightarrow> (case as_str (obj_get event ''arguments'') of Some a \<Rightarrow> a | None \<Rightarrow> ot_input op))
            else (case as_str (obj_get event ''input'') of Some a \<Rightarrow> a | None \<Rightarrow> ot_input op))
      in op\<lparr>ot_arguments := next_args, ot_input := next_input, ot_arguments_done := True\<rparr>)"

section \<open>One event\<close>

text \<open>The part of \<open>#handle\<close> after the block is parsed and the event stamped: what happens to the
  stamped event \<open>ev\<close>, whose frame is \<open>out\<close>.\<close>

definition handle_stamped :: "bytes \<Rightarrow> json \<Rightarrow> pushed \<Rightarrow> early \<Rightarrow> early \<times> pushed list" where
  "handle_stamped orig ev out s =
     (if type_among ev ET_TERMINAL_TYPES then (s, [out])
      else if tool_added ev then
        (let op = open_of ev (the (obj_get ev ''item'')); s1 = s\<lparr>et_open := Some op\<rparr> in
         if exceeds_argument_bound 0 (held_text op) then disable_rewrite orig s1 else (s1, [out]))
      else if type_among ev ARG_DELTA_TYPES \<and> matches_open ev s then
        (let op = the (et_open s);
             piece = (case as_str (obj_get ev ''delta'') of Some d \<Rightarrow> d | None \<Rightarrow> []) in
         if exceeds_argument_bound (length piece) (held_text op) then disable_rewrite orig s
         else (s\<lparr>et_open := Some (if ot_kind op = ''custom_tool_call''
                then op\<lparr>ot_input := ot_input op @ piece\<rparr>
                else op\<lparr>ot_arguments := ot_arguments op @ piece\<rparr>)\<rparr>, [out]))
      else if type_among ev ARG_DONE_TYPES then
        (let i = obj_get ev ''item_id'' in
         if truthy i \<and> js_has (et_closed s) i then (s, [])
         else if \<not> supplied_identity i \<and> js_has (et_closed_indexes s) (obj_get ev ''output_index'') then (s, [])
         else if matches_open ev s then
           (let op = done_arguments ev (the (et_open s)) in
            if exceeds_argument_bound 0 (held_text op) then disable_rewrite orig s
            else (s\<lparr>et_open := Some op\<rparr>, [out]))
         else (s, [out]))
      else if type_among ev [ET_DONE] then
        (let i = done_id ev; idx = obj_get ev ''output_index'' in
         if truthy i \<and> js_has (et_closed s) i then (s, [])
         else if \<not> supplied_identity i \<and> js_has (et_closed_indexes s) idx then (s, [])
         else (s\<lparr>et_closed := (if truthy i then [the i] else []) @ et_closed s,
                et_closed_indexes := (if is_number idx then [the idx] else []) @ et_closed_indexes s,
                et_open := (if same_open_identity i idx s then None else et_open s)\<rparr>, [out]))
      else (s, [out]))"

definition handle_event :: "bytes \<Rightarrow> json \<Rightarrow> early \<Rightarrow> early \<times> pushed list" where
  "handle_event orig raw s =
     (let (s1, o1) = (if tool_added raw then close_open s else (s, []));
          (sq, ev, changed) = stamp (et_sequence s1) raw;
          s2 = s1\<lparr>et_sequence := sq\<rparr>;
          out = (if changed then frame_for (obj_get raw ''type'') ev (et_newline s2) else orig, Some ev);
          (s3, o2) = handle_stamped orig ev out s2
      in (s3, o1 @ o2))"

text \<open>\<open>#handle\<close>\<close>

definition set_newline :: "bytes \<Rightarrow> early \<Rightarrow> early" where
  "set_newline sep s = s\<lparr>et_newline := (if newline_length sep = 2 then [CR, LF]
     else if starts_with [CR] sep then [CR] else [LF])\<rparr>"

definition et_handle :: "bytes \<Rightarrow> bytes \<Rightarrow> early \<Rightarrow> early \<times> pushed list" where
  "et_handle orig sep st =
     (let b = parse_event_block (utf8_lossy (take (length orig - length sep) orig));
          s = set_newline sep st in
      if et_pass s then
        (case b of
           BlockEvent event \<Rightarrow>
             (let (sq, ev, changed) = stamp (et_sequence s) event in
              if truthy (Some event) then
                (s\<lparr>et_sequence := sq\<rparr>,
                 [(if changed then frame_for (obj_get ev ''type'') ev (et_newline s) else orig, None)])
              else (s, [(orig, None)]))
         | _ \<Rightarrow> (s, [(orig, None)]))
      else (case b of
          Conflict \<Rightarrow> (s\<lparr>et_pass := True\<rparr>, [(orig, None)])
        | BlockEvent event \<Rightarrow> handle_event orig event s
        | _ \<Rightarrow> (s, [(orig, None)])))"


section \<open>The transform\<close>

lemma push_frame_buffer [simp]: "et_buffer (fst (push_frame t b s)) = et_buffer s"
  by (simp add: push_frame_def Let_def case_prod_unfold)

lemma close_open_buffer [simp]: "et_buffer (fst (close_open s)) = et_buffer s"
  by (simp add: close_open_def mark_closed_def Let_def case_prod_unfold split: option.split)

lemma handle_stamped_buffer: "et_buffer (fst (handle_stamped orig ev out s)) \<in> {et_buffer s, []}"
  by (simp add: handle_stamped_def disable_rewrite_def Let_def)

lemma handle_event_buffer: "et_buffer (fst (handle_event orig raw s)) \<in> {et_buffer s, []}"
proof -
  let ?r = "if tool_added raw then close_open s else (s, [])"
  let ?st = "stamp (et_sequence (fst ?r)) raw"
  have "et_buffer (fst ?r) = et_buffer s" by simp
  then show ?thesis
    using handle_stamped_buffer [of orig "fst (snd ?st)" _ "(fst ?r)\<lparr>et_sequence := fst ?st\<rparr>"]
    by (simp add: handle_event_def Let_def case_prod_unfold)
qed

lemma set_newline_fields [simp]:
  "et_buffer (set_newline sep s) = et_buffer s" "et_pass (set_newline sep s) = et_pass s"
  "et_open (set_newline sep s) = et_open s" "et_closed (set_newline sep s) = et_closed s"
  "et_sequence (set_newline sep s) = et_sequence s"
  by (simp_all add: set_newline_def)

lemma et_handle_cases:
  obtains "et_pass st" "et_buffer (fst (et_handle orig sep st)) = et_buffer st"
  | "\<not> et_pass st" "snd (et_handle orig sep st) = [(orig, None)]"
    "fst (et_handle orig sep st) \<in> {set_newline sep st, (set_newline sep st)\<lparr>et_pass := True\<rparr>}"
  | event where "\<not> et_pass st" "et_handle orig sep st = handle_event orig event (set_newline sep st)"
proof (cases "et_pass st")
  case True
  then have "et_buffer (fst (et_handle orig sep st)) = et_buffer st"
    by (cases "parse_event_block (utf8_lossy (take (length orig - length sep) orig))")
      (simp_all add: et_handle_def Let_def case_prod_unfold)
  with that True show thesis by blast
next
  case False
  with that show thesis
    by (cases "parse_event_block (utf8_lossy (take (length orig - length sep) orig))")
      (simp_all add: et_handle_def Let_def)
qed

lemma et_handle_buffer: "et_buffer (fst (et_handle orig sep s)) \<in> {et_buffer s, []}"
proof (cases rule: et_handle_cases [of s orig sep])
  case 1
  then show ?thesis by simp
next
  case 2
  then show ?thesis by auto
next
  case (3 event)
  with handle_event_buffer [of orig event "set_newline sep s"] show ?thesis by simp
qed

text \<open>\<open>#drain\<close>\<close>

function et_drain :: "bool \<Rightarrow> early \<Rightarrow> early \<times> pushed list" where
  "et_drain flush s =
     (if et_buffer s = [] then (s, [])
      else if et_pass s then (s\<lparr>et_buffer := []\<rparr>, [(et_buffer s, None)])
      else (case find_blank_line (et_search_from s) (et_buffer s) of
          None \<Rightarrow>
            let s1 = s\<lparr>et_search_from := length (et_buffer s) - 2\<rparr> in
            if \<not> flush then (s1, [])
            else if length (et_buffer s) > MAX_SSE_FRAME_BYTES then
              (s1\<lparr>et_pass := True, et_buffer := []\<rparr>, [(et_buffer s, None)])
            else et_handle (et_buffer s) [] (s1\<lparr>et_buffer := []\<rparr>)
        | Some (i, sep) \<Rightarrow>
            let n = i + length sep;
                r = et_handle (take n (et_buffer s)) sep
                      (s\<lparr>et_buffer := drop n (et_buffer s), et_search_from := 0\<rparr>);
                r2 = et_drain flush (fst r)
            in (fst r2, snd r @ snd r2)))"
  by pat_completeness auto
termination
proof (relation "measure (\<lambda>(f, s). length (et_buffer s))")
  fix flush :: bool and s :: early and x i sep n r
  assume ne: "et_buffer s \<noteq> []" and f: "find_blank_line (et_search_from s) (et_buffer s) = Some x"
    and x: "(i, sep) = x" and n: "n = i + length sep"
    and r: "r = et_handle (take n (et_buffer s)) sep
        (s\<lparr>et_buffer := drop n (et_buffer s), et_search_from := 0\<rparr>)"
  have "sep \<noteq> []" if "find_blank_line j b = Some (i, sep)" for j b
    using that
  proof (induction j b rule: find_blank_line.induct)
    case (1 j b)
    show ?case
    proof (cases "length b \<le> j")
      case False
      then show ?thesis using 1
        by (subst (asm) (2) find_blank_line.simps) (auto simp: Let_def split: if_splits)
    qed (use 1 in \<open>simp add: find_blank_line.simps\<close>)
  qed
  with f x have "sep \<noteq> []" by auto
  moreover have "et_buffer (fst r) \<in> {drop n (et_buffer s), []}"
    using et_handle_buffer [of "take n (et_buffer s)" sep "s\<lparr>et_buffer := drop n (et_buffer s), et_search_from := 0\<rparr>"]
    by (simp add: r)
  ultimately show "((flush, fst r), flush, s) \<in> measure (\<lambda>(f, s). length (et_buffer s))"
    using ne by (auto simp: n)
qed simp

declare et_drain.simps [simp del]

text \<open>\<open>_transform\<close>, \<open>_flush\<close>, and a whole stream\<close>

definition et_transform :: "bytes \<Rightarrow> early \<Rightarrow> early \<times> pushed list" where
  "et_transform piece s =
     (if et_pass s then et_drain False (s\<lparr>et_buffer := et_buffer s @ piece\<rparr>)
      else if length (et_buffer s) + length piece > MAX_SSE_FRAME_BYTES then
        (s\<lparr>et_pass := True, et_buffer := []\<rparr>,
         (if et_buffer s \<noteq> [] then [(et_buffer s, None)] else []) @ [(piece, None)])
      else et_drain False (s\<lparr>et_buffer := et_buffer s @ piece\<rparr>))"

definition et_flush :: "early \<Rightarrow> early \<times> pushed list" where
  "et_flush s = (if et_pass s then (s, []) else et_drain True s)"

fun et_feed :: "bytes list \<Rightarrow> early \<Rightarrow> early \<times> pushed list" where
  "et_feed [] s = et_flush s"
| "et_feed (c # cs) s =
     (let (s1, o1) = et_transform c s; (s2, o2) = et_feed cs s1 in (s2, o1 @ o2))"

definition early_stream :: "bytes list \<Rightarrow> pushed list" where
  "early_stream cs = snd (et_feed cs new_early)"

text \<open>\<open>earlyToolItemDoneTransform\<close>: the provider is given by its id.\<close>

definition early_for :: "string option \<Rightarrow> string \<Rightarrow> early option" where
  "early_for provider content_type =
     (if provider = Some ''grok-oauth'' \<and> contains_sub (to_lower content_type) ''text/event-stream''
      then Some new_early else None)"

section \<open>Sequence numbers\<close>

definition numval :: "int \<times> nat \<Rightarrow> rat" where "numval n = of_int (fst n) / 10 ^ snd n"

lemma num_le_val: "num_le a b \<longleftrightarrow> numval a \<le> numval b"
proof -
  have "numval a \<le> numval b \<longleftrightarrow> of_int (fst a) * 10 ^ snd b \<le> (of_int (fst b) * 10 ^ snd a :: rat)"
    by (simp add: numval_def field_simps)
  also have "\<dots> \<longleftrightarrow> (of_int (fst a * 10 ^ snd b) :: rat) \<le> of_int (fst b * 10 ^ snd a)" by simp
  also have "\<dots> \<longleftrightarrow> fst a * 10 ^ snd b \<le> fst b * 10 ^ snd a" by (rule of_int_le_iff)
  finally show ?thesis by (simp add: num_le_def)
qed

lemma numval_succ: "numval (num_succ a) = numval a + 1"
  by (simp add: numval_def num_succ_def field_simps)

definition seqs :: "pushed list \<Rightarrow> rat list" where
  "seqs out = concat (map (\<lambda>(b, ev). case Option.bind ev seq_of of Some n \<Rightarrow> [numval n] | None \<Rightarrow> []) out)"

lemma seqs_simps [simp]:
  "seqs [] = []" "seqs (out @ out') = seqs out @ seqs out'" "seqs ((b, None) # out) = seqs out"
  "seqs ((b, Some ev) # out) = (case seq_of ev of Some n \<Rightarrow> numval n # seqs out | None \<Rightarrow> seqs out)"
  by (simp_all add: seqs_def split: option.split)

text \<open>From sequence \<open>q\<close> the numbers \<open>ns\<close> rise to sequence \<open>q'\<close>.\<close>

definition below :: "(int \<times> nat) option \<Rightarrow> rat \<Rightarrow> bool" where
  "below q r \<longleftrightarrow> (case q of None \<Rightarrow> True | Some n \<Rightarrow> numval n < r)"

definition upto :: "(int \<times> nat) option \<Rightarrow> rat \<Rightarrow> bool" where
  "upto q r \<longleftrightarrow> (case q of None \<Rightarrow> False | Some n \<Rightarrow> r \<le> numval n)"

definition rises :: "(int \<times> nat) option \<Rightarrow> rat list \<Rightarrow> (int \<times> nat) option \<Rightarrow> bool" where
  "rises q ns q' \<longleftrightarrow> sorted_wrt (<) ns \<and> (\<forall>n \<in> set ns. below q n \<and> upto q' n) \<and>
     (case q of None \<Rightarrow> True | Some n \<Rightarrow> upto q' (numval n))"

lemma rises_refl [simp]: "rises q [] q"
  by (simp add: rises_def upto_def split: option.split)

lemma rises_trans:
  assumes a: "rises q ns q'" and b: "rises q' ms q''"
  shows "rises q (ns @ ms) q''"
proof -
  have link: "n < m" if "n \<in> set ns" "m \<in> set ms" for n m
  proof -
    have "upto q' n" "below q' m" using a b that by (auto simp: rises_def)
    then show ?thesis by (auto simp: upto_def below_def split: option.splits)
  qed
  have up: "upto q'' n" if "upto q' n" for n
    using that b by (auto simp: upto_def rises_def split: option.splits)
  have dn: "below q m" if "below q' m" for m
    using that a by (auto simp: below_def upto_def rises_def split: option.splits)
  from a b link up dn show ?thesis by (auto simp: rises_def sorted_wrt_append split: option.splits)
qed

lemma seq_of_object: "seq_of ev = Some n \<Longrightarrow> is_object ev"
  by (cases ev) (auto simp: seq_of_def)

lemma seq_of_with_sequence [simp]: "seq_of (with_sequence e n) = Some n"
  by (cases n) (simp add: seq_of_def with_sequence_def update_conv')

lemma stamp_cases:
  assumes "stamp q ev = (q', ev', c)"
  obtains (bumped) a where "q = Some a" "q' = Some (num_succ a)" "ev' = with_sequence ev (num_succ a)" "is_object ev"
  | (kept) n where "seq_of ev = Some n" "ev' = ev" "q' = Some n" "\<And>a. q = Some a \<Longrightarrow> numval a < numval n"
  | (plain) "seq_of ev = None" "ev' = ev" "q' = q"
proof (cases "is_object ev")
  case False
  with assms seq_of_object [of ev] show thesis
    by (intro plain) (auto simp: stamp_def intro: ccontr)
next
  case True
  show thesis
  proof (cases "seq_of ev")
    case None
    with True assms show thesis by (cases q) (auto simp: stamp_def intro: plain bumped)
  next
    case (Some n)
    show thesis
    proof (cases q)
      case None
      with True Some assms show thesis by (intro kept [of n]) (auto simp: stamp_def)
    next
      case (Some a)
      show thesis
      proof (cases "num_le n a")
        case True
        with Some \<open>is_object ev\<close> \<open>seq_of ev = Some n\<close> assms show thesis
          by (intro bumped [of a]) (auto simp: stamp_def)
      next
        case False
        with Some \<open>is_object ev\<close> \<open>seq_of ev = Some n\<close> assms show thesis
          by (intro kept [of n]) (auto simp: stamp_def num_le_val)
      qed
    qed
  qed
qed

lemma stamp_rises:
  assumes "stamp q ev = (q', ev', c)"
  shows "rises q (case seq_of ev' of Some n \<Rightarrow> [numval n] | None \<Rightarrow> []) q'"
  using assms
proof (cases rule: stamp_cases)
  case (bumped a)
  then show ?thesis by (simp add: rises_def below_def upto_def numval_succ)
next
  case (kept n)
  then show ?thesis by (auto simp: rises_def below_def upto_def less_imp_le split: option.splits)
next
  case plain
  then show ?thesis by simp
qed

lemma push_frame_rises:
  assumes "push_frame t b s = (s', out)"
  shows "rises (et_sequence s) (seqs out) (et_sequence s')"
proof -
  obtain q ev c where st: "stamp (et_sequence s) b = (q, ev, c)" using prod_cases3 by blast
  with assms stamp_rises [OF st] show ?thesis
    by (auto simp: push_frame_def Let_def split: option.splits)
qed

lemma close_open_rises:
  assumes c: "close_open s = (s', out)"
  shows "rises (et_sequence s) (seqs out) (et_sequence s')"
proof (cases "\<exists>op. et_open s = Some op \<and> \<not> already_closed op s")
  case False
  with c have "et_sequence s' = et_sequence s" "out = []"
    by (auto simp: close_open_def split: option.splits if_splits)
  then show ?thesis by simp
next
  case True
  then obtain op where op: "et_open s = Some op" "\<not> already_closed op s" by blast
  let ?s1 = "mark_closed op s"
  obtain s2 o1 where r1: "(if ot_arguments_done op then (?s1, [])
          else push_frame (fst (args_done_body op)) (snd (args_done_body op)) ?s1) = (s2, o1)" by fastforce
  obtain s3 o2 where r2: "push_frame ET_DONE (item_done_body op) s2 = (s3, o2)" by fastforce
  from op c r1 r2 have eq: "s' = s3\<lparr>et_open := None\<rparr>" "out = o1 @ o2"
    by (simp_all add: close_open_def)
  have q: "et_sequence ?s1 = et_sequence s" by (simp add: mark_closed_def)
  have "rises (et_sequence ?s1) (seqs o1) (et_sequence s2)"
    using r1 push_frame_rises by (metis prod.inject rises_refl seqs_simps(1))
  from rises_trans [OF this push_frame_rises [OF r2]] show ?thesis by (simp add: eq q)
qed

lemma handle_stamped_seqs:
  "handle_stamped orig ev out s = (s', outs) \<Longrightarrow> et_sequence s' = et_sequence s \<and> seqs outs \<in> {seqs [out], []}"
  by (auto simp: handle_stamped_def disable_rewrite_def Let_def split: if_splits)

lemma handle_event_rises:
  "handle_event orig raw s = (s', out) \<Longrightarrow> rises (et_sequence s) (seqs out) (et_sequence s')"
proof -
  assume h: "handle_event orig raw s = (s', out)"
  obtain s1 o1 where r1: "(if tool_added raw then close_open s else (s, [])) = (s1, o1)" by fastforce
  obtain sq ev c where st: "stamp (et_sequence s1) raw = (sq, ev, c)" using prod_cases3 by blast
  let ?out = "(if c then frame_for (obj_get raw ''type'') ev (et_newline s1) else orig, Some ev)"
  obtain s3 o2 where r3: "handle_stamped orig ev ?out (s1\<lparr>et_sequence := sq\<rparr>) = (s3, o2)" by fastforce
  from h r1 st r3 have eq: "s' = s3" "out = o1 @ o2" by (cases c; simp add: handle_event_def Let_def)+
  have a: "rises (et_sequence s) (seqs o1) (et_sequence s1)"
    using r1 close_open_rises by (metis prod.inject rises_refl seqs_simps(1))
  have b: "rises (et_sequence s1) (seqs [?out]) sq"
    using stamp_rises [OF st] by (cases "seq_of ev") simp_all
  then have "rises (et_sequence s1) [] sq" by (auto simp: rises_def)
  with b handle_stamped_seqs [OF r3] have "rises (et_sequence s1) (seqs o2) (et_sequence s3)" by auto
  from rises_trans [OF a this] show ?thesis by (simp add: eq)
qed


section \<open>From events to streams\<close>

text \<open>A relation between the state before, what was pushed and the state after, that one event
  keeps, and that steps which carry no event keep trivially, holds of whole streams.\<close>

definition silent :: "early \<Rightarrow> pushed list \<Rightarrow> early \<Rightarrow> bool" where
  "silent s out s' \<longleftrightarrow> et_sequence s' = et_sequence s \<and> et_closed s' = et_closed s \<and>
     et_open s' = et_open s \<and> (\<forall>p \<in> set out. snd p = None)"

locale event_relation =
  fixes R :: "early \<Rightarrow> pushed list \<Rightarrow> early \<Rightarrow> bool"
  assumes silent: "silent s out s' \<Longrightarrow> R s out s'"
    and chain: "R s out s1 \<Longrightarrow> R s1 out' s2 \<Longrightarrow> R s (out @ out') s2"
    and event: "handle_event orig ev s = (s', out) \<Longrightarrow> R s out s'"
begin

lemma handle:
  assumes "\<not> et_pass s"
  shows "R s (snd (et_handle orig sep s)) (fst (et_handle orig sep s))"
proof (cases rule: et_handle_cases [of s orig sep])
  case 1
  with assms show ?thesis by simp
next
  case 2
  then show ?thesis by (intro silent) (auto simp: silent_def)
next
  case (3 ev)
  have "R s [] (set_newline sep s)" by (rule silent) (simp add: silent_def)
  moreover obtain s' out where h: "handle_event orig ev (set_newline sep s) = (s', out)" by fastforce
  ultimately have "R s ([] @ out) s'" using event [OF h] chain by blast
  with 3 h show ?thesis by simp
qed

lemma drain: "R s (snd (et_drain flush s)) (fst (et_drain flush s))"
proof (induction flush s rule: et_drain.induct)
  case (1 flush s)
  note unfold = et_drain.simps [of flush s]
  show ?case
  proof (cases "et_buffer s = [] \<or> et_pass s")
    case True
    then show ?thesis by (intro silent) (auto simp: unfold silent_def)
  next
    case live: False
    show ?thesis
    proof (cases "find_blank_line (et_search_from s) (et_buffer s)")
      case None
      let ?s = "s\<lparr>et_search_from := length (et_buffer s) - 2, et_buffer := []\<rparr>"
      have a: "R s [] ?s" by (rule silent) (simp add: silent_def)
      have h: "R ?s (snd (et_handle (et_buffer s) [] ?s)) (fst (et_handle (et_buffer s) [] ?s))"
        using live by (intro handle) simp
      show ?thesis
      proof (cases "\<not> flush \<or> length (et_buffer s) > MAX_SSE_FRAME_BYTES")
        case True
        with None live show ?thesis by (intro silent) (auto simp: unfold silent_def Let_def)
      next
        case False
        with None live chain [OF a h] show ?thesis unfolding unfold by (simp add: Let_def)
      qed
    next
      case (Some x)
      obtain i sep where x: "x = (i, sep)" by (cases x)
      let ?n = "i + length sep"
      let ?t = "s\<lparr>et_buffer := drop ?n (et_buffer s), et_search_from := 0\<rparr>"
      let ?r = "et_handle (take ?n (et_buffer s)) sep ?t"
      have a: "R s [] ?t" by (rule silent) (simp add: silent_def)
      have b: "R ?t (snd ?r) (fst ?r)" using live by (intro handle) simp
      have c: "R (fst ?r) (snd (et_drain flush (fst ?r))) (fst (et_drain flush (fst ?r)))"
        using "1.IH" [OF _ _ Some x [symmetric] refl refl] live by blast
      have "et_drain flush s = (fst (et_drain flush (fst ?r)), snd ?r @ snd (et_drain flush (fst ?r)))"
        using live Some x by (simp add: unfold Let_def)
      with chain [OF chain [OF a b] c] show ?thesis by simp
    qed
  qed
qed

lemma feed: "R s (snd (et_feed cs s)) (fst (et_feed cs s))"
proof (induction cs arbitrary: s)
  case Nil
  have "R s [] s" by (rule silent) (simp add: silent_def)
  with drain [of s True] show ?case by (simp add: et_flush_def)
next
  case (Cons c cs)
  obtain s1 o1 where t: "et_transform c s = (s1, o1)" by fastforce
  let ?s = "s\<lparr>et_buffer := et_buffer s @ c\<rparr>"
  have a: "R s [] ?s" by (rule silent) (simp add: silent_def)
  have "R s o1 s1"
  proof (cases "\<not> et_pass s \<and> length (et_buffer s) + length c > MAX_SSE_FRAME_BYTES")
    case True
    with t show ?thesis by (intro silent) (auto simp: et_transform_def silent_def)
  next
    case False
    with t have "et_drain False ?s = (s1, o1)" by (cases "et_pass s") (simp_all add: et_transform_def)
    with chain [OF a drain [of ?s False]] show ?thesis by simp
  qed
  from chain [OF this Cons.IH] t show ?case by (simp add: case_prod_unfold Let_def)
qed

end

lemma seqs_silent: "\<forall>p \<in> set out. snd p = None \<Longrightarrow> seqs out = []"
  by (auto simp: seqs_def)

interpretation sq: event_relation "\<lambda>s out s'. rises (et_sequence s) (seqs out) (et_sequence s')"
proof unfold_locales
  show "rises (et_sequence s) (seqs out) (et_sequence s')" if "silent s out s'" for s out s'
    using that by (simp add: silent_def seqs_silent)
  show "rises (et_sequence s) (seqs (out @ out')) (et_sequence s2)"
    if "rises (et_sequence s) (seqs out) (et_sequence s1)" "rises (et_sequence s1) (seqs out') (et_sequence s2)"
    for s out s1 out' s2
    using rises_trans [OF that] by simp
qed (rule handle_event_rises)

section \<open>Done once\<close>

definition done_name :: "json \<Rightarrow> string option" where
  "done_name ev = (if type_among ev [ET_DONE] then nonempty (as_str (done_id ev)) else None)"

definition dones :: "pushed list \<Rightarrow> string list" where
  "dones out = concat (map (\<lambda>(b, ev). case Option.bind ev done_name of Some n \<Rightarrow> [n] | None \<Rightarrow> []) out)"

lemma dones_simps [simp]:
  "dones [] = []" "dones (out @ out') = dones out @ dones out'" "dones ((b, None) # out) = dones out"
  "dones ((b, Some ev) # out) = (case done_name ev of Some n \<Rightarrow> n # dones out | None \<Rightarrow> dones out)"
  by (simp_all add: dones_def split: option.split)

text \<open>What the open tool remembers of its item.\<close>

definition open_ok :: "early \<Rightarrow> bool" where
  "open_ok s \<longleftrightarrow> (case et_open s of None \<Rightarrow> True
     | Some op \<Rightarrow> is_obj (ot_item op) \<and> ot_item_id op = as_str (obj_get (ot_item op) ''id'') \<and>
         ot_call_id op = as_str (obj_get (ot_item op) ''call_id''))"

definition done_once :: "early \<Rightarrow> pushed list \<Rightarrow> early \<Rightarrow> bool" where
  "done_once s out s' \<longleftrightarrow> (open_ok s \<longrightarrow> open_ok s' \<and> distinct (dones out) \<and>
     JStr ` set (dones out) \<subseteq> set (et_closed s') - set (et_closed s) \<and> set (et_closed s) \<subseteq> set (et_closed s'))"

lemma done_once_chain: "done_once s out s1 \<Longrightarrow> done_once s1 out' s2 \<Longrightarrow> done_once s (out @ out') s2"
  unfolding done_once_def by auto

lemma dones_silent: "\<forall>p \<in> set out. snd p = None \<Longrightarrow> dones out = []"
  by (auto simp: dones_def)

lemma done_once_silent: "silent s out s' \<Longrightarrow> done_once s out s'"
  by (simp add: silent_def done_once_def dones_silent open_ok_def)

lemma with_sequence_get:
  "is_obj ev \<Longrightarrow> k \<noteq> ''sequence_number'' \<Longrightarrow> obj_get (with_sequence ev n) k = obj_get ev k"
  by (cases ev) (simp_all add: with_sequence_def spread_def update_conv')

lemma stamp_get:
  assumes "stamp q ev = (q', ev', c)" and "is_obj ev" and "k \<noteq> ''sequence_number''"
  shows "obj_get ev' k = obj_get ev k"
  using assms(1)
proof (cases rule: stamp_cases)
  case (bumped a)
  then show ?thesis using assms(2,3) with_sequence_get by simp
qed simp_all

lemma defined_props_get:
  "distinct (map fst ps) \<Longrightarrow> obj_get (defined_props ps) k = Option.bind (map_of ps k) (\<lambda>v. v)"
  by (induction ps) (auto simp: defined_props_def map_of_eq_None_iff [THEN iffD2] split: option.splits)


lemma js_has_str: "js_has xs (Some (JStr n)) \<longleftrightarrow> JStr n \<in> set xs"
proof -
  have "js_same (Some x) (Some (JStr n)) \<longleftrightarrow> x = JStr n" for x by (cases x) auto
  then show ?thesis by (auto simp: js_has_def)
qed

lemma close_open_done_once:
  assumes c: "close_open s = (s', out)"
  shows "done_once s out s' \<and> et_open s' = None"
proof (cases "\<exists>op. et_open s = Some op \<and> \<not> already_closed op s")
  case False
  with c have "et_closed s' = et_closed s" "out = []" "et_open s' = None"
    by (auto simp: close_open_def split: option.splits if_splits)
  then show ?thesis by (simp add: done_once_def open_ok_def)
next
  case True
  then obtain op where op: "et_open s = Some op" "\<not> already_closed op s" by blast
  let ?s1 = "mark_closed op s"
  obtain s2 o1 where r1: "(if ot_arguments_done op then (?s1, [])
          else push_frame (fst (args_done_body op)) (snd (args_done_body op)) ?s1) = (s2, o1)" by fastforce
  obtain s3 o2 where r2: "push_frame ET_DONE (item_done_body op) s2 = (s3, o2)" by fastforce
  from op c r1 r2 have eq: "s' = s3\<lparr>et_open := None\<rparr>" "out = o1 @ o2"
    by (simp_all add: close_open_def)
  have push: "et_closed t' = et_closed t" if "push_frame ty ev t = (t', os)" for ty ev t t' os
    using that by (auto simp: push_frame_def Let_def case_prod_unfold)
  have cl: "et_closed s3 = et_closed ?s1"
    using push [OF r2] push r1 by (metis prod.inject)
  obtain q ev ch where st: "stamp (et_sequence s2) (item_done_body op) = (q, ev, ch)" using prod_cases3 by blast
  have o2: "dones o2 = (case done_name ev of Some n \<Rightarrow> [n] | None \<Rightarrow> [])"
    using r2 st by (auto simp: push_frame_def split: option.split)
  have body: "is_obj (item_done_body op)" by (simp add: item_done_body_def defined_props_def)
  have gets: "obj_get ev ''item'' = Some (closed_item op)"
    using stamp_get [OF st body] by (simp add: item_done_body_def defined_props_get)
  have o1: "dones o1 = []"
  proof (cases "ot_arguments_done op")
    case False
    obtain q' ev' ch' where st': "stamp (et_sequence ?s1) (snd (args_done_body op)) = (q', ev', ch')"
      using prod_cases3 by blast
    have b: "is_obj (snd (args_done_body op))" by (simp add: args_done_body_def Let_def defined_props_def)
    have "obj_get (snd (args_done_body op)) ''type'' = Some (JStr (fst (args_done_body op)))"
      by (simp add: args_done_body_def Let_def defined_props_get)
    with stamp_get [OF st' b] have "done_name ev' = None"
      by (auto simp: done_name_def type_among_def args_done_body_def Let_def ET_DONE_def split: if_splits)
    with False r1 st' show ?thesis by (auto simp: push_frame_def)
  qed (use r1 in simp)
  have main: "JStr n \<in> set (et_closed ?s1) - set (et_closed s)" if "open_ok s" "done_name ev = Some n" for n
  proof -
    have item: "is_obj (ot_item op)" "ot_item_id op = as_str (obj_get (ot_item op) ''id'')"
      "ot_call_id op = as_str (obj_get (ot_item op) ''call_id'')"
      using that(1) op(1) by (simp_all add: open_ok_def)
    have ids: "obj_get (closed_item op) ''id'' = obj_get (ot_item op) ''id''"
      "obj_get (closed_item op) ''call_id'' = obj_get (ot_item op) ''call_id''"
      using item(1) by (simp_all add: closed_item_def Let_def)
    have d: "done_id ev = Some (JStr n)" "n \<noteq> []"
      using that(2) by (auto simp: done_name_def nonempty_def split: if_splits option.splits list.splits)
    have di: "done_id ev = (if truthy (obj_get (ot_item op) ''id'') then obj_get (ot_item op) ''id''
        else obj_get (ot_item op) ''call_id'')"
      by (simp add: done_id_def gets opt_get_def ids Let_def)
    have "lifecycle_id op = Some n \<and> (nonempty (ot_item_id op) = Some n \<or> nonempty (ot_call_id op) = Some n)"
    proof (cases "truthy (obj_get (ot_item op) ''id'')")
      case True
      with d di have "ot_item_id op = Some n" by (simp add: item(2))
      with d(2) show ?thesis by (cases n) (simp_all add: lifecycle_id_def nonempty_def)
    next
      case False
      with d di have c: "ot_call_id op = Some n" by (simp add: item(3))
      have "nonempty (ot_item_id op) = None"
        using False by (cases "obj_get (ot_item op) ''id''" rule: as_str.cases) (simp_all add: item(2) nonempty_def)
      with c d(2) show ?thesis by (cases n) (simp_all add: lifecycle_id_def nonempty_def)
    qed
    moreover have "JStr n \<notin> set (et_closed s)"
      using calculation op(2) by (auto simp: already_closed_def js_has_str)
    ultimately show ?thesis using d(2) by (cases n) (simp_all add: mark_closed_def nonempty_def)
  qed
  have sub: "set (et_closed s) \<subseteq> set (et_closed ?s1)" by (auto simp: mark_closed_def)
  show ?thesis using main sub
    by (auto simp: done_once_def eq o1 o2 cl open_ok_def split: option.splits)
qed


lemma ids_injective: "ET_ADDED \<noteq> ET_DONE" "ET_DONE \<notin> set ET_TERMINAL_TYPES"
  "ET_DONE \<notin> set ARG_DELTA_TYPES" "ET_DONE \<notin> set ARG_DONE_TYPES"
  by (simp_all add: ET_ADDED_def ET_DONE_def ET_TERMINAL_TYPES_def ARG_DELTA_TYPES_def ARG_DONE_TYPES_def)

lemma not_done: "\<not> type_among ev [ET_DONE] \<Longrightarrow> dones [(b, Some ev)] = []"
  by (simp add: done_name_def)

lemma done_once_plain:
  assumes "et_closed s' = et_closed s" and "open_ok s \<Longrightarrow> open_ok s'" and "dones out = []"
  shows "done_once s out s'"
  using assms by (simp add: done_once_def)

lemma disable_rewrite_dones: "disable_rewrite orig s = (s', out) \<Longrightarrow> et_closed s' = et_closed s \<and> open_ok s' \<and> dones out = []"
  by (auto simp: disable_rewrite_def open_ok_def)

lemma handle_stamped_done_once:
  assumes h: "handle_stamped orig ev (b, Some ev) s = (s', out)"
  shows "done_once s out s'"
proof (cases "type_among ev [ET_DONE]")
  case False
  note nd = not_done [OF False, of b]
  consider (plain) "s' = s" "out = [(b, Some ev)] \<or> out = []"
    | (disable) t where "disable_rewrite orig t = (s', out)" "et_closed t = et_closed s"
    | (opened) op where "s' = s\<lparr>et_open := Some op\<rparr>" "out = [(b, Some ev)]" "tool_added ev"
        "op = open_of ev (the (obj_get ev ''item''))"
    | (kept) op op' where "et_open s = Some op" "s' = s\<lparr>et_open := Some op'\<rparr>" "out = [(b, Some ev)]"
        "ot_item op' = ot_item op" "ot_item_id op' = ot_item_id op" "ot_call_id op' = ot_call_id op"
  proof -
    have some: "\<exists>op. et_open s = Some op" if "matches_open ev s"
      using that by (auto simp: matches_open_def same_open_identity_def split: option.splits)
    consider (terminal) "type_among ev ET_TERMINAL_TYPES"
      | (added) "\<not> type_among ev ET_TERMINAL_TYPES" "tool_added ev"
      | (delta) "\<not> type_among ev ET_TERMINAL_TYPES" "\<not> tool_added ev" "type_among ev ARG_DELTA_TYPES" "matches_open ev s"
      | (args) "\<not> type_among ev ET_TERMINAL_TYPES" "\<not> tool_added ev"
          "\<not> (type_among ev ARG_DELTA_TYPES \<and> matches_open ev s)" "type_among ev ARG_DONE_TYPES"
      | (other) "\<not> type_among ev ET_TERMINAL_TYPES" "\<not> tool_added ev"
          "\<not> (type_among ev ARG_DELTA_TYPES \<and> matches_open ev s)" "\<not> type_among ev ARG_DONE_TYPES"
      by blast
    then show thesis
    proof cases
      case terminal
      with h show thesis by (intro that(1)) (simp_all add: handle_stamped_def)
    next
      case added
      let ?op = "open_of ev (the (obj_get ev ''item''))"
      show thesis
      proof (cases "exceeds_argument_bound 0 (held_text ?op)")
        case True
        with added h show thesis by (intro that(2) [of "s\<lparr>et_open := Some ?op\<rparr>"]) (simp_all add: handle_stamped_def Let_def)
      next
        case no: False
        with added h show thesis by (intro that(3) [of ?op]) (simp_all add: handle_stamped_def Let_def)
      qed
    next
      case delta
      from some [OF delta(4)] obtain op where op: "et_open s = Some op" by blast
      let ?d = "case as_str (obj_get ev ''delta'') of Some d \<Rightarrow> d | None \<Rightarrow> []"
      show thesis
      proof (cases "exceeds_argument_bound (length ?d) (held_text op)")
        case True
        with delta h op show thesis by (intro that(2) [of s]) (simp_all add: handle_stamped_def Let_def)
      next
        case no: False
        with delta h op show thesis
          by (intro that(4) [OF op, of "if ot_kind op = ''custom_tool_call''
                then op\<lparr>ot_input := ot_input op @ ?d\<rparr> else op\<lparr>ot_arguments := ot_arguments op @ ?d\<rparr>"])
            (auto simp: handle_stamped_def Let_def)
      qed
    next
      case args
      let ?i = "obj_get ev ''item_id''"
      show thesis
      proof (cases "truthy ?i \<and> js_has (et_closed s) ?i \<or>
          \<not> supplied_identity ?i \<and> js_has (et_closed_indexes s) (obj_get ev ''output_index'') \<or> \<not> matches_open ev s")
        case True
        with args h show thesis by (intro that(1)) (auto simp: handle_stamped_def Let_def split: if_splits)
      next
        case live: False
        with some obtain op where op: "et_open s = Some op" by blast
        show thesis
        proof (cases "exceeds_argument_bound 0 (held_text (done_arguments ev op))")
          case True
          with args h op live show thesis by (intro that(2) [of s]) (auto simp: handle_stamped_def Let_def)
        next
          case no: False
          with args h op live show thesis
            by (intro that(4) [OF op, of "done_arguments ev op"])
              (auto simp: handle_stamped_def Let_def done_arguments_def)
        qed
      qed
    next
      case other
      with h False show thesis by (intro that(1)) (auto simp: handle_stamped_def)
    qed
  qed
  then show ?thesis
  proof cases
    case plain
    with nd show ?thesis by (intro done_once_plain) auto
  next
    case disable
    with disable_rewrite_dones [OF disable(1)] show ?thesis by (intro done_once_plain) auto
  next
    case (opened op)
    have "is_obj (the (obj_get ev ''item''))"
      using opened(3) by (auto simp: tool_added_def opt_get_def obj_get_is_obj split: option.splits)
    with opened nd show ?thesis by (intro done_once_plain) (auto simp: open_ok_def open_of_def)
  next
    case (kept op op')
    with nd show ?thesis by (intro done_once_plain) (auto simp: open_ok_def)
  qed
next
  case True
  then have other: "\<not> type_among ev ET_TERMINAL_TYPES" "\<not> tool_added ev" "\<not> type_among ev ARG_DELTA_TYPES"
    "\<not> type_among ev ARG_DONE_TYPES"
    using ids_injective by (auto simp: type_among_def tool_added_def)
  let ?i = "done_id ev" and ?x = "obj_get ev ''output_index''"
  show ?thesis
  proof (cases "truthy ?i \<and> js_has (et_closed s) ?i \<or> \<not> supplied_identity ?i \<and> js_has (et_closed_indexes s) ?x")
    case dropped: True
    with h True other have "s' = s" "out = []" by (auto simp: handle_stamped_def Let_def split: if_splits)
    then show ?thesis by (intro done_once_plain) auto
  next
    case False
    with h True other have eq: "s' = s\<lparr>et_closed := (if truthy ?i then [the ?i] else []) @ et_closed s,
          et_closed_indexes := (if is_number ?x then [the ?x] else []) @ et_closed_indexes s,
          et_open := (if same_open_identity ?i ?x s then None else et_open s)\<rparr>" "out = [(b, Some ev)]"
      by (auto simp: handle_stamped_def Let_def)
    have "JStr n \<in> set (et_closed s') - set (et_closed s)" if "done_name ev = Some n" for n
    proof -
      from that have d: "?i = Some (JStr n)" "n \<noteq> []"
        by (auto simp: done_name_def nonempty_def split: if_splits option.splits list.splits)
      with False show ?thesis by (auto simp: eq js_has_str)
    qed
    moreover have "open_ok s \<Longrightarrow> open_ok s'" by (auto simp: eq open_ok_def split: option.splits)
    ultimately show ?thesis by (auto simp: done_once_def eq(2) eq(1) split: option.splits)
  qed
qed

lemma handle_event_done_once:
  assumes h: "handle_event orig raw s = (s', out)"
  shows "done_once s out s'"
proof -
  obtain s1 o1 where r1: "(if tool_added raw then close_open s else (s, [])) = (s1, o1)" by fastforce
  obtain sq ev c where st: "stamp (et_sequence s1) raw = (sq, ev, c)" using prod_cases3 by blast
  let ?b = "if c then frame_for (obj_get raw ''type'') ev (et_newline s1) else orig"
  obtain s3 o2 where r3: "handle_stamped orig ev (?b, Some ev) (s1\<lparr>et_sequence := sq\<rparr>) = (s3, o2)" by fastforce
  from h r1 st r3 have eq: "s' = s3" "out = o1 @ o2" by (cases c; simp add: handle_event_def Let_def)+
  have a: "done_once s o1 s1"
  proof (cases "tool_added raw")
    case True
    with r1 close_open_done_once show ?thesis by auto
  next
    case False
    with r1 show ?thesis by (auto intro: done_once_plain)
  qed
  have "done_once s1 [] (s1\<lparr>et_sequence := sq\<rparr>)" by (rule done_once_plain) (simp_all add: open_ok_def)
  from done_once_chain [OF done_once_chain [OF a this] handle_stamped_done_once [OF r3]]
  show ?thesis by (simp add: eq)
qed

interpretation once: event_relation done_once
  by unfold_locales (auto intro: done_once_silent done_once_chain handle_event_done_once)


section \<open>The arguments of the closed item\<close>

definition delta_event :: "string \<Rightarrow> string \<Rightarrow> json \<Rightarrow> bool" where
  "delta_event i d ev \<longleftrightarrow> obj_get ev ''type'' = Some (JStr ''response.function_call_arguments.delta'') \<and>
     obj_get ev ''item_id'' = Some (JStr i) \<and> obj_get ev ''delta'' = Some (JStr d)"

fun run_events :: "json list \<Rightarrow> early \<Rightarrow> early" where
  "run_events [] s = s"
| "run_events (ev # evs) s = run_events evs (fst (handle_event [] ev s))"

lemma delta_handled:
  assumes op: "et_open s = Some op" "ot_kind op = ''function_call''" "ot_item_id op = Some i" "i \<noteq> []"
    and ev: "delta_event i d ev" and fits: "length (ot_arguments op) + length d \<le> MAX_SSE_FRAME_BYTES"
  shows "et_open (fst (handle_event orig ev s)) = Some (op\<lparr>ot_arguments := ot_arguments op @ d\<rparr>) \<and>
    et_closed (fst (handle_event orig ev s)) = et_closed s \<and>
    et_closed_indexes (fst (handle_event orig ev s)) = et_closed_indexes s"
proof -
  obtain sq ev' c where st: "stamp (et_sequence s) ev = (sq, ev', c)" using prod_cases3 by blast
  have obj: "is_obj ev" using ev obj_get_is_obj by (auto simp: delta_event_def)
  have g: "obj_get ev' ''type'' = Some (JStr ''response.function_call_arguments.delta'')"
    "obj_get ev' ''item_id'' = Some (JStr i)" "obj_get ev' ''delta'' = Some (JStr d)"
    using stamp_get [OF st obj] ev by (simp_all add: delta_event_def)
  have "\<not> tool_added ev" using ev by (auto simp: tool_added_def type_among_def delta_event_def ET_ADDED_def)
  moreover have "handle_stamped orig ev' out (s\<lparr>et_sequence := sq\<rparr>) =
      (s\<lparr>et_sequence := sq, et_open := Some (op\<lparr>ot_arguments := ot_arguments op @ d\<rparr>)\<rparr>, [out])" for out
    using g op fits by (simp add: handle_stamped_def tool_added_def type_among_def ET_TERMINAL_TYPES_def
        ET_ADDED_def ARG_DELTA_TYPES_def matches_open_def same_open_identity_def supplied_identity_def
        exceeds_argument_bound_def held_text_def Let_def)
  ultimately show ?thesis by (simp add: handle_event_def st Let_def case_prod_unfold)
qed

lemma deltas_handled:
  assumes "list_all2 (delta_event i) ds evs" and "et_open s = Some op" "ot_kind op = ''function_call''"
    "ot_item_id op = Some i" "i \<noteq> []"
    and "length (ot_arguments op) + length (concat ds) \<le> MAX_SSE_FRAME_BYTES"
  shows "et_open (run_events evs s) = Some (op\<lparr>ot_arguments := ot_arguments op @ concat ds\<rparr>) \<and>
    et_closed (run_events evs s) = et_closed s \<and> et_closed_indexes (run_events evs s) = et_closed_indexes s"
  using assms
proof (induction ds evs arbitrary: s op rule: list_all2_induct)
  case (Cons d ds ev evs)
  let ?s = "fst (handle_event [] ev s)" and ?op = "op\<lparr>ot_arguments := ot_arguments op @ d\<rparr>"
  from delta_handled [OF Cons.prems(1-4) Cons.hyps(1), of "[]"] Cons.prems(5)
  have s: "et_open ?s = Some ?op" "et_closed ?s = et_closed s" "et_closed_indexes ?s = et_closed_indexes s"
    by simp_all
  from Cons.IH [OF s(1)] Cons.prems(2-5) s(2,3) show ?case by simp
qed simp

lemma closed_frame:
  assumes "et_open s = Some op" and "\<not> already_closed op s"
  shows "\<exists>b ev. (b, Some ev) \<in> set (snd (close_open s)) \<and> obj_get ev ''type'' = Some (JStr ET_DONE) \<and>
    obj_get ev ''item'' = Some (closed_item op)"
proof -
  obtain s2 o1 where r1: "(if ot_arguments_done op then (mark_closed op s, [])
          else push_frame (fst (args_done_body op)) (snd (args_done_body op)) (mark_closed op s)) = (s2, o1)" by fastforce
  obtain q ev ch where st: "stamp (et_sequence s2) (item_done_body op) = (q, ev, ch)" using prod_cases3 by blast
  have body: "is_obj (item_done_body op)" by (simp add: item_done_body_def defined_props_def)
  have "obj_get ev ''type'' = Some (JStr ET_DONE)" "obj_get ev ''item'' = Some (closed_item op)"
    using stamp_get [OF st body] by (simp_all add: item_done_body_def defined_props_get)
  moreover have "(frame_for (Some (JStr ET_DONE)) ev (et_newline s2), Some ev) \<in> set (snd (close_open s))"
    using assms r1 st by (simp add: close_open_def push_frame_def)
  ultimately show ?thesis by blast
qed

section \<open>Properties\<close>


text \<open>C19: no tool item is done twice: among the item-done events that leave while the stage
  rewrites, those it synthesised early and those the provider sent late, no identity repeats.\<close>

theorem tools_done_once: "distinct (dones (early_stream cs))"
  using once.feed [of new_early cs] by (simp add: early_stream_def done_once_def open_ok_def new_early_def)

text \<open>the item closed early is complete: its arguments are those it opened with and every delta
  since, and its status is completed.\<close>

theorem closed_early_complete:
  assumes "et_open s = Some op" and "ot_kind op = ''function_call''" and "ot_item_id op = Some i" and "i \<noteq> []"
    and "is_obj (ot_item op)" and "\<not> already_closed op s" and "list_all2 (delta_event i) ds evs"
    and "length (ot_arguments op) + length (concat ds) \<le> MAX_SSE_FRAME_BYTES" and "tool_added nxt"
  shows "\<exists>b ev item. (b, Some ev) \<in> set (snd (handle_event orig nxt (run_events evs s))) \<and>
    obj_get ev ''type'' = Some (JStr ET_DONE) \<and> obj_get ev ''item'' = Some item \<and>
    obj_get item ''arguments'' = Some (JStr (ot_arguments op @ concat ds)) \<and>
    obj_get item ''status'' = Some (JStr ''completed'')"
proof -
  let ?s = "run_events evs s" and ?op = "op\<lparr>ot_arguments := ot_arguments op @ concat ds\<rparr>"
  from deltas_handled [OF assms(7,1,2,3,4,8)] have o: "et_open ?s = Some ?op"
    "et_closed ?s = et_closed s" "et_closed_indexes ?s = et_closed_indexes s" by simp_all
  have "\<not> already_closed ?op ?s" using assms(6) unfolding already_closed_def o(2,3) by simp
  from closed_frame [OF o(1) this] obtain b ev where be: "(b, Some ev) \<in> set (snd (close_open ?s))"
    "obj_get ev ''type'' = Some (JStr ET_DONE)" "obj_get ev ''item'' = Some (closed_item ?op)" by blast
  have "(b, Some ev) \<in> set (snd (handle_event orig nxt ?s))"
    using be(1) assms(9) by (simp add: handle_event_def Let_def case_prod_unfold)
  moreover have "obj_get (closed_item ?op) ''arguments'' = Some (JStr (ot_arguments op @ concat ds))"
    "obj_get (closed_item ?op) ''status'' = Some (JStr ''completed'')"
    using assms(2,5) by (simp_all add: closed_item_def Let_def)
  ultimately show ?thesis using be(2,3) by blast
qed

definition sample_tool :: "string \<Rightarrow> json" where
  "sample_tool i = JObj [(''type'', JStr ET_ADDED),
     (''item'', JObj [(''type'', JStr ''function_call''), (''id'', JStr i), (''arguments'', JStr [])])]"

definition sample_delta :: "string \<Rightarrow> json" where
  "sample_delta d = JObj [(''type'', JStr ''response.function_call_arguments.delta''),
     (''item_id'', JStr ''a''), (''delta'', JStr d)]"

definition sample_state :: early where "sample_state = fst (handle_event [] (sample_tool ''a'') new_early)"

definition sample_open :: open_tool where
  "sample_open = open_of (sample_tool ''a'') (the (obj_get (sample_tool ''a'') ''item''))"

lemma closed_early_complete_witness:
  "\<exists>b ev item. (b, Some ev) \<in> set (snd (handle_event [] (sample_tool ''b'')
        (run_events [sample_delta ''x'', sample_delta ''yz''] sample_state))) \<and>
    obj_get ev ''type'' = Some (JStr ET_DONE) \<and> obj_get ev ''item'' = Some item \<and>
    obj_get item ''arguments'' = Some (JStr (ot_arguments sample_open @ concat [''x'', ''yz''])) \<and>
    obj_get item ''status'' = Some (JStr ''completed'')"
proof (rule closed_early_complete)
  show "et_open sample_state = Some sample_open" by code_simp
  show "ot_kind sample_open = ''function_call''" "ot_item_id sample_open = Some ''a''" by code_simp+
  show "is_obj (ot_item sample_open)" "\<not> already_closed sample_open sample_state" by code_simp+
  show "list_all2 (delta_event ''a'') [''x'', ''yz''] [sample_delta ''x'', sample_delta ''yz'']"
    "tool_added (sample_tool ''b'')" by code_simp+
  show "length (ot_arguments sample_open) + length (concat [''x'', ''yz'']) \<le> MAX_SSE_FRAME_BYTES" by code_simp
qed simp

definition sample_numbered :: bytes where
  "sample_numbered = ''data: '' @ json_stringify (JObj [(''type'', JStr ''x''), (''sequence_number'', JInt 4)]) @ [LF, LF]"

definition sample_untyped :: bytes where
  "sample_untyped = ''data: '' @ json_stringify (JObj [(''error'', JStr ''y'')]) @ [LF, LF]"

text \<open>once a sequence number was seen, an object without a type is sent on under the event name
  \<open>undefined\<close>, although the frame had no event line.\<close>

theorem untyped_named_undefined:
  "map fst (early_stream [sample_numbered, sample_untyped]) =
     [sample_numbered, ''event: undefined'' @ [LF] @ ''data: '' @
        json_stringify (JObj [(''error'', JStr ''y''), (''sequence_number'', JInt 5)]) @ [LF, LF]]"
  by code_simp

end
