(* ===== verification/Ws_Frames.thy ===== *)
theory Ws_Frames
  imports Json
begin

unbundle bit_operations_syntax

text \<open>
  The WebSocket peer of \<open>src/router/src/responses-websocket.mjs\<close>, up to the request queue:
  frames in both directions (\<open>encodeFrame\<close>, \<open>feed\<close>, \<open>handleFrame\<close>), fragmented messages,
  close codes, and the bound on queued requests. The socket is what is written to it.
\<close>

definition MAX_QUEUED_REQUESTS :: nat where "MAX_QUEUED_REQUESTS = 2"
definition MAX_FRAGMENT_FRAMES :: nat where "MAX_FRAGMENT_FRAMES = 1024"
definition MAX_SAFE_INTEGER :: nat where "MAX_SAFE_INTEGER = 2 ^ 53 - 1"

record ws_options =
  max_message_bytes :: nat
  max_event_bytes :: nat
  max_error_bytes :: nat
  max_continuation_bytes :: nat
  max_fragment_frames :: nat

section \<open>Frames sent\<close>

definition u16_be :: "nat \<Rightarrow> bytes" where
  "u16_be n = [char_of (n div 256), char_of n]"

definition u64_be :: "nat \<Rightarrow> bytes" where
  "u64_be n = map (\<lambda>i. char_of (n div 256 ^ i)) [7, 6, 5, 4, 3, 2, 1, 0]"

definition encode_frame :: "nat \<Rightarrow> bytes \<Rightarrow> bytes" where
  "encode_frame opcode data =
     (let n = length data; first = char_of (0x80 OR opcode) in
      (if n < 126 then [first, char_of n]
       else if n \<le> 0xFFFF then [first, char_of (126::nat)] @ u16_be n
       else [first, char_of (127::nat)] @ u64_be n) @ data)"

definition close_payload :: "nat \<Rightarrow> string \<Rightarrow> bytes" where
  "close_payload code reason = u16_be code @ take 123 reason"

definition valid_close_code :: "nat \<Rightarrow> bool" where
  "valid_close_code code \<longleftrightarrow>
     code \<in> set [1000, 1001, 1002, 1003, 1007, 1008, 1009, 1010, 1011, 1012, 1013, 1014] \<or>
     (3000 \<le> code \<and> code \<le> 4999)"

section \<open>Frames received\<close>

definition read_be :: "bytes \<Rightarrow> nat" where
  "read_be bs = foldl (\<lambda>n c. n * 256 + byte_of c) 0 bs"

definition xor_char :: "char \<Rightarrow> char \<Rightarrow> char" where
  "xor_char a b = char_of ((of_char a :: nat) XOR of_char b)"

definition unmask :: "bytes \<Rightarrow> bytes \<Rightarrow> bytes" where
  "unmask key encoded = map (\<lambda>i. xor_char (encoded ! i) (key ! (i mod 4))) [0..<length encoded]"

datatype ws_error = Ws_Error nat string

text \<open>The payload length and where it ends: \<open>None\<close> when more bytes are needed.\<close>

definition payload_length :: "bytes \<Rightarrow> (ws_error + nat \<times> nat) option" where
  "payload_length b =
     (let n = byte_of (b ! 1) AND 0x7F in
      if n = 126 then (if length b < 4 then None else Some (Inr (read_be (take 2 (drop 2 b)), 4)))
      else if n = 127 then
        (if length b < 10 then None
         else let long = read_be (take 8 (drop 2 b)) in
           if long > MAX_SAFE_INTEGER then Some (Inl (Ws_Error 1009 ''WebSocket frame is too large.''))
           else Some (Inr (long, 10)))
      else Some (Inr (n, 2)))"

datatype frame_step =
    More
  | Bad ws_error
  | Frame bool nat bytes nat

text \<open>One turn of the loop of \<open>feed\<close>: nothing yet, a protocol error, or a frame (final, opcode,
  payload) and the number of bytes it took.\<close>

definition next_frame :: "ws_options \<Rightarrow> bytes \<Rightarrow> frame_step" where
  "next_frame opts b =
     (if length b < 2 then More
      else
        let first = byte_of (b ! 0); second = byte_of (b ! 1);
            fin = (first AND 0x80 \<noteq> 0); opcode = first AND 0x0F in
        if first AND 0x70 \<noteq> 0 then Bad (Ws_Error 1002 ''WebSocket extensions were not negotiated.'')
        else if second AND 0x80 = 0 then Bad (Ws_Error 1002 ''Client frames must be masked.'')
        else (case payload_length b of
            None \<Rightarrow> More
          | Some (Inl e) \<Rightarrow> Bad e
          | Some (Inr (n, offset)) \<Rightarrow>
              if opcode \<ge> 8 \<and> (\<not> fin \<or> n > 125) then Bad (Ws_Error 1002 ''Invalid WebSocket control frame.'')
              else if n > max_message_bytes opts then Bad (Ws_Error 1009 ''WebSocket message is too large.'')
              else if length b < offset + 4 + n then More
              else Frame fin opcode
                     (unmask (take 4 (drop offset b)) (take n (drop (offset + 4) b))) (offset + 4 + n)))"

section \<open>The peer\<close>

record continuation =
  ct_input :: "json list"
  ct_output :: "json list"

record turn_state =
  ts_value :: string
  ts_turn_id :: "string option"

record peer =
  pr_buffer :: bytes
  pr_fragment_opcode :: "nat option"
  pr_fragments :: "bytes list"
  pr_fragment_bytes :: nat
  pr_fragment_frames :: nat
  pr_closed :: bool
  pr_close_sent :: bool
  pr_writable :: bool
  pr_pending :: nat
  pr_continuations :: "(string \<times> continuation) list"
  pr_turn_state :: "turn_state option"

definition new_peer :: peer where
  "new_peer = \<lparr>pr_buffer = [], pr_fragment_opcode = None, pr_fragments = [], pr_fragment_bytes = 0,
     pr_fragment_frames = 0, pr_closed = False, pr_close_sent = False, pr_writable = True,
     pr_pending = 0, pr_continuations = [], pr_turn_state = None\<rparr>"

text \<open>What the outside sees: a write, the end of the write side, a request put on the queue.\<close>

datatype peer_out = Wrote bytes | Ended | Queued string

definition ws_abort :: "peer \<Rightarrow> peer" where
  "ws_abort s = (if pr_closed s then s else s\<lparr>pr_closed := True, pr_continuations := []\<rparr>)"

definition ws_send :: "nat \<Rightarrow> bytes \<Rightarrow> peer \<Rightarrow> peer_out list" where
  "ws_send opcode payload s =
     (if pr_closed s \<or> \<not> pr_writable s then [] else [Wrote (encode_frame opcode payload)])"

definition send_json :: "json \<Rightarrow> peer \<Rightarrow> peer_out list" where
  "send_json v s = ws_send 1 (json_stringify v) s"

text \<open>\<open>socket.end()\<close> closes the write side.\<close>

definition end_socket :: "peer \<Rightarrow> peer" where
  "end_socket s = s\<lparr>pr_writable := False\<rparr>"

definition fail :: "ws_error \<Rightarrow> peer \<Rightarrow> peer \<times> peer_out list" where
  "fail e s =
     (case e of Ws_Error code reason \<Rightarrow>
       if pr_closed s then (s, [])
       else if pr_close_sent s then (ws_abort (end_socket s), [Ended])
       else (ws_abort (end_socket (s\<lparr>pr_close_sent := True\<rparr>)),
             ws_send 8 (close_payload code reason) s @ [Ended]))"

definition enqueue :: "string \<Rightarrow> peer \<Rightarrow> peer \<times> peer_out list" where
  "enqueue t s =
     (let s1 = s\<lparr>pr_pending := Suc (pr_pending s)\<rparr> in
      if pr_pending s1 > MAX_QUEUED_REQUESTS
      then fail (Ws_Error 1008 ''Too many queued Responses requests.'') s1
      else (s1, [Queued t]))"

text \<open>\<open>new TextDecoder("utf-8", { fatal: true })\<close> drops one byte order mark.\<close>

definition decode_text :: "bytes \<Rightarrow> string option" where
  "decode_text b = map_option (\<lambda>t. if starts_with [CHR 0xEF, CHR 0xBB, CHR 0xBF] t then drop 3 t else t)
     (fatal_utf8 b)"

definition handle_close :: "bytes \<Rightarrow> peer \<Rightarrow> peer \<times> peer_out list" where
  "handle_close payload s =
     (if length payload = 1 then fail (Ws_Error 1002 ''Invalid WebSocket close frame.'') s
      else if length payload \<ge> 2 \<and> \<not> valid_close_code (read_be (take 2 payload))
        then fail (Ws_Error 1002 ''Invalid WebSocket close code.'') s
      else if length payload \<ge> 2 \<and> decode_text (drop 2 payload) = None
        then fail (Ws_Error 1007 ''Invalid WebSocket close reason.'') s
      else if pr_close_sent s then (ws_abort (end_socket s), [Ended])
      else (ws_abort (end_socket (s\<lparr>pr_close_sent := True\<rparr>)), ws_send 8 payload s @ [Ended]))"

text \<open>A message is complete.\<close>

definition finish_message :: "peer \<Rightarrow> peer \<times> peer_out list" where
  "finish_message s =
     (let complete = concat (pr_fragments s);
          s1 = s\<lparr>pr_fragments := [], pr_fragment_bytes := 0, pr_fragment_frames := 0, pr_fragment_opcode := None\<rparr>
      in case decode_text complete of
           None \<Rightarrow> fail (Ws_Error 1007 ''WebSocket text is not valid UTF-8.'') s1
         | Some t \<Rightarrow> enqueue t s1)"

definition add_fragment :: "ws_options \<Rightarrow> bool \<Rightarrow> bytes \<Rightarrow> peer \<Rightarrow> peer \<times> peer_out list" where
  "add_fragment opts fin payload s =
     (let s1 = s\<lparr>pr_fragment_bytes := pr_fragment_bytes s + length payload,
                 pr_fragment_frames := Suc (pr_fragment_frames s)\<rparr> in
      if pr_fragment_frames s1 > max_fragment_frames opts
        then fail (Ws_Error 1009 ''WebSocket message has too many fragments.'') s1
      else if pr_fragment_bytes s1 > max_message_bytes opts
        then fail (Ws_Error 1009 ''WebSocket message is too large.'') s1
      else
        let s2 = s1\<lparr>pr_fragments := pr_fragments s1 @ [payload]\<rparr>
        in if fin then finish_message s2 else (s2, []))"

definition ws_handle_frame :: "ws_options \<Rightarrow> bool \<Rightarrow> nat \<Rightarrow> bytes \<Rightarrow> peer \<Rightarrow> peer \<times> peer_out list" where
  "ws_handle_frame opts fin opcode payload s =
     (if opcode = 8 then handle_close payload s
      else if opcode = 9 then (s, ws_send 10 payload s)
      else if opcode = 10 then (s, [])
      else if opcode \<notin> {0, 1, 2} then fail (Ws_Error 1002 ''Unsupported WebSocket opcode.'') s
      else if opcode = 2 \<or> (opcode = 0 \<and> pr_fragment_opcode s = Some 2)
        then fail (Ws_Error 1003 ''Binary Responses WebSocket messages are not supported.'') s
      else if opcode = 0 \<and> pr_fragment_opcode s = None
        then fail (Ws_Error 1002 ''Unexpected WebSocket continuation frame.'') s
      else if opcode \<noteq> 0 \<and> pr_fragment_opcode s \<noteq> None
        then fail (Ws_Error 1002 ''A fragmented WebSocket message is already in progress.'') s
      else add_fragment opts fin payload
             (if opcode \<noteq> 0 \<and> \<not> fin then s\<lparr>pr_fragment_opcode := Some opcode\<rparr> else s))"

lemma next_frame_bound: "next_frame opts b = Frame fin opcode p n \<Longrightarrow> 6 \<le> n \<and> n \<le> length b"
  by (auto simp: next_frame_def payload_length_def Let_def split: if_splits option.splits sum.splits prod.splits)

lemma fail_buffer [simp]: "pr_buffer (fst (fail e s)) = pr_buffer s"
  by (cases e) (simp add: fail_def ws_abort_def end_socket_def)

lemma enqueue_buffer [simp]: "pr_buffer (fst (enqueue t s)) = pr_buffer s"
  by (simp add: enqueue_def Let_def)

lemma finish_message_buffer [simp]: "pr_buffer (fst (finish_message s)) = pr_buffer s"
  by (simp add: finish_message_def Let_def split: option.split)

lemma add_fragment_buffer [simp]: "pr_buffer (fst (add_fragment opts fin p s)) = pr_buffer s"
  by (simp add: add_fragment_def Let_def)

lemma handle_close_buffer [simp]: "pr_buffer (fst (handle_close p s)) = pr_buffer s"
  by (simp add: handle_close_def ws_abort_def end_socket_def)

lemma ws_handle_frame_buffer [simp]: "pr_buffer (fst (ws_handle_frame opts fin opcode p s)) = pr_buffer s"
  by (simp add: ws_handle_frame_def)

function feed_loop :: "ws_options \<Rightarrow> peer \<Rightarrow> peer \<times> peer_out list" where
  "feed_loop opts s =
     (if pr_closed s then (s, [])
      else case next_frame opts (pr_buffer s) of
          More \<Rightarrow> (s, [])
        | Bad e \<Rightarrow> fail e s
        | Frame fin opcode payload n \<Rightarrow>
            let (s1, o1) = ws_handle_frame opts fin opcode payload (s\<lparr>pr_buffer := drop n (pr_buffer s)\<rparr>);
                (s2, o2) = feed_loop opts s1
            in (s2, o1 @ o2))"
  by pat_completeness auto
termination
proof (relation "measure (\<lambda>(opts, s). length (pr_buffer s))", goal_cases)
  case (2 opts s fin opcode p n r s1 o1)
  have "s1 = fst (ws_handle_frame opts fin opcode p (s\<lparr>pr_buffer := drop n (pr_buffer s)\<rparr>))"
    using 2(3,4) by (metis fst_conv)
  then have "pr_buffer s1 = drop n (pr_buffer s)" by simp
  with next_frame_bound [OF 2(2)] show ?case by (simp, arith)
qed simp

declare feed_loop.simps [simp del]

definition feed :: "ws_options \<Rightarrow> bytes \<Rightarrow> peer \<Rightarrow> peer \<times> peer_out list" where
  "feed opts chunk s =
     (if pr_closed s \<or> chunk = [] then (s, [])
      else feed_loop opts (s\<lparr>pr_buffer := pr_buffer s @ chunk\<rparr>))"

section \<open>Chunks\<close>

lemma read_take [simp]: "n + k \<le> length b \<Longrightarrow> take k (drop n (b @ x)) = take k (drop n b)"
  by simp

lemma payload_length_append:
  "payload_length b = Some r \<Longrightarrow> 2 \<le> length b \<Longrightarrow> payload_length (b @ x) = Some r"
  by (simp add: payload_length_def Let_def nth_append split: if_splits)

lemma next_frame_append:
  assumes "next_frame opts b \<noteq> More"
  shows "next_frame opts (b @ x) = next_frame opts b"
proof -
  have n: "2 \<le> length b" using assms by (auto simp: next_frame_def split: if_splits)
  then have nth: "(b @ x) ! 0 = b ! 0" "(b @ x) ! 1 = b ! 1" by (auto simp: nth_append)
  show ?thesis
  proof (cases "payload_length b")
    case None
    with assms n show ?thesis unfolding next_frame_def Let_def nth by (auto split: if_splits)
  next
    case (Some r)
    note grown = payload_length_append [OF Some n, of x]
    show ?thesis
    proof (cases r)
      case (Inl e)
      with Some grown n show ?thesis unfolding next_frame_def Let_def nth by simp
    next
      case (Inr v)
      obtain m off where v: "v = (m, off)" by (cases v)
      show ?thesis
      proof (cases "off + 4 + m \<le> length b")
        case True
        then show ?thesis using Some grown n unfolding next_frame_def Let_def nth by (auto simp: Inr v)
      next
        case False
        with assms Some grown n show ?thesis unfolding next_frame_def Let_def nth
          by (auto simp: Inr v split: if_splits)
      qed
    qed
  qed
qed

lemma fail_set_buffer: "fail e (s\<lparr>pr_buffer := y\<rparr>) = (fst (fail e s)\<lparr>pr_buffer := y\<rparr>, snd (fail e s))"
  by (cases e) (simp add: fail_def ws_abort_def end_socket_def ws_send_def)

lemma enqueue_set_buffer: "enqueue t (s\<lparr>pr_buffer := y\<rparr>) = (fst (enqueue t s)\<lparr>pr_buffer := y\<rparr>, snd (enqueue t s))"
  by (cases s) (simp add: enqueue_def fail_def ws_abort_def end_socket_def ws_send_def Let_def)

lemma finish_message_set_buffer:
  "finish_message (s\<lparr>pr_buffer := y\<rparr>) = (fst (finish_message s)\<lparr>pr_buffer := y\<rparr>, snd (finish_message s))"
  by (cases s) (simp add: finish_message_def enqueue_def fail_def ws_abort_def end_socket_def ws_send_def Let_def
      split: option.split)

lemma add_fragment_set_buffer:
  "add_fragment opts fin p (s\<lparr>pr_buffer := y\<rparr>) =
     (fst (add_fragment opts fin p s)\<lparr>pr_buffer := y\<rparr>, snd (add_fragment opts fin p s))"
  by (cases s) (simp add: add_fragment_def finish_message_def enqueue_def fail_def ws_abort_def end_socket_def
      ws_send_def Let_def split: option.split)

lemma handle_close_set_buffer:
  "handle_close p (s\<lparr>pr_buffer := y\<rparr>) =
     (fst (handle_close p s)\<lparr>pr_buffer := y\<rparr>, snd (handle_close p s))"
  by (cases s) (simp add: handle_close_def fail_def ws_abort_def end_socket_def ws_send_def)

lemma handle_frame_set_buffer:
  "ws_handle_frame opts fin opcode p (s\<lparr>pr_buffer := y\<rparr>) =
     (fst (ws_handle_frame opts fin opcode p s)\<lparr>pr_buffer := y\<rparr>, snd (ws_handle_frame opts fin opcode p s))"
proof -
  have "add_fragment opts fin p (s\<lparr>pr_buffer := y, pr_fragment_opcode := v\<rparr>) =
      (fst (add_fragment opts fin p (s\<lparr>pr_fragment_opcode := v\<rparr>))\<lparr>pr_buffer := y\<rparr>,
       snd (add_fragment opts fin p (s\<lparr>pr_fragment_opcode := v\<rparr>)))" for v
  proof -
    have "s\<lparr>pr_buffer := y, pr_fragment_opcode := v\<rparr> = s\<lparr>pr_fragment_opcode := v\<rparr>\<lparr>pr_buffer := y\<rparr>" by simp
    then show ?thesis by (simp only: add_fragment_set_buffer)
  qed
  then show ?thesis
    by (auto simp: ws_handle_frame_def fail_set_buffer add_fragment_set_buffer handle_close_set_buffer ws_send_def)
qed

text \<open>What is left of the buffer once the peer is closed is never read.\<close>

definition peer_view :: "peer \<Rightarrow> peer" where
  "peer_view s = (if pr_closed s then s\<lparr>pr_buffer := []\<rparr> else s)"

lemma peer_view_closed [simp]: "pr_closed (peer_view s) = pr_closed s"
  by (simp add: peer_view_def)

lemma peer_view_live: "\<not> pr_closed (peer_view s) \<Longrightarrow> peer_view s = s"
  by (simp add: peer_view_def split: if_splits)

definition feed_rest :: "ws_options \<Rightarrow> bytes \<Rightarrow> peer \<times> peer_out list \<Rightarrow> peer \<times> peer_out list" where
  "feed_rest opts x r = (let (s1, o1) = r; (s2, o2) = feed opts x s1 in (peer_view s2, o1 @ o2))"

lemma fail_closes: "pr_closed (fst (fail e s))"
  by (cases e) (simp add: fail_def ws_abort_def)

lemma feed_loop_closed: "pr_closed s \<Longrightarrow> feed_loop opts s = (s, [])"
  by (simp add: feed_loop.simps)

lemma feed_closed: "pr_closed s \<Longrightarrow> feed opts x s = (s, [])"
  by (simp add: feed_def)

lemma feed_loop_append:
  assumes "\<not> pr_closed s" and "x \<noteq> []"
  shows "map_prod peer_view id (feed_loop opts (s\<lparr>pr_buffer := pr_buffer s @ x\<rparr>)) = feed_rest opts x (feed_loop opts s)"
  using assms
proof (induction opts s rule: feed_loop.induct)
  case (1 opts s)
  note live = "1.prems"(1)
  show ?case
  proof (cases "next_frame opts (pr_buffer s)")
    case More
    then have "feed_loop opts s = (s, [])" using live by (simp add: feed_loop.simps)
    then show ?thesis using live assms(2) by (simp add: feed_rest_def feed_def map_prod_def case_prod_unfold Let_def)
  next
    case (Bad e)
    then have grown: "next_frame opts (pr_buffer s @ x) = Bad e" using next_frame_append [of opts "pr_buffer s" x] by simp
    have a: "feed_loop opts s = fail e s" using Bad live by (simp add: feed_loop.simps)
    have b: "feed_loop opts (s\<lparr>pr_buffer := pr_buffer s @ x\<rparr>) = fail e (s\<lparr>pr_buffer := pr_buffer s @ x\<rparr>)"
      using grown live by (simp add: feed_loop.simps [of opts "s\<lparr>pr_buffer := pr_buffer s @ x\<rparr>"])
    show ?thesis unfolding a b fail_set_buffer
      by (simp add: feed_rest_def case_prod_unfold Let_def feed_closed fail_closes peer_view_def)
  next
    case (Frame fin opcode payload n)
    let ?s = "s\<lparr>pr_buffer := drop n (pr_buffer s)\<rparr>"
    obtain s1 o1 where h: "ws_handle_frame opts fin opcode payload ?s = (s1, o1)" by fastforce
    have n: "n \<le> length (pr_buffer s)" using next_frame_bound [OF Frame] by simp
    have b1: "pr_buffer s1 = drop n (pr_buffer s)"
      using ws_handle_frame_buffer [of opts fin opcode payload ?s] h by simp
    have grown: "next_frame opts (pr_buffer s @ x) = Frame fin opcode payload n"
      using next_frame_append [of opts "pr_buffer s" x] Frame by simp
    have hg: "ws_handle_frame opts fin opcode payload (s\<lparr>pr_buffer := drop n (pr_buffer s) @ x\<rparr>) =
        (s1\<lparr>pr_buffer := pr_buffer s1 @ x\<rparr>, o1)"
      using handle_frame_set_buffer [where opts=opts and fin=fin and opcode=opcode and p=payload
          and s="?s" and y="drop n (pr_buffer s) @ x"] h b1 by simp
    have a: "feed_loop opts s = (let (s2, o2) = feed_loop opts s1 in (s2, o1 @ o2))"
      using Frame live h by (simp add: feed_loop.simps [of opts s])
    have b: "feed_loop opts (s\<lparr>pr_buffer := pr_buffer s @ x\<rparr>) =
        (let (s2, o2) = feed_loop opts (s1\<lparr>pr_buffer := pr_buffer s1 @ x\<rparr>) in (s2, o1 @ o2))"
      using grown live hg n by (simp add: feed_loop.simps [of opts "s\<lparr>pr_buffer := pr_buffer s @ x\<rparr>"])
    show ?thesis
    proof (cases "pr_closed s1")
      case True
      then show ?thesis unfolding a b
        by (simp add: feed_loop_closed feed_rest_def feed_closed peer_view_def)
    next
      case False
      from "1.IH" [OF live Frame h [symmetric] refl False assms(2)]
      have "map_prod peer_view id (feed_loop opts (s1\<lparr>pr_buffer := pr_buffer s1 @ x\<rparr>)) = feed_rest opts x (feed_loop opts s1)" .
      then show ?thesis unfolding a b
        by (simp add: feed_rest_def case_prod_unfold Let_def map_prod_def prod_eq_iff)
    qed
  qed
qed

fun feed_all :: "ws_options \<Rightarrow> bytes list \<Rightarrow> peer \<Rightarrow> peer \<times> peer_out list" where
  "feed_all opts [] s = (s, [])"
| "feed_all opts (c # cs) s =
     (let (s1, o1) = feed opts c s; (s2, o2) = feed_all opts cs s1 in (s2, o1 @ o2))"

lemma feed_append:
  "map_prod peer_view id (feed opts (c @ x) s) = feed_rest opts x (feed opts c s)"
proof (cases "pr_closed s \<or> c = [] \<or> x = []")
  case True
  then show ?thesis by (auto simp: feed_def feed_rest_def case_prod_unfold Let_def map_prod_def)
next
  case False
  then show ?thesis
    using feed_loop_append [where s="s\<lparr>pr_buffer := pr_buffer s @ c\<rparr>" and x=x and opts=opts] by (simp add: feed_def)
qed

lemma feed_all_once:
  "map_prod peer_view id (feed_all opts cs s) = map_prod peer_view id (feed opts (concat cs) s)"
proof (induction cs arbitrary: s)
  case Nil
  then show ?case by (simp add: feed_def)
next
  case (Cons c cs)
  have "map_prod peer_view id (feed opts (concat (c # cs)) s) = feed_rest opts (concat cs) (feed opts c s)"
    using feed_append [of opts c "concat cs" s] by simp
  with Cons.IH [of "fst (feed opts c s)"] show ?case
    by (simp add: feed_rest_def case_prod_unfold Let_def map_prod_def prod_eq_iff)
qed

section \<open>What a client sends\<close>

text \<open>A masked frame as RFC 6455 has it.\<close>

definition client_frame :: "bytes \<Rightarrow> bool \<Rightarrow> nat \<Rightarrow> bytes \<Rightarrow> bytes" where
  "client_frame key fin opcode payload =
     (let n = length payload; first = char_of ((if fin then 128 else 0) + opcode) in
      (if n < 126 then [first, char_of (128 + n)]
       else if n \<le> 0xFFFF then [first, char_of (254::nat)] @ u16_be n
       else [first, char_of (255::nat)] @ u64_be n) @ key @ unmask key payload)"

lemma and_7F: "(a::nat) AND 127 = a mod 128"
proof -
  have "(127::nat) = mask 7" by (simp add: mask_eq_exp_minus_1)
  then show ?thesis by (simp only: flip: take_bit_eq_mask) (simp add: take_bit_eq_mod)
qed

lemma and_80: "(a::nat) AND 128 = 0 \<longleftrightarrow> even (a div 128)"
proof -
  have "(128::nat) = 2 ^ 7" by simp
  then show ?thesis by (simp only: and_exp_eq_0_iff_not_bit) (simp add: bit_iff_odd)
qed

lemma and_push: "(a::nat) AND push_bit n b = push_bit n (drop_bit n a AND b)"
  by (rule bit_eqI) (auto simp: bit_simps)

lemma and_70: "(a::nat) AND 112 = 0 \<longleftrightarrow> a div 16 mod 8 = 0"
proof -
  have "(112::nat) = push_bit 4 (mask 3)" by (simp add: mask_eq_exp_minus_1 push_bit_eq_mult)
  then have "a AND 112 = push_bit 4 (take_bit 3 (drop_bit 4 a))"
    by (simp only: and_push flip: take_bit_eq_mask)
  then show ?thesis by (simp add: push_bit_eq_mult take_bit_eq_mod drop_bit_eq_div)
qed

lemma and_0F: "(a::nat) AND 15 = a mod 16"
proof -
  have "(15::nat) = mask 4" by (simp add: mask_eq_exp_minus_1)
  then show ?thesis by (simp only: flip: take_bit_eq_mask) (simp add: take_bit_eq_mod)
qed

lemma or_80: "opcode < 16 \<Longrightarrow> 128 OR opcode = 128 + (opcode::nat)"
  by (subst disjunctive_add_eq_or) (simp_all add: and.commute [of 128] and_80)

lemma xor_byte: "(of_char a XOR of_char b :: nat) mod 256 = of_char a XOR of_char b"
proof -
  have "take_bit 8 (of_char a XOR of_char b :: nat) = of_char a XOR of_char b"
    unfolding take_bit_xor by (simp add: take_bit_eq_mod)
  then show ?thesis by (simp add: take_bit_eq_mod)
qed

lemma xor_char_twice [simp]: "xor_char (xor_char a b) b = a"
  by (simp add: xor_char_def xor_byte xor.assoc)

lemma unmask_length [simp]: "length (unmask key p) = length p"
  by (simp add: unmask_def)

lemma unmask_twice [simp]: "unmask key (unmask key p) = p"
  by (auto simp: unmask_def intro: nth_equalityI)

lemma read_u16: "n < 65536 \<Longrightarrow> read_be (u16_be n) = n"
  by (simp add: read_be_def u16_be_def)

lemma read_be_snoc: "read_be bs = m div 256 \<Longrightarrow> read_be (bs @ [char_of m]) = m"
  by (simp add: read_be_def)

lemma read_u64: "n < 2 ^ 64 \<Longrightarrow> read_be (u64_be n) = n"
proof -
  assume n: "n < 2 ^ 64"
  have up: "read_be (bs @ [char_of (n div 256 ^ i)]) = n div 256 ^ i"
    if "read_be bs = n div 256 ^ Suc i" for bs i
    by (rule read_be_snoc) (simp add: that mult.commute flip: div_mult2_eq)
  have "read_be [] = n div 256 ^ Suc (Suc (Suc (Suc (Suc (Suc (Suc (Suc 0)))))))"
    using n by (simp add: read_be_def)
  from up [OF up [OF up [OF up [OF up [OF up [OF up [OF up [OF this]]]]]]]]
  show ?thesis by (simp add: u64_be_def)
qed

lemma u_be_length [simp]: "length (u16_be n) = 2" "length (u64_be n) = 8"
  by (simp_all add: u16_be_def u64_be_def)

lemma first_byte:
  assumes "opcode < 16" and "f = (if fin then 128 else 0) + (opcode::nat)"
  shows "f mod 256 = f" "(f AND 128 = 0) = (\<not> fin)" "f AND 15 = opcode" "f AND 112 = 0"
proof -
  have "(128 + opcode) div 16 = 8" "(128 + opcode) mod 16 = opcode" "opcode div 16 = 0" "opcode mod 16 = opcode"
    "(128 + opcode) div 128 = 1" "opcode div 128 = 0" "f < 256"
    using assms mod_mult_self3 [of 8 16 opcode] by simp_all
  then show "f mod 256 = f" "(f AND 128 = 0) = (\<not> fin)" "f AND 15 = opcode" "f AND 112 = 0"
    using assms(2) by (simp_all add: and_80 and_0F and_70)
qed

lemma second_byte:
  assumes "(n::nat) < 128"
  shows "byte_of (char_of (128 + n) :: char) AND 127 = n" "byte_of (char_of (128 + n) :: char) AND 128 \<noteq> 0"
proof -
  have "(128 + n) mod 256 = 128 + n" "(128 + n) mod 128 = n" "(128 + n) div 128 = 1"
    using assms div_add_self1 [of 128 n] by simp_all
  then show "byte_of (char_of (128 + n) :: char) AND 127 = n" "byte_of (char_of (128 + n) :: char) AND 128 \<noteq> 0"
    by (simp_all add: and_7F and_80)
qed

lemma next_frame_header:
  assumes "b = char_of ((if fin then 128 else 0) + opcode) # char_of (128 + k :: nat) # r"
    and "opcode < 16" and "k < 128" and "payload_length b = Some (Inr (n, off))"
    and "8 \<le> opcode \<longrightarrow> fin \<and> n \<le> 125" and "n \<le> max_message_bytes opts" and "off + 4 + n \<le> length b"
  shows "next_frame opts b = Frame fin opcode (unmask (take 4 (drop off b)) (take n (drop (off + 4) b))) (off + 4 + n)"
proof -
  let ?f = "(if fin then 128 else 0) + opcode"
  have f: "byte_of (b ! 0) = ?f" "byte_of (b ! 1) AND 128 \<noteq> 0"
    using assms(1,3) first_byte(1) [OF assms(2) refl, of fin] second_byte(2) [of k] by simp_all
  have "2 \<le> length b" by (simp add: assms(1))
  then show ?thesis
    using first_byte(2-) [OF assms(2), of ?f fin] assms(4-) f
    unfolding next_frame_def Let_def by auto
qed

theorem next_frame_client:
  assumes "length key = 4" and "opcode < 16" and "length payload \<le> max_message_bytes opts"
    and "length payload \<le> MAX_SAFE_INTEGER" and "8 \<le> opcode \<longrightarrow> fin \<and> length payload \<le> 125"
  shows "next_frame opts (client_frame key fin opcode payload @ rest) =
    Frame fin opcode payload (length (client_frame key fin opcode payload))"
proof -
  let ?n = "length payload" and ?f = "char_of ((if fin then 128 else 0) + opcode) :: char"
  have go: "next_frame opts b = Frame fin opcode payload (off + 4 + ?n)"
    if b: "b = ?f # char_of (128 + k :: nat) # ext @ key @ unmask key payload @ rest"
      and k: "k < 128" and off: "off = 2 + length ext" and pl: "payload_length b = Some (Inr (?n, off))"
    for b k ext off
  proof -
    have "next_frame opts b = Frame fin opcode (unmask (take 4 (drop off b)) (take ?n (drop (off + 4) b))) (off + 4 + ?n)"
      by (rule next_frame_header [OF b assms(2) k pl assms(5,3)]) (use b off assms(1) in simp)
    moreover have "drop off b = key @ unmask key payload @ rest" using b off by simp
    moreover from this have "drop (off + 4) b = unmask key payload @ rest"
      using assms(1) by (simp add: add.commute [of off] flip: drop_drop)
    ultimately show ?thesis using assms(1) by simp
  qed
  consider "?n < 126" | "126 \<le> ?n" "?n \<le> 0xFFFF" | "0xFFFF < ?n" by linarith
  then show ?thesis
  proof cases
    case 1
    let ?b = "?f # char_of (128 + ?n) # [] @ key @ unmask key payload @ rest"
    have "payload_length ?b = Some (Inr (?n, 2))" using 1 second_byte(1) [of ?n] by (simp add: payload_length_def)
    from go [OF refl _ _ this] 1 show ?thesis by (simp add: client_frame_def assms(1))
  next
    case 2
    let ?b = "?f # char_of (128 + 126 :: nat) # u16_be ?n @ key @ unmask key payload @ rest"
    have "payload_length ?b = Some (Inr (?n, 4))"
      using 2 second_byte(1) [of 126] read_u16 [of ?n] by (simp add: payload_length_def)
    from go [OF refl _ _ this] 2 show ?thesis by (simp add: client_frame_def assms(1))
  next
    case 3
    let ?b = "?f # char_of (128 + 127 :: nat) # u64_be ?n @ key @ unmask key payload @ rest"
    have "payload_length ?b = Some (Inr (?n, 10))"
      using 3 second_byte(1) [of 127] read_u64 [of ?n] assms(4) by (simp add: payload_length_def MAX_SAFE_INTEGER_def)
    from go [OF refl _ _ this] 3 show ?thesis by (simp add: client_frame_def assms(1))
  qed
qed

section \<open>Messages\<close>

text \<open>A message as a client cuts it: fragments, each with its masking key, and pings in between.\<close>

datatype piece = Fragment bytes bytes | Ping bytes bytes

fun encode_pieces :: "bool \<Rightarrow> piece list \<Rightarrow> bytes" where
  "encode_pieces started [] = []"
| "encode_pieces started (Fragment k d # ps) =
     client_frame k False (if started then 0 else 1) d @ encode_pieces True ps"
| "encode_pieces started (Ping k d # ps) = client_frame k True 9 d @ encode_pieces started ps"

fun fragments_of :: "piece list \<Rightarrow> bytes list" where
  "fragments_of [] = []"
| "fragments_of (Fragment k d # ps) = d # fragments_of ps"
| "fragments_of (Ping k d # ps) = fragments_of ps"

fun pongs :: "piece list \<Rightarrow> peer_out list" where
  "pongs [] = []"
| "pongs (Fragment k d # ps) = pongs ps"
| "pongs (Ping k d # ps) = Wrote (encode_frame 10 d) # pongs ps"

fun piece_ok :: "piece \<Rightarrow> bool" where
  "piece_ok (Fragment k d) = (length k = 4)"
| "piece_ok (Ping k d) = (length k = 4 \<and> length d \<le> 125)"

definition encode_message :: "piece list \<Rightarrow> bytes \<Rightarrow> bytes \<Rightarrow> bytes" where
  "encode_message ps k d =
     encode_pieces False ps @ client_frame k True (if fragments_of ps = [] then 1 else 0) d"

definition idle_peer :: "peer \<Rightarrow> bool" where
  "idle_peer s \<longleftrightarrow> \<not> pr_closed s \<and> pr_writable s \<and> pr_buffer s = [] \<and> pr_fragment_opcode s = None \<and>
     pr_fragments s = [] \<and> pr_fragment_bytes s = 0 \<and> pr_fragment_frames s = 0"

definition mid_message :: "bytes list \<Rightarrow> peer \<Rightarrow> peer" where
  "mid_message fs s = s\<lparr>pr_fragments := fs, pr_fragment_bytes := length (concat fs),
     pr_fragment_frames := length fs, pr_fragment_opcode := (if fs = [] then None else Some 1)\<rparr>"

lemma feed_loop_client:
  assumes "\<not> pr_closed s" and "pr_buffer s = client_frame key fin opcode payload @ rest"
    and "length key = 4" and "opcode < 16" and "length payload \<le> max_message_bytes opts"
    and "max_message_bytes opts \<le> MAX_SAFE_INTEGER" and "8 \<le> opcode \<longrightarrow> fin \<and> length payload \<le> 125"
  shows "feed_loop opts s =
    (let (s1, o1) = ws_handle_frame opts fin opcode payload (s\<lparr>pr_buffer := rest\<rparr>);
         (s2, o2) = feed_loop opts s1 in (s2, o1 @ o2))"
  using next_frame_client [of key opcode payload opts fin rest] assms
  by (simp add: feed_loop.simps [of opts s])

lemma mid_fragment:
  assumes "length (concat fs) + length d \<le> max_message_bytes opts" and "length fs < max_fragment_frames opts"
  shows "ws_handle_frame opts False (if fs = [] then 1 else 0) d (mid_message fs s) = (mid_message (fs @ [d]) s, [])"
  using assms by (cases s) (simp add: ws_handle_frame_def add_fragment_def mid_message_def Let_def)

lemma last_fragment:
  assumes "length (concat fs) + length d \<le> max_message_bytes opts" and "length fs < max_fragment_frames opts"
    and "idle_peer (s\<lparr>pr_buffer := []\<rparr>)" and "pr_pending s < MAX_QUEUED_REQUESTS"
    and "decode_text (concat fs @ d) = Some t"
  shows "ws_handle_frame opts True (if fs = [] then 1 else 0) d (mid_message fs s) =
    (s\<lparr>pr_pending := Suc (pr_pending s)\<rparr>, [Queued t])"
  using assms
  by (cases s; cases "fs = []")
    (simp_all add: ws_handle_frame_def add_fragment_def finish_message_def enqueue_def mid_message_def idle_peer_def Let_def)

lemma mid_ping:
  assumes "\<not> pr_closed s" and "pr_writable s"
  shows "ws_handle_frame opts True 9 d (mid_message fs s) = (mid_message fs s, [Wrote (encode_frame 10 d)])"
  using assms by (simp add: ws_handle_frame_def ws_send_def mid_message_def)

lemma mid_buffer: "(mid_message fs s)\<lparr>pr_buffer := y\<rparr> = mid_message fs (s\<lparr>pr_buffer := y\<rparr>)"
  by (simp add: mid_message_def)

lemma feed_pieces:
  assumes "\<forall>p \<in> set ps. piece_ok p" and "length k = 4"
    and "length (concat (fs @ fragments_of ps)) + length d \<le> max_message_bytes opts"
    and "length (fs @ fragments_of ps) < max_fragment_frames opts"
    and "125 \<le> max_message_bytes opts" and "max_message_bytes opts \<le> MAX_SAFE_INTEGER"
    and "idle_peer (s\<lparr>pr_buffer := []\<rparr>)" and "pr_pending s < MAX_QUEUED_REQUESTS"
    and "decode_text (concat (fs @ fragments_of ps) @ d) = Some t"
    and "pr_buffer s = encode_pieces (fs \<noteq> []) ps @ client_frame k True (if fs @ fragments_of ps = [] then 1 else 0) d"
  shows "feed_loop opts (mid_message fs s) =
    (s\<lparr>pr_buffer := [], pr_pending := Suc (pr_pending s)\<rparr>, pongs ps @ [Queued t])"
  using assms
proof (induction ps arbitrary: fs s)
  case Nil
  have live: "\<not> pr_closed s" using Nil.prems(7) by (simp add: idle_peer_def)
  let ?e = "s\<lparr>pr_buffer := []\<rparr>"
  have h: "ws_handle_frame opts True (if fs = [] then 1 else 0) d (mid_message fs ?e) =
      (?e\<lparr>pr_pending := Suc (pr_pending s)\<rparr>, [Queued t])"
    using last_fragment [of fs d opts ?e t] Nil.prems by simp
  have "feed_loop opts (mid_message fs s) =
    (let (s1, o1) = ws_handle_frame opts True (if fs = [] then 1 else 0) d ((mid_message fs s)\<lparr>pr_buffer := []\<rparr>);
         (s2, o2) = feed_loop opts s1 in (s2, o1 @ o2))"
    by (rule feed_loop_client [where key=k])
      (use Nil.prems live in \<open>auto simp: mid_message_def\<close>)
  also have "\<dots> = (let (s2, o2) = feed_loop opts (?e\<lparr>pr_pending := Suc (pr_pending s)\<rparr>) in (s2, Queued t # o2))"
    unfolding mid_buffer h by simp
  also have "feed_loop opts (?e\<lparr>pr_pending := Suc (pr_pending s)\<rparr>) = (?e\<lparr>pr_pending := Suc (pr_pending s)\<rparr>, [])"
    by (subst feed_loop.simps) (simp add: next_frame_def)
  finally show ?case by simp
next
  case (Cons p ps)
  have live: "\<not> pr_closed s" "pr_writable s" using Cons.prems(7) by (simp_all add: idle_peer_def)
  show ?case
  proof (cases p)
    case (Fragment key x)
    let ?r = "encode_pieces True ps @ client_frame k True 0 d" and ?op = "if fs = [] then 1 else 0 :: nat"
    let ?s = "s\<lparr>pr_buffer := ?r\<rparr>"
    have "feed_loop opts (mid_message fs s) =
      (let (s1, o1) = ws_handle_frame opts False ?op x ((mid_message fs s)\<lparr>pr_buffer := ?r\<rparr>);
           (s2, o2) = feed_loop opts s1 in (s2, o1 @ o2))"
      by (rule feed_loop_client [where key=key])
        (use Cons.prems live Fragment in \<open>auto simp: mid_message_def\<close>)
    also have "\<dots> = feed_loop opts (mid_message (fs @ [x]) ?s)"
      unfolding mid_buffer using mid_fragment [of fs x opts ?s] Cons.prems(3,4) Fragment by simp
    also have "\<dots> = (?s\<lparr>pr_buffer := [], pr_pending := Suc (pr_pending ?s)\<rparr>, pongs ps @ [Queued t])"
      by (rule Cons.IH) (use Cons.prems Fragment in simp_all)
    finally show ?thesis using Fragment by simp
  next
    case (Ping key x)
    let ?r = "encode_pieces (fs \<noteq> []) ps @ client_frame k True (if fs @ fragments_of ps = [] then 1 else 0) d"
    let ?s = "s\<lparr>pr_buffer := ?r\<rparr>"
    have "feed_loop opts (mid_message fs s) =
      (let (s1, o1) = ws_handle_frame opts True 9 x ((mid_message fs s)\<lparr>pr_buffer := ?r\<rparr>);
           (s2, o2) = feed_loop opts s1 in (s2, o1 @ o2))"
      by (rule feed_loop_client [where key=key])
        (use Cons.prems live Ping in \<open>auto simp: mid_message_def\<close>)
    also have "\<dots> = (let (s2, o2) = feed_loop opts (mid_message fs ?s) in (s2, Wrote (encode_frame 10 x) # o2))"
      unfolding mid_buffer using mid_ping [of ?s opts x fs] live by simp
    also have "feed_loop opts (mid_message fs ?s) =
        (?s\<lparr>pr_buffer := [], pr_pending := Suc (pr_pending ?s)\<rparr>, pongs ps @ [Queued t])"
      by (rule Cons.IH) (use Cons.prems Ping in simp_all)
    finally show ?thesis using Ping by simp
  qed
qed

lemma mid_message_Nil: "idle_peer (s\<lparr>pr_buffer := []\<rparr>) \<Longrightarrow> mid_message [] s = s"
  by (cases s) (simp add: mid_message_def idle_peer_def)

lemma encode_message_nonempty: "encode_message ps k d \<noteq> []"
  by (simp add: encode_message_def client_frame_def Let_def)

lemma feed_message:
  assumes "idle_peer s" and "pr_pending s < MAX_QUEUED_REQUESTS"
    and "\<forall>p \<in> set ps. piece_ok p" and "length k = 4"
    and "length (concat (fragments_of ps) @ d) \<le> max_message_bytes opts"
    and "length (fragments_of ps) < max_fragment_frames opts"
    and "125 \<le> max_message_bytes opts" and "max_message_bytes opts \<le> MAX_SAFE_INTEGER"
    and "decode_text (concat (fragments_of ps) @ d) = Some t"
    and "concat cs = encode_message ps k d"
  shows "feed_all opts cs s = (s\<lparr>pr_pending := Suc (pr_pending s)\<rparr>, pongs ps @ [Queued t])"
proof -
  let ?s = "s\<lparr>pr_buffer := encode_message ps k d\<rparr>"
  have idle: "idle_peer (?s\<lparr>pr_buffer := []\<rparr>)" "\<not> pr_closed s" "pr_buffer s = []"
    using assms(1) by (simp_all add: idle_peer_def)
  have "feed opts (concat cs) s = feed_loop opts (mid_message [] ?s)"
    using idle encode_message_nonempty [of ps k d] mid_message_Nil [OF idle(1)] by (simp add: feed_def assms(10))
  also have "\<dots> = (?s\<lparr>pr_buffer := [], pr_pending := Suc (pr_pending ?s)\<rparr>, pongs ps @ [Queued t])"
    by (rule feed_pieces) (use assms idle in \<open>simp_all add: encode_message_def\<close>)
  also have "\<dots> = (s\<lparr>pr_pending := Suc (pr_pending s)\<rparr>, pongs ps @ [Queued t])"
    using idle(3) by (cases s) simp
  finally have "map_prod peer_view id (feed_all opts cs s) =
      (s\<lparr>pr_pending := Suc (pr_pending s)\<rparr>, pongs ps @ [Queued t])"
    using feed_all_once [of opts cs s] idle(2) by (simp add: peer_view_def)
  then show ?thesis using peer_view_live [of "fst (feed_all opts cs s)"] idle(2)
    by (cases "feed_all opts cs s") simp
qed

section \<open>Every run of the peer\<close>

text \<open>What can happen to a peer: bytes arrive, a request writes an event, a request ends, the
  socket goes away (its error, close and end handlers abort), its write side goes away.\<close>

inductive peer_step :: "ws_options \<Rightarrow> peer \<Rightarrow> peer_out list \<Rightarrow> peer \<Rightarrow> bool" for opts where
  Data: "feed opts chunk s = (s', out) \<Longrightarrow> peer_step opts s out s'"
| Event: "peer_step opts s (send_json v s) s"
| Finished: "0 < pr_pending s \<Longrightarrow> peer_step opts s [] (s\<lparr>pr_pending := pr_pending s - 1\<rparr>)"
| Lost: "peer_step opts s [] (ws_abort s)"
| Unwritable: "peer_step opts s [] (end_socket s)"

inductive peer_run :: "ws_options \<Rightarrow> peer \<Rightarrow> peer_out list \<Rightarrow> peer \<Rightarrow> bool" for opts where
  Start: "peer_run opts s [] s"
| Step: "peer_run opts s out1 s1 \<Longrightarrow> peer_step opts s1 out2 s2 \<Longrightarrow> peer_run opts s (out1 @ out2) s2"

inductive_cases peer_stepE: "peer_step opts s out s'"

definition peer_ok :: "ws_options \<Rightarrow> peer \<Rightarrow> bool" where
  "peer_ok opts s \<longleftrightarrow>
     pr_fragment_bytes s = length (concat (pr_fragments s)) \<and> pr_fragment_frames s = length (pr_fragments s) \<and>
     pr_fragment_bytes s \<le> max_message_bytes opts \<and> pr_fragment_frames s \<le> max_fragment_frames opts \<and>
     pr_pending s \<le> MAX_QUEUED_REQUESTS \<and> \<not> pr_close_sent s"

lemma fail_live: "\<not> pr_closed (fst (fail e s)) \<Longrightarrow> False"
  using fail_closes by blast

lemma handle_frame_ok:
  assumes "peer_ok opts s" and "ws_handle_frame opts fin opcode p s = (s', out)" and "\<not> pr_closed s'"
  shows "peer_ok opts s'"
proof -
  have fails: "fail e t \<noteq> (s', out)" for e t using fail_closes [of e t] assms(3) by auto
  have closes: "handle_close p s \<noteq> (s', out)"
    using assms(3) fails by (auto simp: handle_close_def ws_abort_def split: if_splits)
  show ?thesis using assms(1,2) fails closes
    by (auto simp: ws_handle_frame_def add_fragment_def finish_message_def enqueue_def peer_ok_def Let_def
        split: if_splits option.splits)
qed

lemma feed_loop_ok:
  assumes "peer_ok opts s" and "feed_loop opts s = (s', out)" and "\<not> pr_closed s'"
  shows "peer_ok opts s' \<and> next_frame opts (pr_buffer s') = More"
  using assms
proof (induction opts s arbitrary: out rule: feed_loop.induct)
  case (1 opts s)
  show ?case
  proof (cases "pr_closed s")
    case True
    with "1.prems" show ?thesis by (simp add: feed_loop.simps)
  next
    case False
    show ?thesis
    proof (cases "next_frame opts (pr_buffer s)")
      case More
      with False "1.prems" show ?thesis by (simp add: feed_loop.simps)
    next
      case (Bad e)
      with False "1.prems" fail_closes [of e s] show ?thesis by (simp add: feed_loop.simps)
    next
      case (Frame fin opcode p n)
      let ?s = "s\<lparr>pr_buffer := drop n (pr_buffer s)\<rparr>"
      obtain s1 o1 where h: "ws_handle_frame opts fin opcode p ?s = (s1, o1)" by fastforce
      obtain o2 where l: "feed_loop opts s1 = (s', o2)"
        using "1.prems"(2) False Frame h by (auto simp: feed_loop.simps [of opts s] split: prod.splits)
      have "\<not> pr_closed s1" using l "1.prems"(3) by (auto simp: feed_loop_closed)
      then have "peer_ok opts s1"
        using handle_frame_ok [OF _ h] "1.prems"(1) by (simp add: peer_ok_def)
      from "1.IH" [OF False Frame h [symmetric] refl this l "1.prems"(3)] show ?thesis .
    qed
  qed
qed

lemma peer_step_closed: "peer_step opts s out s' \<Longrightarrow> pr_closed s \<Longrightarrow> out = [] \<and> pr_closed s'"
  by (erule peer_stepE) (auto simp: feed_closed send_json_def ws_send_def ws_abort_def end_socket_def)

lemma more_bound: "next_frame opts b = More \<Longrightarrow> length b < 14 + max_message_bytes opts"
proof -
  assume more: "next_frame opts b = More"
  show ?thesis
  proof (cases "length b < 10")
    case False
    then have "payload_length b \<noteq> None" by (simp add: payload_length_def Let_def)
    then obtain r where r: "payload_length b = Some r" by blast
    have off: "off \<le> 10" if "r = Inr (n, off)" for n off
      using r that False by (auto simp: payload_length_def Let_def split: if_splits)
    show ?thesis using more r off False
      by (auto simp: next_frame_def Let_def split: if_splits sum.splits prod.splits)
  qed simp
qed

definition peer_good :: "ws_options \<Rightarrow> peer \<Rightarrow> bool" where
  "peer_good opts s \<longleftrightarrow> pr_closed s \<or> peer_ok opts s \<and> next_frame opts (pr_buffer s) = More"

lemma feed_good:
  assumes "peer_good opts s" and "feed opts chunk s = (s', out)"
  shows "peer_good opts s'"
proof (cases "pr_closed s \<or> chunk = []")
  case True
  with assms show ?thesis by (auto simp: feed_def)
next
  case False
  then have "peer_ok opts (s\<lparr>pr_buffer := pr_buffer s @ chunk\<rparr>)" using assms(1) by (simp add: peer_good_def peer_ok_def)
  from feed_loop_ok [OF this] False assms(2) show ?thesis by (auto simp: feed_def peer_good_def)
qed

lemma peer_step_good: "peer_step opts s out s' \<Longrightarrow> peer_good opts s \<Longrightarrow> peer_good opts s'"
proof (erule peer_stepE, goal_cases)
  case (1 chunk)
  then show ?case by (blast intro: feed_good)
qed (auto simp: peer_good_def peer_ok_def ws_abort_def end_socket_def)

lemma peer_run_good: "peer_run opts s out s' \<Longrightarrow> peer_good opts s \<Longrightarrow> peer_good opts s'"
  by (induction rule: peer_run.induct) (auto intro: peer_step_good)

text \<open>A close frame is told by its first byte.\<close>

fun close_write :: "peer_out \<Rightarrow> bool" where
  "close_write (Wrote b) = (b \<noteq> [] \<and> hd b = CHR 0x88)"
| "close_write _ = False"

definition quiet :: "peer_out list \<Rightarrow> bool" where
  "quiet out \<longleftrightarrow> filter close_write out = []"

lemma quiet_simps [simp]: "quiet []" "quiet (a @ b) \<longleftrightarrow> quiet a \<and> quiet b"
  "quiet (x # b) \<longleftrightarrow> \<not> close_write x \<and> quiet b"
  by (auto simp: quiet_def)

lemma close_write_frame: "opcode < 16 \<Longrightarrow> close_write (Wrote (encode_frame opcode p)) \<longleftrightarrow> opcode = 8"
proof -
  assume "opcode < 16"
  then have "char_of (128 + opcode) = (CHR 0x88 :: char) \<longleftrightarrow> opcode = 8"
    by (simp add: char_of_eq_iff take_bit_eq_mod)
  with \<open>opcode < 16\<close> show ?thesis by (simp add: encode_frame_def Let_def or_80)
qed

definition said_close :: "peer \<Rightarrow> peer_out list \<Rightarrow> bool" where
  "said_close s out \<longleftrightarrow> quiet out \<or>
     pr_closed s \<and> (\<exists>before c. quiet before \<and> close_write c \<and> out = before @ [c, Ended])"

lemma ws_send_close: "quiet (ws_send 10 p s)" "quiet (send_json v s)"
  "ws_send 8 p s = [] \<or> (\<exists>c. close_write c \<and> ws_send 8 p s = [c])"
  using close_write_frame [of 10 p] close_write_frame [of 1 "json_stringify v"] close_write_frame [of 8 p]
  by (auto simp: ws_send_def send_json_def)

lemma said_close_send: "pr_closed s' \<Longrightarrow> said_close s' (ws_send 8 p s @ [Ended])"
proof -
  assume closed: "pr_closed s'"
  consider "ws_send 8 p s = []" | c where "close_write c" "ws_send 8 p s = [c]" using ws_send_close(3) by blast
  then show ?thesis
  proof cases
    case (2 c)
    then have "ws_send 8 p s @ [Ended] = [] @ [c, Ended]" "quiet []" by simp_all
    with closed 2(1) show ?thesis unfolding said_close_def by blast
  qed (simp add: said_close_def)
qed

lemma said_close_quiet: "quiet out \<Longrightarrow> said_close s out"
  by (simp add: said_close_def)

lemma abort_closes [simp]: "pr_closed (ws_abort s)"
  by (simp add: ws_abort_def)

lemma fail_close: "fail e s = (s', out) \<Longrightarrow> said_close s' out"
  by (cases e) (auto simp: fail_def split: if_splits intro: said_close_send said_close_quiet)

lemma handle_close_close: "handle_close p s = (s', out) \<Longrightarrow> said_close s' out"
  by (auto simp: handle_close_def split: if_splits intro: said_close_send said_close_quiet dest: fail_close)

lemma enqueue_close: "enqueue t s = (s', out) \<Longrightarrow> said_close s' out"
  by (auto simp: enqueue_def Let_def split: if_splits intro: said_close_quiet dest: fail_close)

lemma add_fragment_close: "add_fragment opts fin p s = (s', out) \<Longrightarrow> said_close s' out"
  by (auto simp: add_fragment_def finish_message_def Let_def split: if_splits option.splits
      intro: said_close_quiet dest: fail_close enqueue_close)

lemma handle_frame_close: "ws_handle_frame opts fin opcode p s = (s', out) \<Longrightarrow> said_close s' out"
  unfolding ws_handle_frame_def
  by (auto split: if_splits intro: said_close_quiet ws_send_close dest: fail_close handle_close_close add_fragment_close)

lemma said_close_append:
  assumes "said_close s1 a" and "pr_closed s1 \<Longrightarrow> b = [] \<and> pr_closed s2" and "said_close s2 b"
  shows "said_close s2 (a @ b)"
proof (cases "pr_closed s1")
  case True
  with assms(1,2) show ?thesis by (simp add: said_close_def)
next
  case False
  then have q: "quiet a" using assms(1) by (simp add: said_close_def)
  from assms(3) consider "quiet b"
    | before c where "pr_closed s2" "quiet before" "close_write c" "b = before @ [c, Ended]"
    unfolding said_close_def by blast
  then show ?thesis
  proof cases
    case 1
    with q show ?thesis by (simp add: said_close_quiet)
  next
    case (2 before c)
    then have "a @ b = (a @ before) @ [c, Ended]" "quiet (a @ before)" using q by simp_all
    with 2(1,3) show ?thesis unfolding said_close_def by blast
  qed
qed

lemma feed_loop_close: "feed_loop opts s = (s', out) \<Longrightarrow> said_close s' out"
proof (induction opts s arbitrary: out rule: feed_loop.induct)
  case (1 opts s)
  show ?case
  proof (cases "pr_closed s")
    case True
    with "1.prems" show ?thesis by (simp add: feed_loop.simps said_close_quiet)
  next
    case False
    show ?thesis
    proof (cases "next_frame opts (pr_buffer s)")
      case More
      with False "1.prems" show ?thesis by (simp add: feed_loop.simps said_close_quiet)
    next
      case (Bad e)
      with False "1.prems" show ?thesis by (simp add: feed_loop.simps fail_close)
    next
      case (Frame fin opcode p n)
      let ?s = "s\<lparr>pr_buffer := drop n (pr_buffer s)\<rparr>"
      obtain s1 o1 where h: "ws_handle_frame opts fin opcode p ?s = (s1, o1)" by fastforce
      obtain o2 where l: "feed_loop opts s1 = (s', o2)" and out: "out = o1 @ o2"
        using "1.prems" False Frame h by (auto simp: feed_loop.simps [of opts s] split: prod.splits)
      from "1.IH" [OF False Frame h [symmetric] refl l] have rest: "said_close s' o2" .
      show ?thesis unfolding out
        by (rule said_close_append [OF handle_frame_close [OF h] _ rest])
          (use l in \<open>auto simp: feed_loop_closed\<close>)
    qed
  qed
qed

lemma peer_step_close: "peer_step opts s out s' \<Longrightarrow> said_close s' out"
proof (erule peer_stepE, goal_cases)
  case (1 chunk)
  then show ?case by (auto simp: feed_def split: if_splits intro: said_close_quiet feed_loop_close)
qed (auto intro: said_close_quiet ws_send_close)

lemma peer_run_close: "peer_run opts s out s' \<Longrightarrow> said_close s' out"
proof (induction rule: peer_run.induct)
  case (Start s)
  show ?case by (simp add: said_close_quiet)
next
  case (Step s out1 s1 out2 s2)
  show ?case
    by (rule said_close_append [OF Step.IH _ peer_step_close [OF Step.hyps(2)]])
      (use peer_step_closed [OF Step.hyps(2)] in blast)
qed

section \<open>Frames read by a client\<close>

text \<open>The reading side of RFC 6455 for an unmasked frame: opcode, payload, what follows.\<close>

definition read_server_frame :: "bytes \<Rightarrow> (bool \<times> nat \<times> bytes \<times> bytes) option" where
  "read_server_frame b =
     (let first = byte_of (b ! 0); k = byte_of (b ! 1);
          (n, off) = (if k = 126 then (read_be (take 2 (drop 2 b)), 4)
                      else if k = 127 then (read_be (take 8 (drop 2 b)), 10) else (k, 2))
      in if length b < off + n then None
         else Some (first div 128 = 1, first mod 16, take n (drop off b), drop n (drop off b)))"

lemma server_frame_read:
  assumes "opcode < 16" and "length data < 2 ^ 64"
  shows "read_server_frame (encode_frame opcode data @ rest) = Some (True, opcode, data, rest)"
proof -
  have f: "(128 + opcode) mod 256 = 128 + opcode" "(128 + opcode) div 128 = 1" "(128 + opcode) mod 16 = opcode"
    using assms(1) mod_mult_self3 [of 8 16 opcode] div_add_self1 [of 128 opcode] by simp_all
  consider "length data < 126" | "126 \<le> length data" "length data \<le> 0xFFFF" | "0xFFFF < length data" by linarith
  then show ?thesis
    by cases (use f assms read_u16 [of "length data"] read_u64 [of "length data"] in
      \<open>simp_all add: read_server_frame_def encode_frame_def or_80 Let_def\<close>)
qed

section \<open>Properties\<close>

text \<open>C7: A client's message arrives once, whole, as one request: however it is cut into fragments, whatever
  keys mask them, whatever pings stand between them and however the network cuts the bytes. The
  pings are answered in order.\<close>

theorem peer_reads_message:
  assumes "idle_peer s" and "pr_pending s < MAX_QUEUED_REQUESTS"
    and "\<forall>p \<in> set ps. piece_ok p" and "length k = 4"
    and "length (concat (fragments_of ps) @ d) \<le> max_message_bytes opts"
    and "length (fragments_of ps) < max_fragment_frames opts"
    and "125 \<le> max_message_bytes opts" and "max_message_bytes opts \<le> MAX_SAFE_INTEGER"
    and "decode_text (concat (fragments_of ps) @ d) = Some t"
    and "concat cs = encode_message ps k d"
  shows "feed_all opts cs s = (s\<lparr>pr_pending := Suc (pr_pending s)\<rparr>, pongs ps @ [Queued t])"
  using assms by (rule feed_message)

definition sample_options :: ws_options where
  "sample_options = \<lparr>max_message_bytes = 1000, max_event_bytes = 1000, max_error_bytes = 1000,
     max_continuation_bytes = 1000, max_fragment_frames = 4\<rparr>"

definition sample_key :: bytes where "sample_key = [CHR 0x11, CHR 0xA2, CHR 0x03, CHR 0xF4]"

definition sample_pieces :: "piece list" where
  "sample_pieces = [Fragment sample_key ''{'', Ping sample_key ''ab'', Fragment sample_key []]"

lemma concat_singletons: "concat (map (\<lambda>c. [c]) xs) = xs"
  by (induction xs) simp_all

lemma peer_reads_message_witness:
  "feed_all sample_options (map (\<lambda>c. [c]) (encode_message sample_pieces sample_key ''}'')) new_peer =
     (new_peer\<lparr>pr_pending := 1\<rparr>, [Wrote (encode_frame 10 ''ab''), Queued ''{}''])"
proof -
  have "feed_all sample_options (map (\<lambda>c. [c]) (encode_message sample_pieces sample_key ''}'')) new_peer =
      (new_peer\<lparr>pr_pending := Suc (pr_pending new_peer)\<rparr>, pongs sample_pieces @ [Queued ''{}''])"
  proof (rule peer_reads_message)
    show "idle_peer new_peer" "pr_pending new_peer < MAX_QUEUED_REQUESTS" by code_simp+
    show "\<forall>p \<in> set sample_pieces. piece_ok p" "length sample_key = 4" by code_simp+
    show "length (concat (fragments_of sample_pieces) @ ''}'') \<le> max_message_bytes sample_options"
      "length (fragments_of sample_pieces) < max_fragment_frames sample_options"
      "125 \<le> max_message_bytes sample_options" "max_message_bytes sample_options \<le> MAX_SAFE_INTEGER" by code_simp+
    show "decode_text (concat (fragments_of sample_pieces) @ ''}'') = Some ''{}''" by code_simp
  qed (rule concat_singletons)
  then show ?thesis by (simp add: sample_pieces_def new_peer_def)
qed

text \<open>The cuts of the network are invisible to a peer (of a closed one, but for the bytes it no
  longer reads).\<close>

theorem peer_chunking:
  "map_prod peer_view id (feed_all opts cs s) = map_prod peer_view id (feed opts (concat cs) s)"
  by (rule feed_all_once)

text \<open>C32: Whatever a client sends, a connection that is open holds less than a message and a frame header of
  undecided bytes, at most one message of fragments, at most the configured number of them, and at most
  two requests.\<close>

theorem peer_memory_bounded:
  assumes "peer_run opts new_peer out s" and "\<not> pr_closed s"
  shows "length (pr_buffer s) < max_message_bytes opts + 14 \<and>
    length (concat (pr_fragments s)) \<le> max_message_bytes opts \<and>
    length (pr_fragments s) \<le> max_fragment_frames opts \<and> pr_pending s \<le> MAX_QUEUED_REQUESTS"
proof -
  have "peer_good opts new_peer" by (simp add: peer_good_def new_peer_def peer_ok_def next_frame_def)
  from peer_run_good [OF assms(1) this] assms(2)
  have "peer_ok opts s" "next_frame opts (pr_buffer s) = More" by (simp_all add: peer_good_def)
  with more_bound [OF this(2)] show ?thesis by (simp add: peer_ok_def)
qed

lemma peer_memory_bounded_witness:
  "length (pr_buffer (fst (feed sample_options [CHR 0x81, CHR 0x83] new_peer))) < 1014 \<and>
   pr_pending (fst (feed sample_options [CHR 0x81, CHR 0x83] new_peer)) \<le> MAX_QUEUED_REQUESTS"
proof -
  obtain s out where f: "feed sample_options [CHR 0x81, CHR 0x83] new_peer = (s, out)" by fastforce
  have run: "peer_run sample_options new_peer ([] @ out) s"
    by (rule Step [OF Start Data [OF f]])
  have "\<not> pr_closed (fst (feed sample_options [CHR 0x81, CHR 0x83] new_peer))" by code_simp
  with f have live: "\<not> pr_closed s" by simp
  from peer_memory_bounded [OF run live] show ?thesis unfolding f by (simp add: sample_options_def)
qed

text \<open>C31: A close frame is written at most once, and after it only the write side is ended: nothing
  more is sent and no request is taken.\<close>

theorem peer_closes_once:
  assumes "peer_run opts new_peer out s"
  shows "quiet out \<or> (\<exists>before c. quiet before \<and> close_write c \<and> out = before @ [c, Ended])"
  using peer_run_close [OF assms] by (auto simp: said_close_def)

lemma peer_closes_once_witness:
  "\<not> quiet (snd (feed sample_options [CHR 0x81, CHR 0x03] new_peer)) \<and>
   (\<exists>before c. quiet before \<and> close_write c \<and>
      snd (feed sample_options [CHR 0x81, CHR 0x03] new_peer) = before @ [c, Ended])"
proof -
  obtain s out where f: "feed sample_options [CHR 0x81, CHR 0x03] new_peer = (s, out)" by fastforce
  have run: "peer_run sample_options new_peer ([] @ out) s"
    by (rule Step [OF Start Data [OF f]])
  have "filter close_write (snd (feed sample_options [CHR 0x81, CHR 0x03] new_peer)) \<noteq> []" by code_simp
  then have "\<not> quiet out" by (simp add: f quiet_def)
  with peer_closes_once [OF run] show ?thesis by (simp add: f)
qed

text \<open>A frame that is sent is read back by a client as it was meant.\<close>

theorem sent_frame_round_trip:
  assumes "opcode < 16" and "length data < 2 ^ 64"
  shows "read_server_frame (encode_frame opcode data @ rest) = Some (True, opcode, data, rest)"
  using assms by (rule server_frame_read)

lemma sent_frame_round_trip_witness:
  "read_server_frame (encode_frame 1 (replicate 200 CHR ''x'') @ ''tail'') =
     Some (True, 1, replicate 200 CHR ''x'', ''tail'')"
  by (rule sent_frame_round_trip) simp_all

end
