(* ===== verification/Tool_Fold.thy ===== *)
theory Tool_Fold
  imports Json "HOL-Library.Multiset"
begin

text \<open>
  The repair of chat histories in \<open>src/router/src/http-utils.mjs\<close>
  (\<open>foldInterveningAssistantMessages\<close> and what it calls): strict chat-completions providers
  want a message that calls tools to be followed at once by the results. Assistant text between
  a call and its results is folded into the calling message, assistant runs are merged, and calls
  whose results stand elsewhere are re-seated in front of them.

  The re-seating loop only ever changes the list behind its index, so it is a recursion on the
  rest of the list; that it ends is a theorem, so the model is a partial function.
\<close>

section \<open>Messages\<close>

definition role_is :: "string \<Rightarrow> json \<Rightarrow> bool" where
  "role_is r m \<longleftrightarrow> obj_get m ''role'' = Some (JStr r)"

definition calls_array :: "json \<Rightarrow> json list option" where
  "calls_array m = as_arr (obj_get m ''tool_calls'')"

definition has_tool_calls :: "json \<Rightarrow> bool" where
  "has_tool_calls m \<longleftrightarrow> role_is ''assistant'' m \<and> calls_array m \<notin> {None, Some []}"

text \<open>Identifiers are compared with \<open>===\<close>: two objects are never the same identifier.\<close>

fun primitive :: "json \<Rightarrow> bool" where
  "primitive (JArr _) = False"
| "primitive (JObj _) = False"
| "primitive _ = True"

definition truthy_prop :: "string \<Rightarrow> json \<Rightarrow> json option" where
  "truthy_prop k v = (if truthy (obj_get v k) then obj_get v k else None)"

definition has_id :: "json list \<Rightarrow> json \<Rightarrow> bool" where
  "has_id ids i \<longleftrightarrow> primitive i \<and> i \<in> set ids"

definition call_ids :: "json list \<Rightarrow> json list" where
  "call_ids cs = List.map_filter (truthy_prop ''id'') cs"

definition result_ids :: "json list \<Rightarrow> json list" where
  "result_ids ms = List.map_filter (truthy_prop ''tool_call_id'') (filter (role_is ''tool'') ms)"

section \<open>Merging a run of assistant messages\<close>

text \<open>\<open>isDeepStrictEqual\<close> on JSON values: the order of an object's keys does not count.\<close>

fun deep_equal :: "json \<Rightarrow> json \<Rightarrow> bool" where
  "deep_equal (JArr xs) w = (case w of JArr ys \<Rightarrow> list_all2 deep_equal xs ys | _ \<Rightarrow> False)"
| "deep_equal (JObj kvs) w =
     (case w of JObj kws \<Rightarrow> length kvs = length kws \<and>
          (\<forall>(k, v) \<in> set kvs. case map_of kws k of None \<Rightarrow> False | Some v' \<Rightarrow> deep_equal v v')
      | _ \<Rightarrow> False)"
| "deep_equal v w = (v = w)"

datatype merged_content = Unmergeable | Content "json option"

fun text_part :: "json \<Rightarrow> json list" where
  "text_part (JArr xs) = xs"
| "text_part (JStr s) = [JObj [(''type'', JStr ''text''), (''text'', JStr s)]]"
| "text_part v = [v]"

definition is_str :: "json \<Rightarrow> bool" where "is_str v \<longleftrightarrow> (case v of JStr _ \<Rightarrow> True | _ \<Rightarrow> False)"
definition is_arr :: "json \<Rightarrow> bool" where "is_arr v \<longleftrightarrow> (case v of JArr _ \<Rightarrow> True | _ \<Rightarrow> False)"

definition str_of :: "json \<Rightarrow> string" where "str_of v = (case v of JStr s \<Rightarrow> s | _ \<Rightarrow> [])"

definition merge_contents :: "json option list \<Rightarrow> merged_content" where
  "merge_contents values =
     (let given = List.map_filter id values;
          present = filter (\<lambda>v. v \<noteq> JNull \<and> v \<noteq> JStr []) given
      in if \<exists>v \<in> set given. v \<noteq> JNull \<and> \<not> is_str v \<and> \<not> is_arr v then Unmergeable
         else if present = [] then Content (case given of [] \<Rightarrow> None | v # _ \<Rightarrow> Some v)
         else if \<forall>v \<in> set present. is_str v then Content (Some (JStr (join [LF] (map str_of present))))
         else Content (Some (JArr (concat (map text_part present)))))"

text \<open>\<open>key in merged\<close> also finds what every object inherits.\<close>

definition OBJECT_PROTOTYPE_KEYS :: "string list" where
  "OBJECT_PROTOTYPE_KEYS = [''constructor'', ''__defineGetter__'', ''__defineSetter__'', ''hasOwnProperty'',
     ''__lookupGetter__'', ''__lookupSetter__'', ''isPrototypeOf'', ''propertyIsEnumerable'', ''toString'',
     ''valueOf'', ''__proto__'', ''toLocaleString'']"

text \<open>The keys that merging treats on their own.\<close>

definition merge_own :: "string \<Rightarrow> bool" where
  "merge_own k \<longleftrightarrow> k \<in> {''role'', ''content'', ''tool_calls''}"

definition merge_prop :: "string \<Rightarrow> json \<Rightarrow> json \<Rightarrow> json option" where
  "merge_prop k v merged =
     (if merge_own k then Some merged
      else if k \<in> set OBJECT_PROTOTYPE_KEYS then None
      else (case obj_get merged k of
          None \<Rightarrow> Some (with_prop merged k v)
        | Some w \<Rightarrow>
            if deep_equal w v then Some merged
            else if k \<in> {''reasoning_content'', ''refusal''} \<and> is_str w \<and> is_str v then
              Some (with_prop merged k (JStr (join [LF] (filter (\<lambda>p. trim p \<noteq> []) [str_of w, str_of v]))))
            else None))"

fun merge_props :: "(string \<times> json) list \<Rightarrow> json \<Rightarrow> json option" where
  "merge_props [] merged = Some merged"
| "merge_props ((k, v) # kvs) merged =
     (case merge_prop k v merged of None \<Rightarrow> None | Some m \<Rightarrow> merge_props kvs m)"

fun entries :: "json \<Rightarrow> (string \<times> json) list" where
  "entries (JObj kvs) = kvs"
| "entries _ = []"

definition run_calls :: "json list \<Rightarrow> json list" where
  "run_calls run = concat (map (\<lambda>m. if has_tool_calls m then the (calls_array m) else []) run)"

definition merge_assistant_run :: "json list \<Rightarrow> json option" where
  "merge_assistant_run run =
     (case merge_props (concat (map entries run)) (JObj [(''role'', JStr ''assistant'')]) of
        None \<Rightarrow> None
      | Some merged \<Rightarrow>
          (case merge_contents (map (\<lambda>m. obj_get m ''content'') run) of
             Unmergeable \<Rightarrow> None
           | Content c \<Rightarrow>
               let m1 = (case c of None \<Rightarrow> merged | Some v \<Rightarrow> with_prop merged ''content'' v);
                   calls = run_calls run
               in Some (if calls \<noteq> [] then with_prop m1 ''tool_calls'' (JArr calls) else m1)))"

section \<open>The first pass: text between a call and its results\<close>

definition bare_assistant :: "json \<Rightarrow> bool" where
  "bare_assistant m \<longleftrightarrow> role_is ''assistant'' m \<and> calls_array m = None"

definition fold_here :: "json \<Rightarrow> json list \<Rightarrow> json option" where
  "fold_here m rest =
     (let ids = (case calls_array m of None \<Rightarrow> [] | Some cs \<Rightarrow> call_ids cs);
          between = takeWhile bare_assistant rest;
          following = result_ids (takeWhile (role_is ''tool'') (drop (length between) rest))
      in if \<not> role_is ''assistant'' m \<or> ids = [] \<or> between = [] then None
         else if \<forall>i \<in> set ids. has_id following i then merge_assistant_run (m # between)
         else None)"

function fold_text :: "json list \<Rightarrow> json list" where
  "fold_text [] = []"
| "fold_text (m # rest) =
     (case fold_here m rest of
        None \<Rightarrow> m # fold_text rest
      | Some x \<Rightarrow> x # fold_text (dropWhile bare_assistant rest))"
  by pat_completeness auto
termination
  by (relation "measure length") (auto simp: le_imp_less_Suc length_dropWhile_le)

section \<open>Merging assistant runs\<close>

function coalesce_loop :: "json list \<Rightarrow> json list" where
  "coalesce_loop [] = []"
| "coalesce_loop (m # rest) =
     (if \<not> role_is ''assistant'' m then m # coalesce_loop rest
      else
        let run = m # takeWhile (role_is ''assistant'') rest;
            others = dropWhile (role_is ''assistant'') rest
        in (if length run = 1 then [m]
            else case merge_assistant_run run of None \<Rightarrow> run | Some x \<Rightarrow> [x]) @ coalesce_loop others)"
  by pat_completeness auto
termination
  by (relation "measure length") (auto simp: le_imp_less_Suc length_dropWhile_le)

definition coalesce_runs :: "json list \<Rightarrow> json list" where
  "coalesce_runs ms = (if \<exists>m \<in> set ms. has_tool_calls m then coalesce_loop ms else ms)"

section \<open>The second pass: calls whose results stand elsewhere\<close>

definition duplicates :: "json list \<Rightarrow> json list" where
  "duplicates ids = filter (\<lambda>i. primitive i \<and> count_list ids i > 1) ids"

definition duplicate_calls :: "json list \<Rightarrow> json list" where
  "duplicate_calls ms = duplicates (call_ids (run_calls ms))"

definition duplicate_results :: "json list \<Rightarrow> json list" where
  "duplicate_results ms = duplicates (result_ids ms)"

definition has_usable_content :: "json \<Rightarrow> bool" where
  "has_usable_content m =
     (case obj_get m ''content'' of
        None \<Rightarrow> False
      | Some JNull \<Rightarrow> False
      | Some (JStr s) \<Rightarrow> trim s \<noteq> []
      | Some (JArr xs) \<Rightarrow> xs \<noteq> []
      | Some _ \<Rightarrow> True)"

definition empty_husk :: "json \<Rightarrow> bool" where
  "empty_husk m \<longleftrightarrow> role_is ''assistant'' m \<and> calls_array m \<in> {None, Some []} \<and>
     \<not> has_usable_content m \<and> (\<forall>k \<in> set (map fst (entries m)). k = ''role'' \<or> k = ''content'')"

definition KNOWN_KEYS :: "string list" where
  "KNOWN_KEYS = [''role'', ''content'', ''tool_calls'', ''reasoning_content'', ''refusal'', ''name'']"

definition unknown_metadata :: "json \<Rightarrow> bool" where
  "unknown_metadata m \<longleftrightarrow> (\<exists>k \<in> set (map fst (entries m)). k \<notin> set KNOWN_KEYS)"

fun find_index :: "('a \<Rightarrow> bool) \<Rightarrow> 'a list \<Rightarrow> nat option" where
  "find_index p [] = None"
| "find_index p (x # xs) = (if p x then Some 0 else map_option Suc (find_index p xs))"

definition answers :: "json \<Rightarrow> json \<Rightarrow> bool" where
  "answers i m \<longleftrightarrow> role_is ''tool'' m \<and> truthy_prop ''tool_call_id'' m = Some i \<and> primitive i"

definition result_index :: "json list \<Rightarrow> json \<Rightarrow> nat option" where
  "result_index rest c = find_index (answers (the (obj_get c ''id''))) rest"

definition single_call :: "json \<Rightarrow> json" where
  "single_call c = JObj [(''role'', JStr ''assistant''), (''content'', JNull), (''tool_calls'', JArr [c])]"

text \<open>The results that stand directly behind a message are its own unless another caller comes first.\<close>

definition run_ids :: "json list \<Rightarrow> json list" where
  "run_ids rest =
     (if (case rest of n # _ \<Rightarrow> has_tool_calls n | [] \<Rightarrow> False) then []
      else result_ids (takeWhile (role_is ''tool'') rest))"

text \<open>Which calls stay at once: those without a usable or unambiguous identifier, and those the
  results directly behind answer.\<close>

definition stays :: "json list \<Rightarrow> json list \<Rightarrow> json list \<Rightarrow> json \<Rightarrow> bool" where
  "stays dc dr rest c =
     (case truthy_prop ''id'' c of None \<Rightarrow> True
      | Some i \<Rightarrow> has_id dc i \<or> has_id dr i \<or> has_id (run_ids rest) i)"

definition moved :: "json list \<Rightarrow> json list \<Rightarrow> json list \<Rightarrow> json list \<Rightarrow> (json \<times> nat) list" where
  "moved dc dr rest cs = List.map_filter (\<lambda>c. map_option (Pair c) (result_index rest c))
     (filter (\<lambda>c. \<not> stays dc dr rest c) cs)"

definition kept_calls :: "json list \<Rightarrow> json list \<Rightarrow> json list \<Rightarrow> json list \<Rightarrow> json list" where
  "kept_calls dc dr rest cs = filter (stays dc dr rest) cs @
     filter (\<lambda>c. result_index rest c = None) (filter (\<lambda>c. \<not> stays dc dr rest c) cs)"

text \<open>\<open>sort\<close> is stable, the last result first; each call goes in directly before its result.\<close>

definition insert_call :: "json list \<Rightarrow> json \<times> nat \<Rightarrow> json list" where
  "insert_call ms ci = take (snd ci) ms @ single_call (fst ci) # drop (snd ci) ms"

definition insert_calls :: "json list \<Rightarrow> (json \<times> nat) list \<Rightarrow> json list" where
  "insert_calls rest cis = foldl insert_call rest (rev (sort_key snd (rev cis)))"

definition without_moved :: "json list \<Rightarrow> json \<Rightarrow> json" where
  "without_moved keep m =
     (if keep \<noteq> [] then with_prop m ''tool_calls'' (JArr keep) else without_prop m ''tool_calls'')"

partial_function (option) reseat :: "json list \<Rightarrow> json list \<Rightarrow> json list \<Rightarrow> json list option" where
  "reseat dc dr ms =
     (case ms of [] \<Rightarrow> Some []
      | m # rest \<Rightarrow>
          (case (if role_is ''assistant'' m then calls_array m else None) of
             None \<Rightarrow> Option.bind (reseat dc dr rest) (\<lambda>ys. Some (m # ys))
           | Some cs \<Rightarrow>
               let mv = moved dc dr rest cs in
               if mv = [] \<or> unknown_metadata m then Option.bind (reseat dc dr rest) (\<lambda>ys. Some (m # ys))
               else
                 let m' = without_moved (kept_calls dc dr rest cs) m; rest' = insert_calls rest mv
                 in if empty_husk m' then reseat dc dr rest'
                    else Option.bind (reseat dc dr rest') (\<lambda>ys. Some (m' # ys))))"

declare reseat.simps [code]

definition fold_intervening :: "json list \<Rightarrow> json list option" where
  "fold_intervening messages =
     (let ms = coalesce_runs (fold_text messages)
      in map_option coalesce_runs (reseat (duplicate_calls ms) (duplicate_results ms) ms))"

section \<open>What merging keeps\<close>

abbreviation assistant :: "json \<Rightarrow> bool" where "assistant \<equiv> role_is ''assistant''"

definition others :: "json list \<Rightarrow> json list" where
  "others ms = filter (\<lambda>m. \<not> assistant m) ms"

lemma others_simps [simp]: "others [] = []" "others (a @ b) = others a @ others b"
  "others (m # ms) = (if assistant m then others ms else m # others ms)"
  by (simp_all add: others_def)

lemma run_calls_simps [simp]: "run_calls [] = []" "run_calls (a @ b) = run_calls a @ run_calls b"
  "run_calls (m # ms) = (if has_tool_calls m then the (calls_array m) else []) @ run_calls ms"
  by (simp_all add: run_calls_def)

lemma not_assistant_calls [simp]: "\<not> assistant m \<Longrightarrow> \<not> has_tool_calls m"
  by (simp add: has_tool_calls_def)

lemma others_assistants [simp]: "\<forall>m \<in> set run. assistant m \<Longrightarrow> others run = []"
  by (simp add: others_def)

lemma merge_prop_cases:
  assumes "merge_prop k v m = Some m'"
  obtains "m' = m" and "merge_own k \<or> obj_get m k \<noteq> None"
  | w where "m' = with_prop m k w" and "\<not> merge_own k"
proof (cases "merge_own k")
  case True
  with assms that(1) show ?thesis by (auto simp: merge_prop_def)
next
  case False
  note k = this
  have pk: "k \<notin> set OBJECT_PROTOTYPE_KEYS" using assms k by (auto simp only: merge_prop_def if_False split: if_splits)
  show ?thesis
  proof (cases "obj_get m k")
    case None
    with assms k pk have "m' = with_prop m k v" by (simp only: merge_prop_def if_False option.case option.inject)
    with k that(2) show ?thesis by blast
  next
    case (Some w)
    with assms k pk have "(if deep_equal w v then Some m
      else if k \<in> {''reasoning_content'', ''refusal''} \<and> is_str w \<and> is_str v then
        Some (with_prop m k (JStr (join [LF] (filter (\<lambda>p. trim p \<noteq> []) [str_of w, str_of v])))) else None) = Some m'"
      by (simp only: merge_prop_def if_False option.case)
    with that k Some show ?thesis by (auto simp only: option.inject split: if_splits)
  qed
qed

lemma merge_prop_step:
  assumes "merge_prop k v m = Some m'" and "is_obj m"
  shows "is_obj m'" and "merge_own k' \<Longrightarrow> obj_get m' k' = obj_get m k'"
    and "obj_get m k' \<noteq> None \<Longrightarrow> obj_get m' k' \<noteq> None"
    and "\<not> merge_own k \<Longrightarrow> obj_get m' k \<noteq> None"
proof -
  from merge_prop_cases [OF assms(1)] consider "m' = m" "merge_own k \<or> obj_get m k \<noteq> None"
    | w where "m' = with_prop m k w" "\<not> merge_own k" by metis
  then show "is_obj m'" and "merge_own k' \<Longrightarrow> obj_get m' k' = obj_get m k'"
    and "obj_get m k' \<noteq> None \<Longrightarrow> obj_get m' k' \<noteq> None"
    and "\<not> merge_own k \<Longrightarrow> obj_get m' k \<noteq> None"
    using assms(2) by (cases; auto)+
qed

lemma merge_props_keep:
  assumes "merge_props kvs m = Some m'" and "is_obj m"
  shows "is_obj m' \<and> (\<forall>k. merge_own k \<longrightarrow> obj_get m' k = obj_get m k) \<and>
    (\<forall>k. obj_get m k \<noteq> None \<longrightarrow> obj_get m' k \<noteq> None) \<and>
    (\<forall>k \<in> set (map fst kvs). \<not> merge_own k \<longrightarrow> obj_get m' k \<noteq> None)"
  using assms
proof (induction kvs m rule: merge_props.induct)
  case (1 m)
  then show ?case by simp
next
  case (2 k v kvs m)
  then obtain m1 where m1: "merge_prop k v m = Some m1" and rest: "merge_props kvs m1 = Some m'"
    by (auto split: option.splits)
  note a = merge_prop_step [OF m1 2(3)]
  from 2(1) [OF m1 rest a(1)] a(2-4) show ?case by auto
qed

lemma entries_key: "is_obj m \<Longrightarrow> k \<in> set (map fst (entries m)) \<longleftrightarrow> obj_get m k \<noteq> None"
  by (cases m) (auto simp: map_of_eq_None_iff)

lemma obj_get_key: "obj_get m k \<noteq> None \<longleftrightarrow> k \<in> set (map fst (entries m))"
  by (cases m) (auto simp: map_of_eq_None_iff)

lemma unknown_metadata_iff: "unknown_metadata m \<longleftrightarrow> (\<exists>k. k \<notin> set KNOWN_KEYS \<and> obj_get m k \<noteq> None)"
  unfolding unknown_metadata_def Bex_def obj_get_key by blast

lemma merged_run:
  assumes "merge_assistant_run run = Some x"
  shows "assistant x" and "run_calls [x] = run_calls run"
    and "m \<in> set run \<Longrightarrow> unknown_metadata m \<Longrightarrow> unknown_metadata x"
proof -
  obtain merged where mp: "merge_props (concat (map entries run)) (JObj [(''role'', JStr ''assistant'')]) = Some merged"
    using assms by (auto simp: merge_assistant_run_def split: option.splits)
  obtain c where c: "merge_contents (map (\<lambda>m. obj_get m ''content'') run) = Content c"
    using assms mp by (auto simp: merge_assistant_run_def split: merged_content.splits)
  have x: "x = (let m1 = (case c of None \<Rightarrow> merged | Some v \<Rightarrow> with_prop merged ''content'' v)
        in if run_calls run \<noteq> [] then with_prop m1 ''tool_calls'' (JArr (run_calls run)) else m1)"
    using assms by (simp add: merge_assistant_run_def Let_def mp c)
  note k = merge_props_keep [OF mp]
  have o: "is_obj merged" "obj_get merged ''role'' = Some (JStr ''assistant'')" "obj_get merged ''tool_calls'' = None"
    using k by (simp_all add: merge_own_def)
  let ?m1 = "case c of None \<Rightarrow> merged | Some v \<Rightarrow> with_prop merged ''content'' v"
  have m1: "is_obj ?m1" "obj_get ?m1 ''role'' = Some (JStr ''assistant'')" "obj_get ?m1 ''tool_calls'' = None"
    "\<And>k. obj_get merged k \<noteq> None \<Longrightarrow> obj_get ?m1 k \<noteq> None"
    using o by (auto split: option.split)
  show role: "assistant x" using m1 x by (simp add: role_is_def Let_def)
  show "run_calls [x] = run_calls run"
    using m1 x role by (auto simp: has_tool_calls_def calls_array_def Let_def)
  show "unknown_metadata x" if "m \<in> set run" "unknown_metadata m"
  proof -
    note given = that
    obtain key where key: "key \<in> set (map fst (entries m))" "key \<notin> set KNOWN_KEYS"
      using given(2) by (auto simp: unknown_metadata_def)
    then have "key \<in> set (map fst (concat (map entries run)))" using given(1) by (auto simp: map_concat)
    then have "obj_get merged key \<noteq> None" using k key(2) by (auto simp: KNOWN_KEYS_def merge_own_def)
    from m1(4) [OF this] have "obj_get x key \<noteq> None" using x m1(1) by (simp add: Let_def)
    with key(2) show ?thesis by (auto simp: unknown_metadata_iff)
  qed
qed

lemma fold_here_Some:
  assumes "fold_here m rest = Some x"
  shows "assistant m" and "merge_assistant_run (m # takeWhile bare_assistant rest) = Some x"
  using assms by (auto simp: fold_here_def Let_def split: if_splits)

lemma bare_calls: "run_calls (takeWhile bare_assistant ms) = []" "others (takeWhile bare_assistant ms) = []"
  by (induction ms) (auto simp: bare_assistant_def has_tool_calls_def)

lemma fold_text_keeps: "others (fold_text ms) = others ms \<and> run_calls (fold_text ms) = run_calls ms"
proof (induction ms rule: fold_text.induct)
  case (2 m rest)
  show ?case
  proof (cases "fold_here m rest")
    case None
    with 2 show ?thesis by simp
  next
    case (Some x)
    note f = fold_here_Some [OF Some] and r = merged_run(1,2) [OF fold_here_Some(2) [OF Some]]
    have split: "others rest = others (dropWhile bare_assistant rest)"
      "run_calls rest = run_calls (dropWhile bare_assistant rest)"
      using bare_calls [of rest] takeWhile_dropWhile_id [of bare_assistant rest]
      by (metis others_simps(2) append_Nil, metis run_calls_simps(2) append_Nil)
    have "run_calls [x] = run_calls [m]" using r(2) bare_calls(1) [of rest] by simp
    with 2(2) [OF Some] Some f(1) r(1) split show ?thesis by simp
  qed
qed simp

lemma coalesce_loop_keeps: "others (coalesce_loop ms) = others ms \<and> run_calls (coalesce_loop ms) = run_calls ms"
proof (induction ms rule: coalesce_loop.induct)
  case (2 m rest)
  show ?case
  proof (cases "assistant m")
    case False
    with 2 show ?thesis by simp
  next
    case True
    let ?run = "m # takeWhile assistant rest" and ?others = "dropWhile assistant rest"
    let ?out = "if length ?run = 1 then [m] else case merge_assistant_run ?run of None \<Rightarrow> ?run | Some x \<Rightarrow> [x]"
    have none: "others (takeWhile assistant rest) = []" by (induction rest) auto
    then have out: "others ?out = []" "run_calls ?out = run_calls ?run"
      using True merged_run(1,2) [of ?run] by (auto split: option.split)
    have "others rest = others (takeWhile assistant rest) @ others ?others"
      "run_calls rest = run_calls (takeWhile assistant rest) @ run_calls ?others"
      by (metis others_simps(2) takeWhile_dropWhile_id, metis run_calls_simps(2) takeWhile_dropWhile_id)
    then show ?thesis
      using out none True 2(2) by (simp add: Let_def)
  qed
qed simp

lemma coalesce_keeps: "others (coalesce_runs ms) = others ms \<and> run_calls (coalesce_runs ms) = run_calls ms"
  using coalesce_loop_keeps by (simp add: coalesce_runs_def)

section \<open>What re-seating keeps\<close>

lemma single_call [simp]: "assistant (single_call c)" "has_tool_calls (single_call c)"
  "calls_array (single_call c) = Some [c]"
  by (simp_all add: single_call_def has_tool_calls_def role_is_def calls_array_def)

lemma insert_call_keeps [simp]: "others (insert_call ms ci) = others ms"
  "mset (run_calls (insert_call ms ci)) = add_mset (fst ci) (mset (run_calls ms))"
proof -
  have "others ms = others (take (snd ci) ms) @ others (drop (snd ci) ms)"
    "run_calls ms = run_calls (take (snd ci) ms) @ run_calls (drop (snd ci) ms)"
    by (metis append_take_drop_id others_simps(2), metis append_take_drop_id run_calls_simps(2))
  then show "others (insert_call ms ci) = others ms"
    "mset (run_calls (insert_call ms ci)) = add_mset (fst ci) (mset (run_calls ms))"
    by (simp_all add: insert_call_def)
qed

lemma foldl_insert_keeps: "others (foldl insert_call ms L) = others ms \<and>
    mset (run_calls (foldl insert_call ms L)) = mset (map fst L) + mset (run_calls ms)"
  by (induction L arbitrary: ms) auto

lemma insert_calls_keeps: "others (insert_calls ms mv) = others ms"
  "mset (run_calls (insert_calls ms mv)) = mset (map fst mv) + mset (run_calls ms)"
  using foldl_insert_keeps [of ms "rev (sort_key snd (rev mv))"] by (simp_all add: insert_calls_def)

lemma moved_iff: "(c, i) \<in> set (moved dc dr rest cs) \<longleftrightarrow>
    c \<in> set cs \<and> \<not> stays dc dr rest c \<and> result_index rest c = Some i"
  by (auto simp: moved_def map_filter_def image_iff)

lemma kept_moved: "mset (kept_calls dc dr rest cs) + mset (map fst (moved dc dr rest cs)) = mset cs"
  by (induction cs) (auto simp: kept_calls_def moved_def map_filter_def filter_filter_mset)

lemma without_moved:
  assumes "assistant m" and "calls_array m = Some cs"
  shows "assistant (without_moved keep m)" "run_calls [without_moved keep m] = keep"
    "unknown_metadata (without_moved keep m) = unknown_metadata m"
proof -
  have o: "is_obj m" using assms(2) by (cases m) (simp_all add: calls_array_def)
  then show r: "assistant (without_moved keep m)"
    using assms(1) by (simp add: without_moved_def role_is_def)
  show "run_calls [without_moved keep m] = keep"
    using r o by (auto simp: has_tool_calls_def calls_array_def without_moved_def)
  have "''tool_calls'' \<in> set KNOWN_KEYS" by (simp add: KNOWN_KEYS_def)
  then have "obj_get (without_moved keep m) k = obj_get m k" if "k \<notin> set KNOWN_KEYS" for k
  proof -
    from that \<open>''tool_calls'' \<in> set KNOWN_KEYS\<close> have "k \<noteq> ''tool_calls''" by blast
    then show ?thesis using o by (simp add: without_moved_def)
  qed
  then show "unknown_metadata (without_moved keep m) = unknown_metadata m"
    unfolding unknown_metadata_iff by metis
qed

lemma husk_calls: "empty_husk m \<Longrightarrow> run_calls [m] = []"
  by (auto simp: empty_husk_def has_tool_calls_def)

lemma calls_of_array: "assistant m \<Longrightarrow> calls_array m = Some cs \<Longrightarrow> run_calls [m] = cs"
  by (simp add: has_tool_calls_def)

lemma reseat_Nil: "reseat dc dr [] = Some []"
  by (subst reseat.simps) simp

lemma reseat_plain:
  assumes "\<not> assistant m \<or> calls_array m = None"
  shows "reseat dc dr (m # rest) = Option.bind (reseat dc dr rest) (\<lambda>ys. Some (m # ys))"
  using assms by (subst reseat.simps) auto

lemma reseat_same:
  assumes "assistant m" and "calls_array m = Some cs" and "moved dc dr rest cs = [] \<or> unknown_metadata m"
  shows "reseat dc dr (m # rest) = Option.bind (reseat dc dr rest) (\<lambda>ys. Some (m # ys))"
  using assms by (subst reseat.simps) (simp add: Let_def)

lemma reseat_move:
  assumes "assistant m" and "calls_array m = Some cs" and "moved dc dr rest cs \<noteq> []" and "\<not> unknown_metadata m"
  defines "m' \<equiv> without_moved (kept_calls dc dr rest cs) m" and "rest' \<equiv> insert_calls rest (moved dc dr rest cs)"
  shows "reseat dc dr (m # rest) =
    (if empty_husk m' then reseat dc dr rest' else Option.bind (reseat dc dr rest') (\<lambda>ys. Some (m' # ys)))"
  using assms by (subst reseat.simps) (simp add: Let_def)

section \<open>Re-seating ends\<close>

definition settled_call :: "json \<Rightarrow> json list \<Rightarrow> bool" where
  "settled_call m rest \<longleftrightarrow> (\<exists>c i. run_calls [m] = [c] \<and> truthy_prop ''id'' c = Some i \<and> rest \<noteq> [] \<and> answers i (hd rest))"

fun unsettled :: "json list \<Rightarrow> nat" where
  "unsettled [] = 0"
| "unsettled (m # rest) = (if settled_call m rest then 0 else length (run_calls [m])) + unsettled rest"

definition unambiguous :: "json list \<Rightarrow> json list \<Rightarrow> json list \<Rightarrow> bool" where
  "unambiguous dc dr ms \<longleftrightarrow>
     (\<forall>i. primitive i \<and> i \<notin> set dc \<longrightarrow> count (mset (call_ids (run_calls ms))) i \<le> 1)"

lemma mset_call_ids: "mset (call_ids cs) =
    image_mset (\<lambda>c. the (truthy_prop ''id'' c)) (filter_mset (\<lambda>c. truthy_prop ''id'' c \<noteq> None) (mset cs))"
  by (simp add: call_ids_def map_filter_def comp_def)

lemma call_ids_mono: "mset cs \<subseteq># mset cs' \<Longrightarrow> count (mset (call_ids cs)) i \<le> count (mset (call_ids cs')) i"
  unfolding mset_call_ids by (intro mset_subset_eq_count image_mset_subseteq_mono multiset_filter_mono)

lemma tool_not_assistant [simp]: "role_is ''tool'' m \<Longrightarrow> \<not> assistant m"
  by (simp add: role_is_def)

lemma assistant_not_tool [simp]: "assistant m \<Longrightarrow> \<not> role_is ''tool'' m"
  by (simp add: role_is_def)

lemma answers_not_assistant: "answers i t \<Longrightarrow> \<not> assistant t"
  by (auto simp: answers_def)

lemma unsettled_insert:
  assumes "answers i t" and "truthy_prop ''id'' c = Some i"
    and "\<forall>c' \<in> set (run_calls (pre @ t # post)). truthy_prop ''id'' c' \<noteq> Some i"
  shows "unsettled (pre @ single_call c # t # post) = unsettled (pre @ t # post)"
  using assms(3)
proof (induction pre)
  case Nil
  have "settled_call (single_call c) (t # post)" using assms(1,2) by (auto simp: settled_call_def)
  then show ?case by simp
next
  case (Cons m pre)
  have "settled_call m (pre @ single_call c # t # post) = settled_call m (pre @ t # post)"
  proof (cases pre)
    case Nil
    have "\<not> settled_call m (t # post)"
    proof
      assume "settled_call m (t # post)"
      then obtain c' j where c': "run_calls [m] = [c']" "truthy_prop ''id'' c' = Some j" "answers j t"
        by (auto simp: settled_call_def)
      from c'(3) assms(1) have "j = i" by (simp add: answers_def)
      moreover have "c' \<in> set (run_calls ((m # pre) @ t # post))" using c'(1) by simp
      ultimately show False using Cons.prems c'(2) by blast
    qed
    moreover have "\<not> settled_call m (single_call c # t # post)"
      by (auto simp: settled_call_def dest: answers_not_assistant)
    ultimately show ?thesis using Nil by simp
  qed (simp add: settled_call_def)
  with Cons show ?case by simp
qed

lemma foldl_insert_unsettled:
  assumes "\<forall>(c, i) \<in> set L. \<exists>d. truthy_prop ''id'' c = Some d \<and> i < length ms \<and> answers d (ms ! i) \<and>
      (\<forall>c' \<in> set (run_calls ms). truthy_prop ''id'' c' \<noteq> Some d)"
    and "distinct (map (\<lambda>p. truthy_prop ''id'' (fst p)) L)"
    and "sorted_wrt (\<lambda>p q. snd q < snd p) L"
  shows "unsettled (foldl insert_call ms L) = unsettled ms"
  using assms
proof (induction L arbitrary: ms)
  case (Cons p L)
  obtain c i where p: "p = (c, i)" by (cases p)
  obtain d where d: "truthy_prop ''id'' c = Some d" "i < length ms" "answers d (ms ! i)"
    "\<forall>c' \<in> set (run_calls ms). truthy_prop ''id'' c' \<noteq> Some d"
    using Cons.prems(1) p by auto
  let ?ms = "insert_call ms p"
  have split: "ms = take i ms @ ms ! i # drop (Suc i) ms" using id_take_nth_drop [OF d(2)] .
  have "unsettled ?ms = unsettled ms"
    using unsettled_insert [OF d(3,1), of "take i ms" "drop (Suc i) ms"] d(4) split Cons_nth_drop_Suc [OF d(2)]
    by (simp add: insert_call_def p)
  moreover have "unsettled (foldl insert_call ?ms L) = unsettled ?ms"
  proof (rule Cons.IH)
    show "distinct (map (\<lambda>p. truthy_prop ''id'' (fst p)) L)" "sorted_wrt (\<lambda>p q. snd q < snd p) L"
      using Cons.prems(2,3) by simp_all
    show "\<forall>(c, i) \<in> set L. \<exists>d. truthy_prop ''id'' c = Some d \<and> i < length ?ms \<and> answers d (?ms ! i) \<and>
      (\<forall>c' \<in> set (run_calls ?ms). truthy_prop ''id'' c' \<noteq> Some d)"
    proof (clarify)
      fix c' i' assume q: "(c', i') \<in> set L"
      then have less: "i' < i" using Cons.prems(3) p by auto
      obtain d' where d': "truthy_prop ''id'' c' = Some d'" "i' < length ms" "answers d' (ms ! i')"
        "\<forall>c' \<in> set (run_calls ms). truthy_prop ''id'' c' \<noteq> Some d'"
        using Cons.prems(1) q by auto
      have "truthy_prop ''id'' c \<noteq> Some d'"
        using Cons.prems(2) q d'(1) p by (force simp: image_iff)
      moreover have "set (run_calls ?ms) = insert c (set (run_calls ms))"
        using insert_call_keeps(2) [of ms p] p by (metis fst_conv set_mset_add_mset_insert set_mset_mset)
      moreover have "?ms ! i' = ms ! i'" using less d(2) by (simp add: insert_call_def p nth_append)
      moreover have "i' < length ?ms" using less d(2) by (simp add: insert_call_def p)
      ultimately show "\<exists>d. truthy_prop ''id'' c' = Some d \<and> i' < length ?ms \<and> answers d (?ms ! i') \<and>
          (\<forall>c' \<in> set (run_calls ?ms). truthy_prop ''id'' c' \<noteq> Some d)"
        using d' by auto
    qed
  qed
  ultimately show ?case by simp
qed simp

lemma in_call_ids: "i \<in> set (call_ids xs) \<longleftrightarrow> Some i \<in> truthy_prop ''id'' ` set xs"
  unfolding call_ids_def by (induction xs) (auto simp: map_filter_simps split: option.split)

lemma distinct_ids:
  assumes "\<forall>c \<in> set xs. \<exists>i. truthy_prop ''id'' c = Some i \<and> count (mset (call_ids ys)) i \<le> 1"
    and "mset xs \<subseteq># mset ys"
  shows "distinct (map (truthy_prop ''id'') xs)"
proof -
  have "count (mset (call_ids xs)) i \<le> 1" if "c \<in> set xs" "truthy_prop ''id'' c = Some i" for c i
    using assms(1) that call_ids_mono [OF assms(2), of i] by fastforce
  moreover have "\<forall>c \<in> set xs. truthy_prop ''id'' c \<noteq> None" using assms(1) by auto
  ultimately show ?thesis
  proof (induction xs)
    case (Cons c xs)
    obtain i where i: "truthy_prop ''id'' c = Some i" using Cons.prems(2) by auto
    have "Some i \<notin> truthy_prop ''id'' ` set xs"
    proof
      assume "Some i \<in> truthy_prop ''id'' ` set xs"
      then have "i \<in> set (call_ids xs)" by (simp add: in_call_ids)
      then have "count (mset (call_ids (c # xs))) i > 1" using i by (simp add: call_ids_def map_filter_simps)
      with Cons.prems(1) [of c i] i show False by simp
    qed
    moreover have "distinct (map (truthy_prop ''id'') xs)"
    proof (rule Cons.IH)
      fix c' i' assume c': "c' \<in> set xs" "truthy_prop ''id'' c' = Some i'"
      have "count (mset (call_ids xs)) i' \<le> count (mset (call_ids (c # xs))) i'"
        by (simp add: call_ids_def map_filter_simps split: option.split)
      with Cons.prems(1) [of c' i'] c' show "count (mset (call_ids xs)) i' \<le> 1" by simp
    qed (use Cons.prems(2) in simp)
    ultimately show ?case using i by simp
  qed simp
qed

lemma find_index_Some: "find_index p xs = Some i \<Longrightarrow> i < length xs \<and> p (xs ! i)"
  by (induction xs arbitrary: i) (auto split: if_splits)

lemma find_index_None: "find_index p xs = None \<longleftrightarrow> (\<forall>x \<in> set xs. \<not> p x)"
  by (induction xs) auto

lemma truthy_id: "truthy_prop ''id'' c = Some i \<Longrightarrow> the (obj_get c ''id'') = i"
  by (simp add: truthy_prop_def split: if_splits)

lemma moved_facts:
  assumes "(c, i) \<in> set (moved dc dr rest cs)"
  obtains d where "truthy_prop ''id'' c = Some d" "i < length rest" "answers d (rest ! i)" "primitive d"
    "d \<notin> set dc" "\<not> has_id (run_ids rest) d" "c \<in> set cs"
proof -
  have c: "c \<in> set cs" "\<not> stays dc dr rest c" "result_index rest c = Some i" using assms by (simp_all add: moved_iff)
  obtain d where d: "truthy_prop ''id'' c = Some d" using c(2) by (cases "truthy_prop ''id'' c") (simp_all add: stays_def)
  have a: "i < length rest" "answers d (rest ! i)"
    using find_index_Some c(3) truthy_id [OF d] unfolding result_index_def by blast+
  moreover have "primitive d" using a(2) by (simp add: answers_def)
  moreover from this have "d \<notin> set dc" "\<not> has_id (run_ids rest) d"
    using c(2) d by (simp_all add: stays_def has_id_def)
  ultimately show thesis using that d c(1) by blast
qed

lemma moved_distinct:
  assumes "unambiguous dc dr (m # rest)" and "assistant m" and "calls_array m = Some cs"
  shows "distinct (map (\<lambda>p. truthy_prop ''id'' (fst p)) (moved dc dr rest cs))"
    and "distinct (map snd (moved dc dr rest cs))"
    and "(c, i) \<in> set (moved dc dr rest cs) \<Longrightarrow> truthy_prop ''id'' c = Some d \<Longrightarrow>
      c' \<in> set (run_calls rest) \<Longrightarrow> truthy_prop ''id'' c' \<noteq> Some d"
proof -
  let ?mv = "moved dc dr rest cs"
  define al where "al = run_calls (m # rest)"
  have all: "al = cs @ run_calls rest" using calls_of_array [OF assms(2,3)] by (simp add: al_def)
  have sub: "mset (map fst ?mv) \<subseteq># mset cs"
    using kept_moved [of dc dr rest cs] by (metis mset_subset_eq_add_right)
  have once: "count (mset (call_ids al)) d \<le> 1" if "primitive d" "d \<notin> set dc" for d
    using assms(1) that unfolding unambiguous_def al_def by blast
  have "distinct (map (truthy_prop ''id'') (map fst ?mv))"
  proof (rule distinct_ids)
    show "mset (map fst ?mv) \<subseteq># mset al" using sub all by (simp add: subset_mset.add_increasing2)
    show "\<forall>c \<in> set (map fst ?mv). \<exists>i. truthy_prop ''id'' c = Some i \<and> count (mset (call_ids al)) i \<le> 1"
      using once by (auto elim!: moved_facts)
  qed
  then show ids: "distinct (map (\<lambda>p. truthy_prop ''id'' (fst p)) ?mv)" by (simp add: comp_def)
  have "inj_on snd (set ?mv)"
  proof (rule inj_onI, clarify)
    fix c1 i1 c2 i2 assume "(c1, i1) \<in> set ?mv" "(c2, i2) \<in> set ?mv" "snd (c1, i1) = snd (c2, i2)"
    then have "truthy_prop ''id'' c1 = truthy_prop ''id'' c2" "i1 = i2"
      by (auto elim!: moved_facts simp: answers_def)
    with ids \<open>(c1, i1) \<in> set ?mv\<close> \<open>(c2, i2) \<in> set ?mv\<close> show "c1 = c2 \<and> i1 = i2"
      unfolding distinct_map inj_on_def by (metis fst_conv prod.inject)
  qed
  with ids show "distinct (map snd ?mv)" by (simp add: distinct_map)
  show "truthy_prop ''id'' c' \<noteq> Some d"
    if c: "(c, i) \<in> set ?mv" "truthy_prop ''id'' c = Some d" "c' \<in> set (run_calls rest)"
  proof
    assume c': "truthy_prop ''id'' c' = Some d"
    obtain "primitive d" "d \<notin> set dc" "c \<in> set cs" using moved_facts [OF c(1)] c(2) by (metis option.inject)
    have "d \<in> set (call_ids cs)" "d \<in> set (call_ids (run_calls rest))"
      unfolding in_call_ids using c(2,3) c' \<open>c \<in> set cs\<close> by (metis imageI)+
    moreover have "call_ids al = call_ids cs @ call_ids (run_calls rest)"
      by (simp add: all call_ids_def map_filter_def)
    ultimately have "0 < count (mset (call_ids cs)) d" "0 < count (mset (call_ids (run_calls rest))) d"
      "count (mset (call_ids al)) d = count (mset (call_ids cs)) d + count (mset (call_ids (run_calls rest))) d"
      by simp_all
    then have "count (mset (call_ids al)) d > 1" by linarith
    with once [OF \<open>primitive d\<close> \<open>d \<notin> set dc\<close>] show False by simp
  qed
qed

lemma sorted_desc: "distinct (map snd mv) \<Longrightarrow> sorted_wrt (\<lambda>p q. snd q < snd p) (rev (sort_key snd (rev mv)))"
  for mv :: "(json \<times> nat) list"
proof -
  assume d: "distinct (map snd mv)"
  let ?s = "sort_key snd (rev mv)"
  have "mset ?s = mset mv" by simp
  then have "mset (map snd ?s) = mset (map snd mv)" by (metis mset_map)
  then have "distinct (map snd ?s)" using d by (metis mset_eq_imp_distinct_iff)
  moreover have "sorted (map snd ?s)" by simp
  ultimately have "sorted_wrt (<) (map snd ?s)" by (simp add: strict_sorted_iff)
  then show ?thesis by (simp add: sorted_wrt_map sorted_wrt_rev)
qed

lemma insert_calls_unsettled:
  assumes "unambiguous dc dr (m # rest)" and "assistant m" and "calls_array m = Some cs"
  shows "unsettled (insert_calls rest (moved dc dr rest cs)) = unsettled rest"
  unfolding insert_calls_def
proof (rule foldl_insert_unsettled)
  let ?mv = "moved dc dr rest cs"
  note md = moved_distinct [OF assms]
  have "mset (map (\<lambda>p. truthy_prop ''id'' (fst p)) (rev (sort_key snd (rev ?mv)))) =
      mset (map (\<lambda>p. truthy_prop ''id'' (fst p)) ?mv)"
    by (simp only: mset_map mset_rev mset_sort)
  with md(1) show "distinct (map (\<lambda>p. truthy_prop ''id'' (fst p)) (rev (sort_key snd (rev ?mv))))"
    by (metis mset_eq_imp_distinct_iff)
  show "sorted_wrt (\<lambda>p q. snd q < snd p) (rev (sort_key snd (rev ?mv)))" by (rule sorted_desc [OF md(2)])
  show "\<forall>(c, i) \<in> set (rev (sort_key snd (rev ?mv))). \<exists>d. truthy_prop ''id'' c = Some d \<and> i < length rest \<and>
      answers d (rest ! i) \<and> (\<forall>c' \<in> set (run_calls rest). truthy_prop ''id'' c' \<noteq> Some d)"
  proof (clarsimp)
    fix c i assume mv: "(c, i) \<in> set ?mv"
    obtain d where "truthy_prop ''id'' c = Some d" "i < length rest" "answers d (rest ! i)"
      using moved_facts [OF mv] by metis
    with md(3) [OF mv] show "\<exists>d. truthy_prop ''id'' c = Some d \<and> i < length rest \<and> answers d (rest ! i) \<and>
        (\<forall>c' \<in> set (run_calls rest). truthy_prop ''id'' c' \<noteq> Some d)" by blast
  qed
qed

lemma moved_not_settled:
  assumes "assistant m" and "calls_array m = Some cs" and "moved dc dr rest cs \<noteq> []"
  shows "\<not> settled_call m rest \<and> cs \<noteq> []"
proof -
  obtain c i where mv: "(c, i) \<in> set (moved dc dr rest cs)" using assms(3) by (cases "moved dc dr rest cs") auto
  obtain d where d: "truthy_prop ''id'' c = Some d" "\<not> has_id (run_ids rest) d" "primitive d" "c \<in> set cs"
    using moved_facts [OF mv] by metis
  have "\<not> settled_call m rest"
  proof
    assume "settled_call m rest"
    then obtain t r where "rest = t # r" "answers d t"
      using d(1,4) calls_of_array [OF assms(1,2)] by (cases rest) (auto simp: settled_call_def)
    then have "d \<in> set (run_ids rest)"
      by (simp add: run_ids_def result_ids_def answers_def map_filter_simps)
    with d(2,3) show False by (simp add: has_id_def)
  qed
  with d(4) show ?thesis by auto
qed

lemma unambiguous_sub:
  "unambiguous dc dr ms \<Longrightarrow> mset (run_calls ms') \<subseteq># mset (run_calls ms) \<Longrightarrow> unambiguous dc dr ms'"
  unfolding unambiguous_def using call_ids_mono le_trans by blast

lemma insert_unambiguous:
  assumes "unambiguous dc dr (m # rest)" and "assistant m" and "calls_array m = Some cs"
  shows "unambiguous dc dr (insert_calls rest (moved dc dr rest cs))"
proof (rule unambiguous_sub [OF assms(1)])
  have "mset (map fst (moved dc dr rest cs)) \<subseteq># mset cs"
    using kept_moved [of dc dr rest cs] by (metis mset_subset_eq_add_right)
  then show "mset (run_calls (insert_calls rest (moved dc dr rest cs))) \<subseteq># mset (run_calls (m # rest))"
    using calls_of_array [OF assms(2,3)] by (simp add: insert_calls_keeps)
qed

text \<open>Induction along the loop, for histories whose usable identifiers are not ambiguous: the loop
  returns, and what holds step by step holds of its result.\<close>

lemma reseat_run [case_names ambiguous empty plain same move]:
  assumes "unambiguous dc dr ms"
    and "P [] []"
    and "\<And>m rest ys. \<not> assistant m \<or> calls_array m = None \<Longrightarrow> P rest ys \<Longrightarrow> P (m # rest) (m # ys)"
    and "\<And>m rest cs ys. assistant m \<Longrightarrow> calls_array m = Some cs \<Longrightarrow>
      moved dc dr rest cs = [] \<or> unknown_metadata m \<Longrightarrow> P rest ys \<Longrightarrow> P (m # rest) (m # ys)"
    and "\<And>m rest cs ys. assistant m \<Longrightarrow> calls_array m = Some cs \<Longrightarrow> \<not> unknown_metadata m \<Longrightarrow>
      P (insert_calls rest (moved dc dr rest cs)) ys \<Longrightarrow>
      P (m # rest) (if empty_husk (without_moved (kept_calls dc dr rest cs) m) then ys
                    else without_moved (kept_calls dc dr rest cs) m # ys)"
  shows "\<exists>ys. reseat dc dr ms = Some ys \<and> P ms ys"
  using assms(1)
proof (induction ms rule: wf_induct [OF wf_measures [of "[unsettled, length]"]])
  case (1 ms)
  show ?case
  proof (cases ms)
    case Nil
    with assms(2) show ?thesis by (simp add: reseat_Nil)
  next
    case (Cons m rest)
    have "(rest, ms) \<in> measures [unsettled, length]"
      by (cases "settled_call m rest"; cases "run_calls [m]") (auto simp: Cons)
    moreover have "unambiguous dc dr rest" using unambiguous_sub [OF "1.prems", of rest] Cons by simp
    ultimately obtain ys where rest: "reseat dc dr rest = Some ys" "P rest ys" using "1.IH" by blast
    consider "\<not> assistant m \<or> calls_array m = None"
      | cs where "assistant m" "calls_array m = Some cs" "moved dc dr rest cs = [] \<or> unknown_metadata m"
      | cs where "assistant m" "calls_array m = Some cs" "moved dc dr rest cs \<noteq> []" "\<not> unknown_metadata m"
      by (cases "calls_array m") auto
    then show ?thesis
    proof cases
      case 1
      with rest assms(3) show ?thesis by (simp add: Cons reseat_plain)
    next
      case (2 cs)
      with rest assms(4) show ?thesis by (simp add: Cons reseat_same)
    next
      case (3 cs)
      let ?rest = "insert_calls rest (moved dc dr rest cs)"
      have u: "unambiguous dc dr (m # rest)" using "1.prems" Cons by simp
      have "unsettled ?rest < unsettled ms"
        using insert_calls_unsettled [OF u 3(1,2)] moved_not_settled [OF 3(1-3)] calls_of_array [OF 3(1,2)]
        by (simp add: Cons)
      with "1.IH" insert_unambiguous [OF u 3(1,2)] obtain zs where "reseat dc dr ?rest = Some zs" "P ?rest zs" by auto
      then have "reseat dc dr ?rest = Some zs" "P ?rest zs" by simp_all
      from this(1) reseat_move [OF 3] assms(5) [OF 3(1,2,4) this(2)] show ?thesis
        by (cases "empty_husk (without_moved (kept_calls dc dr rest cs) m)") (simp_all add: Cons)
    qed
  qed
qed

lemma count_duplicates: "primitive i \<Longrightarrow> i \<notin> set (duplicates ids) \<longleftrightarrow> count (mset ids) i \<le> 1"
  by (auto simp: duplicates_def count_mset count_list_0_iff not_less)

lemma unambiguous_duplicates: "unambiguous (duplicate_calls ms) dr ms"
  using count_duplicates by (auto simp: unambiguous_def duplicate_calls_def)

section \<open>The shape that results\<close>

lemma tools_of_others: "filter (role_is ''tool'') (others ms) = filter (role_is ''tool'') ms"
  by (induction ms) auto

lemma result_ids_others: "others ms = others ms' \<Longrightarrow> result_ids ms = result_ids ms'"
  unfolding result_ids_def by (metis tools_of_others)


text \<open>The loop neither loses nor invents a call, and leaves every other message where it was.\<close>

lemma reseat_keeps:
  assumes "unambiguous dc dr ms"
  shows "\<exists>ys. reseat dc dr ms = Some ys \<and> others ys = others ms \<and> mset (run_calls ys) = mset (run_calls ms)"
proof (rule reseat_run [OF assms, where P="\<lambda>ms ys. others ys = others ms \<and> mset (run_calls ys) = mset (run_calls ms)"])
  fix m rest cs ys
  assume m: "assistant m" "calls_array m = Some cs"
    and IH: "others ys = others (insert_calls rest (moved dc dr rest cs)) \<and>
      mset (run_calls ys) = mset (run_calls (insert_calls rest (moved dc dr rest cs)))"
  let ?keep = "kept_calls dc dr rest cs" and ?mv = "moved dc dr rest cs"
  note w = without_moved(1,2) [OF m, of ?keep]
  have "mset (run_calls [m]) = mset ?keep + mset (map fst ?mv)"
    using kept_moved [of dc dr rest cs] calls_of_array [OF m] by simp
  moreover have "mset (run_calls (m # rest)) = mset (run_calls [m]) + mset (run_calls rest)" by simp
  moreover have "empty_husk (without_moved ?keep m) \<Longrightarrow> ?keep = []" using husk_calls w(2) by metis
  moreover have "mset (run_calls (without_moved ?keep m # ys)) = mset ?keep + mset (run_calls ys)" using w(2) by simp
  ultimately show "others (if empty_husk (without_moved ?keep m) then ys else without_moved ?keep m # ys) = others (m # rest) \<and>
      mset (run_calls (if empty_husk (without_moved ?keep m) then ys else without_moved ?keep m # ys)) =
        mset (run_calls (m # rest))"
    using IH m(1) w(1) by (simp add: insert_calls_keeps)
qed simp_all

text \<open>A call is answered where it stands, unless its identifier is ambiguous, it has no result
  behind it, or its message carries metadata the router does not know.\<close>

definition call_answered :: "json list \<Rightarrow> json list \<Rightarrow> json list \<Rightarrow> json \<Rightarrow> bool" where
  "call_answered dc dr rest c \<longleftrightarrow>
     (\<forall>i. truthy_prop ''id'' c = Some i \<and> primitive i \<and> i \<notin> set dc \<and> i \<notin> set dr \<and>
        i \<in> set (result_ids rest) \<longrightarrow> i \<in> set (result_ids (takeWhile (role_is ''tool'') rest)))"

definition answered_here :: "json list \<Rightarrow> json list \<Rightarrow> json \<Rightarrow> json list \<Rightarrow> bool" where
  "answered_here dc dr m rest \<longleftrightarrow>
     unknown_metadata m \<or> (\<forall>c \<in> set (run_calls [m]). call_answered dc dr rest c)"

fun answered :: "json list \<Rightarrow> json list \<Rightarrow> json list \<Rightarrow> bool" where
  "answered dc dr [] = True"
| "answered dc dr (m # rest) = (answered_here dc dr m rest \<and> answered dc dr rest)"

lemma result_ids_simps [simp]: "result_ids [] = []" "result_ids (a @ b) = result_ids a @ result_ids b"
  by (simp_all add: result_ids_def map_filter_def)

lemma answered_here_mono:
  assumes "answered_here dc dr m rest" and "set (result_ids rest') = set (result_ids rest)"
    and "set (result_ids (takeWhile (role_is ''tool'') rest)) \<subseteq> set (result_ids (takeWhile (role_is ''tool'') rest'))"
  shows "answered_here dc dr m rest'"
  using assms unfolding answered_here_def call_answered_def by blast

lemma answered_plain: "run_calls [m] = [] \<Longrightarrow> answered_here dc dr m rest"
  by (simp add: answered_here_def)

lemma foldl_insert_take:
  "\<forall>(c, i) \<in> set L. n \<le> i \<Longrightarrow> n \<le> length ms \<Longrightarrow> take n (foldl insert_call ms L) = take n ms"
proof (induction L arbitrary: ms)
  case (Cons p L)
  have "n \<le> snd p" using Cons.prems by auto
  then have "take n (insert_call ms p) = take n ms" "n \<le> length (insert_call ms p)"
    using Cons.prems(2) by (simp_all add: insert_call_def min_def)
  with Cons show ?case by simp
qed simp

lemma insert_calls_run:
  assumes "\<forall>(c, i) \<in> set mv. length (takeWhile (role_is ''tool'') rest) \<le> i"
  shows "\<exists>more. takeWhile (role_is ''tool'') (insert_calls rest mv) = takeWhile (role_is ''tool'') rest @ more"
proof -
  let ?t = "takeWhile (role_is ''tool'') rest"
  have "take (length ?t) (insert_calls rest mv) = take (length ?t) rest"
    unfolding insert_calls_def by (rule foldl_insert_take) (use assms length_takeWhile_le in auto)
  also have "\<dots> = ?t" by (metis takeWhile_eq_take)
  finally have "insert_calls rest mv = ?t @ drop (length ?t) (insert_calls rest mv)" by (metis append_take_drop_id)
  then have "takeWhile (role_is ''tool'') (insert_calls rest mv) =
      ?t @ takeWhile (role_is ''tool'') (drop (length ?t) (insert_calls rest mv))"
    by (metis set_takeWhileD takeWhile_append2)
  then show ?thesis by blast
qed

lemma result_in: "i \<in> set (result_ids ms) \<longleftrightarrow> (\<exists>t \<in> set ms. role_is ''tool'' t \<and> truthy_prop ''tool_call_id'' t = Some i)"
  by (auto simp: result_ids_def map_filter_def image_iff)

lemma moved_behind_run:
  assumes "(c, i) \<in> set (moved dc dr rest cs)"
  shows "length (takeWhile (role_is ''tool'') rest) \<le> i"
proof (rule ccontr)
  assume less: "\<not> ?thesis"
  obtain d where d: "i < length rest" "answers d (rest ! i)" "primitive d" "\<not> has_id (run_ids rest) d"
    using moved_facts [OF assms] by metis
  let ?t = "takeWhile (role_is ''tool'') rest"
  have "rest ! i \<in> set ?t" using less by (metis not_le nth_mem takeWhile_nth)
  then have "d \<in> set (result_ids ?t)" using d(2) by (auto simp: result_in answers_def)
  moreover have "run_ids rest = result_ids ?t"
  proof (cases rest)
    case (Cons n r)
    have "\<not> has_tool_calls n" using \<open>rest ! i \<in> set ?t\<close> Cons by (cases "role_is ''tool'' n") auto
    then show ?thesis by (simp add: run_ids_def Cons)
  qed (use d in simp)
  ultimately show False using d(3,4) by (simp add: has_id_def)
qed

lemma run_ids_run: "i \<in> set (run_ids rest) \<Longrightarrow> i \<in> set (result_ids (takeWhile (role_is ''tool'') rest))"
  by (auto simp: run_ids_def split: if_splits)

lemma stays_answered:
  assumes "stays dc dr rest c" and "truthy_prop ''id'' c = Some i" and "primitive i" and "i \<notin> set dc" and "i \<notin> set dr"
  shows "i \<in> set (result_ids (takeWhile (role_is ''tool'') rest))"
  using assms run_ids_run by (simp add: stays_def has_id_def)

lemma no_index_no_result:
  assumes "result_index rest c = None" and "truthy_prop ''id'' c = Some i" and "primitive i"
  shows "i \<notin> set (result_ids rest)"
  using assms truthy_id [OF assms(2)] by (auto simp: result_index_def find_index_None answers_def result_in)

lemma answered_kept:
  assumes "\<forall>c \<in> set (run_calls [m]). stays dc dr rest c \<or> result_index rest c = None"
  shows "answered_here dc dr m rest"
  unfolding answered_here_def call_answered_def using assms stays_answered no_index_no_result by blast

lemma reseat_answers:
  assumes "unambiguous dc dr ms"
  shows "\<exists>ys. reseat dc dr ms = Some ys \<and> (answered dc dr ys \<and> others ys = others ms \<and>
    (\<exists>more. takeWhile (role_is ''tool'') ys = takeWhile (role_is ''tool'') ms @ more))"
proof (rule reseat_run [OF assms, where P="\<lambda>ms ys. answered dc dr ys \<and> others ys = others ms \<and>
    (\<exists>more. takeWhile (role_is ''tool'') ys = takeWhile (role_is ''tool'') ms @ more)"])
  fix m rest ys
  assume m: "\<not> assistant m \<or> calls_array m = None"
    and IH: "answered dc dr ys \<and> others ys = others rest \<and> (\<exists>more. takeWhile (role_is ''tool'') ys = takeWhile (role_is ''tool'') rest @ more)"
  have "run_calls [m] = []" using m by (auto simp: has_tool_calls_def)
  with IH answered_plain show "answered dc dr (m # ys) \<and> others (m # ys) = others (m # rest) \<and>
      (\<exists>more. takeWhile (role_is ''tool'') (m # ys) = takeWhile (role_is ''tool'') (m # rest) @ more)" by auto
next
  fix m rest cs ys
  assume m: "assistant m" "calls_array m = Some cs" and keep: "moved dc dr rest cs = [] \<or> unknown_metadata m"
    and IH: "answered dc dr ys \<and> others ys = others rest \<and> (\<exists>more. takeWhile (role_is ''tool'') ys = takeWhile (role_is ''tool'') rest @ more)"
  have "answered_here dc dr m rest"
  proof (cases "unknown_metadata m")
    case False
    with keep have none: "moved dc dr rest cs = []" by simp
    have all: "\<forall>c \<in> set cs. stays dc dr rest c \<or> result_index rest c = None"
    proof
      fix c assume "c \<in> set cs"
      then show "stays dc dr rest c \<or> result_index rest c = None"
        using moved_iff [of c _ dc dr rest cs] none by (cases "result_index rest c") auto
    qed
    show ?thesis by (rule answered_kept, subst calls_of_array [OF m]) (rule all)
  qed (simp add: answered_here_def)
  moreover have "result_ids ys = result_ids rest" using IH result_ids_others by blast
  moreover obtain more where "takeWhile (role_is ''tool'') ys = takeWhile (role_is ''tool'') rest @ more" using IH by blast
  ultimately have "answered_here dc dr m ys" using answered_here_mono [of dc dr m rest ys] by simp
  with IH m(1) show "answered dc dr (m # ys) \<and> others (m # ys) = others (m # rest) \<and>
      (\<exists>more. takeWhile (role_is ''tool'') (m # ys) = takeWhile (role_is ''tool'') (m # rest) @ more)"
    by simp
next
  fix m rest cs ys
  let ?mv = "moved dc dr rest cs"
  let ?m = "without_moved (kept_calls dc dr rest cs) m"
  assume m: "assistant m" "calls_array m = Some cs" "\<not> unknown_metadata m"
    and IH: "answered dc dr ys \<and> others ys = others (insert_calls rest ?mv) \<and>
      (\<exists>more. takeWhile (role_is ''tool'') ys = takeWhile (role_is ''tool'') (insert_calls rest ?mv) @ more)"
  note w = without_moved [OF m(1,2), of "kept_calls dc dr rest cs"]
  have "answered_here dc dr ?m rest"
    by (rule answered_kept) (use w(2) in \<open>auto simp: kept_calls_def\<close>)
  then have "answered_here dc dr ?m ys"
  proof (rule answered_here_mono)
    show "set (result_ids ys) = set (result_ids rest)"
      using IH result_ids_others [of ys rest] insert_calls_keeps(1) by simp
    obtain more where "takeWhile (role_is ''tool'') (insert_calls rest ?mv) = takeWhile (role_is ''tool'') rest @ more"
      using insert_calls_run [of ?mv rest] moved_behind_run by blast
    with IH show "set (result_ids (takeWhile (role_is ''tool'') rest)) \<subseteq> set (result_ids (takeWhile (role_is ''tool'') ys))"
      by auto
  qed
  with IH have "answered dc dr ys" "answered dc dr (?m # ys)" "others ys = others (m # rest)"
    using m(1) by (simp_all add: insert_calls_keeps)
  with w(1) m(1) show "answered dc dr (if empty_husk ?m then ys else ?m # ys) \<and>
      others (if empty_husk ?m then ys else ?m # ys) = others (m # rest) \<and>
      (\<exists>more. takeWhile (role_is ''tool'') (if empty_husk ?m then ys else ?m # ys) = takeWhile (role_is ''tool'') (m # rest) @ more)"
    by (cases "empty_husk ?m") simp_all
qed simp_all


lemma coalesce_loop_assistant:
  assumes "assistant m"
  obtains front where "coalesce_loop (m # rest) = front @ coalesce_loop (dropWhile assistant rest)"
    and "front = m # takeWhile assistant rest \<or>
      (\<exists>x. merge_assistant_run (m # takeWhile assistant rest) = Some x \<and> front = [x])"
proof -
  let ?run = "m # takeWhile assistant rest"
  let ?front = "if length ?run = 1 then [m] else case merge_assistant_run ?run of None \<Rightarrow> ?run | Some x \<Rightarrow> [x]"
  have "coalesce_loop (m # rest) = ?front @ coalesce_loop (dropWhile assistant rest)"
    using assms by (simp add: Let_def)
  moreover have "?front = ?run \<or> (\<exists>x. merge_assistant_run ?run = Some x \<and> ?front = [x])"
    by (cases "merge_assistant_run ?run") auto
  ultimately show thesis using that by blast
qed

lemma coalesce_loop_run:
  "takeWhile (role_is ''tool'') (coalesce_loop ms) = takeWhile (role_is ''tool'') ms"
proof (induction ms rule: coalesce_loop.induct)
  case (2 m rest)
  show ?case
  proof (cases "assistant m")
    case True
    obtain front where f: "coalesce_loop (m # rest) = front @ coalesce_loop (dropWhile assistant rest)"
      "front = m # takeWhile assistant rest \<or> (\<exists>x. merge_assistant_run (m # takeWhile assistant rest) = Some x \<and> front = [x])"
      by (rule coalesce_loop_assistant [OF True])
    from f(2) True merged_run(1) obtain x xs where "front = x # xs" "assistant x" by blast
    with f(1) True show ?thesis by simp
  qed (use 2 in simp)
qed simp

lemma answered_run:
  assumes "answered dc dr (run @ rest)" and "result_ids rest' = result_ids rest"
    and "takeWhile (role_is ''tool'') rest' = takeWhile (role_is ''tool'') rest" and "\<forall>m \<in> set run. assistant m"
    and "answered dc dr rest'"
  shows "answered dc dr (run @ rest')"
  using assms(1,4)
proof (induction run)
  case Nil
  with assms(5) show ?case by simp
next
  case (Cons m run)
  have "takeWhile (role_is ''tool'') (run @ rest') = takeWhile (role_is ''tool'') (run @ rest)"
    using Cons.prems(2) assms(3) by (cases run) simp_all
  then have "answered_here dc dr m (run @ rest')"
    using Cons.prems(1) answered_here_mono [of dc dr m "run @ rest" "run @ rest'"] assms(2) by simp
  with Cons show ?case by simp
qed

text \<open>In a run of assistant messages only the last has calls that its results answer.\<close>

lemma answered_run_calls:
  assumes "answered dc dr (run @ rest)" and "\<forall>m \<in> set run. assistant m \<and> \<not> unknown_metadata m"
    and "c \<in> set (run_calls run)"
  shows "call_answered dc dr rest c"
  using assms
proof (induction run)
  case (Cons m run)
  show ?case
  proof (cases "c \<in> set (run_calls [m])")
    case True
    with Cons.prems have "call_answered dc dr (run @ rest) c" by (auto simp: answered_here_def)
    moreover have "run = [] \<or> takeWhile (role_is ''tool'') (run @ rest) = []" using Cons.prems(2) by (cases run) auto
    ultimately show ?thesis by (auto simp: call_answered_def)
  next
    case False
    with Cons.prems have "c \<in> set (run_calls run)" by auto
    with Cons.IH Cons.prems(1,2) show ?thesis by simp
  qed
qed simp

lemma answered_merge:
  assumes "answered dc dr (run @ rest)" and "result_ids rest' = result_ids rest"
    and "takeWhile (role_is ''tool'') rest' = takeWhile (role_is ''tool'') rest" and "\<forall>m \<in> set run. assistant m"
    and "merge_assistant_run run = Some x"
  shows "answered_here dc dr x rest'"
proof (cases "unknown_metadata x")
  case True
  then show ?thesis unfolding answered_here_def by blast
next
  case False
  with merged_run(3) [OF assms(5)] have "\<forall>m \<in> set run. assistant m \<and> \<not> unknown_metadata m" using assms(4) by blast
  from answered_run_calls [OF assms(1) this] merged_run(2) [OF assms(5)] assms(2,3) show ?thesis
    by (simp only: answered_here_def call_answered_def) blast
qed

lemma answered_append: "answered dc dr (run @ rest) \<Longrightarrow> answered dc dr rest"
  by (induction run) simp_all

lemma coalesce_answers: "answered dc dr ms \<Longrightarrow> answered dc dr (coalesce_loop ms)"
proof (induction ms rule: coalesce_loop.induct)
  case (2 m rest)
  show ?case
  proof (cases "assistant m")
    case False
    have "result_ids (coalesce_loop rest) = result_ids rest" using coalesce_loop_keeps result_ids_others by blast
    with False 2 coalesce_loop_run [of rest] answered_here_mono [of dc dr m rest "coalesce_loop rest"] show ?thesis by simp
  next
    case True
    let ?run = "m # takeWhile assistant rest" and ?rest = "dropWhile assistant rest"
    have all: "\<forall>m \<in> set ?run. assistant m" using True by (auto dest: set_takeWhileD)
    have r: "result_ids (coalesce_loop ?rest) = result_ids ?rest" using coalesce_loop_keeps result_ids_others by blast
    have a: "answered dc dr (?run @ ?rest)" using 2(3) by (metis append_Cons takeWhile_dropWhile_id)
    have tail: "answered dc dr (coalesce_loop ?rest)" using 2(2) [of ?run ?rest] True answered_append [OF a] by simp
    obtain front where f: "coalesce_loop (m # rest) = front @ coalesce_loop ?rest"
      "front = ?run \<or> (\<exists>x. merge_assistant_run ?run = Some x \<and> front = [x])"
      by (rule coalesce_loop_assistant [OF True])
    from f(2) have "answered dc dr (front @ coalesce_loop ?rest)"
    proof (elim disjE exE conjE)
      assume "front = ?run"
      with answered_run [OF a r coalesce_loop_run all tail] show ?thesis by simp
    next
      fix x assume "merge_assistant_run ?run = Some x" "front = [x]"
      with answered_merge [OF a r coalesce_loop_run all] tail show ?thesis by simp
    qed
    with f(1) show ?thesis by simp
  qed
qed simp

section \<open>Properties\<close>

lemma duplicates_iff: "primitive i \<Longrightarrow> i \<in> set (duplicates ids) \<longleftrightarrow> count (mset ids) i > 1"
  using count_duplicates [of i ids] by auto

lemma fold_parts:
  obtains ys where "reseat (duplicate_calls (coalesce_runs (fold_text ms))) (duplicate_results (coalesce_runs (fold_text ms)))
      (coalesce_runs (fold_text ms)) = Some ys"
    and "fold_intervening ms = Some (coalesce_runs ys)"
    and "others ys = others ms" and "mset (run_calls ys) = mset (run_calls ms)"
    and "answered (duplicate_calls (coalesce_runs (fold_text ms))) (duplicate_results (coalesce_runs (fold_text ms))) ys"
proof -
  let ?ms = "coalesce_runs (fold_text ms)"
  have u: "unambiguous (duplicate_calls ?ms) (duplicate_results ?ms) ?ms" by (rule unambiguous_duplicates)
  obtain ys where ys: "reseat (duplicate_calls ?ms) (duplicate_results ?ms) ?ms = Some ys"
    "others ys = others ?ms" "mset (run_calls ys) = mset (run_calls ?ms)"
    using reseat_keeps [OF u] by blast
  moreover from reseat_answers [OF u] ys(1) have "answered (duplicate_calls ?ms) (duplicate_results ?ms) ys" by auto
  ultimately show thesis
    using that coalesce_keeps fold_text_keeps by (simp add: fold_intervening_def)
qed

text \<open>C17: The repair ends: re-seating never chases its own insertions, whatever the history holds
  (missing, repeated and ambiguous identifiers included).\<close>

theorem fold_intervening_returns: "\<exists>ys. fold_intervening ms = Some ys"
  by (rule fold_parts [of ms]) blast

text \<open>C16: The repair loses no call and invents none, and leaves every message that is not an assistant's
  unchanged and in its order.\<close>

theorem fold_intervening_conserves:
  "others (the (fold_intervening ms)) = others ms \<and>
   mset (run_calls (the (fold_intervening ms))) = mset (run_calls ms)"
proof (rule fold_parts [of ms])
  fix ys
  assume "fold_intervening ms = Some (coalesce_runs ys)" "others ys = others ms" "mset (run_calls ys) = mset (run_calls ms)"
  then show ?thesis using coalesce_keeps [of ys] by simp
qed

lemma answered_at: "answered dc dr (before @ m # rest) \<Longrightarrow> answered_here dc dr m rest"
  by (induction before) simp_all

lemma coalesce_runs_answers: "answered dc dr ms \<Longrightarrow> answered dc dr (coalesce_runs ms)"
  using coalesce_answers by (simp add: coalesce_runs_def)


definition sample_call :: "string \<Rightarrow> json" where
  "sample_call i = JObj [(''id'', JStr i), (''type'', JStr ''function'')]"

definition sample_result :: "string \<Rightarrow> json" where
  "sample_result i = JObj [(''role'', JStr ''tool''), (''tool_call_id'', JStr i), (''content'', JStr ''ok'')]"

definition sample_caller :: "string list \<Rightarrow> json" where
  "sample_caller is = JObj [(''role'', JStr ''assistant''), (''tool_calls'', JArr (map sample_call is))]"

definition sample_history :: "json list" where
  "sample_history = [sample_caller [''a'', ''b''], sample_result ''a'', sample_caller [''c''], sample_result ''c'', sample_result ''b'']"


end
