(* ===== verification/Transcript_Chunker.thy ===== *)
theory Transcript_Chunker
  imports Router_Prelude Complex_Main
begin

text \<open>
  The transcript chunker, \<open>src/router/src/transcript-chunker.mjs\<close>: a log is cut at line
  boundaries into slices within a token budget. Budgets are rationals, lengths are UTF-16 units.
\<close>

definition DEFAULT_BUDGET_TOKENS :: rat where "DEFAULT_BUDGET_TOKENS = 100000"
definition DEFAULT_CHARS_PER_TOKEN :: rat where "DEFAULT_CHARS_PER_TOKEN = 4"

record slice =
  sl_index :: nat
  first_line :: nat
  last_line :: nat
  line_count :: nat
  sl_chars :: nat
  estimated_tokens :: int
  oversized :: bool
  content :: string

datatype chunk_error = Range_Error string

record chunks =
  ck_slices :: "slice list"
  ck_budget_tokens :: rat
  ck_chars_per_token :: rat

text \<open>\<open>pushSlice\<close>\<close>

definition push_slice :: "rat \<Rightarrow> int \<Rightarrow> nat \<Rightarrow> nat \<Rightarrow> string list \<Rightarrow> nat \<Rightarrow> slice list \<Rightarrow> slice list" where
  "push_slice cpt budget start end_line current chars slices =
     (if current = [] then slices
      else slices @ [\<lparr>sl_index = length slices + 1, first_line = start, last_line = end_line,
        line_count = length current, sl_chars = chars,
        estimated_tokens = \<lceil>of_nat chars / cpt\<rceil>, oversized = (int chars - 1 > budget),
        content = join [LF] current\<rparr>])"

text \<open>The loop at line \<open>i\<close> with the lines still to come.\<close>

fun chunk_loop :: "rat \<Rightarrow> int \<Rightarrow> nat \<Rightarrow> string list \<Rightarrow> nat \<Rightarrow> string list \<Rightarrow> nat \<Rightarrow> slice list \<Rightarrow> slice list" where
  "chunk_loop cpt budget i [] start current chars slices = push_slice cpt budget start i current chars slices"
| "chunk_loop cpt budget i (line # lines) start current chars slices =
     (if current \<noteq> [] \<and> int (chars + js_length line + 1) > budget
      then chunk_loop cpt budget (Suc i) lines (i + 1) [line] (js_length line + 1)
             (push_slice cpt budget start i current chars slices)
      else chunk_loop cpt budget (Suc i) lines start (current @ [line]) (chars + js_length line + 1) slices)"

definition chunk_lines :: "rat \<Rightarrow> rat \<Rightarrow> string list \<Rightarrow> chunk_error + chunks" where
  "chunk_lines budget_tokens cpt lines =
     (if budget_tokens \<le> 0 then Inl (Range_Error ''budgetTokens must be a positive number'')
      else Inr \<lparr>ck_slices = chunk_loop cpt \<lfloor>budget_tokens * cpt\<rfloor> 0 lines 1 [] 0 [],
                ck_budget_tokens = budget_tokens, ck_chars_per_token = cpt\<rparr>)"

text \<open>The lines of a file: a final newline ends the last line instead of starting an empty one.\<close>

definition file_lines :: "string \<Rightarrow> string list" where
  "file_lines s = (let ls = split_at_char LF s in if ls \<noteq> [] \<and> last ls = [] then butlast ls else ls)"

record manifest =
  mf_total_lines :: nat
  mf_total_chars :: nat
  mf_slice_count :: nat
  mf_slices :: "slice list"

definition chunk_file :: "rat \<Rightarrow> rat \<Rightarrow> string \<Rightarrow> chunk_error + manifest" where
  "chunk_file budget_tokens cpt s =
     (let lines = file_lines s in
      case chunk_lines budget_tokens cpt lines of
        Inl e \<Rightarrow> Inl e
      | Inr c \<Rightarrow> Inr \<lparr>mf_total_lines = length lines,
          mf_total_chars = sum_list (map (\<lambda>l. js_length l + 1) lines),
          mf_slice_count = length (ck_slices c), mf_slices = ck_slices c\<rparr>)"

definition coverage_matches :: "slice list \<Rightarrow> string list \<Rightarrow> bool" where
  "coverage_matches slices original_lines \<longleftrightarrow>
     join [LF] (map content slices) = join [LF] original_lines"

section \<open>Slices are numbered groups of lines\<close>

definition group_chars :: "string list \<Rightarrow> nat" where
  "group_chars g = sum_list (map (\<lambda>l. js_length l + 1) g)"

fun group_lines :: "int \<Rightarrow> string list \<Rightarrow> string list \<Rightarrow> string list list" where
  "group_lines budget current [] = (if current = [] then [] else [current])"
| "group_lines budget current (line # lines) =
     (if current \<noteq> [] \<and> int (group_chars (current @ [line])) > budget
      then current # group_lines budget [line] lines
      else group_lines budget (current @ [line]) lines)"

definition slice_of :: "rat \<Rightarrow> int \<Rightarrow> nat \<Rightarrow> nat \<Rightarrow> string list \<Rightarrow> slice" where
  "slice_of cpt budget k start g =
     \<lparr>sl_index = k, first_line = start, last_line = start + length g - 1, line_count = length g,
      sl_chars = group_chars g, estimated_tokens = \<lceil>of_nat (group_chars g) / cpt\<rceil>,
      oversized = (int (group_chars g) - 1 > budget), content = join [LF] g\<rparr>"

fun number_slices :: "rat \<Rightarrow> int \<Rightarrow> nat \<Rightarrow> nat \<Rightarrow> string list list \<Rightarrow> slice list" where
  "number_slices cpt budget k start [] = []"
| "number_slices cpt budget k start (g # gs) =
     slice_of cpt budget k start g # number_slices cpt budget (Suc k) (start + length g) gs"

lemma group_chars_simps [simp]: "group_chars [] = 0" "group_chars (a @ b) = group_chars a + group_chars b"
  "group_chars (l # ls) = js_length l + 1 + group_chars ls"
  by (simp_all add: group_chars_def)

lemma chunk_loop_groups:
  "start + length current = i + 1 \<Longrightarrow> chars = group_chars current \<Longrightarrow>
   chunk_loop cpt budget i lines start current chars slices =
     slices @ number_slices cpt budget (length slices + 1) start (group_lines budget current lines)"
proof (induction cpt budget i lines start current chars slices rule: chunk_loop.induct)
  case (1 cpt budget i start current chars slices)
  then show ?case by (cases "current = []") (simp_all add: push_slice_def slice_of_def)
next
  case (2 cpt budget i line lines start current chars slices)
  then show ?case
  proof (cases "current \<noteq> [] \<and> int (chars + js_length line + 1) > budget")
    case True
    let ?p = "push_slice cpt budget start i current chars slices"
    have len: "length ?p = length slices + 1" using True by (simp add: push_slice_def)
    have "chunk_loop cpt budget i (line # lines) start current chars slices =
        ?p @ number_slices cpt budget (length ?p + 1) (i + 1) (group_lines budget [line] lines)"
      using 2(1) [OF True] True by simp
    moreover have "?p = slices @ [slice_of cpt budget (length slices + 1) start current]"
      using True 2(3,4) by (simp add: push_slice_def slice_of_def)
    moreover have "start + length current = i + 1" by (rule 2(3))
    moreover have "group_lines budget current (line # lines) = current # group_lines budget [line] lines"
      using True 2(4) by (simp add: algebra_simps)
    ultimately show ?thesis using len by simp
  next
    case False
    have "chunk_loop cpt budget (Suc i) lines start (current @ [line]) (chars + js_length line + 1) slices =
        slices @ number_slices cpt budget (length slices + 1) start (group_lines budget (current @ [line]) lines)"
      by (rule 2(2) [OF False]) (use 2(3,4) in simp_all)
    moreover have "\<not> (current \<noteq> [] \<and> int (group_chars (current @ [line])) > budget)"
      using False 2(4) by (simp add: algebra_simps)
    ultimately show ?thesis using False by (simp only: chunk_loop.simps group_lines.simps if_False)
  qed
qed

lemma group_lines_concat: "concat (group_lines budget current lines) = current @ lines"
  by (induction budget current lines rule: group_lines.induct) auto

lemma group_lines_nonempty: "[] \<notin> set (group_lines budget current lines)"
  by (induction budget current lines rule: group_lines.induct) auto

lemma group_lines_budget:
  "length current \<le> 1 \<or> int (group_chars current) \<le> budget \<Longrightarrow> g \<in> set (group_lines budget current lines) \<Longrightarrow>
   length g = 1 \<or> int (group_chars g) \<le> budget"
proof (induction budget current lines rule: group_lines.induct)
  case (1 budget current)
  then show ?case by (cases current) auto
next
  case (2 budget current line lines)
  show ?case
  proof (cases "current \<noteq> [] \<and> int (group_chars (current @ [line])) > budget")
    case True
    with 2 show ?thesis by (cases current) auto
  next
    case False
    with 2 show ?thesis by (cases current) auto
  qed
qed

lemma group_lines_head: "\<exists>r gs. group_lines budget (line # rest) ls = (line # rest @ r) # gs"
proof (induction ls arbitrary: rest)
  case (Cons a ls)
  obtain r gs where "group_lines budget (line # rest @ [a]) ls = (line # rest @ [a] @ r) # gs"
    using Cons [of "rest @ [a]"] by auto
  then show ?case by simp
qed simp

lemma group_lines_greedy:
  "group_lines budget current lines = before @ g # h # after \<Longrightarrow> int (group_chars (g @ [hd h])) > budget"
proof (induction budget current lines arbitrary: before rule: group_lines.induct)
  case (1 budget current)
  then show ?case by (cases before) (auto split: if_splits)
next
  case (2 budget current line lines)
  show ?case
  proof (cases "current \<noteq> [] \<and> int (group_chars (current @ [line])) > budget")
    case True
    then have eq: "current # group_lines budget [line] lines = before @ g # h # after" using 2(3) by simp
    show ?thesis
    proof (cases before)
      case Nil
      with eq have "g = current" "group_lines budget [line] lines = h # after" by simp_all
      moreover have "\<exists>r. h = line # r"
        using group_lines_head [of budget line "[]" lines] calculation(2) by auto
      ultimately show ?thesis using True by auto
    next
      case (Cons b bs)
      with eq 2(1) [OF True, of bs] show ?thesis by simp
    qed
  next
    case False
    with 2(2) [OF False, of before] 2(3) show ?thesis by auto
  qed
qed

lemma js_length_join: "g \<noteq> [] \<Longrightarrow> group_chars g = js_length (join [LF] g) + 1"
proof (induction g)
  case (Cons a g)
  then show ?case by (cases "g = []") (simp_all add: join_Cons LF_def unit_count_def)
qed simp

lemma number_slices_contents: "map content (number_slices cpt budget k start gs) = map (join [LF]) gs"
  by (induction gs arbitrary: k start) (simp_all add: slice_of_def)

lemma chunk_lines_slices:
  "chunk_lines bt cpt lines = Inr c \<Longrightarrow> ck_slices c = number_slices cpt \<lfloor>bt * cpt\<rfloor> 1 1 (group_lines \<lfloor>bt * cpt\<rfloor> [] lines)"
  using chunk_loop_groups [of 1 "[]" 0 0 cpt "\<lfloor>bt * cpt\<rfloor>" lines "[]"]
  by (auto simp: chunk_lines_def split: if_splits)

lemma number_slices_nth:
  "j < length gs \<Longrightarrow> number_slices cpt budget k start gs ! j =
     slice_of cpt budget (k + j) (start + length (concat (take j gs))) (gs ! j)"
proof (induction gs arbitrary: k start j)
  case (Cons g gs)
  then show ?case by (cases j) (simp_all add: ac_simps)
qed simp

lemma number_slices_length [simp]: "length (number_slices cpt budget k start gs) = length gs"
  by (induction gs arbitrary: k start) simp_all

section \<open>Properties\<close>

text \<open>No line is lost, repeated or cut: joining the slices gives back the lines, so the check the
  module ships always passes.\<close>

theorem slices_cover:
  assumes "chunk_lines bt cpt lines = Inr c"
  shows "coverage_matches (ck_slices c) lines"
  using join_nonempty_concat [OF group_lines_nonempty, of "[LF]" "\<lfloor>bt * cpt\<rfloor>" "[]" lines]
  by (simp add: coverage_matches_def chunk_lines_slices [OF assms] number_slices_contents group_lines_concat)

definition sample_lines :: "string list" where
  "sample_lines = [''alpha'', ''be'', [], ''gamma delta'', ''x'']"

lemma slices_cover_witness:
  "\<exists>c. chunk_lines 2 4 sample_lines = Inr c \<and> coverage_matches (ck_slices c) sample_lines \<and> length (ck_slices c) = 4"
proof -
  obtain c where c: "chunk_lines 2 4 sample_lines = Inr c" by (simp add: chunk_lines_def)
  then have "ck_slices c = chunk_loop 4 8 0 sample_lines 1 [] 0 []" by (auto simp: chunk_lines_def)
  then have "length (ck_slices c) = 4" by (simp add: sample_lines_def push_slice_def unit_count_def)
  with c show ?thesis using slices_cover [OF c] by blast
qed

text \<open>Every slice holds one line or fits the budget (newlines counted), and is flagged when its text does
  not fit; it is as long as it can be: with the line after it, it would not fit.\<close>

theorem slices_fit:
  assumes "chunk_lines bt cpt lines = Inr c" and "j < length (ck_slices c)"
  shows "(line_count (ck_slices c ! j) = 1 \<or> int (sl_chars (ck_slices c ! j)) \<le> \<lfloor>bt * cpt\<rfloor>) \<and>
    oversized (ck_slices c ! j) = (int (js_length (content (ck_slices c ! j))) > \<lfloor>bt * cpt\<rfloor>) \<and>
    (Suc j < length (ck_slices c) \<longrightarrow> int (sl_chars (ck_slices c ! j)) +
      int (js_length (lines ! (last_line (ck_slices c ! j)))) + 1 > \<lfloor>bt * cpt\<rfloor>)"
proof -
  let ?B = "\<lfloor>bt * cpt\<rfloor>"
  define gs where "gs = group_lines ?B [] lines"
  have slices: "ck_slices c = number_slices cpt ?B 1 1 gs"
    unfolding gs_def by (rule chunk_lines_slices [OF assms(1)])
  have j: "j < length gs" using assms(2) slices by simp
  then have nth: "ck_slices c ! j = slice_of cpt ?B (1 + j) (1 + length (concat (take j gs))) (gs ! j)"
    by (simp add: slices number_slices_nth)
  have mem: "gs ! j \<in> set gs" using j by simp
  then have ne: "gs ! j \<noteq> []" using group_lines_nonempty [of ?B "[]" lines] gs_def by auto
  have fit: "length (gs ! j) = 1 \<or> int (group_chars (gs ! j)) \<le> ?B"
    using group_lines_budget [of "[]" ?B "gs ! j" lines] mem gs_def by simp
  have greedy: "int (group_chars (gs ! j)) + int (js_length (lines ! (length (concat (take j gs)) + length (gs ! j)))) + 1 > ?B"
    if "Suc j < length gs"
  proof -
    have split: "gs = take j gs @ gs ! j # gs ! Suc j # drop (Suc (Suc j)) gs"
      using that j by (metis Cons_nth_drop_Suc append_take_drop_id)
    have "gs ! Suc j \<noteq> []" using that group_lines_nonempty [of ?B "[]" lines] gs_def by (metis nth_mem)
    then obtain l r where h: "gs ! Suc j = l # r" by (cases "gs ! Suc j") auto
    have "concat gs = lines" by (simp add: gs_def group_lines_concat)
    then have "lines = concat (take j gs) @ gs ! j @ l # r @ concat (drop (Suc (Suc j)) gs)"
      using arg_cong [OF split, of concat] h by simp
    then have "lines ! (length (concat (take j gs)) + length (gs ! j)) = l"
      by (metis append.assoc length_append nth_append_length)
    moreover have "int (group_chars (gs ! j @ [hd (gs ! Suc j)])) > ?B"
      using group_lines_greedy split gs_def by blast
    ultimately show ?thesis using h by simp
  qed
  have len: "length (ck_slices c) = length gs" by (simp add: slices)
  from ne fit greedy js_length_join [OF ne] show ?thesis unfolding nth len by (simp add: slice_of_def js_length_join [OF ne] ac_simps)
qed

lemma slices_fit_witness:
  "\<exists>c. chunk_lines 2 4 sample_lines = Inr c \<and> 2 < length (ck_slices c) \<and> line_count (ck_slices c ! 1) = 2
     \<and> 8 < int (sl_chars (ck_slices c ! 1)) + int (js_length (sample_lines ! last_line (ck_slices c ! 1))) + 1"
proof -
  obtain c where c: "chunk_lines 2 4 sample_lines = Inr c" by (simp add: chunk_lines_def)
  then have "ck_slices c = chunk_loop 4 8 0 sample_lines 1 [] 0 []" by (auto simp: chunk_lines_def)
  then have "length (ck_slices c) = 4" "line_count (ck_slices c ! 1) = 2"
    by (simp_all add: sample_lines_def push_slice_def unit_count_def)
  with c show ?thesis using slices_fit [OF c, of 1] by auto
qed

end
