(* ===== verification/Tool_Aging.thy ===== *)
theory Tool_Aging
  imports Json "HOL-Library.Sublist"
begin

text \<open>
  Aging of old tool results, \<open>src/router/src/tool-result-aging.mjs\<close>: large results that the
  model has acted on give way to a receipt with their head and tail, and on a compaction request
  results are shaped (repeated and deeply indented lines are cut, lines that report errors stay).
  The digest of \<open>node:crypto\<close> is the parameter \<open>sha\<close>.
\<close>

definition TOOL_RESULT_AGING_MIN_BYTES :: nat where "TOOL_RESULT_AGING_MIN_BYTES = 32 * 1024"
definition TOOL_RESULT_AGING_FRONTIER :: int where "TOOL_RESULT_AGING_FRONTIER = 4"
definition DENSE_SHAPING_MIN_BYTES :: nat where "DENSE_SHAPING_MIN_BYTES = 8 * 1024"
definition PREVIEW_CODE_UNITS :: nat where "PREVIEW_CODE_UNITS = 1024"
definition DENSE_SHAPING_MIN_SAVED_BYTES :: nat where "DENSE_SHAPING_MIN_SAVED_BYTES = 1024"
definition DENSE_SHAPING_RECEIPT_PREFIX :: string where
  "DENSE_SHAPING_RECEIPT_PREFIX = ''[Tool result shaped by Codex Router RTK-style compaction:''"
definition LEGACY_TOKEN_MAXXING_RECEIPT_PREFIX :: string where
  "LEGACY_TOKEN_MAXXING_RECEIPT_PREFIX = ''[Tool result shaped by Codex Router token maxxing:''"

section \<open>Items\<close>

definition type_in :: "string list \<Rightarrow> json \<Rightarrow> bool" where
  "type_in ts item \<longleftrightarrow> (case obj_get item ''type'' of Some (JStr t) \<Rightarrow> t \<in> set ts | _ \<Rightarrow> False)"

definition OUTPUT_TYPES :: "string list" where
  "OUTPUT_TYPES = [''function_call_output'', ''custom_tool_call_output'']"

definition MODEL_ACTION_TYPES :: "string list" where
  "MODEL_ACTION_TYPES = [''function_call'', ''custom_tool_call'', ''reasoning'']"

definition model_acted :: "json \<Rightarrow> bool" where
  "model_acted item \<longleftrightarrow> type_in MODEL_ACTION_TYPES item \<or>
     type_in [''message''] item \<and> obj_get item ''role'' = Some (JStr ''assistant'')"

definition part_string :: "json \<Rightarrow> string option" where
  "part_string p = (if type_in [''input_text'', ''text''] p then as_str (obj_get p ''text'') else None)"

fun joined_parts :: "json list \<Rightarrow> string option" where
  "joined_parts [] = Some []"
| "joined_parts (p # ps) =
     (case part_string p of None \<Rightarrow> None
      | Some s \<Rightarrow> map_option (append s) (joined_parts ps))"

definition textual_output :: "json \<Rightarrow> string option" where
  "textual_output item =
     (if \<not> type_in OUTPUT_TYPES item then None
      else case obj_get item ''output'' of
          Some (JStr s) \<Rightarrow> Some s
        | Some (JArr ps) \<Rightarrow> joined_parts ps
        | _ \<Rightarrow> None)"

section \<open>Head and tail\<close>

fun take_units :: "nat \<Rightarrow> string \<Rightarrow> string" where
  "take_units n [] = []"
| "take_units n (c # s) = (if unit_count c \<le> n then c # take_units (n - unit_count c) s else [])"

text \<open>Units that are skipped, and the continuation bytes of the last character skipped.\<close>

fun drop_units :: "nat \<Rightarrow> string \<Rightarrow> string" where
  "drop_units n [] = []"
| "drop_units n (c # s) =
     (if n = 0 \<and> unit_count c \<noteq> 0 then c # s else drop_units (n - unit_count c) s)"

text \<open>A surrogate that stands alone is written in three bytes, \<open>ED A0..BF xx\<close>.\<close>

definition high_surrogate_end :: "string \<Rightarrow> bool" where
  "high_surrogate_end s \<longleftrightarrow> (case rev s of _ # b # a # _ \<Rightarrow> a = CHR 0xED \<and> CHR 0xA0 \<le> b \<and> b \<le> CHR 0xAF | _ \<Rightarrow> False)"

definition low_surrogate_start :: "string \<Rightarrow> bool" where
  "low_surrogate_start s \<longleftrightarrow> (case s of a # b # _ \<Rightarrow> a = CHR 0xED \<and> CHR 0xB0 \<le> b \<and> b \<le> CHR 0xBF | _ \<Rightarrow> False)"

definition safe_head :: "string \<Rightarrow> string" where
  "safe_head v =
     (let h = take_units PREVIEW_CODE_UNITS v in
      if js_length v > PREVIEW_CODE_UNITS \<and> js_length h = PREVIEW_CODE_UNITS \<and> high_surrogate_end h
      then take (length h - 3) h else h)"

definition safe_tail :: "string \<Rightarrow> string" where
  "safe_tail v =
     (let start = js_length v - PREVIEW_CODE_UNITS; t = (if start = 0 then v else drop_units start v) in
      if start > 0 \<and> js_length t = PREVIEW_CODE_UNITS \<and> low_surrogate_start t then drop 3 t else t)"

section \<open>Shaping\<close>

definition leading_indent :: "string \<Rightarrow> nat" where
  "leading_indent v =
     (let rest = dropWhile (\<lambda>c. c = CHR '' '') v in
      if rest = [] \<or> ws_len rest \<noteq> 0 then 0 else length v - length rest)"

text \<open>The words are found under simple case folding, which also takes U+017F for \<open>s\<close> and
  U+212A for \<open>k\<close>.\<close>

fun fold_case :: "string \<Rightarrow> string" where
  "fold_case s =
     (case s of [] \<Rightarrow> []
      | a # r \<Rightarrow>
          (case r of
             b # r' \<Rightarrow>
               if a = CHR 0xC5 \<and> b = CHR 0xBF then CHR ''s'' # fold_case r'
               else if a = CHR 0xE2 \<and> starts_with [CHR 0x84, CHR 0xAA] r then CHR ''k'' # fold_case (drop 2 r)
               else lower_char a # fold_case r
           | [] \<Rightarrow> [lower_char a]))"

declare fold_case.simps [simp del]

definition IMPORTANT_WORDS :: "string list" where
  "IMPORTANT_WORDS = [''error'', ''faile'', ''failed'', ''failure'', ''exception'', ''fatal'', ''panic'',
     ''traceback'', ''warning'', ''denied'', ''invalid'', ''security'']"

definition word_char :: "char \<Rightarrow> bool" where
  "word_char c \<longleftrightarrow> CHR ''a'' \<le> c \<and> c \<le> CHR ''z'' \<or> CHR ''0'' \<le> c \<and> c \<le> CHR ''9'' \<or> c = CHR ''_''"

definition word_here :: "string \<Rightarrow> string \<Rightarrow> bool" where
  "word_here s w \<longleftrightarrow> starts_with w s \<and> (case drop (length w) s of [] \<Rightarrow> True | c # _ \<Rightarrow> \<not> word_char c)"

fun word_from :: "bool \<Rightarrow> string \<Rightarrow> bool" where
  "word_from inside [] = False"
| "word_from inside (c # s) =
     (\<not> inside \<and> (\<exists>w \<in> set IMPORTANT_WORDS. word_here (c # s) w) \<or> word_from (word_char c) s)"

definition important_line :: "string \<Rightarrow> bool" where
  "important_line l \<longleftrightarrow> word_from False (fold_case l)"

fun crlf_to_lf :: "string \<Rightarrow> string" where
  "crlf_to_lf [] = []"
| "crlf_to_lf (c # s) = (if c = CR \<and> starts_with [LF] s then crlf_to_lf s else c # crlf_to_lf s)"

definition last_nonempty :: "string list \<Rightarrow> string" where
  "last_nonempty es = (case filter (\<lambda>e. e \<noteq> []) (rev es) of [] \<Rightarrow> [] | e # _ \<Rightarrow> e)"

definition rewritten_line :: "string \<Rightarrow> string list" where
  "rewritten_line line =
     (if CR \<notin> set line then [line]
      else let rewrites = split_at_char CR line; final = last_nonempty rewrites
           in filter (\<lambda>e. e \<noteq> final \<and> important_line e) rewrites @ [final])"

definition collapse_terminal_rewrites :: "string \<Rightarrow> string" where
  "collapse_terminal_rewrites v =
     join [LF] (map (\<lambda>l. join [LF] (rewritten_line l)) (split_at_char LF (crlf_to_lf v)))"

definition repeat_marker :: "nat \<Rightarrow> string" where
  "repeat_marker n = ''[same line repeated '' @ nat_str n @ '' more times]''"

definition collapsed_run :: "string \<Rightarrow> nat \<Rightarrow> string list" where
  "collapsed_run line n =
     (if n \<ge> 3 \<and> trim line \<noteq> [] then
        (let marker = repeat_marker (n - 1) in
         if js_length line + 1 + js_length marker < js_length line * n + n - 1
         then [line, marker] else replicate n line)
      else if trim line = [] \<and> n > 1 then [line]
      else replicate n line)"

function collapse_repeated_lines :: "string list \<Rightarrow> string list" where
  "collapse_repeated_lines [] = []"
| "collapse_repeated_lines (line # rest) =
     collapsed_run line (Suc (length (takeWhile (\<lambda>l. l = line) rest))) @
     collapse_repeated_lines (dropWhile (\<lambda>l. l = line) rest)"
  by pat_completeness auto
termination
  by (relation "measure length") (auto simp: le_imp_less_Suc length_dropWhile_le)

definition deep_line :: "string \<Rightarrow> bool" where
  "deep_line l \<longleftrightarrow> \<not> (leading_indent l < 8 \<or> important_line l)"

definition indent_marker :: "nat \<Rightarrow> string" where
  "indent_marker n = CHR ''['' # nat_str n @ '' deeply indented lines omitted]''"

definition collapsed_block :: "string list \<Rightarrow> string list" where
  "collapsed_block b =
     (let n = length b in
      if n \<ge> 8 then
        (let marker = indent_marker (n - 2) in
         if js_length (hd b) + 1 + js_length marker + 1 + js_length (last b) < n - 1 + sum_list (map js_length b)
         then [hd b, marker, last b] else b)
      else b)"

function collapse_deeply_indented_blocks :: "string list \<Rightarrow> string list" where
  "collapse_deeply_indented_blocks [] = []"
| "collapse_deeply_indented_blocks (line # rest) =
     (if \<not> deep_line line then line # collapse_deeply_indented_blocks rest
      else collapsed_block (line # takeWhile deep_line rest) @
           collapse_deeply_indented_blocks (dropWhile deep_line rest))"
  by pat_completeness auto
termination
  by (relation "measure length") (auto simp: le_imp_less_Suc length_dropWhile_le)

definition shape_tool_result :: "string \<Rightarrow> string" where
  "shape_tool_result v =
     (if v = [] then v
      else let normalized = collapse_terminal_rewrites v;
               repeated = collapse_repeated_lines (split_at_char LF normalized);
               shaped = join [LF] (collapse_deeply_indented_blocks repeated)
           in if js_length shaped < js_length v then shaped else v)"

section \<open>Receipts\<close>

definition recovery_instruction :: "string option \<Rightarrow> string" where
  "recovery_instruction tool =
     (case tool of
        Some (c # n) \<Rightarrow> ''Repeat the preceding '' @ (c # n) @ '' call with the same arguments''
      | _ \<Rightarrow> ''Repeat the preceding tool call with the same arguments'')"

definition shaped_result :: "(string \<Rightarrow> string) \<Rightarrow> string \<Rightarrow> string option \<Rightarrow> string option" where
  "shaped_result sha v tool =
     (if starts_with DENSE_SHAPING_RECEIPT_PREFIX v \<or> starts_with LEGACY_TOKEN_MAXXING_RECEIPT_PREFIX v then None
      else let shaped = shape_tool_result v in
           if shaped = v then None
           else let receipt = join [LF]
                  [DENSE_SHAPING_RECEIPT_PREFIX @ '' '' @ nat_str (length v) @ '' -> '' @ nat_str (length shaped) @
                     '' bytes, sha256:'' @ sha v @ ''.'',
                   recovery_instruction tool @ '' if exact or omitted content is needed. '' @
                     ''The original result remains in Codex; only this routed copy was shaped.]'',
                   [], shaped]
                in if int (length v) - int (length receipt) \<ge> int DENSE_SHAPING_MIN_SAVED_BYTES
                   then Some receipt else None)"

definition result_receipt :: "(string \<Rightarrow> string) \<Rightarrow> string \<Rightarrow> string option \<Rightarrow> string" where
  "result_receipt sha v tool = join [LF]
     [''[Older tool result compacted by Codex Router after the model acted on it: '' @ nat_str (length v) @
        '' bytes, sha256:'' @ sha v @ ''.'',
      recovery_instruction tool @ '' if exact or omitted content is needed. '' @
        ''The original result remains in Codex; only this routed copy was compacted.]'',
      [],
      ''--- beginning of original result ---'',
      safe_head v,
      ''--- omitted middle of original result ---'',
      safe_tail v,
      ''--- end of original result ---'']"

fun call_names :: "json list \<Rightarrow> string \<rightharpoonup> string" where
  "call_names [] = Map.empty"
| "call_names (item # items) =
     (case (type_in [''function_call'', ''custom_tool_call''] item, as_str (obj_get item ''call_id''),
            as_str (obj_get item ''name'')) of
        (True, Some i, Some n) \<Rightarrow> Map.empty(i \<mapsto> n) ++ call_names items
      | _ \<Rightarrow> call_names items)"

definition name_of :: "json list \<Rightarrow> json \<Rightarrow> string option" where
  "name_of input item = Option.bind (as_str (obj_get item ''call_id'')) (call_names input)"

section \<open>The pass over the input\<close>

text \<open>From the last item back: whether the model acted after each item.\<close>

fun acted_scan :: "json list \<Rightarrow> bool list \<times> bool" where
  "acted_scan [] = ([], False)"
| "acted_scan (x # xs) = (let (flags, later) = acted_scan xs in (later # flags, later \<or> model_acted x))"

definition output_indexes :: "json list \<Rightarrow> nat list" where
  "output_indexes input = filter (\<lambda>i. type_in OUTPUT_TYPES (input ! i)) [0..<length input]"

text \<open>\<open>slice(-n)\<close>: the last \<open>n\<close> elements, but all of them for \<open>n = 0\<close>.\<close>

definition slice_last :: "int \<Rightarrow> 'a list \<Rightarrow> 'a list" where
  "slice_last n xs = (if n = 0 then xs else drop (length xs - nat n) xs)"

definition protected_indexes :: "int \<Rightarrow> json list \<Rightarrow> nat list" where
  "protected_indexes frontier input = slice_last (max 0 frontier) (output_indexes input)"

record aging_stats =
  results_aged :: nat
  results_shaped :: nat
  bytes_before :: nat
  bytes_after :: nat
  shape_saved :: nat
  evaluated :: nat
  bytes_largest :: nat

definition zero_stats :: aging_stats where
  "zero_stats = \<lparr>results_aged = 0, results_shaped = 0, bytes_before = 0, bytes_after = 0, shape_saved = 0,
     evaluated = 0, bytes_largest = 0\<rparr>"

record aging_options =
  aging_enabled :: bool
  min_bytes :: nat
  frontier :: int
  dense_shaping :: bool

definition default_options :: aging_options where
  "default_options = \<lparr>aging_enabled = True, min_bytes = TOOL_RESULT_AGING_MIN_BYTES,
     frontier = TOOL_RESULT_AGING_FRONTIER, dense_shaping = False\<rparr>"

text \<open>The receipt for one result, and whether it was shaped.\<close>

definition choose_receipt :: "(string \<Rightarrow> string) \<Rightarrow> aging_options \<Rightarrow> json list \<Rightarrow> json \<Rightarrow> bool \<Rightarrow> bool \<Rightarrow> string
    \<Rightarrow> (string \<times> bool) option" where
  "choose_receipt sha opt input item protected acted v =
     (if \<not> protected \<and> length v > min_bytes opt \<and> acted then
        Some (result_receipt sha v (name_of input item), False)
      else if dense_shaping opt \<and> length v > DENSE_SHAPING_MIN_BYTES then
        map_option (\<lambda>r. (r, True)) (shaped_result sha v (name_of input item))
      else None)"

definition count_evaluated :: "bool \<Rightarrow> nat \<Rightarrow> aging_stats \<Rightarrow> aging_stats" where
  "count_evaluated protected sz st =
     (if protected then st
      else st\<lparr>evaluated := Suc (evaluated st), bytes_largest := max (bytes_largest st) sz\<rparr>)"

definition count_replaced :: "bool \<Rightarrow> nat \<Rightarrow> nat \<Rightarrow> aging_stats \<Rightarrow> aging_stats" where
  "count_replaced shaped before after st =
     (let st' = (if shaped then st\<lparr>results_shaped := Suc (results_shaped st),
                                   shape_saved := shape_saved st + (before - after)\<rparr>
                 else st\<lparr>results_aged := Suc (results_aged st)\<rparr>)
      in st'\<lparr>bytes_before := bytes_before st + before, bytes_after := bytes_after st + after\<rparr>)"

text \<open>One item: what takes its place, and the counters.\<close>

definition age_item :: "(string \<Rightarrow> string) \<Rightarrow> aging_options \<Rightarrow> json list \<Rightarrow> bool \<Rightarrow> bool \<Rightarrow> json \<Rightarrow> aging_stats
    \<Rightarrow> json \<times> aging_stats" where
  "age_item sha opt input protected acted item st =
     (if protected \<and> \<not> dense_shaping opt then (item, st)
      else case textual_output item of
          None \<Rightarrow> (item, st)
        | Some v \<Rightarrow>
            (let st1 = count_evaluated protected (length v) st in
             case choose_receipt sha opt input item protected acted v of
               None \<Rightarrow> (item, st1)
             | Some (receipt, shaped) \<Rightarrow>
                 if receipt = [] \<or> length receipt \<ge> length v then (item, st1)
                 else (with_prop item ''output'' (JStr receipt),
                       count_replaced shaped (length v) (length receipt) st1)))"

fun age_items :: "(string \<Rightarrow> string) \<Rightarrow> aging_options \<Rightarrow> json list \<Rightarrow> (bool \<times> bool \<times> json) list \<Rightarrow> aging_stats
    \<Rightarrow> json list \<times> aging_stats" where
  "age_items sha opt input [] st = ([], st)"
| "age_items sha opt input ((protected, acted, item) # rest) st =
     (let (item', st') = age_item sha opt input protected acted item st;
          (rest', st'') = age_items sha opt input rest st'
      in (item' # rest', st''))"

definition marked :: "aging_options \<Rightarrow> json list \<Rightarrow> (bool \<times> bool \<times> json) list" where
  "marked opt input =
     zip (map (\<lambda>i. i \<in> set (protected_indexes (frontier opt) input)) [0..<length input])
       (zip (fst (acted_scan input)) input)"

text \<open>The counters of a pass that is off are the zeros; those only a pass that ran reports are absent.\<close>

datatype aging_report = Pass_Off | Pass_Ran aging_stats

definition bytes_saved :: "aging_stats \<Rightarrow> int" where
  "bytes_saved st = int (bytes_before st) - int (bytes_after st)"

definition age_tool_results :: "(string \<Rightarrow> string) \<Rightarrow> aging_options \<Rightarrow> json \<Rightarrow> json \<times> aging_report" where
  "age_tool_results sha opt input =
     (case input of
        JArr items \<Rightarrow>
          if \<not> aging_enabled opt then (input, Pass_Off)
          else (let (items', st) = age_items sha opt items (marked opt items) zero_stats
                in (JArr items', Pass_Ran st))
      | _ \<Rightarrow> (input, Pass_Off))"

section \<open>What a pass rewrites\<close>

lemma acted_scan_spec:
  "fst (acted_scan xs) = map (\<lambda>i. \<exists>y \<in> set (drop (Suc i) xs). model_acted y) [0..<length xs] \<and>
   snd (acted_scan xs) = (\<exists>y \<in> set xs. model_acted y)"
proof (induction xs)
  case (Cons x xs)
  have "map (\<lambda>i. \<exists>y \<in> set (drop (Suc i) (x # xs)). model_acted y) [0..<length (x # xs)] =
      (\<exists>y \<in> set xs. model_acted y) # map (\<lambda>i. \<exists>y \<in> set (drop (Suc i) xs). model_acted y) [0..<length xs]"
    by (simp only: length_Cons upt_conv_Cons map_Suc_upt [symmetric] list.map map_map comp_def zero_less_Suc) simp
  with Cons show ?case by (auto simp: split_def Let_def)
qed simp

lemma length_acted_scan [simp]: "length (fst (acted_scan xs)) = length xs"
  by (simp add: acted_scan_spec)

lemma length_marked [simp]: "length (marked opt input) = length input"
  by (simp add: marked_def)

lemma marked_nth:
  "i < length input \<Longrightarrow> marked opt input ! i =
     (i \<in> set (protected_indexes (frontier opt) input), \<exists>y \<in> set (drop (Suc i) input). model_acted y, input ! i)"
  by (simp add: marked_def acted_scan_spec)

text \<open>How one item may change.\<close>

definition aged_from :: "(string \<Rightarrow> string) \<Rightarrow> aging_options \<Rightarrow> json list \<Rightarrow> bool \<times> bool \<times> json \<Rightarrow> json \<Rightarrow> bool" where
  "aged_from sha opt input m item' \<longleftrightarrow>
     (case m of (protected, acted, item) \<Rightarrow> item' = item \<or>
       (\<exists>v r s. textual_output item = Some v \<and> choose_receipt sha opt input item protected acted v = Some (r, s) \<and>
          (protected \<longrightarrow> dense_shaping opt) \<and>
          length r < length v \<and> item' = with_prop item ''output'' (JStr r)))"

lemma age_item_from: "aged_from sha opt input (p, a, item) (fst (age_item sha opt input p a item st))"
  by (auto simp: age_item_def aged_from_def Let_def split: option.splits)

lemma age_items_from:
  "list_all2 (aged_from sha opt input) ms (fst (age_items sha opt input ms st))"
proof (induction ms arbitrary: st)
  case (Cons m ms)
  obtain p a item where m: "m = (p, a, item)" by (cases m) auto
  from Cons [of "snd (age_item sha opt input p a item st)"] show ?case
    using age_item_from [of sha opt input p a item st] by (simp add: m split_def Let_def)
qed simp

definition text_bytes :: "json \<Rightarrow> nat" where
  "text_bytes item = (case textual_output item of None \<Rightarrow> 0 | Some v \<Rightarrow> length v)"

lemma type_in_with_output [simp]: "is_obj item \<Longrightarrow> type_in ts (with_prop item ''output'' v) = type_in ts item"
  by (simp add: type_in_def)

lemma textual_output_obj: "textual_output item = Some v \<Longrightarrow> is_obj item \<and> type_in OUTPUT_TYPES item"
  by (cases item) (auto simp: textual_output_def type_in_def split: if_splits)

lemma text_bytes_replaced:
  "textual_output item = Some v \<Longrightarrow> text_bytes (with_prop item ''output'' (JStr r)) = length r"
  by (frule textual_output_obj) (simp add: text_bytes_def textual_output_def split: if_splits)

lemma text_bytes_text: "textual_output item = Some v \<Longrightarrow> text_bytes item = length v"
  by (simp add: text_bytes_def)

lemma replaced_neq:
  "textual_output item = Some v \<Longrightarrow> length r < length v \<Longrightarrow> with_prop item ''output'' (JStr r) \<noteq> item"
  using text_bytes_replaced [of item v r] text_bytes_text [of item v] by auto

lemma age_item_counts:
  assumes "age_item sha opt input p a item st = (item', st')"
  shows "text_bytes item + bytes_before st + bytes_after st' = text_bytes item' + bytes_after st + bytes_before st'"
    and "results_aged st' + results_shaped st' =
      results_aged st + results_shaped st + (if item' = item then 0 else 1)"
  using assms
  by (auto simp: age_item_def count_replaced_def count_evaluated_def Let_def text_bytes_replaced text_bytes_text
      replaced_neq not_le split: option.splits if_splits)

lemma age_items_counts:
  "age_items sha opt input ms st = (items', st') \<Longrightarrow>
   sum_list (map (\<lambda>(p, a, item). text_bytes item) ms) + bytes_before st + bytes_after st' =
      sum_list (map text_bytes items') + bytes_after st + bytes_before st' \<and>
   results_aged st' + results_shaped st' = results_aged st + results_shaped st +
      length (filter (\<lambda>(m, item'). item' \<noteq> snd (snd m)) (zip ms items'))"
proof (induction ms arbitrary: st items')
  case (Cons m ms)
  obtain p a item where m: "m = (p, a, item)" by (cases m) auto
  obtain item1 st1 where one: "age_item sha opt input p a item st = (item1, st1)" by fastforce
  obtain rest st2 where more: "age_items sha opt input ms st1 = (rest, st2)" by fastforce
  have "items' = item1 # rest" "st' = st2" using one more m Cons.prems by simp_all
  with Cons.IH [of st1 rest] more age_item_counts [OF one] m show ?case by simp
qed simp

lemma aged_result:
  assumes "age_tool_results sha opt (JArr xs) = (JArr ys, rep)"
  shows "length ys = length xs"
    and "i < length xs \<Longrightarrow> aged_from sha opt xs (marked opt xs ! i) (ys ! i)"
proof -
  have unchanged: "aged_from sha opt xs (marked opt xs ! i) (xs ! i)" if "i < length xs" for i
    using that by (simp add: marked_nth aged_from_def)
  have "length ys = length xs \<and> (\<forall>i < length xs. aged_from sha opt xs (marked opt xs ! i) (ys ! i))"
  proof (cases "aging_enabled opt")
    case True
    then have ys: "ys = fst (age_items sha opt xs (marked opt xs) zero_stats)"
      using assms by (simp add: age_tool_results_def split_def Let_def)
    show ?thesis
      using age_items_from [of sha opt xs "marked opt xs" zero_stats] unfolding ys
      by (auto dest: list_all2_lengthD list_all2_nthD)
  next
    case False
    then show ?thesis using assms unchanged by (simp add: age_tool_results_def)
  qed
  then show "length ys = length xs" "i < length xs \<Longrightarrow> aged_from sha opt xs (marked opt xs ! i) (ys ! i)" by auto
qed

lemma aged_array: obtains ys rep where "age_tool_results sha opt (JArr xs) = (JArr ys, rep)"
  by (cases "aging_enabled opt") (simp_all add: age_tool_results_def split_def Let_def)

lemma age_item_stats: "fst (age_item sha opt input p a item st) = fst (age_item sha opt input p a item st0)"
  by (auto simp: age_item_def Let_def split: option.splits)

lemma age_items_nth:
  "i < length ms \<Longrightarrow> ms ! i = (p, a, item) \<Longrightarrow>
   fst (age_items sha opt input ms st) ! i = fst (age_item sha opt input p a item zero_stats)"
proof (induction ms arbitrary: st i)
  case (Cons m ms)
  obtain p1 a1 item1 where m: "m = (p1, a1, item1)" by (cases m) auto
  show ?case
  proof (cases i)
    case 0
    then show ?thesis using Cons.prems m age_item_stats [of sha opt input p a item st zero_stats]
      by (simp add: split_def Let_def)
  next
    case (Suc j)
    then show ?thesis using Cons m by (simp add: split_def Let_def)
  qed
qed simp

lemma aged_nth:
  assumes "age_tool_results sha opt (JArr xs) = (JArr ys, rep)" "aging_enabled opt" "i < length xs"
    and "marked opt xs ! i = (p, a, item)"
  shows "ys ! i = fst (age_item sha opt xs p a item zero_stats)"
  using assms age_items_nth [of i "marked opt xs" p a item sha opt xs zero_stats]
  by (simp add: age_tool_results_def split_def Let_def)

lemma not_dense_aged:
  assumes "aged_from sha opt input (p, acted, item) item'" "\<not> dense_shaping opt" "item' \<noteq> item"
  shows "\<not> p \<and> acted \<and> (\<exists>v. textual_output item = Some v \<and> length v > min_bytes opt)"
  using assms by (auto simp: aged_from_def choose_receipt_def split: if_splits)

lemma in_slice_last:
  assumes "sorted xs" "distinct xs" "i \<in> set xs" "length (filter (\<lambda>j. i \<le> j) xs) \<le> n"
  shows "i \<in> set (drop (length xs - n) xs)"
proof (rule ccontr)
  assume "i \<notin> set (drop (length xs - n) xs)"
  with assms(3) have before: "i \<in> set (take (length xs - n) xs)"
    by (metis append_take_drop_id in_set_conv_decomp set_append Un_iff)
  then have less: "n < length xs" by (metis diff_is_0_eq empty_iff empty_set not_less take_0)
  have "i \<le> j" if "j \<in> set (drop (length xs - n) xs)" for j
    using assms(1) before that by (metis append_take_drop_id sorted_append)
  then have all: "filter (\<lambda>j. i \<le> j) (drop (length xs - n) xs) = drop (length xs - n) xs" by (simp add: filter_id_conv)
  have "i \<in> set (filter (\<lambda>j. i \<le> j) (take (length xs - n) xs))" using before by simp
  then have "0 < length (filter (\<lambda>j. i \<le> j) (take (length xs - n) xs))" by (rule length_pos_if_in_set)
  moreover have "length (filter (\<lambda>j. i \<le> j) xs) =
      length (filter (\<lambda>j. i \<le> j) (take (length xs - n) xs)) + length (filter (\<lambda>j. i \<le> j) (drop (length xs - n) xs))"
    by (metis append_take_drop_id filter_append length_append)
  moreover have "length (drop (length xs - n) xs) = n" using less by simp
  ultimately have "length (filter (\<lambda>j. i \<le> j) xs) > n" unfolding all by linarith
  with assms(4) show False by simp
qed

lemma outputs_from:
  "i \<le> length xs \<Longrightarrow>
   length (filter (\<lambda>j. i \<le> j) (output_indexes xs)) = length (filter (type_in OUTPUT_TYPES) (drop i xs))"
proof -
  assume i: "i \<le> length xs"
  have "filter (\<lambda>j. i \<le> j) (output_indexes xs) = filter (\<lambda>j. type_in OUTPUT_TYPES (xs ! j)) [i..<length xs]"
  proof -
    have "[0..<length xs] = [0..<i] @ [i..<length xs]" using i by (metis le0 le_add_diff_inverse upt_add_eq_append)
    then show ?thesis by (simp add: output_indexes_def filter_empty_conv) (rule filter_cong, simp_all)
  qed
  also have "length \<dots> = length (filter (type_in OUTPUT_TYPES) (map ((!) xs) [i..<length xs]))"
    by (simp add: filter_map comp_def)
  also have "map ((!) xs) [i..<length xs] = drop i xs"
    by (rule nth_equalityI) simp_all
  finally show ?thesis .
qed

lemma frontier_protected:
  assumes "i < length xs" "type_in OUTPUT_TYPES (xs ! i)"
    and "frontier opt \<le> 0 \<or> int (length (filter (type_in OUTPUT_TYPES) (drop i xs))) \<le> frontier opt"
  shows "i \<in> set (protected_indexes (frontier opt) xs)"
proof -
  have i: "i \<in> set (output_indexes xs)" using assms(1,2) by (simp add: output_indexes_def)
  show ?thesis
  proof (cases "frontier opt \<le> 0")
    case True
    then show ?thesis using i by (simp add: protected_indexes_def slice_last_def)
  next
    case False
    have "i \<in> set (drop (length (output_indexes xs) - nat (frontier opt)) (output_indexes xs))"
    proof (rule in_slice_last)
      show "sorted (output_indexes xs)" "distinct (output_indexes xs)" by (simp_all add: output_indexes_def sorted_wrt_filter)
      show "length (filter (\<lambda>j. i \<le> j) (output_indexes xs)) \<le> nat (frontier opt)"
        using assms(1,3) False outputs_from [of i xs] by simp
    qed (rule i)
    then show ?thesis using False by (simp add: protected_indexes_def slice_last_def)
  qed
qed

section \<open>Properties of a pass\<close>

definition model_acted_after :: "json list \<Rightarrow> nat \<Rightarrow> bool" where
  "model_acted_after xs i \<longleftrightarrow> (\<exists>y \<in> set (drop (Suc i) xs). model_acted y)"

text \<open>C11: A pass keeps every item in its place and touches only tool results that are text; what it puts in is
  the same item with a shorter output. Unless the request is a compaction, the result was larger than the
  floor, the model had acted after it and it is not among the newest.\<close>

theorem aging_rewrites_only_old_results:
  assumes "age_tool_results sha opt (JArr xs) = (JArr ys, rep)" and "i < length xs" and "ys ! i \<noteq> xs ! i"
  shows "\<exists>v r. type_in OUTPUT_TYPES (xs ! i) \<and> textual_output (xs ! i) = Some v \<and> length r < length v \<and>
      ys ! i = with_prop (xs ! i) ''output'' (JStr r) \<and>
      (dense_shaping opt \<or> min_bytes opt < length v \<and> model_acted_after xs i \<and>
         int (length (filter (type_in OUTPUT_TYPES) (drop i xs))) > frontier opt)"
proof -
  let ?p = "i \<in> set (protected_indexes (frontier opt) xs)"
  have aged: "aged_from sha opt xs (?p, model_acted_after xs i, xs ! i) (ys ! i)"
    using aged_result(2) [OF assms(1,2)] assms(2) by (simp add: marked_nth model_acted_after_def)
  with assms(3) obtain v r where v: "textual_output (xs ! i) = Some v" "length r < length v"
      "ys ! i = with_prop (xs ! i) ''output'' (JStr r)" by (auto simp: aged_from_def)
  moreover have "type_in OUTPUT_TYPES (xs ! i)" using textual_output_obj [OF v(1)] by simp
  moreover have "min_bytes opt < length v \<and> model_acted_after xs i \<and>
      int (length (filter (type_in OUTPUT_TYPES) (drop i xs))) > frontier opt" if "\<not> dense_shaping opt"
    using not_dense_aged [OF aged that assms(3)] v(1) frontier_protected [OF assms(2) calculation(4), of opt] by force
  ultimately show ?thesis by blast
qed

text \<open>The counters tell the truth: the bytes of text in the results shrink by what is reported as saved,
  and every replaced result is counted once.\<close>

theorem aging_reports_truly:
  assumes "age_tool_results sha opt (JArr xs) = (JArr ys, Pass_Ran st)"
  shows "int (sum_list (map text_bytes xs)) = int (sum_list (map text_bytes ys)) + bytes_saved st \<and>
    results_aged st + results_shaped st = length (filter (\<lambda>(x, y). y \<noteq> x) (zip xs ys))"
proof -
  have run: "age_items sha opt xs (marked opt xs) zero_stats = (ys, st)"
    using assms by (auto simp: age_tool_results_def Let_def split_def prod_eq_iff split: if_splits)
  have items: "map (\<lambda>m. snd (snd m)) (marked opt xs) = xs"
    by (rule nth_equalityI) (simp_all add: marked_nth)
  have "map (\<lambda>(p, a, item). text_bytes item) (marked opt xs) = map text_bytes (map (\<lambda>m. snd (snd m)) (marked opt xs))"
    by (simp add: split_def)
  moreover have "length (filter (\<lambda>(m, item'). item' \<noteq> snd (snd m)) (zip (marked opt xs) ys)) =
      length (filter (\<lambda>(x, y). y \<noteq> x) (zip (map (\<lambda>m. snd (snd m)) (marked opt xs)) ys))"
    by (simp add: zip_map1 filter_map comp_def split_def)
  ultimately show ?thesis
    using age_items_counts [OF run] unfolding items by (simp add: bytes_saved_def zero_stats_def)
qed

text \<open>\<open>slice(-0)\<close> is the whole array: a frontier of zero (or less) protects every result instead of none, and
  outside compaction nothing is ever aged.\<close>

theorem zero_frontier_protects_everything:
  assumes "frontier opt \<le> 0" and "\<not> dense_shaping opt"
  shows "fst (age_tool_results sha opt input) = input"
proof (cases input)
  case (JArr xs)
  obtain r rep where res: "age_tool_results sha opt input = (r, rep)" by fastforce
  then obtain ys where r: "r = JArr ys"
    unfolding JArr by (auto simp: age_tool_results_def split_def Let_def split: if_splits)
  note res' = res [unfolded JArr r]
  have "ys ! i = xs ! i" if "i < length xs" for i
  proof (rule ccontr)
    assume ne: "ys ! i \<noteq> xs ! i"
    with aged_result(2) [OF res' that] that assms
    have "i \<notin> set (protected_indexes (frontier opt) xs)" "\<exists>v. textual_output (xs ! i) = Some v"
      using not_dense_aged [of sha opt xs _ _ "xs ! i" "ys ! i"] by (auto simp: marked_nth)
    with frontier_protected [OF that, of opt] assms(1) textual_output_obj [of "xs ! i"] show False by auto
  qed
  with aged_result(1) [OF res'] have "ys = xs" by (simp add: nth_equalityI)
  then show ?thesis using res r JArr by simp
qed (simp_all add: age_tool_results_def)

section \<open>A sample\<close>

definition sample_value :: string where "sample_value = replicate 40000 (CHR ''x'')"

definition sample_item :: "string \<Rightarrow> string \<Rightarrow> json" where
  "sample_item i v = JObj [(''type'', JStr ''function_call_output''), (''call_id'', JStr i), (''output'', JStr v)]"

definition sample_input :: "json list" where
  "sample_input = [JObj [(''type'', JStr ''function_call''), (''call_id'', JStr ''old''), (''name'', JStr ''exec'')],
     sample_item ''old'' sample_value,
     JObj [(''type'', JStr ''message''), (''role'', JStr ''assistant'')],
     sample_item ''a'' ''small'', sample_item ''b'' ''small'', sample_item ''c'' ''small'', sample_item ''d'' ''small'']"

definition sample_sha :: "string \<Rightarrow> string" where "sample_sha s = replicate 64 (CHR ''0'')"

lemma js_length_replicate: "unit_count c = 1 \<Longrightarrow> js_length (replicate n c) = n"
  by (simp add: js_length_def sum_list_replicate)

lemma take_units_replicate: "unit_count c = 1 \<Longrightarrow> take_units n (replicate m c) = replicate (min n m) c"
proof (induction m arbitrary: n)
  case (Suc m)
  then show ?case by (cases n) simp_all
qed simp

lemma drop_units_replicate: "unit_count c = 1 \<Longrightarrow> drop_units n (replicate m c) = replicate (m - n) c"
proof (induction m arbitrary: n)
  case (Suc m)
  then show ?case by (cases n) simp_all
qed simp

lemma length_sample_value: "length sample_value = 40000"
  by (simp add: sample_value_def)

lemma sample_receipt: "length (result_receipt sample_sha sample_value (Some ''exec'')) < 40000"
proof -
  have u: "unit_count (CHR ''x'') = 1" by (simp add: unit_count_def)
  have n: "nat_str 40000 = ''40000''" by code_simp
  have "length (safe_head sample_value) \<le> 1024"
    by (simp add: sample_value_def safe_head_def take_units_replicate [OF u] js_length_replicate [OF u] Let_def
        PREVIEW_CODE_UNITS_def)
  moreover have "length (safe_tail sample_value) \<le> 1024"
    by (simp add: sample_value_def safe_tail_def drop_units_replicate [OF u] js_length_replicate [OF u] Let_def
        PREVIEW_CODE_UNITS_def)
  ultimately show ?thesis
    by (simp add: result_receipt_def length_sample_value n sample_sha_def recovery_instruction_def)
qed

lemma sample_protected: "protected_indexes 4 sample_input = [3, 4, 5, 6]"
  by (simp add: protected_indexes_def output_indexes_def sample_input_def sample_item_def type_in_def OUTPUT_TYPES_def
      slice_last_def upt_rec)

lemma sample_name: "name_of sample_input (sample_item ''old'' v) = Some ''exec''"
  by (simp add: name_of_def sample_input_def sample_item_def type_in_def map_add_def)

lemma sample_old: "fst (age_item sample_sha default_options sample_input False True (sample_item ''old'' sample_value) st) =
    sample_item ''old'' (result_receipt sample_sha sample_value (Some ''exec''))"
  using sample_receipt length_sample_value sample_name [of sample_value]
  by (simp add: age_item_def choose_receipt_def textual_output_def sample_item_def type_in_def OUTPUT_TYPES_def
      default_options_def TOOL_RESULT_AGING_MIN_BYTES_def Let_def result_receipt_def)

lemma sample_marked: "marked default_options sample_input ! 1 = (False, True, sample_item ''old'' sample_value)"
proof -
  have "(1::nat) < length sample_input" by (simp add: sample_input_def)
  moreover have "(1::nat) \<notin> set (protected_indexes 4 sample_input)" by (simp add: sample_protected)
  moreover have "\<exists>y \<in> set (drop (Suc 1) sample_input). model_acted y"
    by (simp add: sample_input_def model_acted_def type_in_def)
  moreover have "sample_input ! 1 = sample_item ''old'' sample_value" by (simp add: sample_input_def)
  ultimately show ?thesis by (simp add: marked_nth default_options_def TOOL_RESULT_AGING_FRONTIER_def)
qed

lemma sample_aged:
  assumes "age_tool_results sample_sha default_options (JArr sample_input) = (JArr ys, rep)"
  shows "ys ! 1 = sample_item ''old'' (result_receipt sample_sha sample_value (Some ''exec''))"
proof -
  have "aging_enabled default_options" "(1::nat) < length sample_input"
    by (simp_all add: default_options_def sample_input_def)
  from aged_nth [OF assms this sample_marked] show ?thesis by (simp add: sample_old)
qed

lemma sample_item_neq: "length r < length v \<Longrightarrow> sample_item i r \<noteq> sample_item i v"
  by (auto simp: sample_item_def)

lemma aging_rewrites_only_old_results_witness:
  "\<exists>ys rep r. age_tool_results sample_sha default_options (JArr sample_input) = (JArr ys, rep) \<and>
     ys ! 1 = with_prop (sample_input ! 1) ''output'' (JStr r) \<and> model_acted_after sample_input 1"
proof -
  obtain ys rep where run: "age_tool_results sample_sha default_options (JArr sample_input) = (JArr ys, rep)"
    by (rule aged_array)
  have "ys ! 1 \<noteq> sample_input ! 1" unfolding sample_aged [OF run]
    using sample_item_neq [OF sample_receipt [folded length_sample_value]] by (simp add: sample_input_def)
  from aging_rewrites_only_old_results [OF run _ this] run show ?thesis
    by (auto simp: sample_input_def default_options_def)
qed

lemma aging_reports_truly_witness:
  "\<exists>ys st. age_tool_results sample_sha default_options (JArr sample_input) = (JArr ys, Pass_Ran st) \<and>
     results_aged st + results_shaped st > 0"
proof -
  obtain ys rep where run: "age_tool_results sample_sha default_options (JArr sample_input) = (JArr ys, rep)"
    by (rule aged_array)
  then obtain st where st: "rep = Pass_Ran st"
    by (auto simp: age_tool_results_def default_options_def Let_def split_def)
  have "ys ! 1 \<noteq> sample_input ! 1" unfolding sample_aged [OF run]
    using sample_item_neq [OF sample_receipt [folded length_sample_value]] by (simp add: sample_input_def)
  moreover have "length ys = length sample_input" by (rule aged_result(1) [OF run])
  then have "(sample_input ! 1, ys ! 1) \<in> set (zip sample_input ys)"
    by (auto simp: set_zip sample_input_def intro!: exI [of _ 1])
  ultimately have "(sample_input ! 1, ys ! 1) \<in> set (filter (\<lambda>(x, y). y \<noteq> x) (zip sample_input ys))" by simp
  then have "0 < length (filter (\<lambda>(x, y). y \<noteq> x) (zip sample_input ys))" by (rule length_pos_if_in_set)
  with aging_reports_truly [OF run [unfolded st]] run st show ?thesis by auto
qed

lemma zero_frontier_protects_everything_witness:
  "fst (age_tool_results sample_sha (default_options\<lparr>frontier := 0\<rparr>) (JArr sample_input)) = JArr sample_input"
  by (rule zero_frontier_protects_everything) (simp_all add: default_options_def)

section \<open>What shaping keeps\<close>

text \<open>The pieces of a text: its lines, and within a line what a carriage return overwrites.\<close>

definition pieces :: "string \<Rightarrow> string list" where
  "pieces v = concat (map (split_at_char CR) (split_at_char LF (crlf_to_lf v)))"

definition shaping_marker :: "string \<Rightarrow> bool" where
  "shaping_marker l \<longleftrightarrow> (\<exists>n. l = repeat_marker n \<or> l = indent_marker n)"

definition plain :: "string \<Rightarrow> bool" where
  "plain l \<longleftrightarrow> LF \<notin> set l \<and> CR \<notin> set l"

lemma crlf_to_lf_plain: "CR \<notin> set s \<Longrightarrow> crlf_to_lf s = s"
  by (induction s) auto

lemma crlf_to_lf_set: "set (crlf_to_lf s) \<subseteq> set s"
  by (induction s) auto

lemma pieces_plain: "l \<in> set (pieces v) \<Longrightarrow> plain l"
  by (auto simp: pieces_def plain_def dest: split_at_char_sep split_at_char_set)

lemma pieces_join: "ls \<noteq> [] \<Longrightarrow> (\<And>l. l \<in> set ls \<Longrightarrow> plain l) \<Longrightarrow> pieces (join [LF] ls) = ls"
proof -
  assume ne: "ls \<noteq> []" and plain: "\<And>l. l \<in> set ls \<Longrightarrow> plain l"
  have "set (join [LF] ls) \<subseteq> insert LF (\<Union> (set ` set ls))"
    by (induction "[LF]" ls rule: join.induct) auto
  then have "CR \<notin> set (join [LF] ls)" using plain by (auto simp: plain_def LF_def CR_def)
  moreover have "split_at_char LF (join [LF] ls) = ls" using plain by (intro split_join ne) (auto simp: plain_def)
  moreover have "concat (map (split_at_char CR) ls) = ls" using plain
    by (induction ls) (auto simp: plain_def split_at_char_no_sep)
  ultimately show ?thesis by (simp add: pieces_def crlf_to_lf_plain)
qed

lemma last_nonempty_in: "es \<noteq> [] \<Longrightarrow> last_nonempty es \<in> set es"
proof -
  assume "es \<noteq> []"
  show ?thesis
  proof (cases "filter (\<lambda>e. e \<noteq> []) (rev es)")
    case Nil
    then have "\<forall>e \<in> set es. e = []" by (simp add: filter_empty_conv)
    with \<open>es \<noteq> []\<close> Nil show ?thesis by (cases es) (simp_all add: last_nonempty_def)
  next
    case (Cons e fs)
    have "e \<in> set (filter (\<lambda>e. e \<noteq> []) (rev es))" unfolding Cons by simp
    then have "e \<in> set es" by simp
    with Cons show ?thesis by (simp add: last_nonempty_def)
  qed
qed

lemma last_nonempty_split:
  assumes "es \<noteq> []"
  obtains before after where "es = before @ last_nonempty es # after" "\<And>e. e \<in> set after \<Longrightarrow> e = last_nonempty es \<or> e = []"
proof (cases "filter (\<lambda>e. e \<noteq> []) (rev es)")
  case Nil
  then have empty: "last_nonempty es = []" "\<forall>e \<in> set es. e = []" by (simp_all add: last_nonempty_def filter_empty_conv)
  then show thesis using that [of "[]" "tl es"] assms by (cases es) auto
next
  case (Cons e fs)
  then obtain us vs where uv: "rev es = us @ e # vs" "\<forall>u \<in> set us. u = []"
    by (auto simp: filter_eq_Cons_iff)
  then have "es = rev vs @ e # rev us" by (metis append.assoc append_Cons append_Nil rev_append rev_rev_ident rev.simps(2))
  then show thesis using that [of "rev vs" "rev us"] uv(2) Cons by (simp add: last_nonempty_def)
qed

lemma important_nonempty: "important_line l \<Longrightarrow> l \<noteq> []"
  by (auto simp: important_line_def fold_case.simps [of "[]"])

lemma rewritten_line_subseq: "subseq (rewritten_line l) (split_at_char CR l)"
proof (cases "CR \<in> set l")
  case True
  let ?es = "split_at_char CR l"
  obtain before after where es: "?es = before @ last_nonempty ?es # after"
      "\<And>e. e \<in> set after \<Longrightarrow> e = last_nonempty ?es \<or> e = []"
    by (rule last_nonempty_split [of ?es]) simp_all
  let ?P = "\<lambda>e. e \<noteq> last_nonempty ?es \<and> important_line e"
  have "filter ?P after = []" using es(2) important_nonempty by (auto simp: filter_empty_conv)
  moreover have "filter ?P ?es = filter ?P before @ filter ?P (last_nonempty ?es # after)"
    by (subst es(1)) simp
  ultimately have "filter ?P ?es = filter ?P before" by simp
  moreover have "subseq (filter ?P before @ [last_nonempty ?es]) (before @ last_nonempty ?es # after)"
    by (intro list_emb_append_mono subseq_filter_left) simp
  ultimately show ?thesis using True es(1) by (simp add: rewritten_line_def Let_def)
qed (simp add: rewritten_line_def split_at_char_no_sep)

lemma rewritten_line_important: "important_line e \<Longrightarrow> e \<in> set (split_at_char CR l) \<Longrightarrow> e \<in> set (rewritten_line l)"
  by (auto simp: rewritten_line_def Let_def split_at_char_no_sep)

lemma rewritten_line_nonempty: "rewritten_line l \<noteq> []"
  by (simp add: rewritten_line_def Let_def)

lemma collapsed_run_cases:
  "n > 0 \<Longrightarrow> collapsed_run line n = [line, repeat_marker (n - 1)] \<or> collapsed_run line n = [line] \<or>
     collapsed_run line n = replicate n line"
  unfolding collapsed_run_def Let_def by presburger

lemma collapsed_run_mem: "n > 0 \<Longrightarrow> line \<in> set (collapsed_run line n)"
  using collapsed_run_cases [of n line] by auto

lemma marker_is [simp]: "shaping_marker (repeat_marker m)" "shaping_marker (indent_marker m)"
  by (auto simp: shaping_marker_def)

lemma collapsed_run_subseq:
  assumes "n > 0"
  shows "subseq (filter (\<lambda>l. \<not> shaping_marker l) (collapsed_run line n)) (replicate n line)"
proof -
  obtain k where k: "n = Suc k" using assms by (cases n) auto
  have one: "subseq [line] (replicate n line)" by (simp add: subseq_singleton_left k)
  from collapsed_run_cases [OF assms, of line] show ?thesis
  proof (elim disjE)
    assume r: "collapsed_run line n = replicate n line"
    show ?thesis unfolding r by (intro subseq_filter_left) 
  qed (use one in simp_all)
qed

lemma run_split: "rest = replicate (length (takeWhile (\<lambda>l. l = line) rest)) line @ dropWhile (\<lambda>l. l = line) rest"
  by (induction rest) auto

lemma collapse_repeated_mem: "l \<in> set ls \<Longrightarrow> l \<in> set (collapse_repeated_lines ls)"
proof (induction ls rule: collapse_repeated_lines.induct)
  case (2 line rest)
  have "l = line \<or> l \<in> set (dropWhile (\<lambda>l. l = line) rest)"
    using 2(2) run_split [of rest line] by (metis Un_iff in_set_replicate set_ConsD set_append)
  with 2(1) show ?case using collapsed_run_mem [of "Suc (length (takeWhile (\<lambda>l. l = line) rest))" line] by auto
qed simp

lemma collapse_repeated_subseq:
  "subseq (filter (\<lambda>l. \<not> shaping_marker l) (collapse_repeated_lines ls)) ls"
proof (induction ls rule: collapse_repeated_lines.induct)
  case (2 line rest)
  let ?n = "Suc (length (takeWhile (\<lambda>l. l = line) rest))"
  have eq: "replicate ?n line @ dropWhile (\<lambda>l. l = line) rest = line # rest"
    using run_split [of rest line] by simp
  have "subseq (filter (\<lambda>l. \<not> shaping_marker l) (collapsed_run line ?n) @
      filter (\<lambda>l. \<not> shaping_marker l) (collapse_repeated_lines (dropWhile (\<lambda>l. l = line) rest)))
      (replicate ?n line @ dropWhile (\<lambda>l. l = line) rest)"
    by (rule list_emb_append_mono [OF collapsed_run_subseq 2]) simp
  then show ?case unfolding eq collapse_repeated_lines.simps filter_append .
qed simp

lemma filtered_in: "subseq (filter P xs) ys \<Longrightarrow> x \<in> set xs \<Longrightarrow> P x \<Longrightarrow> x \<in> set ys"
  by (drule list_emb_set [where x = x]) auto

lemma collapse_repeated_in: "l \<in> set (collapse_repeated_lines ls) \<Longrightarrow> l \<in> set ls \<or> shaping_marker l"
  using filtered_in [OF collapse_repeated_subseq] by blast

lemma collapsed_block_subseq:
  "b \<noteq> [] \<Longrightarrow> subseq (filter (\<lambda>l. \<not> shaping_marker l) (collapsed_block b)) b"
proof -
  assume "b \<noteq> []"
  have marker: "shaping_marker (indent_marker m)" for m by (auto simp: shaping_marker_def)
  have "subseq [hd b, last b] b" if "length b \<ge> 8"
  proof -
    obtain x xs where b: "b = x # xs" using \<open>b \<noteq> []\<close> by (cases b) auto
    then have "last xs \<in> set xs" using that by (intro last_in_set) auto
    then show ?thesis using b that by (auto simp: subseq_singleton_left)
  qed
  then have "subseq (filter (\<lambda>l. \<not> shaping_marker l) [hd b, last b]) b" if "length b \<ge> 8"
    using that subseq_filter_left subseq_order.trans by blast
  then show ?thesis by (auto simp: collapsed_block_def Let_def marker)
qed

lemma collapse_deep_mem:
  "\<not> deep_line l \<Longrightarrow> l \<in> set ls \<Longrightarrow> l \<in> set (collapse_deeply_indented_blocks ls)"
proof (induction ls rule: collapse_deeply_indented_blocks.induct)
  case (2 line rest)
  show ?case
  proof (cases "deep_line line")
    case True
    have "l \<noteq> line" "l \<notin> set (takeWhile deep_line rest)" using True 2(3) by (auto dest: set_takeWhileD)
    then have "l \<in> set (dropWhile deep_line rest)"
      using 2(4) by (metis Un_iff set_ConsD set_append takeWhile_dropWhile_id)
    with 2(2,3) True show ?thesis by simp
  next
    case False
    with 2 show ?thesis by auto
  qed
qed simp

lemma collapse_deep_subseq:
  "subseq (filter (\<lambda>l. \<not> shaping_marker l) (collapse_deeply_indented_blocks ls)) ls"
proof (induction ls rule: collapse_deeply_indented_blocks.induct)
  case (2 line rest)
  show ?case
  proof (cases "deep_line line")
    case True
    have "subseq (filter (\<lambda>l. \<not> shaping_marker l) (collapsed_block (line # takeWhile deep_line rest)) @
        filter (\<lambda>l. \<not> shaping_marker l) (collapse_deeply_indented_blocks (dropWhile deep_line rest)))
        ((line # takeWhile deep_line rest) @ dropWhile deep_line rest)"
      by (rule list_emb_append_mono [OF collapsed_block_subseq 2(2)]) (simp_all add: True)
    then show ?thesis by (simp add: True)
  next
    case False
    with 2(1) show ?thesis by auto
  qed
qed simp

lemma collapse_deep_in: "l \<in> set (collapse_deeply_indented_blocks ls) \<Longrightarrow> l \<in> set ls \<or> shaping_marker l"
  using filtered_in [OF collapse_deep_subseq] by blast

lemma digits_plain: "\<forall>n \<in> set [0..<10]. digit n \<noteq> LF \<and> digit n \<noteq> CR"
  by code_simp

lemma digit_plain: "n < 10 \<Longrightarrow> digit n \<noteq> LF \<and> digit n \<noteq> CR"
  using digits_plain by simp

lemma nat_str_plain: "plain (nat_str n)"
proof (induction n rule: nat_str.induct)
  case (1 n)
  then show ?case using digit_plain [of n] digit_plain [of "n mod 10"]
    by (subst nat_str.simps) (auto simp: plain_def)
qed

lemma plain_append: "plain (a @ b) \<longleftrightarrow> plain a \<and> plain b"
  by (auto simp: plain_def)

lemma marker_plain: "shaping_marker l \<Longrightarrow> plain l"
proof -
  assume "shaping_marker l"
  then obtain n where "l = repeat_marker n \<or> l = indent_marker n" by (auto simp: shaping_marker_def)
  moreover have "plain ''[same line repeated ''" "plain '' more times]''" "plain [CHR ''['']"
      "plain '' deeply indented lines omitted]''"
    by (simp_all add: plain_def LF_def CR_def)
  ultimately show ?thesis
    using nat_str_plain [of n] by (auto simp: repeat_marker_def indent_marker_def plain_append) (simp_all add: plain_def)
qed

definition shaped_lines :: "string \<Rightarrow> string list" where
  "shaped_lines v = collapse_deeply_indented_blocks (collapse_repeated_lines
     (concat (map rewritten_line (split_at_char LF (crlf_to_lf v)))))"

lemma rewritten_plain:
  assumes "r \<in> set (concat (map rewritten_line (split_at_char LF (crlf_to_lf v))))"
  shows "plain r"
proof -
  obtain l where "l \<in> set (split_at_char LF (crlf_to_lf v))" "r \<in> set (rewritten_line l)" using assms by auto
  moreover from this(2) have "r \<in> set (split_at_char CR l)"
    using list_emb_set [OF rewritten_line_subseq] by metis
  ultimately show ?thesis by (intro pieces_plain [of r v]) (auto simp: pieces_def)
qed

lemma collapse_rewrites_lines:
  "split_at_char LF (collapse_terminal_rewrites v) = concat (map rewritten_line (split_at_char LF (crlf_to_lf v)))"
proof -
  let ?gs = "map rewritten_line (split_at_char LF (crlf_to_lf v))"
  have ne: "[] \<notin> set ?gs" using rewritten_line_nonempty by (metis (no_types, lifting) imageE list.set_map)
  then have "concat ?gs \<noteq> []" by (cases "split_at_char LF (crlf_to_lf v)") (auto simp: rewritten_line_nonempty)
  moreover have "collapse_terminal_rewrites v = join [LF] (concat ?gs)"
    using join_nonempty_concat [OF ne, of "[LF]"] by (simp add: collapse_terminal_rewrites_def comp_def)
  moreover have "LF \<notin> set r" if "r \<in> set (concat ?gs)" for r using rewritten_plain [OF that] by (simp add: plain_def)
  ultimately show ?thesis by (metis split_join)
qed

lemma shape_cases: "shape_tool_result v = v \<or> shape_tool_result v = join [LF] (shaped_lines v)"
  by (auto simp: shape_tool_result_def shaped_lines_def collapse_rewrites_lines Let_def)

lemma shaped_lines_plain: "l \<in> set (shaped_lines v) \<Longrightarrow> plain l"
  unfolding shaped_lines_def using collapse_deep_in collapse_repeated_in rewritten_plain marker_plain by metis

lemma shaped_lines_nonempty: "shaped_lines v \<noteq> []"
proof
  let ?ls = "concat (map rewritten_line (split_at_char LF (crlf_to_lf v)))"
  have "?ls \<noteq> []" by (cases "split_at_char LF (crlf_to_lf v)") (auto simp: rewritten_line_nonempty)
  then have "hd ?ls \<in> set (collapse_repeated_lines ?ls)" by (intro collapse_repeated_mem hd_in_set)
  then have "collapse_repeated_lines ?ls \<noteq> []" by (metis empty_iff empty_set)
  moreover have "collapse_deeply_indented_blocks ls \<noteq> []" if "ls \<noteq> []" for ls
    using that by (cases ls) (auto simp: collapsed_block_def Let_def)
  moreover assume "shaped_lines v = []"
  ultimately show False by (simp add: shaped_lines_def)
qed

lemma rewritten_lines_subseq: "subseq (concat (map rewritten_line ls)) (concat (map (split_at_char CR) ls))"
  by (induction ls) (auto intro: list_emb_append_mono rewritten_line_subseq)

text \<open>Shaping loses no line that reports an error, warning or failure by one of the listed words, also when
  a carriage return or deep indentation hides it; and what it leaves are lines of the original in their
  order, with nothing put in but its own markers.\<close>

theorem shaping_keeps_important_lines:
  "set (filter important_line (pieces v)) \<subseteq> set (pieces (shape_tool_result v)) \<and>
   subseq (filter (\<lambda>l. \<not> shaping_marker l) (pieces (shape_tool_result v))) (pieces v)"
proof -
  consider "shape_tool_result v = v" | "shape_tool_result v = join [LF] (shaped_lines v)" using shape_cases by blast
  then show ?thesis
  proof cases
    case 2
    let ?ls = "concat (map rewritten_line (split_at_char LF (crlf_to_lf v)))"
    have shaped: "pieces (shape_tool_result v) = shaped_lines v"
      unfolding 2 by (rule pieces_join [OF shaped_lines_nonempty shaped_lines_plain])
    have rewritten: "subseq ?ls (pieces v)"
      unfolding pieces_def by (rule rewritten_lines_subseq)
    have "l \<in> set (shaped_lines v)" if "l \<in> set (pieces v)" "important_line l" for l
    proof -
      have "l \<in> set ?ls" using that rewritten_line_important by (auto simp: pieces_def)
      then show ?thesis unfolding shaped_lines_def using that(2)
        by (intro collapse_deep_mem collapse_repeated_mem) (simp_all add: deep_line_def)
    qed
    moreover have "subseq (filter (\<lambda>l. \<not> shaping_marker l) (shaped_lines v)) (collapse_repeated_lines ?ls)"
      unfolding shaped_lines_def by (rule collapse_deep_subseq)
    then have "subseq (filter (\<lambda>l. \<not> shaping_marker l) (shaped_lines v)) ?ls"
      using collapse_repeated_subseq [of ?ls] subseq_filter [of _ _ "\<lambda>l. \<not> shaping_marker l"]
      by (metis (no_types, lifting) filter_filter subseq_order.trans filter_cong)
    ultimately show ?thesis using rewritten subseq_order.trans shaped by auto
  qed auto
qed

text \<open>The pattern that is to find \<open>fail\<close> and \<open>failed\<close> finds \<open>faile\<close> and \<open>failed\<close>: a line that says FAIL is
  cut like any other, and a block of test failures is shaped away.\<close>

theorem fail_is_not_important:
  "\<not> important_line ''        FAIL src/a.test.js'' \<and> important_line ''faile'' \<and>
   collapse_deeply_indented_blocks (map (\<lambda>n. ''        FAIL src/'' @ nat_str n) [1..<12]) =
     [''        FAIL src/1'', indent_marker 9, ''        FAIL src/11'']"
  by code_simp

end
