(* ===== verification/Protobuf_Wire.thy ===== *)
theory Protobuf_Wire
  imports Protobuf_Lite Json
begin

unbundle bit_operations_syntax

text \<open>
  The schema-driven protobuf codec, \<open>src/router/src/protobuf-wire.mjs\<close>. A schema is the list of
  its named fields. A number is \<open>VNum\<close> when it is an integer and \<open>VF64\<close> when it is
  given by the eight little-endian bytes of its representation. The field type \<open>float\<close>, which
  no schema of the program uses, is not modelled.
\<close>

datatype ftype =
    TBool | TEnum | TInt32 | TInt64 | TUint32 | TUint64 | TSint32 | TSint64
  | TString | TBytes | TDouble | TUnknown string
  | TMessage "(string \<times> field) list"
and field = Field (f_no: nat) (f_repeated: bool) (f_type: ftype)

type_synonym schema = "(string \<times> field) list"

datatype jsval =
    VNull
  | VBool bool
  | VNum int
  | VBig int
  | VF64 "byte list"
  | VStr string
  | VBytes "byte list"
  | VArr "jsval list"
  | VObj "(string \<times> jsval) list"

datatype wire_error =
    Truncated_Varint | Varint_Overflow | Truncated_Field
  | Unsupported_Wire nat | Unsupported_Type string
  | Not_Integral
  | Not_Covered

type_synonym 'a wire = "wire_error + 'a"

definition VARINT_TYPES :: "ftype list" where
  "VARINT_TYPES = [TBool, TEnum, TInt32, TInt64, TUint32, TUint64, TSint32, TSint64]"

section \<open>Doubles by their representation\<close>

definition f64_nat :: "byte list \<Rightarrow> nat" where
  "f64_nat b = foldr (\<lambda>x a. unat x + 256 * a) b 0"

definition f64_exponent :: "byte list \<Rightarrow> nat" where "f64_exponent b = f64_nat b div 2 ^ 52 mod 2048"
definition f64_mantissa :: "byte list \<Rightarrow> nat" where "f64_mantissa b = f64_nat b mod 2 ^ 52"
definition f64_negative :: "byte list \<Rightarrow> bool" where "f64_negative b \<longleftrightarrow> f64_nat b \<ge> 2 ^ 63"

definition f64_nan :: "byte list \<Rightarrow> bool" where
  "f64_nan b \<longleftrightarrow> f64_exponent b = 2047 \<and> f64_mantissa b \<noteq> 0"

definition f64_zero :: "byte list \<Rightarrow> bool" where
  "f64_zero b \<longleftrightarrow> f64_exponent b = 0 \<and> f64_mantissa b = 0"

definition f64_bytes :: "nat \<Rightarrow> byte list" where
  "f64_bytes n = map (\<lambda>i. of_nat (n div 256 ^ i)) [0..<8]"

text \<open>The representation of an integer, rounded as \<open>Number\<close> rounds it.\<close>

definition f64_of_int :: "int \<Rightarrow> byte list" where
  "f64_of_int i =
     (let n = js_number (nat \<bar>i\<bar>); k = bit_length n;
          m = (if k \<le> 53 then n * 2 ^ (53 - k) else n div 2 ^ (k - 53))
      in if n = 0 then f64_bytes 0
         else f64_bytes ((if i < 0 then 2 ^ 63 else 0) + (1022 + k) * 2 ^ 52 + (m - 2 ^ 52)))"

text \<open>\<open>Math.trunc\<close>, undefined at the infinities.\<close>

definition f64_trunc :: "byte list \<Rightarrow> int option" where
  "f64_trunc b =
     (let e = f64_exponent b; m = 2 ^ 52 + f64_mantissa b;
          n = (if e = 0 then 0 else if e \<ge> 1075 then m * 2 ^ (e - 1075) else m div 2 ^ (1075 - e))
      in if e = 2047 then None else Some (if f64_negative b then - int n else int n))"

section \<open>Coercions\<close>

fun truthy_val :: "jsval \<Rightarrow> bool" where
  "truthy_val VNull = False"
| "truthy_val (VBool b) = b"
| "truthy_val (VNum n) = (n \<noteq> 0)"
| "truthy_val (VBig n) = (n \<noteq> 0)"
| "truthy_val (VF64 b) = (\<not> f64_nan b \<and> \<not> f64_zero b)"
| "truthy_val (VStr s) = (s \<noteq> [])"
| "truthy_val _ = True"

text \<open>\<open>Math.trunc(Number(value) || 0)\<close> as a \<open>BigInt\<close>\<close>

fun integer_of :: "jsval \<Rightarrow> int wire" where
  "integer_of (VNum n) = Inr n"
| "integer_of (VBool b) = Inr (if b then 1 else 0)"
| "integer_of (VBig n) = Inr (if n < 0 then - int (js_number (nat (- n))) else int (js_number (nat n)))"
| "integer_of (VF64 b) =
     (if f64_nan b then Inr 0 else case f64_trunc b of None \<Rightarrow> Inl Not_Integral | Some i \<Rightarrow> Inr i)"
| "integer_of _ = Inl Not_Covered"

text \<open>\<open>String(value)\<close>\<close>

fun string_of_val :: "jsval \<Rightarrow> string wire" where
  "string_of_val (VStr s) = Inr s"
| "string_of_val (VNum n) = Inr (int_str n)"
| "string_of_val (VBig n) = Inr (int_str n)"
| "string_of_val (VBool b) = Inr (if b then ''true'' else ''false'')"
| "string_of_val _ = Inl Not_Covered"

definition to_bytes :: "string \<Rightarrow> byte list" where "to_bytes s = map of_char s"
definition of_bytes :: "byte list \<Rightarrow> string" where "of_bytes b = map (\<lambda>w. char_of (unat w)) b"

fun bytes_of_val :: "jsval \<Rightarrow> byte list wire" where
  "bytes_of_val (VBytes b) = Inr b"
| "bytes_of_val VNull = Inr []"
| "bytes_of_val (VBool _) = Inr []"
| "bytes_of_val (VNum _) = Inr []"
| "bytes_of_val (VF64 _) = Inr []"
| "bytes_of_val (VArr xs) =
     (if list_all (\<lambda>x. case x of VNum _ \<Rightarrow> True | _ \<Rightarrow> False) xs
      then Inr (map (\<lambda>x. case x of VNum n \<Rightarrow> of_int n | _ \<Rightarrow> 0) xs) else Inl Not_Covered)"
| "bytes_of_val (VStr s) = (if s = [] then Inr [] else Inl Not_Covered)"
| "bytes_of_val _ = Inl Not_Covered"

fun double_of :: "jsval \<Rightarrow> byte list wire" where
  "double_of (VF64 b) = Inr (if f64_nan b \<or> f64_zero b then f64_bytes 0 else b)"
| "double_of (VNum n) = Inr (f64_of_int n)"
| "double_of (VBig n) = Inr (f64_of_int n)"
| "double_of (VBool b) = Inr (f64_of_int (if b then 1 else 0))"
| "double_of _ = Inl Not_Covered"

section \<open>The writer\<close>

text \<open>What is still negative after two's complement leaves one byte.\<close>

definition write_varint :: "int \<Rightarrow> byte list" where
  "write_varint v =
     (let r = (if v < 0 then v + 2 ^ 64 else v)
      in if r < 0 then [of_int r AND 0x7F] else varint_bytes (nat r))"

definition write_tag :: "nat \<Rightarrow> nat \<Rightarrow> byte list" where
  "write_tag no wire = write_varint (int (no * 8 + wire))"

definition zigzag :: "int \<Rightarrow> nat \<Rightarrow> int" where
  "zigzag v bits = take_bit bits (push_bit 1 v XOR drop_bit (bits - 1) v)"

definition unzigzag :: "int \<Rightarrow> int" where
  "unzigzag v = drop_bit 1 v XOR - (v AND 1)"

definition write_delimited :: "nat \<Rightarrow> byte list \<Rightarrow> byte list" where
  "write_delimited no b = write_tag no 2 @ write_varint (int (length b)) @ b"

definition map_wire :: "('a \<Rightarrow> 'b) \<Rightarrow> 'a wire \<Rightarrow> 'b wire" where
  "map_wire f r = (case r of Inl e \<Rightarrow> Inl e | Inr x \<Rightarrow> Inr (f x))"

definition bind_wire :: "'a wire \<Rightarrow> ('a \<Rightarrow> 'b wire) \<Rightarrow> 'b wire" where
  "bind_wire r f = (case r of Inl e \<Rightarrow> Inl e | Inr x \<Rightarrow> f x)"

text \<open>A \<open>BigInt\<close> is written as it is.\<close>

definition plain_integer :: "jsval \<Rightarrow> int wire" where
  "plain_integer v = (case v of VBig n \<Rightarrow> Inr n | _ \<Rightarrow> integer_of v)"

fun write_scalar :: "nat \<Rightarrow> ftype \<Rightarrow> jsval \<Rightarrow> byte list wire" where
  "write_scalar no TBool v = Inr (write_tag no 0 @ write_varint (if truthy_val v then 1 else 0))"
| "write_scalar no TSint32 v = map_wire (\<lambda>i. write_tag no 0 @ write_varint (zigzag i 32)) (integer_of v)"
| "write_scalar no TSint64 v = map_wire (\<lambda>i. write_tag no 0 @ write_varint (zigzag i 64)) (integer_of v)"
| "write_scalar no TString v =
     map_wire (\<lambda>s. write_delimited no (to_bytes (text_encode s))) (string_of_val v)"
| "write_scalar no TBytes v = map_wire (write_delimited no) (bytes_of_val v)"
| "write_scalar no TDouble v = map_wire (append (write_tag no 1)) (double_of v)"
| "write_scalar no (TUnknown t) v = Inl (Unsupported_Type t)"
| "write_scalar no (TMessage m) v = Inl (Unsupported_Type ''message'')"
| "write_scalar no ty v = map_wire (\<lambda>i. write_tag no 0 @ write_varint i) (plain_integer v)"

fun prop_of :: "jsval \<Rightarrow> string \<Rightarrow> jsval option" where
  "prop_of (VObj kvs) k = map_of kvs k"
| "prop_of _ k = None"

definition items_of :: "bool \<Rightarrow> jsval \<Rightarrow> jsval list" where
  "items_of rep held = filter (\<lambda>x. x \<noteq> VNull) (case held of VArr xs \<Rightarrow> if rep then xs else [held] | _ \<Rightarrow> [held])"

fun concat_wire :: "byte list wire list \<Rightarrow> byte list wire" where
  "concat_wire [] = Inr []"
| "concat_wire (r # rs) = bind_wire r (\<lambda>b. map_wire (append b) (concat_wire rs))"

function encode_message :: "schema \<Rightarrow> jsval \<Rightarrow> byte list wire" where
  "encode_message [] v = Inr []"
| "encode_message ((name, Field no rep ty) # sch) v =
     bind_wire
       (case prop_of v name of
          None \<Rightarrow> Inr []
        | Some held \<Rightarrow> concat_wire (map (\<lambda>item.
            case ty of
              TMessage m \<Rightarrow> map_wire (write_delimited no) (encode_message m item)
            | _ \<Rightarrow> write_scalar no ty item) (items_of rep held)))
       (\<lambda>b. map_wire (append b) (encode_message sch v))"
  by pat_completeness auto
termination
  by (relation "measure (\<lambda>(sch, v). size_list (size_prod (\<lambda>_. 0) size) sch)") auto

section \<open>The reader\<close>

fun read_varint_from :: "nat \<Rightarrow> nat \<Rightarrow> byte list \<Rightarrow> (nat \<times> byte list) wire" where
  "read_varint_from shift result [] = Inl Truncated_Varint"
| "read_varint_from shift result (b # bs) =
     (let result' = result OR push_bit shift (unat (b AND 0x7F)) in
      if b AND 0x80 = 0 then Inr (result', bs)
      else if shift + 7 > 63 then Inl Varint_Overflow
      else read_varint_from (shift + 7) result' bs)"

definition read_varint :: "byte list \<Rightarrow> (nat \<times> byte list) wire" where
  "read_varint buf = read_varint_from 0 0 buf"

definition read_slice :: "nat \<Rightarrow> byte list \<Rightarrow> (byte list \<times> byte list) wire" where
  "read_slice n buf = (if n > length buf then Inl Truncated_Field else Inr (take n buf, drop n buf))"

text \<open>\<open>slice(Number(varint()))\<close>\<close>

definition read_delimited :: "byte list \<Rightarrow> (byte list \<times> byte list) wire" where
  "read_delimited buf = bind_wire (read_varint buf) (\<lambda>(n, rest). read_slice (js_number n) rest)"

text \<open>\<open>new TextDecoder().decode\<close> drops one byte order mark.\<close>

definition decode_string :: "byte list \<Rightarrow> string" where
  "decode_string b =
     (let s = of_bytes b
      in utf8_lossy (if starts_with [CHR 0xEF, CHR 0xBB, CHR 0xBF] s then drop 3 s else s))"

definition number_val :: "int \<Rightarrow> jsval" where
  "number_val i = VNum (if i < 0 then - int (js_number (nat (- i))) else int (js_number (nat i)))"

fun varint_val :: "ftype \<Rightarrow> nat \<Rightarrow> jsval" where
  "varint_val TBool raw = VBool (raw \<noteq> 0)"
| "varint_val TSint32 raw = number_val (unzigzag (int raw))"
| "varint_val TSint64 raw = number_val (unzigzag (int raw))"
| "varint_val TInt32 raw = number_val (signed_take_bit 31 (int raw))"
| "varint_val TInt64 raw = number_val (signed_take_bit 63 (int raw))"
| "varint_val _ raw = number_val (int raw)"

definition read_scalar :: "nat \<Rightarrow> ftype \<Rightarrow> byte list \<Rightarrow> (jsval \<times> byte list) wire" where
  "read_scalar wire ty buf =
     (if wire = 0 then map_wire (\<lambda>(raw, rest). (varint_val ty raw, rest)) (read_varint buf)
      else if wire = 2 then
        map_wire (\<lambda>(b, rest). (if ty = TString then VStr (decode_string b) else VBytes b, rest)) (read_delimited buf)
      else if wire = 1 then
        map_wire (\<lambda>(b, rest). (if ty = TDouble then VF64 b else number_val (int (f64_nat b)), rest)) (read_slice 8 buf)
      else if wire = 5 then
        map_wire (\<lambda>(b, rest). (number_val (int (f64_nat b)), rest)) (read_slice 4 buf)
      else Inl (Unsupported_Wire wire))"

definition skip_field :: "nat \<Rightarrow> byte list \<Rightarrow> byte list wire" where
  "skip_field wire buf =
     (if wire = 0 then map_wire snd (read_varint buf)
      else if wire = 2 then map_wire snd (read_delimited buf)
      else if wire = 1 then map_wire snd (read_slice 8 buf)
      else if wire = 5 then map_wire snd (read_slice 4 buf)
      else Inl (Unsupported_Wire wire))"

text \<open>The last field of a number counts, as in a \<open>Map\<close> that is filled in order.\<close>

definition by_number :: "schema \<Rightarrow> nat \<Rightarrow> (string \<times> field) option" where
  "by_number sch no = map_of (map (\<lambda>(name, f). (f_no f, (name, f))) (rev sch)) no"

definition push_val :: "string \<Rightarrow> jsval \<Rightarrow> (string \<times> jsval) list \<Rightarrow> (string \<times> jsval) list" where
  "push_val name v out =
     AList.update name (VArr ((case map_of out name of Some (VArr xs) \<Rightarrow> xs | _ \<Rightarrow> []) @ [v])) out"

definition store_val :: "string \<Rightarrow> bool \<Rightarrow> jsval \<Rightarrow> (string \<times> jsval) list \<Rightarrow> (string \<times> jsval) list" where
  "store_val name rep v out = (if rep then push_val name v out else AList.update name v out)"

definition ensure_array :: "string \<Rightarrow> (string \<times> jsval) list \<Rightarrow> (string \<times> jsval) list" where
  "ensure_array name out = (case map_of out name of None \<Rightarrow> AList.update name (VArr []) out | Some _ \<Rightarrow> out)"

lemma read_varint_from_shorter: "read_varint_from s r buf = Inr (n, rest) \<Longrightarrow> length rest < length buf"
  by (induction s r buf rule: read_varint_from.induct) (auto simp: Let_def less_Suc_eq split: if_splits)

lemma read_varint_shorter: "read_varint buf = Inr (n, rest) \<Longrightarrow> length rest < length buf"
  unfolding read_varint_def by (rule read_varint_from_shorter)

lemma read_slice_shorter: "read_slice n buf = Inr (b, rest) \<Longrightarrow> length b + length rest = length buf"
  by (auto simp: read_slice_def split: if_splits)

lemma map_wire_Inr [simp]: "map_wire f r = Inr y \<longleftrightarrow> (\<exists>x. r = Inr x \<and> y = f x)"
  by (auto simp: map_wire_def split: sum.splits)

lemma bind_wire_Inr [simp]: "bind_wire r f = Inr y \<longleftrightarrow> (\<exists>x. r = Inr x \<and> f x = Inr y)"
  by (auto simp: bind_wire_def split: sum.splits)

lemma read_delimited_shorter: "read_delimited buf = Inr (b, rest) \<Longrightarrow> length b + length rest < length buf"
  unfolding read_delimited_def by (auto dest!: read_varint_shorter read_slice_shorter)

lemma skip_field_shorter: "skip_field w buf = Inr rest \<Longrightarrow> length rest \<le> length buf"
  by (auto simp: skip_field_def dest!: read_varint_shorter read_delimited_shorter read_slice_shorter split: if_splits)

lemma read_scalar_shorter: "read_scalar w ty buf = Inr (v, rest) \<Longrightarrow> length rest \<le> length buf"
  by (auto simp: read_scalar_def dest!: read_varint_shorter read_delimited_shorter read_slice_shorter split: if_splits)

text \<open>The packed run of a repeated scalar.\<close>

function read_packed :: "ftype \<Rightarrow> byte list \<Rightarrow> jsval list wire" where
  "read_packed ty buf =
     (if buf = [] then Inr []
      else case read_varint buf of
          Inl e \<Rightarrow> Inl e
        | Inr (raw, rest) \<Rightarrow> map_wire (Cons (varint_val ty raw)) (read_packed ty rest))"
  by pat_completeness auto
termination
  by (relation "measure (\<lambda>(ty, buf). length buf)") (auto dest: read_varint_shorter)

declare read_packed.simps [simp del]

text \<open>What a tag announces.\<close>

datatype announced = Skipped | Nested string bool schema | Packed string ftype | Scalar string bool ftype

definition announce :: "schema \<Rightarrow> nat \<Rightarrow> nat \<Rightarrow> announced" where
  "announce sch no wire =
     (case by_number sch no of
        None \<Rightarrow> Skipped
      | Some (name, Field _ rep ty) \<Rightarrow>
          (case ty of
             TMessage m \<Rightarrow> if wire = 2 then Nested name rep m else Skipped
           | _ \<Rightarrow> if rep \<and> ty \<in> set VARINT_TYPES \<and> wire = 2 then Packed name ty else Scalar name rep ty))"

text \<open>\<open>tag >>> 3\<close> and \<open>tag & 7\<close> see the tag modulo \<open>2 ^ 32\<close>.\<close>

function decode_loop :: "schema \<Rightarrow> byte list \<Rightarrow> (string \<times> jsval) list \<Rightarrow> (string \<times> jsval) list wire" where
  "decode_loop sch buf out =
     (if buf = [] then Inr out
      else case read_varint buf of
          Inl e \<Rightarrow> Inl e
        | Inr (raw, rest) \<Rightarrow>
            (let tag = js_number raw mod 2 ^ 32 in
             case announce sch (drop_bit 3 tag) (tag AND 7) of
               Skipped \<Rightarrow>
                 (case skip_field (tag AND 7) rest of Inl e \<Rightarrow> Inl e | Inr rest' \<Rightarrow> decode_loop sch rest' out)
             | Nested name rep m \<Rightarrow>
                 (case read_delimited rest of
                    Inl e \<Rightarrow> Inl e
                  | Inr (b, rest') \<Rightarrow>
                      (case decode_loop m b [] of
                         Inl e \<Rightarrow> Inl e
                       | Inr kvs \<Rightarrow> decode_loop sch rest' (store_val name rep (VObj kvs) out)))
             | Packed name ty \<Rightarrow>
                 (case read_delimited rest of
                    Inl e \<Rightarrow> Inl e
                  | Inr (b, rest') \<Rightarrow>
                      (case read_packed ty b of
                         Inl e \<Rightarrow> Inl e
                       | Inr vs \<Rightarrow> decode_loop sch rest' (fold (push_val name) vs (ensure_array name out))))
             | Scalar name rep ty \<Rightarrow>
                 (case read_scalar (tag AND 7) ty rest of
                    Inl e \<Rightarrow> Inl e
                  | Inr (v, rest') \<Rightarrow> decode_loop sch rest' (store_val name rep v out))))"
  by pat_completeness auto
termination
  by (relation "measure (\<lambda>(sch, buf, out). length buf)")
    (auto dest!: read_varint_shorter skip_field_shorter read_delimited_shorter read_scalar_shorter)

declare decode_loop.simps [simp del]

definition decode_message :: "schema \<Rightarrow> byte list \<Rightarrow> jsval wire" where
  "decode_message sch buf = map_wire VObj (decode_loop sch buf [])"

section \<open>Values that fit a schema\<close>

lemma field_type_size [termination_simp]:
  "(a, b) \<in> set sch \<Longrightarrow> size (f_type b) < Suc (size_list (\<lambda>x. Suc (size (snd x))) sch)"
  using size_list_estimation' [of "(a, b)" sch "size (f_type b)" "\<lambda>x. Suc (size (snd x))"] by (cases b) simp

text \<open>A schema has distinct names and distinct numbers that leave room for the tag.\<close>

fun ty_ok :: "ftype \<Rightarrow> bool" where
  "ty_ok (TMessage sch) \<longleftrightarrow> distinct (map fst sch) \<and> distinct (map (f_no \<circ> snd) sch) \<and>
     (\<forall>x \<in> set sch. f_no (snd x) < 2 ^ 29 \<and> ty_ok (f_type (snd x)))"
| "ty_ok (TUnknown t) \<longleftrightarrow> False"
| "ty_ok _ \<longleftrightarrow> True"

text \<open>The properties of an object that a schema names, in its order.\<close>

definition picked :: "schema \<Rightarrow> (string \<times> jsval) list \<Rightarrow> (string \<times> jsval) list" where
  "picked sch kvs = List.map_filter (\<lambda>x. map_option (Pair (fst x)) (map_of kvs (fst x))) sch"

definition fits_string :: "string \<Rightarrow> bool" where
  "fits_string s \<longleftrightarrow> utf8_valid s \<and> \<not> starts_with [CHR 0xEF, CHR 0xBB, CHR 0xBF] s"

fun fits :: "ftype \<Rightarrow> jsval \<Rightarrow> bool" where
  "fits TBool v \<longleftrightarrow> (case v of VBool _ \<Rightarrow> True | _ \<Rightarrow> False)"
| "fits TInt32 v \<longleftrightarrow> (case v of VNum n \<Rightarrow> - (2 ^ 31) \<le> n \<and> n < 2 ^ 31 | _ \<Rightarrow> False)"
| "fits TSint32 v \<longleftrightarrow> (case v of VNum n \<Rightarrow> - (2 ^ 31) \<le> n \<and> n < 2 ^ 31 | _ \<Rightarrow> False)"
| "fits TInt64 v \<longleftrightarrow> (case v of VNum n \<Rightarrow> \<bar>n\<bar> < 2 ^ 53 | _ \<Rightarrow> False)"
| "fits TSint64 v \<longleftrightarrow> (case v of VNum n \<Rightarrow> \<bar>n\<bar> < 2 ^ 53 | _ \<Rightarrow> False)"
| "fits TUint32 v \<longleftrightarrow> (case v of VNum n \<Rightarrow> 0 \<le> n \<and> n < 2 ^ 53 | _ \<Rightarrow> False)"
| "fits TUint64 v \<longleftrightarrow> (case v of VNum n \<Rightarrow> 0 \<le> n \<and> n < 2 ^ 53 | _ \<Rightarrow> False)"
| "fits TEnum v \<longleftrightarrow> (case v of VNum n \<Rightarrow> 0 \<le> n \<and> n < 2 ^ 53 | _ \<Rightarrow> False)"
| "fits TString v \<longleftrightarrow> (case v of VStr s \<Rightarrow> fits_string s | _ \<Rightarrow> False)"
| "fits TBytes v \<longleftrightarrow> (case v of VBytes _ \<Rightarrow> True | _ \<Rightarrow> False)"
| "fits TDouble v \<longleftrightarrow> (case v of VF64 b \<Rightarrow> length b = 8 \<and> \<not> f64_nan b \<and> \<not> f64_zero b | _ \<Rightarrow> False)"
| "fits (TUnknown t) v \<longleftrightarrow> False"
| "fits (TMessage sch) v \<longleftrightarrow>
     (case v of VObj kvs \<Rightarrow> picked sch kvs = kvs \<and>
        (\<forall>x \<in> set sch. case map_of kvs (fst x) of None \<Rightarrow> True
          | Some held \<Rightarrow>
              if f_repeated (snd x)
              then (case held of VArr items \<Rightarrow> items \<noteq> [] \<and> (\<forall>item \<in> set items. fits (f_type (snd x)) item)
                    | _ \<Rightarrow> False)
              else fits (f_type (snd x)) held)
      | _ \<Rightarrow> False)"

section \<open>Scalars round trip\<close>

lemma read_varint_from_decode:
  "s \<le> 63 \<Longrightarrow> read_varint_from s r buf = Inr x \<longleftrightarrow> decode_varint_from s r buf = Inr x"
proof (induction buf arbitrary: s r)
  case (Cons b bs)
  show ?case
  proof (cases "b AND 0x80 = 0 \<or> s + 7 \<le> 63")
    case True
    then show ?thesis using Cons by (auto simp: Let_def)
  next
    case False
    have "decode_varint_from (s + 7) y bs \<noteq> Inr x" for y using False by (cases bs) simp_all
    then show ?thesis using False Cons.prems by (simp add: Let_def)
  qed
qed simp

lemma read_varint_bytes: "n < 2 ^ 70 \<Longrightarrow> read_varint (varint_bytes n @ rest) = Inr (n, rest)"
  using decode_encode_varint [of n rest] by (simp add: read_varint_def decode_varint_def read_varint_from_decode)

lemma write_varint_nat: "0 \<le> v \<Longrightarrow> write_varint v = varint_bytes (nat v)"
  by (simp add: write_varint_def)

lemma write_varint_neg: "- (2 ^ 63) \<le> v \<Longrightarrow> v < 0 \<Longrightarrow> write_varint v = varint_bytes (nat (v + 2 ^ 64))"
  by (simp add: write_varint_def)

lemma js_number_small: "n < 2 ^ 53 \<Longrightarrow> js_number n = n"
  by (simp add: js_number_def)

lemma number_val_small: "\<bar>n\<bar> < 2 ^ 53 \<Longrightarrow> number_val n = VNum n"
  by (auto simp: number_val_def js_number_small nat_less_iff)

lemma read_write_delimited:
  "length b < 2 ^ 53 \<Longrightarrow> read_delimited (write_varint (int (length b)) @ b @ rest) = Inr (b, rest)"
  by (simp add: read_delimited_def write_varint_nat read_varint_bytes js_number_small read_slice_def bind_wire_def)

lemma signed_back:
  assumes "- (2 ^ k) \<le> v" "v < 2 ^ k" "k \<le> 63"
  shows "\<exists>raw. write_varint v = varint_bytes raw \<and> raw < 2 ^ 64 \<and> signed_take_bit k (int raw) = v"
proof (cases "0 \<le> v")
  case True
  have "(2::int) ^ k \<le> 2 ^ 63" using assms(3) by (intro power_increasing) simp_all
  then have "nat v < 2 ^ 64" using assms(2) True by (simp add: nat_less_iff)
  moreover have "signed_take_bit k v = v" using assms by (simp add: signed_take_bit_int_eq_self)
  ultimately show ?thesis using True by (intro exI [of _ "nat v"]) (simp add: write_varint_nat)
next
  case False
  have p: "(2::int) ^ k \<le> 2 ^ 63" using assms(3) by (intro power_increasing) simp_all
  then have b: "- (2 ^ 63) \<le> v" "0 \<le> v + 2 ^ 64" using assms(1) by simp_all
  have "take_bit (Suc k) (v + 2 ^ 64) = take_bit (Suc k) v"
  proof -
    have "(2::int) ^ Suc k dvd 2 ^ 64" using assms(3) by (intro le_imp_power_dvd) simp
    then obtain c :: int where c: "2 ^ 64 = 2 ^ Suc k * c" by (rule dvdE)
    show ?thesis unfolding take_bit_eq_mod c by simp
  qed
  then have "signed_take_bit k (v + 2 ^ 64) = signed_take_bit k v" by (simp add: signed_take_bit_eq_iff_take_bit_eq)
  moreover have "signed_take_bit k v = v" using assms by (simp add: signed_take_bit_int_eq_self)
  moreover have "nat (v + 2 ^ 64) < 2 ^ 64" using False b by (simp add: nat_less_iff)
  ultimately show ?thesis using False b
    by (intro exI [of _ "nat (v + 2 ^ 64)"]) (simp add: write_varint_neg)
qed

lemma zigzag_back:
  assumes "- (2 ^ (k - 1)) \<le> v" "v < 2 ^ (k - 1)" "0 < k" "k \<le> 64"
  shows "0 \<le> zigzag v k \<and> zigzag v k < 2 ^ k \<and> unzigzag (zigzag v k) = v"
proof -
  have two: "(2::int) ^ k = 2 * 2 ^ (k - 1)" using assms(3) by (cases k) simp_all
  show ?thesis
  proof (cases "0 \<le> v")
    case True
    then have "drop_bit (k - 1) v = 0" using assms(2) by (simp add: drop_bit_eq_div)
    then have "zigzag v k = 2 * v" using True assms(2) two
      by (simp add: zigzag_def push_bit_eq_mult take_bit_int_eq_self mult.commute)
    moreover have "(2 * v) AND 1 = 0" by (simp add: and_one_eq)
    ultimately show ?thesis using True assms(2) two by (simp add: unzigzag_def drop_bit_eq_div)
  next
    case False
    have "drop_bit (k - 1) v = - 1"
    proof -
      have "v div 2 ^ (k - 1) = - 1" using assms(1) False by (intro int_div_pos_eq [where r = "v + 2 ^ (k - 1)"]) simp_all
      then show ?thesis by (simp add: drop_bit_eq_div)
    qed
    then have "zigzag v k = take_bit k (- 2 * v - 1)"
      by (simp add: zigzag_def push_bit_eq_mult not_eq_complement mult.commute)
    then have z: "zigzag v k = - 2 * v - 1" using False assms(1) two by (simp add: take_bit_int_eq_self)
    have "(- 2 * v - 1) AND 1 = 1" by (simp add: and_one_eq) presburger
    moreover have "drop_bit 1 (- 2 * v - 1) = - v - 1" by (simp add: drop_bit_eq_div)
    ultimately have "unzigzag (- 2 * v - 1) = NOT (- v - 1)" by (simp add: unzigzag_def)
    then show ?thesis using z False assms(1) two by (simp add: not_eq_complement)
  qed
qed

lemma unat_of_char [simp]: "unat (of_char a :: byte) = of_char a"
proof -
  have "(of_char a :: byte) = of_nat (of_char a)" by (rule of_nat_of_char [symmetric])
  moreover have "of_char a < (256 :: nat)" by (rule nat_of_char_less_256)
  ultimately show ?thesis by (simp only: unat_of_nat) simp
qed

lemma of_to_bytes [simp]: "of_bytes (to_bytes s) = s"
  by (induction s) (simp_all add: of_bytes_def to_bytes_def)

lemma string_back: "fits_string s \<Longrightarrow> decode_string (to_bytes (text_encode s)) = s"
  by (simp add: fits_string_def text_encode_valid decode_string_def utf8_lossy_valid Let_def)

text \<open>The wire type of what is written for a type, and how a scalar is read back.\<close>

fun wire_of :: "ftype \<Rightarrow> nat" where
  "wire_of TString = 2"
| "wire_of TBytes = 2"
| "wire_of (TMessage m) = 2"
| "wire_of TDouble = 1"
| "wire_of _ = 0"

definition reads_back :: "nat \<Rightarrow> ftype \<Rightarrow> jsval \<Rightarrow> byte list wire \<Rightarrow> bool" where
  "reads_back no ty v r \<longleftrightarrow>
     (\<exists>body. r = Inr (write_tag no (wire_of ty) @ body) \<and>
        (length body < 2 ^ 53 \<longrightarrow> (\<forall>rest. read_scalar (wire_of ty) ty (body @ rest) = Inr (v, rest))))"

lemma reads_back_varint:
  assumes "wire_of ty = 0" "raw < 2 ^ 70" "varint_val ty raw = v" "r = Inr (write_tag no 0 @ varint_bytes raw)"
  shows "reads_back no ty v r"
  using assms by (auto simp: reads_back_def read_scalar_def read_varint_bytes map_wire_def)

lemma reads_back_delimited:
  assumes "wire_of ty = 2" "(if ty = TString then VStr (decode_string b) else VBytes b) = v"
    "r = Inr (write_delimited no b)"
  shows "reads_back no ty v r"
  using assms by (auto simp: reads_back_def read_scalar_def write_delimited_def map_wire_def read_write_delimited)

lemma scalar_back:
  assumes "fits ty v" and "\<forall>m. ty \<noteq> TMessage m"
  shows "reads_back no ty v (write_scalar no ty v)"
proof (cases ty)
  case TBool
  then obtain b where "v = VBool b" using assms(1) by (auto split: jsval.splits)
  then show ?thesis using TBool
    by (intro reads_back_varint [of _ "if b then 1 else 0"]) (simp_all add: write_varint_nat)
next
  case TInt32
  then obtain n where n: "v = VNum n" "- (2 ^ 31) \<le> n" "n < 2 ^ 31" using assms(1) by (auto split: jsval.splits)
  from signed_back [OF n(2,3)] obtain raw where raw: "write_varint n = varint_bytes raw" "raw < 2 ^ 64"
      "signed_take_bit 31 (int raw) = n" by auto
  then show ?thesis using TInt32 n
    by (intro reads_back_varint [of _ raw]) (simp_all add: number_val_small map_wire_def plain_integer_def)
next
  case TInt64
  then obtain n where n: "v = VNum n" "\<bar>n\<bar> < 2 ^ 53" using assms(1) by (auto split: jsval.splits)
  have "- (2 ^ 63) \<le> n" "n < 2 ^ 63" using n(2) by simp_all
  from signed_back [OF this] obtain raw where raw: "write_varint n = varint_bytes raw" "raw < 2 ^ 64"
      "signed_take_bit 63 (int raw) = n" by auto
  then show ?thesis using TInt64 n
    by (intro reads_back_varint [of _ raw]) (simp_all add: number_val_small map_wire_def plain_integer_def)
next
  case TSint32
  then obtain n where n: "v = VNum n" "- (2 ^ 31) \<le> n" "n < 2 ^ 31" using assms(1) by (auto split: jsval.splits)
  have "0 \<le> zigzag n 32 \<and> zigzag n 32 < 2 ^ 32 \<and> unzigzag (zigzag n 32) = n"
    by (rule zigzag_back) (use n in simp_all)
  then show ?thesis using TSint32 n
    by (intro reads_back_varint [of _ "nat (zigzag n 32)"])
      (simp_all add: number_val_small map_wire_def write_varint_nat nat_less_iff)
next
  case TSint64
  then obtain n where n: "v = VNum n" "\<bar>n\<bar> < 2 ^ 53" using assms(1) by (auto split: jsval.splits)
  have "0 \<le> zigzag n 64 \<and> zigzag n 64 < 2 ^ 64 \<and> unzigzag (zigzag n 64) = n"
    by (rule zigzag_back) (use n in simp_all)
  then show ?thesis using TSint64 n
    by (intro reads_back_varint [of _ "nat (zigzag n 64)"])
      (simp_all add: number_val_small map_wire_def write_varint_nat nat_less_iff)
next
  case TString
  then obtain s where s: "v = VStr s" "fits_string s" using assms(1) by (auto split: jsval.splits)
  then show ?thesis using TString
    by (intro reads_back_delimited [of _ "to_bytes (text_encode s)"]) (simp_all add: string_back map_wire_def)
next
  case TBytes
  then obtain b where "v = VBytes b" using assms(1) by (auto split: jsval.splits)
  then show ?thesis using TBytes by (intro reads_back_delimited [of _ b]) (simp_all add: map_wire_def)
next
  case TDouble
  then obtain b where b: "v = VF64 b" "length b = 8" "\<not> f64_nan b" "\<not> f64_zero b"
    using assms(1) by (auto split: jsval.splits)
  then show ?thesis using TDouble by (auto simp: reads_back_def map_wire_def read_scalar_def read_slice_def)
next
  case (TMessage m)
  then show ?thesis using assms(2) by simp
next
  case TUint32
  then obtain n where n: "v = VNum n" "0 \<le> n" "n < 2 ^ 53" using assms(1) by (auto split: jsval.splits)
  then show ?thesis using TUint32
    by (intro reads_back_varint [of _ "nat n"])
      (simp_all add: number_val_small map_wire_def write_varint_nat nat_less_iff plain_integer_def)
next
  case TUint64
  then obtain n where n: "v = VNum n" "0 \<le> n" "n < 2 ^ 53" using assms(1) by (auto split: jsval.splits)
  then show ?thesis using TUint64
    by (intro reads_back_varint [of _ "nat n"])
      (simp_all add: number_val_small map_wire_def write_varint_nat nat_less_iff plain_integer_def)
next
  case TEnum
  then obtain n where n: "v = VNum n" "0 \<le> n" "n < 2 ^ 53" using assms(1) by (auto split: jsval.splits)
  then show ?thesis using TEnum
    by (intro reads_back_varint [of _ "nat n"])
      (simp_all add: number_val_small map_wire_def write_varint_nat nat_less_iff plain_integer_def)
qed (use assms in simp_all)

section \<open>Messages round trip\<close>

lemma read_tag:
  assumes "no < 2 ^ 29" "w < 8"
  shows "read_varint (write_tag no w @ rest) = Inr (no * 8 + w, rest)"
    and "js_number (no * 8 + w) mod 2 ^ 32 = no * 8 + w"
    and "drop_bit 3 (no * 8 + w) = no" and "(no * 8 + w) AND 7 = w"
proof -
  have small: "no * 8 + w < 2 ^ 32" using assms by simp
  then have "no * 8 + w < 2 ^ 70" "no * 8 + w < 2 ^ 53" by simp_all
  then show "read_varint (write_tag no w @ rest) = Inr (no * 8 + w, rest)"
      "js_number (no * 8 + w) mod 2 ^ 32 = no * 8 + w"
    using small by (simp_all add: write_tag_def write_varint_nat read_varint_bytes nat_int js_number_small del: of_nat_add of_nat_mult)
  show "drop_bit 3 (no * 8 + w) = no" using assms(2) by (simp add: drop_bit_eq_div)
  have "(no * 8 + w) AND 7 = take_bit 3 (no * 8 + w)"
    by (simp add: take_bit_eq_mask mask_eq_exp_minus_1)
  then show "(no * 8 + w) AND 7 = w" using assms(2) by (simp add: take_bit_eq_mod)
qed

lemma write_varint_nonempty [simp]: "write_varint v \<noteq> []"
  by (auto simp: write_varint_def varint_bytes.simps Let_def)

lemma wire_of_less: "wire_of ty < 8"
  by (cases ty) simp_all

lemma decode_scalar:
  assumes "announce sch no (wire_of ty) = Scalar name rep ty" "no < 2 ^ 29"
    and "read_scalar (wire_of ty) ty (body @ rest) = Inr (v, rest)"
  shows "decode_loop sch (write_tag no (wire_of ty) @ body @ rest) out = decode_loop sch rest (store_val name rep v out)"
  using read_tag [OF assms(2) wire_of_less, of ty] assms(1,3)
  by (subst decode_loop.simps) (simp add: Let_def write_tag_def)

lemma decode_nested:
  assumes "announce sch no 2 = Nested name rep m" "no < 2 ^ 29" "length b < 2 ^ 53"
    and "decode_loop m b [] = Inr kvs"
  shows "decode_loop sch (write_delimited no b @ rest) out = decode_loop sch rest (store_val name rep (VObj kvs) out)"
  using read_tag [OF assms(2), of 2] assms(1,3,4) read_write_delimited [OF assms(3), of rest]
  by (subst decode_loop.simps) (simp add: Let_def write_tag_def write_delimited_def)

lemma by_number_entry:
  assumes "ty_ok (TMessage sch)" "(name, f) \<in> set sch"
  shows "by_number sch (f_no f) = Some (name, f)"
  unfolding by_number_def
proof (rule map_of_is_SomeI)
  have "map fst (map (\<lambda>(name, f). (f_no f, name, f)) (rev sch)) = rev (map (f_no \<circ> snd) sch)"
    by (simp add: rev_map comp_def split_def)
  then show "distinct (map fst (map (\<lambda>(name, f). (f_no f, name, f)) (rev sch)))" using assms(1) by simp
qed (use assms(2) in force)

lemma announce_entry:
  assumes "ty_ok (TMessage sch)" "(name, Field no rep ty) \<in> set sch"
  shows "announce sch no (wire_of ty) = (case ty of TMessage m \<Rightarrow> Nested name rep m | _ \<Rightarrow> Scalar name rep ty)"
  using by_number_entry [OF assms] by (cases ty) (simp_all add: announce_def VARINT_TYPES_def)

definition item_wire :: "nat \<Rightarrow> ftype \<Rightarrow> jsval \<Rightarrow> byte list wire" where
  "item_wire no ty item = (case ty of
     TMessage m \<Rightarrow> map_wire (write_delimited no) (encode_message m item) | _ \<Rightarrow> write_scalar no ty item)"

text \<open>What is written for some values of one field is stored when it is read.\<close>

definition stored :: "schema \<Rightarrow> string \<Rightarrow> bool \<Rightarrow> jsval list \<Rightarrow> byte list wire \<Rightarrow> bool" where
  "stored sch name rep items r \<longleftrightarrow> (\<exists>b. r = Inr b \<and> (length b < 2 ^ 53 \<longrightarrow>
     (\<forall>rest out. decode_loop sch (b @ rest) out = decode_loop sch rest (fold (store_val name rep) items out))))"

lemma stored_item:
  assumes ok: "ty_ok (TMessage sch)" "(name, Field no rep ty) \<in> set sch"
    and fit: "fits ty item"
    and nested: "\<And>m. ty = TMessage m \<Longrightarrow> \<exists>b kvs. encode_message m item = Inr b \<and> item = VObj kvs \<and>
      (length b < 2 ^ 53 \<longrightarrow> decode_loop m b [] = Inr kvs)"
  shows "stored sch name rep [item] (item_wire no ty item)"
proof -
  have no: "no < 2 ^ 29" using ok by fastforce
  show ?thesis
  proof (cases "\<exists>m. ty = TMessage m")
    case True
    then obtain m where m: "ty = TMessage m" ..
    from nested [OF m] obtain b kvs where b: "encode_message m item = Inr b" "item = VObj kvs"
        "length b < 2 ^ 53 \<longrightarrow> decode_loop m b [] = Inr kvs" by blast
    have "announce sch no 2 = Nested name rep m" using announce_entry [OF ok] m by simp
    moreover have "length (write_delimited no b) < 2 ^ 53 \<Longrightarrow> length b < 2 ^ 53" by (simp add: write_delimited_def)
    ultimately show ?thesis using decode_nested [OF _ no] b m by (auto simp: stored_def item_wire_def map_wire_def)
  next
    case False
    then have s: "item_wire no ty item = write_scalar no ty item" by (cases ty) (simp_all add: item_wire_def)
    have a: "announce sch no (wire_of ty) = Scalar name rep ty"
      using announce_entry [OF ok] False by (cases ty) simp_all
    from scalar_back [OF fit, of no] False obtain body where
      body: "write_scalar no ty item = Inr (write_tag no (wire_of ty) @ body)"
      "length body < 2 ^ 53 \<longrightarrow> (\<forall>rest. read_scalar (wire_of ty) ty (body @ rest) = Inr (item, rest))"
      by (auto simp: reads_back_def)
    then show ?thesis using decode_scalar [OF a no] by (auto simp: stored_def s)
  qed
qed

lemma stored_items:
  "(\<And>item. item \<in> set items \<Longrightarrow> stored sch name rep [item] (f item)) \<Longrightarrow>
   stored sch name rep items (concat_wire (map f items))"
proof (induction items)
  case Nil
  then show ?case by (simp add: stored_def)
next
  case (Cons item items)
  from Cons.prems [of item] obtain b where b: "f item = Inr b"
    "length b < 2 ^ 53 \<longrightarrow> (\<forall>rest out. decode_loop sch (b @ rest) out = decode_loop sch rest (store_val name rep item out))"
    by (auto simp: stored_def)
  from Cons obtain c where c: "concat_wire (map f items) = Inr c" "length c < 2 ^ 53 \<longrightarrow>
     (\<forall>rest out. decode_loop sch (c @ rest) out = decode_loop sch rest (fold (store_val name rep) items out))"
    by (auto simp: stored_def)
  with b show ?case by (simp add: stored_def bind_wire_def map_wire_def)
qed

lemma update_new: "k \<notin> fst ` set out \<Longrightarrow> AList.update k v out = out @ [(k, v)]"
  by (induction out) auto

lemma update_last: "k \<notin> fst ` set out \<Longrightarrow> AList.update k v (out @ [(k, w)]) = out @ [(k, v)]"
  by (induction out) auto

lemma map_of_last: "k \<notin> fst ` set out \<Longrightarrow> map_of (out @ [(k, w)]) k = Some w"
  by (induction out) auto

lemma push_last:
  assumes "name \<notin> fst ` set out"
  shows "push_val name x (out @ [(name, VArr xs)]) = out @ [(name, VArr (xs @ [x]))]"
  unfolding push_val_def map_of_last [OF assms] update_last [OF assms] by simp

lemma fold_push:
  "name \<notin> fst ` set out \<Longrightarrow>
   fold (push_val name) items (out @ [(name, VArr xs)]) = out @ [(name, VArr (xs @ items))]"
  by (induction items arbitrary: xs) (simp_all add: push_last)

lemma fold_store:
  assumes "name \<notin> fst ` set out" "items \<noteq> []"
  shows "fold (push_val name) items out = out @ [(name, VArr items)]"
proof -
  obtain x xs where items: "items = x # xs" using assms(2) by (cases items) auto
  have "map_of out name = None" using assms(1) by (simp add: map_of_eq_None_iff)
  then have "push_val name x out = out @ [(name, VArr [x])]"
    by (simp add: push_val_def update_new [OF assms(1)])
  then show ?thesis using fold_push [OF assms(1), of xs "[x]"] items by simp
qed

lemma fits_not_null: "fits ty v \<Longrightarrow> v \<noteq> VNull"
  by (cases ty) auto

lemma fits_not_array: "fits ty v \<Longrightarrow> v \<noteq> VArr xs"
  by (cases ty) auto

definition field_fits :: "field \<Rightarrow> jsval \<Rightarrow> bool" where
  "field_fits f held \<longleftrightarrow>
     (if f_repeated f
      then (case held of VArr items \<Rightarrow> items \<noteq> [] \<and> (\<forall>item \<in> set items. fits (f_type f) item) | _ \<Rightarrow> False)
      else fits (f_type f) held)"

lemma field_items:
  assumes "field_fits (Field no rep ty) held" "name \<notin> fst ` set out"
  shows "\<forall>item \<in> set (items_of rep held). fits ty item"
    and "fold (store_val name rep) (items_of rep held) out = out @ [(name, held)]"
proof -
  have "(\<forall>item \<in> set (items_of rep held). fits ty item) \<and>
      fold (store_val name rep) (items_of rep held) out = out @ [(name, held)]"
  proof (cases rep)
    case True
    then obtain items where held: "held = VArr items" "items \<noteq> []" "\<forall>item \<in> set items. fits ty item"
      using assms(1) by (auto simp: field_fits_def split: jsval.splits)
    have "items_of rep held = items" using held True fits_not_null by (auto simp: items_of_def filter_id_conv)
    moreover have "store_val name rep = push_val name" using True by (intro ext) (simp add: store_val_def)
    ultimately show ?thesis using held fold_store [OF assms(2) held(2)] by simp
  next
    case False
    then have fit: "fits ty held" using assms(1) by (simp add: field_fits_def)
    then have "items_of rep held = [held]" using False fits_not_null [OF fit] fits_not_array [OF fit]
      by (auto simp: items_of_def split: jsval.splits)
    then show ?thesis using fit False by (simp add: store_val_def update_new [OF assms(2)])
  qed
  then show "\<forall>item \<in> set (items_of rep held). fits ty item"
    "fold (store_val name rep) (items_of rep held) out = out @ [(name, held)]" by simp_all
qed

lemma picked_Cons: "picked ((name, f) # sch) kvs =
    (case map_of kvs name of None \<Rightarrow> [] | Some held \<Rightarrow> [(name, held)]) @ picked sch kvs"
  by (simp add: picked_def map_filter_simps split: option.splits)

lemma fits_message:
  "fits (TMessage m) item \<longleftrightarrow> (\<exists>kvs. item = VObj kvs \<and> picked m kvs = kvs \<and>
     (\<forall>(name, f) \<in> set m. \<forall>held. map_of kvs name = Some held \<longrightarrow> field_fits f held))"
proof -
  have "(case map_of kvs (fst x) of None \<Rightarrow> True
      | Some held \<Rightarrow>
          if f_repeated (snd x)
          then (case held of VArr items \<Rightarrow> items \<noteq> [] \<and> (\<forall>item \<in> set items. fits (f_type (snd x)) item)
                | _ \<Rightarrow> False)
          else fits (f_type (snd x)) held) \<longleftrightarrow>
      (\<forall>held. map_of kvs (fst x) = Some held \<longrightarrow> field_fits (snd x) held)" for kvs and x :: "string \<times> field"
    by (cases "map_of kvs (fst x)") (simp_all add: field_fits_def)
  then show ?thesis by (cases item) (simp_all add: split_def)
qed

text \<open>The encoding of the fields from one on: an object whose properties fit is written, and reading it
  appends those properties.\<close>

definition reads_on :: "schema \<Rightarrow> schema \<Rightarrow> jsval \<Rightarrow> bool" where
  "reads_on full sch v \<longleftrightarrow> (\<exists>b kvs. v = VObj kvs \<and> encode_message sch v = Inr b \<and> (length b < 2 ^ 53 \<longrightarrow>
     (\<forall>rest out. fst ` set out \<inter> fst ` set sch = {} \<longrightarrow>
        decode_loop full (b @ rest) out = decode_loop full rest (out @ picked sch kvs))))"

lemma encode_back:
  "ty_ok (TMessage full) \<Longrightarrow> set sch \<subseteq> set full \<Longrightarrow> distinct (map fst sch) \<Longrightarrow> v = VObj kvs \<Longrightarrow>
   (\<And>name f held. (name, f) \<in> set sch \<Longrightarrow> map_of kvs name = Some held \<Longrightarrow> field_fits f held) \<Longrightarrow>
   reads_on full sch v"
proof (induction sch v arbitrary: full kvs rule: encode_message.induct)
  case (1 v)
  then show ?case by (simp add: picked_def map_filter_simps reads_on_def)
next
  case (2 name no rep ty sch v)
  have tail: "reads_on full sch v"
    by (rule "2.IH"(2) [where kvs = kvs]) (use "2.prems" in auto)
  then obtain c where c: "encode_message sch v = Inr c" "length c < 2 ^ 53 \<longrightarrow>
     (\<forall>rest out. fst ` set out \<inter> fst ` set sch = {} \<longrightarrow>
        decode_loop full (c @ rest) out = decode_loop full rest (out @ picked sch kvs))"
    using "2.prems"(4) by (auto simp: reads_on_def)
  have entry: "(name, Field no rep ty) \<in> set full" using "2.prems"(2) by simp
  have new: "name \<notin> fst ` set sch" using "2.prems"(3) by simp
  have writes: "encode_message ((name, Field no rep ty) # sch) v =
      bind_wire (case map_of kvs name of None \<Rightarrow> Inr [] | Some held \<Rightarrow> concat_wire (map (item_wire no ty) (items_of rep held)))
        (\<lambda>b. map_wire (append b) (encode_message sch v))"
    by (simp add: "2.prems"(4) item_wire_def [abs_def] cong: option.case_cong)
  show ?case
  proof (cases "map_of kvs name")
    case None
    then show ?thesis using writes c "2.prems"(4) by (auto simp: reads_on_def picked_Cons bind_wire_def map_wire_def)
  next
    case (Some held)
    have fit: "field_fits (Field no rep ty) held" using "2.prems"(5) [of name] Some by simp
    have "stored full name rep (items_of rep held) (concat_wire (map (item_wire no ty) (items_of rep held)))"
    proof (rule stored_items)
      fix item
      assume item: "item \<in> set (items_of rep held)"
      show "stored full name rep [item] (item_wire no ty item)"
      proof (rule stored_item [OF "2.prems"(1) entry])
        show fits: "fits ty item" using field_items(1) [OF fit, of name "[]"] item by simp
        fix m
        assume m: "ty = TMessage m"
        with fits obtain kvs' where kvs': "item = VObj kvs'" "picked m kvs' = kvs'"
            "\<forall>(name, f) \<in> set m. \<forall>held. map_of kvs' name = Some held \<longrightarrow> field_fits f held"
          by (auto simp: fits_message simp del: fits.simps)
        have ok: "ty_ok (TMessage m)" using "2.prems"(1) entry m by fastforce
        have "reads_on m m item"
        proof (rule "2.IH"(1) [OF _ item m ok _ _ kvs'(1)])
          show "prop_of v name = Some held" using Some "2.prems"(4) by simp
          show "distinct (map fst m)" using ok by simp
          show "field_fits f held" if "(n, f) \<in> set m" "map_of kvs' n = Some held" for n f held
            using kvs'(3) that by blast
        qed simp
        then obtain b where b: "encode_message m item = Inr b" "length b < 2 ^ 53 \<longrightarrow>
           (\<forall>rest out. fst ` set out \<inter> fst ` set m = {} \<longrightarrow>
              decode_loop m (b @ rest) out = decode_loop m rest (out @ picked m kvs'))"
          using kvs'(1) unfolding reads_on_def by blast
        have "length b < 2 ^ 53 \<longrightarrow> decode_loop m b [] = Inr kvs'"
          using b(2) [THEN mp, THEN spec [of _ "[]"], THEN spec [of _ "[]"]]
          by (simp add: kvs'(2) decode_loop.simps [of m "[]"])
        with b(1) kvs'(1) show "\<exists>b kvs. encode_message m item = Inr b \<and> item = VObj kvs \<and>
            (length b < 2 ^ 53 \<longrightarrow> decode_loop m b [] = Inr kvs)" by blast
      qed
    qed
    then obtain b where b: "concat_wire (map (item_wire no ty) (items_of rep held)) = Inr b" "length b < 2 ^ 53 \<longrightarrow>
        (\<forall>rest out. decode_loop full (b @ rest) out = decode_loop full rest (fold (store_val name rep) (items_of rep held) out))"
      by (auto simp: stored_def)
    have "decode_loop full ((b @ c) @ rest) out = decode_loop full rest (out @ picked ((name, Field no rep ty) # sch) kvs)"
      if "length (b @ c) < 2 ^ 53" "fst ` set out \<inter> fst ` set ((name, Field no rep ty) # sch) = {}" for rest out
    proof -
      have out: "name \<notin> fst ` set out" "fst ` set (out @ [(name, held)]) \<inter> fst ` set sch = {}"
        using that(2) new by auto
      have "decode_loop full (b @ c @ rest) out = decode_loop full (c @ rest) (out @ [(name, held)])"
        using b(2) that(1) field_items(2) [OF fit out(1)] by simp
      also have "\<dots> = decode_loop full rest ((out @ [(name, held)]) @ picked sch kvs)"
        using c(2) that(1) out(2) by (metis add_lessD1 add.commute length_append)
      finally show ?thesis by (simp add: picked_Cons Some)
    qed
    moreover have "encode_message ((name, Field no rep ty) # sch) v = Inr (b @ c)"
      unfolding writes by (simp add: Some b(1) c(1) bind_wire_def map_wire_def)
    ultimately show ?thesis unfolding reads_on_def using "2.prems"(4) by blast
  qed
qed

section \<open>The shape of what is decoded\<close>

definition named_field :: "schema \<Rightarrow> string \<Rightarrow> bool \<Rightarrow> bool" where
  "named_field sch name rep \<longleftrightarrow> (\<exists>no ty. (name, Field no rep ty) \<in> set sch)"

text \<open>An object has the shape of a schema: each property once and named by it, a repeated one an array,
  and nested objects in turn.\<close>

definition shaped :: "schema \<Rightarrow> (string \<times> jsval) list \<Rightarrow> bool" where
  "shaped sch kvs \<longleftrightarrow> distinct (map fst kvs) \<and>
     (\<forall>(name, v) \<in> set kvs. \<exists>rep. named_field sch name rep \<and> (rep \<longrightarrow> (\<exists>xs. v = VArr xs)))"

lemma update_member: "x \<in> set (AList.update k v xs) \<Longrightarrow> x = (k, v) \<or> x \<in> set xs"
  by (induction xs) (auto split: if_splits)

lemma shaped_update:
  "shaped sch out \<Longrightarrow> named_field sch name rep \<Longrightarrow> (rep \<longrightarrow> (\<exists>xs. v = VArr xs)) \<Longrightarrow> shaped sch (AList.update name v out)"
  unfolding shaped_def by (intro conjI distinct_update) (auto dest!: update_member)

lemma shaped_store: "shaped sch out \<Longrightarrow> named_field sch name rep \<Longrightarrow> shaped sch (store_val name rep v out)"
  by (auto simp: store_val_def push_val_def intro: shaped_update)

lemma shaped_push: "shaped sch out \<Longrightarrow> named_field sch name True \<Longrightarrow> shaped sch (fold (push_val name) vs out)"
  by (induction vs arbitrary: out) (auto simp: push_val_def intro: shaped_update)

lemma shaped_ensure: "shaped sch out \<Longrightarrow> named_field sch name True \<Longrightarrow> shaped sch (ensure_array name out)"
  by (auto simp: ensure_array_def intro: shaped_update split: option.splits)

lemma by_number_mem: "by_number sch no = Some (name, f) \<Longrightarrow> (name, f) \<in> set sch"
  by (auto simp: by_number_def dest!: map_of_SomeD)

lemma announce_named:
  "announce sch no w = Nested name rep m \<Longrightarrow> named_field sch name rep"
  "announce sch no w = Packed name ty \<Longrightarrow> named_field sch name True"
  "announce sch no w = Scalar name rep ty \<Longrightarrow> named_field sch name rep"
  by (auto simp: announce_def named_field_def dest!: by_number_mem split: option.splits field.splits ftype.splits if_splits)
    blast+

lemma decode_shaped: "decode_loop sch buf out = Inr kvs \<Longrightarrow> shaped sch out \<Longrightarrow> shaped sch kvs"
proof (induction sch buf out arbitrary: kvs rule: decode_loop.induct)
  case (1 sch buf out)
  show ?case
  proof (cases "buf = []")
    case True
    with 1 show ?thesis by (simp add: decode_loop.simps)
  next
    case False
    then obtain raw rest where raw: "read_varint buf = Inr (raw, rest)"
      using "1.prems"(1) by (subst (asm) decode_loop.simps) (auto split: sum.splits)
    define tag where "tag = js_number raw mod 2 ^ 32"
    note step = "1.prems"(1) [unfolded decode_loop.simps [of sch buf out] raw sum.case prod.case Let_def if_not_P [OF False],
        folded tag_def]
    show ?thesis
    proof (cases "announce sch (drop_bit 3 tag) (tag AND 7)")
      case Skipped
      then obtain rest' where "skip_field (tag AND 7) rest = Inr rest'" "decode_loop sch rest' out = Inr kvs"
        using step by (auto split: sum.splits)
      with "1.IH"(1) [OF False raw refl tag_def Skipped] "1.prems"(2) show ?thesis by blast
    next
      case (Nested name rep m)
      then obtain b rest' sub where "read_delimited rest = Inr (b, rest')" "decode_loop m b [] = Inr sub"
          "decode_loop sch rest' (store_val name rep (VObj sub) out) = Inr kvs"
        using step by (auto split: sum.splits)
      with "1.IH"(3) [OF False raw refl tag_def Nested] "1.prems"(2) announce_named(1) [OF Nested]
      show ?thesis using shaped_store by blast
    next
      case (Packed name ty)
      note step = step [unfolded Packed announced.case]
      then obtain r where r: "read_delimited rest = Inr r" by (cases "read_delimited rest") simp_all
      obtain b rest' where b: "r = (b, rest')" by (cases r)
      note step = step [unfolded r sum.case b prod.case]
      then obtain vs where vs: "read_packed ty b = Inr vs" by (cases "read_packed ty b") simp_all
      note step = step [unfolded vs sum.case]
      show ?thesis
        by (rule "1.IH"(4) [OF False raw refl tag_def Packed r b [symmetric] vs step])
          (intro shaped_push shaped_ensure "1.prems"(2) announce_named(2) [OF Packed])
    next
      case (Scalar name rep ty)
      then obtain v rest' where "read_scalar (tag AND 7) ty rest = Inr (v, rest')"
          "decode_loop sch rest' (store_val name rep v out) = Inr kvs"
        using step by (auto split: sum.splits)
      with "1.IH"(5) [OF False raw refl tag_def Scalar] "1.prems"(2) announce_named(3) [OF Scalar]
      show ?thesis using shaped_store by blast
    qed
  qed
qed

section \<open>Properties\<close>

text \<open>C12: What is encoded decodes to itself: an object with the properties of its schema in the schema's order,
  nested to any depth, negative integers and repeated fields included. Strings must be well formed and not
  open with a byte order mark, numbers must be safe integers of their type.\<close>

theorem wire_round_trip:
  assumes "ty_ok (TMessage sch)" and "fits (TMessage sch) v"
  shows "\<exists>b. encode_message sch v = Inr b \<and> (length b < 2 ^ 53 \<longrightarrow> decode_message sch b = Inr v)"
proof -
  obtain kvs where kvs: "v = VObj kvs" "picked sch kvs = kvs"
      "\<forall>(name, f) \<in> set sch. \<forall>held. map_of kvs name = Some held \<longrightarrow> field_fits f held"
    using assms(2) by (auto simp: fits_message simp del: fits.simps)
  have "reads_on sch sch v"
    by (rule encode_back [OF assms(1) subset_refl _ kvs(1)]) (use assms(1) kvs(3) in auto)
  then obtain b where b: "encode_message sch v = Inr b" "length b < 2 ^ 53 \<longrightarrow>
     (\<forall>rest out. fst ` set out \<inter> fst ` set sch = {} \<longrightarrow>
        decode_loop sch (b @ rest) out = decode_loop sch rest (out @ picked sch kvs))"
    using kvs(1) unfolding reads_on_def by blast
  have "decode_message sch b = Inr v" if "length b < 2 ^ 53"
    using b(2) [THEN mp, OF that, THEN spec [of _ "[]"], THEN spec [of _ "[]"]]
    by (simp add: kvs(1,2) decode_message_def decode_loop.simps [of sch "[]"])
  with b(1) show ?thesis by blast
qed

definition sample_schema :: schema where
  "sample_schema = [(''name'', Field 1 False TString), (''delta'', Field 2 True TInt32),
     (''inner'', Field 3 False (TMessage [(''flag'', Field 1 False TBool), (''z'', Field 16 False TSint64)]))]"

definition sample_message :: jsval where
  "sample_message = VObj [(''name'', VStr ''jev''), (''delta'', VArr [VNum (- 1), VNum 300]),
     (''inner'', VObj [(''flag'', VBool True), (''z'', VNum (- 5))])]"

lemma sample_fits: "ty_ok (TMessage sample_schema)" "fits (TMessage sample_schema) sample_message"
proof -
  show "ty_ok (TMessage sample_schema)" by (simp add: sample_schema_def)
  have "utf8_valid ''jev''" by (rule utf8_valid_ascii) (simp add: is_ascii_def)
  then show "fits (TMessage sample_schema) sample_message"
    by (simp add: sample_schema_def sample_message_def picked_def map_filter_simps fits_string_def)
qed

lemma wire_round_trip_witness:
  "\<exists>b. encode_message sample_schema sample_message = Inr b \<and>
     (length b < 2 ^ 53 \<longrightarrow> decode_message sample_schema b = Inr sample_message)"
  by (rule wire_round_trip [OF sample_fits])

text \<open>C33: Whatever bytes arrive, a decoded object has only properties its schema names, each once, and a
  repeated one is an array.\<close>

theorem wire_decodes_to_schema:
  assumes "decode_message sch buf = Inr v"
  shows "\<exists>kvs. v = VObj kvs \<and> shaped sch kvs"
  using assms decode_shaped [of sch buf "[]"] by (auto simp: decode_message_def shaped_def)

lemma sample_decodes: "decode_message sample_schema [10, 1, 65, 18, 2, 7, 8, 40, 9] =
    Inr (VObj [(''name'', VStr ''A''), (''delta'', VArr [VNum 7, VNum 8])])"
  by code_simp

lemma wire_decodes_to_schema_witness:
  "shaped sample_schema [(''name'', VStr ''A''), (''delta'', VArr [VNum 7, VNum 8])]"
  using wire_decodes_to_schema [OF sample_decodes] by simp

text \<open>A string that opens with U+FEFF does not come back: the decoder takes it for a byte order mark.\<close>

theorem wire_drops_bom:
  "Option.bind (case encode_message [(''s'', Field 1 False TString)] (VObj [(''s'', VStr (CHR 0xEF # CHR 0xBB # CHR 0xBF # ''x''))]) of
      Inl e \<Rightarrow> None | Inr b \<Rightarrow> Some b)
    (\<lambda>b. Some (decode_message [(''s'', Field 1 False TString)] b)) = Some (Inr (VObj [(''s'', VStr ''x'')]))"
  by code_simp

end
