(* ===== verification/Caller_Auth.thy ===== *)
theory Caller_Auth
  imports Json
begin

text \<open>
  The capability in the path of a local client's URL, \<open>src/router/src/caller-auth.mjs\<close>: the
  paths and URLs built from it, the route behind it, and its redaction from text that leaves the
  machine; and the route of the structured patch hook, \<open>codex-patch-hook-endpoint.mjs\<close>. The
  checks of a managed base URL take what \<open>new URL\<close> made of the text.
\<close>

definition CALLER_PATH_PREFIX :: string where "CALLER_PATH_PREFIX = ''/_codex-router''"
definition MINIMUM_SECRET_LENGTH :: nat where "MINIMUM_SECRET_LENGTH = 32"
definition CODEX_PATCH_HOOK_BASE_PATH :: string where
  "CODEX_PATCH_HOOK_BASE_PATH = ''/v1/_codex-router/structured-patch-v1''"

definition secret_char :: "char \<Rightarrow> bool" where
  "secret_char c \<longleftrightarrow> CHR ''A'' \<le> c \<and> c \<le> CHR ''Z'' \<or> CHR ''a'' \<le> c \<and> c \<le> CHR ''z'' \<or>
     CHR ''0'' \<le> c \<and> c \<le> CHR ''9'' \<or> c = CHR ''_'' \<or> c = CHR ''-''"

definition valid_caller_secret :: "string \<Rightarrow> bool" where
  "valid_caller_secret v \<longleftrightarrow> js_length v \<ge> MINIMUM_SECRET_LENGTH \<and> v \<noteq> [] \<and> (\<forall>c \<in> set v. secret_char c)"

datatype caller_error = Caller_Key_Invalid

definition assert_caller_secret :: "string \<Rightarrow> caller_error + string" where
  "assert_caller_secret v = (if valid_caller_secret v then Inr v else Inl Caller_Key_Invalid)"

definition secret_equal :: "string \<Rightarrow> string \<Rightarrow> bool" where
  "secret_equal actual expected \<longleftrightarrow> text_encode actual = text_encode expected"

section \<open>Paths and URLs\<close>

definition leaf_path :: "string \<Rightarrow> string \<Rightarrow> caller_error + string" where
  "leaf_path leaf secret =
     (case assert_caller_secret secret of
        Inl e \<Rightarrow> Inl e | Inr s \<Rightarrow> Inr (CALLER_PATH_PREFIX @ ''/'' @ s @ leaf))"

definition caller_base_path :: "string \<Rightarrow> caller_error + string" where "caller_base_path = leaf_path ''/v1''"
definition gemini_base_path :: "string \<Rightarrow> caller_error + string" where "gemini_base_path = leaf_path ''/gemini''"
definition claude_base_path :: "string \<Rightarrow> caller_error + string" where "claude_base_path = leaf_path ''/anthropic''"
definition panel_path :: "string \<Rightarrow> caller_error + string" where "panel_path = leaf_path ''/panel/''"

definition loopback_url :: "nat \<Rightarrow> caller_error + string \<Rightarrow> caller_error + string" where
  "loopback_url port path =
     (case path of Inl e \<Rightarrow> Inl e | Inr p \<Rightarrow> Inr (''http://127.0.0.1:'' @ nat_str port @ p))"

definition caller_base_url :: "nat \<Rightarrow> string \<Rightarrow> caller_error + string" where
  "caller_base_url port s = loopback_url port (caller_base_path s)"
definition cursor_cli_base_url :: "nat \<Rightarrow> string \<Rightarrow> caller_error + string" where
  "cursor_cli_base_url port s = loopback_url port (leaf_path [] s)"
definition gemini_base_url :: "nat \<Rightarrow> string \<Rightarrow> caller_error + string" where
  "gemini_base_url port s = loopback_url port (gemini_base_path s)"
definition claude_base_url :: "nat \<Rightarrow> string \<Rightarrow> caller_error + string" where
  "claude_base_url port s = loopback_url port (claude_base_path s)"
definition panel_url :: "nat \<Rightarrow> string \<Rightarrow> caller_error + string" where
  "panel_url port s = loopback_url port (panel_path s)"

section \<open>Routes\<close>

definition authenticated_route :: "string \<Rightarrow> string \<Rightarrow> string option" where
  "authenticated_route pathname expected =
     (let prefix = CALLER_PATH_PREFIX @ ''/'' in
      if \<not> starts_with prefix pathname then None
      else let remainder = drop (length prefix) pathname in
        case index_of ''/'' remainder of
          None \<Rightarrow> None
        | Some separator \<Rightarrow>
            if \<not> secret_equal (take separator remainder) expected then None
            else Some (if drop separator remainder = [] then ''/'' else drop separator remainder))"

definition codex_patch_hook_endpoint :: "string \<Rightarrow> string \<times> string option" where
  "codex_patch_hook_endpoint path =
     (if path = CODEX_PATCH_HOOK_BASE_PATH \<or> starts_with (CODEX_PATCH_HOOK_BASE_PATH @ ''/'') path
      then (''/v1'' @ drop (length CODEX_PATCH_HOOK_BASE_PATH) path, Some ''structured-patch-v1'')
      else (path, None))"

section \<open>Managed base URLs\<close>

record url =
  protocol :: string
  hostname :: string
  url_port :: string
  username :: string
  password :: string
  pathname :: string
  search :: string
  url_hash :: string

definition loopback_origin :: "url \<Rightarrow> nat option \<Rightarrow> bool" where
  "loopback_origin u port \<longleftrightarrow> protocol u = ''http:'' \<and> hostname u = ''127.0.0.1'' \<and>
     (case port of None \<Rightarrow> True | Some p \<Rightarrow> url_port u = (if p = 80 then [] else nat_str p)) \<and>
     username u = [] \<and> password u = [] \<and> search u = [] \<and> url_hash u = []"

definition leaf_match :: "string \<Rightarrow> string \<Rightarrow> string option" where
  "leaf_match leaf path =
     (let prefix = CALLER_PATH_PREFIX @ ''/''; tail = drop (length prefix) path;
          run = takeWhile secret_char tail; rest = dropWhile secret_char tail
      in if starts_with prefix path \<and> run \<noteq> [] \<and> (rest = ''/'' @ leaf \<or> rest = ''/'' @ leaf @ ''/'')
         then Some run else None)"

definition managed_leaf_base_url :: "url option \<Rightarrow> nat option \<Rightarrow> string \<Rightarrow> bool" where
  "managed_leaf_base_url parsed port leaf \<longleftrightarrow>
     (case parsed of None \<Rightarrow> False
      | Some u \<Rightarrow> loopback_origin u port \<and>
          (case leaf_match leaf (pathname u) of None \<Rightarrow> False | Some s \<Rightarrow> valid_caller_secret s))"

definition managed_caller_base_url :: "url option \<Rightarrow> nat option \<Rightarrow> bool" where
  "managed_caller_base_url parsed port \<longleftrightarrow> managed_leaf_base_url parsed port ''v1''"

definition without_slash :: "string \<Rightarrow> string" where
  "without_slash p = (if p \<noteq> [] \<and> last p = CHR ''/'' then butlast p else p)"

definition managed_codex_base_url :: "url option \<Rightarrow> nat option \<Rightarrow> bool" where
  "managed_codex_base_url parsed port \<longleftrightarrow>
     managed_caller_base_url parsed port \<or>
     managed_leaf_base_url parsed port (drop 1 CODEX_PATCH_HOOK_BASE_PATH) \<or>
     (case parsed of None \<Rightarrow> False
      | Some u \<Rightarrow> loopback_origin u port \<and>
          (without_slash (pathname u) = ''/v1'' \<or> without_slash (pathname u) = CODEX_PATCH_HOOK_BASE_PATH))"

definition managed_gemini_base_url :: "url option \<Rightarrow> nat option \<Rightarrow> bool" where
  "managed_gemini_base_url parsed port \<longleftrightarrow> managed_leaf_base_url parsed port ''gemini''"
definition managed_claude_base_url :: "url option \<Rightarrow> nat option \<Rightarrow> bool" where
  "managed_claude_base_url parsed port \<longleftrightarrow> managed_leaf_base_url parsed port ''anthropic''"

section \<open>Redaction\<close>

definition REDACTED_LEAVES :: "string list" where
  "REDACTED_LEAVES = [''v1'', ''panel'', ''gemini'', ''anthropic'']"

text \<open>The look-ahead behind the run of secret characters.\<close>

definition leaf_ahead :: "string \<Rightarrow> bool" where
  "leaf_ahead rest \<longleftrightarrow> rest = [] \<or>
     (\<exists>leaf \<in> set REDACTED_LEAVES. starts_with (''/'' @ leaf) rest \<and>
        (case drop (Suc (length leaf)) rest of [] \<Rightarrow> True | c # _ \<Rightarrow> c = CHR ''/'' \<or> \<not> secret_char c))"

function redact_caller_url :: "string \<Rightarrow> string" where
  "redact_caller_url [] = []"
| "redact_caller_url (c # s) =
     (let prefix = CALLER_PATH_PREFIX @ ''/''; tail = drop (length prefix) (c # s);
          run = takeWhile secret_char tail; rest = dropWhile secret_char tail
      in if starts_with prefix (c # s) \<and> run \<noteq> [] \<and> leaf_ahead rest
         then prefix @ ''[REDACTED]'' @ redact_caller_url rest
         else c # redact_caller_url s)"
  by pat_completeness auto
termination
proof (relation "measure length")
  fix c :: char and s prefix tail run rest
  assume "prefix = CALLER_PATH_PREFIX @ ''/''" "tail = drop (length prefix) (c # s)" "rest = dropWhile secret_char tail"
  then show "(rest, c # s) \<in> measure length"
    using length_dropWhile_le [of secret_char tail] by (simp add: CALLER_PATH_PREFIX_def)
qed simp_all

declare redact_caller_url.simps(2) [simp del]

section \<open>Only the holder of the key gets a route\<close>

lemma index_of_slash: "CHR ''/'' \<notin> set c \<Longrightarrow> index_of ''/'' (c @ CHR ''/'' # r) = Some (length c)"
  by (induction c) auto

lemma index_of_slash_split: "index_of ''/'' t = Some i \<Longrightarrow> \<exists>r. t = take i t @ CHR ''/'' # r"
  using index_of_Some [of "''/''" t i] by (auto simp: starts_with_iff_append) (metis append_take_drop_id)

lemma secret_ascii: "valid_caller_secret s \<Longrightarrow> \<forall>c \<in> set s. is_ascii c"
proof
  fix c
  assume "valid_caller_secret s" "c \<in> set s"
  then have "secret_char c" by (simp add: valid_caller_secret_def)
  then have "c \<le> CHR 0x7F"
    unfolding secret_char_def by (elim disjE conjE) (auto elim: order_trans)
  then show "is_ascii c" by (simp add: is_ascii_def)
qed

lemma secret_not_ws: "secret_char c \<Longrightarrow> ws_len (c # s) = 0"
proof -
  assume c: "secret_char c"
  then have "CHR 0x2D \<le> c"
    unfolding secret_char_def
    using order_trans [of "CHR 0x2D" "CHR ''A''" c] order_trans [of "CHR 0x2D" "CHR ''a''" c]
      order_trans [of "CHR 0x2D" "CHR ''0''" c] by auto
  then have "\<not> c \<le> CHR 0x0D" "c \<noteq> CHR 0x20" using order_trans [of "CHR 0x2D" c "CHR 0x0D"] by auto
  moreover have "c \<noteq> CHR 0xC2" "c \<noteq> CHR 0xE1" "c \<noteq> CHR 0xE2" "c \<noteq> CHR 0xE3" "c \<noteq> CHR 0xEF"
    using c by (auto simp: secret_char_def)
  ultimately show ?thesis by (simp add: ws_len_def split: list.splits)
qed

lemma trim_start_secret: "secret_char c \<Longrightarrow> trim_start (c # s) = c # s"
  by (simp add: trim_start.simps [of "c # s"] secret_not_ws)

lemma secret_slash: "valid_caller_secret s \<Longrightarrow> CHR ''/'' \<notin> set s"
  by (auto simp: valid_caller_secret_def secret_char_def)

lemma authenticated_route_iff:
  assumes "valid_caller_secret s"
  shows "authenticated_route p s = Some r \<longleftrightarrow>
    p = CALLER_PATH_PREFIX @ ''/'' @ s @ r \<and> r \<noteq> [] \<and> hd r = CHR ''/''"
proof
  assume route: "authenticated_route p s = Some r"
  let ?prefix = "CALLER_PATH_PREFIX @ ''/''"
  from route obtain t where p: "p = ?prefix @ t"
    by (auto simp: authenticated_route_def Let_def starts_with_iff_append split: if_splits)
  from route obtain i where i: "index_of ''/'' t = Some i" "secret_equal (take i t) s"
      "r = (if drop i t = [] then ''/'' else drop i t)"
    by (auto simp: authenticated_route_def Let_def p split: if_splits option.splits)
  have "text_encode s = s" using secret_ascii [OF assms] by (intro text_encode_valid utf8_valid_ascii)
  then have "take i t = s" using i(2) text_encode_ascii [OF _ secret_ascii [OF assms]] by (simp add: secret_equal_def)
  moreover obtain r' where "t = take i t @ CHR ''/'' # r'" using index_of_slash_split [OF i(1)] by blast
  ultimately have "t = s @ CHR ''/'' # r'" "drop i t = CHR ''/'' # r'"
    by (metis append_take_drop_id same_append_eq)+
  then show "p = CALLER_PATH_PREFIX @ ''/'' @ s @ r \<and> r \<noteq> [] \<and> hd r = CHR ''/''"
    using p i(3) by simp
next
  assume "p = CALLER_PATH_PREFIX @ ''/'' @ s @ r \<and> r \<noteq> [] \<and> hd r = CHR ''/''"
  then obtain r' where p: "p = (CALLER_PATH_PREFIX @ ''/'') @ s @ CHR ''/'' # r'" and r: "r = CHR ''/'' # r'"
    by (cases r) auto
  show "authenticated_route p s = Some r"
    unfolding p authenticated_route_def
    by (simp add: Let_def index_of_slash [OF secret_slash [OF assms]] secret_equal_def r starts_with_iff)
qed

text \<open>A path is routed exactly when it is the prefix, the key and a rest that starts with a slash, and the
  route is that rest: another key, however long or similar, gets nothing.\<close>

theorem route_needs_the_key:
  assumes "valid_caller_secret s"
  shows "authenticated_route p s = Some r \<longleftrightarrow>
    p = CALLER_PATH_PREFIX @ ''/'' @ s @ r \<and> r \<noteq> [] \<and> hd r = CHR ''/''"
  by (rule authenticated_route_iff [OF assms])

section \<open>Redacted text says nothing of the key\<close>

definition prefix :: string where "prefix = CALLER_PATH_PREFIX @ ''/''"

lemma prefix_eq: "prefix = ''/_codex-router/''"
  by (simp add: prefix_def CALLER_PATH_PREFIX_def)

lemma redact_step: "redact_caller_url (c # s) =
    (let tail = drop (length prefix) (c # s)
     in if starts_with prefix (c # s) \<and> takeWhile secret_char tail \<noteq> [] \<and> leaf_ahead (dropWhile secret_char tail)
        then prefix @ ''[REDACTED]'' @ redact_caller_url (dropWhile secret_char tail)
        else c # redact_caller_url s)"
  by (simp add: redact_caller_url.simps prefix_def Let_def)

lemma redact_nil_prefix:
  assumes "valid_caller_secret s" "leaf_ahead b"
  shows "redact_caller_url (prefix @ s @ b) = prefix @ ''[REDACTED]'' @ redact_caller_url b"
proof -
  have s: "\<forall>c \<in> set s. secret_char c" "s \<noteq> []" using assms(1) by (auto simp: valid_caller_secret_def)
  have b: "takeWhile secret_char b = []" "dropWhile secret_char b = b"
    using assms(2) by (auto simp: leaf_ahead_def starts_with_iff_append secret_char_def REDACTED_LEAVES_def)
  have run: "takeWhile secret_char (s @ b) = s" "dropWhile secret_char (s @ b) = b"
    using s(1) b by (simp_all add: takeWhile_append2 dropWhile_append2)
  obtain c p where p: "prefix = c # p" by (simp add: prefix_eq)
  have "redact_caller_url (c # p @ s @ b) = prefix @ ''[REDACTED]'' @ redact_caller_url b"
  proof -
    have d: "drop (length prefix) (c # p @ s @ b) = s @ b" using p by (metis append_Cons append_eq_conv_conj)
    have "starts_with prefix (c # p @ s @ b)" using starts_with_append [of prefix "s @ b"] unfolding p by simp
    then show ?thesis using run s(2) assms(2) unfolding redact_step Let_def d by simp
  qed
  then show ?thesis by (simp add: p)
qed

text \<open>Only the first characters decide about a leaf, and no leaf is a key.\<close>

lemma leaf_ahead_take:
  assumes "11 \<le> length x"
  shows "leaf_ahead (x @ y) = leaf_ahead x"
proof -
  have "(starts_with (''/'' @ leaf) (x @ y) \<and>
        (case drop (Suc (length leaf)) (x @ y) of [] \<Rightarrow> True | c # _ \<Rightarrow> c = CHR ''/'' \<or> \<not> secret_char c)) =
      (starts_with (''/'' @ leaf) x \<and>
        (case drop (Suc (length leaf)) x of [] \<Rightarrow> True | c # _ \<Rightarrow> c = CHR ''/'' \<or> \<not> secret_char c))"
    if "leaf \<in> set REDACTED_LEAVES" for leaf
  proof -
    have len: "Suc (length leaf) < length x" using that assms by (auto simp: REDACTED_LEAVES_def)
    obtain c r where "drop (Suc (length leaf)) x = c # r" using len by (cases "drop (Suc (length leaf)) x") auto
    then show ?thesis using len by (simp add: starts_with_iff)
  qed
  then show ?thesis using assms unfolding leaf_ahead_def by auto
qed

lemma leaf_ahead_secret:
  assumes "valid_caller_secret s"
  shows "\<not> leaf_ahead (CHR ''/'' # s @ b)"
proof
  assume "leaf_ahead (CHR ''/'' # s @ b)"
  then obtain leaf where leaf: "leaf \<in> set REDACTED_LEAVES"
      "case drop (length leaf) (s @ b) of [] \<Rightarrow> True | c # _ \<Rightarrow> c = CHR ''/'' \<or> \<not> secret_char c"
    by (auto simp: leaf_ahead_def)
  have "16 \<le> length s" using assms js_length_le [of s] by (simp add: valid_caller_secret_def MINIMUM_SECRET_LENGTH_def)
  then have len: "length leaf < length s" using leaf(1) by (auto simp: REDACTED_LEAVES_def)
  then obtain c r where c: "drop (length leaf) s = c # r" by (cases "drop (length leaf) s") auto
  then have "c \<in> set s" by (metis in_set_dropD list.set_intros(1))
  then have "secret_char c" "c \<noteq> CHR ''/''" using assms secret_slash by (auto simp: valid_caller_secret_def)
  then show False using leaf(2) c len by simp
qed

text \<open>The prefix overlaps with itself only in its slash.\<close>

lemma prefix_overlap:
  assumes "starts_with prefix (a @ prefix @ y)" "0 < length a" "length a < 15"
  shows "a = ''/_codex-router''"
proof -
  define n where "n = length a"
  have len: "length prefix = 15" by (simp add: prefix_eq)
  have take: "take 15 (a @ prefix @ y) = prefix" using assms(1) len by (simp add: starts_with_iff)
  have border: "\<forall>k \<in> set [1..<15]. drop k prefix = take (15 - k) prefix \<longrightarrow> take k prefix = ''/_codex-router''"
    unfolding prefix_eq by code_simp
  have a: "a = take n prefix"
    using arg_cong [OF take, of "take n"] assms(3) by (simp add: n_def Suc_le_eq)
  have "drop n prefix = take (15 - n) prefix"
    using arg_cong [OF take, of "drop n"] assms(3) len by (simp add: n_def drop_take)
  moreover have "n \<in> set [1..<15]" using assms(2,3) by (simp add: n_def Suc_le_eq)
  ultimately show ?thesis using border unfolding a by blast
qed

text \<open>What comes before the key is redacted without regard to it.\<close>

lemma redact_before:
  assumes "leaf_ahead b"
  shows "\<exists>x. \<forall>s. valid_caller_secret s \<longrightarrow> redact_caller_url (a @ prefix @ s @ b) = x @ redact_caller_url b"
proof (induction a rule: length_induct)
  case (1 a)
  show ?case
  proof (cases a)
    case Nil
    then show ?thesis using redact_nil_prefix [OF _ assms] by (intro exI [of _ "prefix @ ''[REDACTED]''"]) simp
  next
    case (Cons c a')
    from 1 Cons obtain x where x: "\<forall>s. valid_caller_secret s \<longrightarrow>
        redact_caller_url (a' @ prefix @ s @ b) = x @ redact_caller_url b" by auto
    have len: "length prefix = 15" by (simp add: prefix_eq)
    show ?thesis
    proof (cases "starts_with prefix (a @ prefix)")
      case no: False
      have "redact_caller_url (a @ prefix @ s @ b) = c # x @ redact_caller_url b" if "valid_caller_secret s" for s
      proof -
        have "\<not> starts_with prefix (a @ prefix @ s @ b)" using no len by (simp add: starts_with_iff)
        then show ?thesis using x that Cons by (simp add: redact_step)
      qed
      then show ?thesis by (intro exI [of _ "c # x"]) simp
    next
      case yes: True
      show ?thesis
      proof (cases "length a < 15")
        case True
        have a: "a = ''/_codex-router''"
          using prefix_overlap [of a "[]"] yes True Cons by simp
        have "redact_caller_url (a @ prefix @ s @ b) = c # x @ redact_caller_url b" if "valid_caller_secret s" for s
        proof -
          have "drop (length prefix) (a @ prefix @ s @ b) = ''_codex-router'' @ CHR ''/'' # s @ b"
            by (simp add: a prefix_eq)
          then have "dropWhile secret_char (drop (length prefix) (a @ prefix @ s @ b)) = CHR ''/'' # s @ b"
            by (simp only:) (simp add: secret_char_def)
          then have "\<not> leaf_ahead (dropWhile secret_char (drop (length prefix) (a @ prefix @ s @ b)))"
            using leaf_ahead_secret [OF that] by simp
          then show ?thesis using x that Cons by (simp add: redact_step)
        qed
        then show ?thesis by (intro exI [of _ "c # x"]) simp
      next
        case False
        define t where "t = drop 15 a"
        have a: "a = prefix @ t"
          using yes False len unfolding t_def by (simp add: starts_with_iff) (metis append_take_drop_id)
        define r where "r = dropWhile secret_char t"
        have rest: "takeWhile secret_char (t @ prefix @ y) = takeWhile secret_char t"
          "dropWhile secret_char (t @ prefix @ y) = r @ prefix @ y" for y
        proof -
          have "takeWhile secret_char (prefix @ y) = []" "dropWhile secret_char (prefix @ y) = prefix @ y"
            by (simp_all add: prefix_eq secret_char_def)
          then show "takeWhile secret_char (t @ prefix @ y) = takeWhile secret_char t"
            "dropWhile secret_char (t @ prefix @ y) = r @ prefix @ y"
            unfolding r_def by (induction t) auto
        qed
        have "length r < length a" using length_dropWhile_le [of secret_char t] by (simp add: a r_def len)
        with 1 obtain z where z: "\<forall>s. valid_caller_secret s \<longrightarrow>
            redact_caller_url (r @ prefix @ s @ b) = z @ redact_caller_url b" by blast
        have ahead: "leaf_ahead (r @ prefix @ y) = leaf_ahead (r @ prefix)" for y
          using leaf_ahead_take [of "r @ prefix" y] len by simp
        have step: "redact_caller_url (a @ prefix @ s @ b) =
            (if takeWhile secret_char t \<noteq> [] \<and> leaf_ahead (r @ prefix)
             then prefix @ ''[REDACTED]'' @ redact_caller_url (r @ prefix @ s @ b)
             else c # redact_caller_url (a' @ prefix @ s @ b))" for s
        proof -
          have d: "drop (length prefix) (a @ prefix @ s @ b) = t @ prefix @ s @ b" by (simp add: a)
          have s: "starts_with prefix (a @ prefix @ s @ b)" by (simp add: a)
          show ?thesis using d s rest [of "s @ b"] ahead [of "s @ b"] unfolding Cons append_Cons redact_step Let_def
            by simp
        qed
        show ?thesis
          by (intro exI [of _ "if takeWhile secret_char t \<noteq> [] \<and> leaf_ahead (r @ prefix)
              then prefix @ ''[REDACTED]'' @ z else c # x"]) (simp add: step x z)
      qed
    qed
  qed
qed


definition sample_key :: "char \<Rightarrow> string" where "sample_key c = replicate 32 c"

lemma sample_key_valid: "valid_caller_secret (sample_key (CHR ''k''))" "valid_caller_secret (sample_key (CHR ''z''))"
  by code_simp+


lemma route_needs_the_key_witness:
  "authenticated_route (''/_codex-router/'' @ sample_key (CHR ''k'') @ ''/v1/models'') (sample_key (CHR ''k'')) = Some ''/v1/models''"
  using route_needs_the_key [OF sample_key_valid(1), of "''/_codex-router/'' @ sample_key (CHR ''k'') @ ''/v1/models''" "''/v1/models''"]
  by (simp add: CALLER_PATH_PREFIX_def)

text \<open>The routes that a Cursor command line client calls below its base URL are not among the leaves: their
  URL is passed on with the key in it.\<close>

theorem cursor_route_not_redacted:
  "redact_caller_url (''http://127.0.0.1:4141/_codex-router/'' @ sample_key (CHR ''k'') @ ''/agent.v1.AgentService/RunSSE'') =
   ''http://127.0.0.1:4141/_codex-router/'' @ sample_key (CHR ''k'') @ ''/agent.v1.AgentService/RunSSE''"
  by code_simp

end
