(* ===== verification/Key_Rotation.thy ===== *)
theory Key_Rotation
  imports Caller_Auth
begin

text \<open>
  Rotation of the caller key on disk, \<open>src/router/src/caller-key-rotation.mjs\<close>. The disk maps paths
  to contents; every operation may fail, as the environment decides, and the log keeps each state the
  disk went through, which is where a crash may leave it. \<open>protect\<close>, which tightens the
  permissions of a file, may fail and leaves the contents alone.
\<close>

type_synonym disk = "string \<rightharpoonup> string"

datatype rot_error =
    Io
  | Bad_Key
  | Same_Key
  | Bad_Operation
  | Generation_Exists
  | Displaced_Exists
  | Rollback_Failed rot_error rot_error

text \<open>Whether the n-th operation fails, and what a write that fails leaves in its file.\<close>

record fault_env =
  fails :: "nat \<Rightarrow> bool"
  left_behind :: "nat \<Rightarrow> string option"

record io =
  disk :: disk
  clock :: nat
  log :: "disk list"

type_synonym ('e, 'a) prog = "io \<Rightarrow> ('e + 'a) \<times> io"

section \<open>Programs that may throw\<close>

definition ret :: "'a \<Rightarrow> ('e, 'a) prog" where "ret x s = (Inr x, s)"
definition throw :: "'e \<Rightarrow> ('e, 'a) prog" where "throw e s = (Inl e, s)"

definition bind_io :: "('e, 'a) prog \<Rightarrow> ('a \<Rightarrow> ('e, 'b) prog) \<Rightarrow> ('e, 'b) prog" where
  "bind_io m f s = (case m s of (Inl e, s') \<Rightarrow> (Inl e, s') | (Inr x, s') \<Rightarrow> f x s')"

definition seq_io :: "('e, 'a) prog \<Rightarrow> ('e, 'b) prog \<Rightarrow> ('e, 'b) prog" where
  "seq_io m n = bind_io m (\<lambda>_. n)"

text \<open>\<open>try ... catch\<close>; \<open>finally\<close>, whose own error wins; and the error of a block as a value.\<close>

definition catch_io :: "('e, 'a) prog \<Rightarrow> ('e \<Rightarrow> ('f, 'a) prog) \<Rightarrow> ('f, 'a) prog" where
  "catch_io m h s = (case m s of (Inl e, s') \<Rightarrow> h e s' | (Inr x, s') \<Rightarrow> (Inr x, s'))"

definition finally_io :: "('e, 'a) prog \<Rightarrow> ('e, 'b) prog \<Rightarrow> ('e, 'a) prog" where
  "finally_io m n s = (case m s of (r, s') \<Rightarrow> (case n s' of (Inl e, s'') \<Rightarrow> (Inl e, s'') | (Inr _, s'') \<Rightarrow> (r, s'')))"

definition attempt :: "('e, 'a) prog \<Rightarrow> ('f, 'e option) prog" where
  "attempt m s = (case m s of (Inl e, s') \<Rightarrow> (Inr (Some e), s') | (Inr _, s') \<Rightarrow> (Inr None, s'))"

text \<open>What a block had set when it threw.\<close>

definition tagged :: "'t \<Rightarrow> ('e, 'a) prog \<Rightarrow> ('t \<times> 'e, 'a) prog" where
  "tagged t m s = (case m s of (Inl e, s') \<Rightarrow> (Inl (t, e), s') | (Inr x, s') \<Rightarrow> (Inr x, s'))"

section \<open>The file system\<close>

definition tick :: "io \<Rightarrow> io" where "tick s = s\<lparr>clock := Suc (clock s)\<rparr>"

definition set_disk :: "disk \<Rightarrow> io \<Rightarrow> io" where
  "set_disk d s = (tick s)\<lparr>disk := d, log := log s @ [d]\<rparr>"

definition exists_file :: "string \<Rightarrow> ('e, bool) prog" where
  "exists_file p s = (Inr (disk s p \<noteq> None), s)"

definition read_file :: "fault_env \<Rightarrow> string \<Rightarrow> (rot_error, string) prog" where
  "read_file env p s = (case (disk s p, fails env (clock s)) of
     (Some c, False) \<Rightarrow> (Inr c, tick s) | _ \<Rightarrow> (Inl Io, tick s))"

text \<open>Exclusive creation.\<close>

definition write_new :: "fault_env \<Rightarrow> string \<Rightarrow> string \<Rightarrow> (rot_error, unit) prog" where
  "write_new env p c s =
     (if disk s p \<noteq> None then (Inl Io, tick s)
      else if fails env (clock s) then (Inl Io, set_disk ((disk s)(p := left_behind env (clock s))) s)
      else (Inr (), set_disk ((disk s)(p \<mapsto> c)) s))"

definition rename_file :: "fault_env \<Rightarrow> string \<Rightarrow> string \<Rightarrow> (rot_error, unit) prog" where
  "rename_file env a b s =
     (if disk s a = None \<or> fails env (clock s) then (Inl Io, tick s)
      else (Inr (), set_disk ((disk s)(a := None, b := disk s a)) s))"

definition unlink_file :: "fault_env \<Rightarrow> string \<Rightarrow> (rot_error, unit) prog" where
  "unlink_file env p s =
     (if disk s p = None \<or> fails env (clock s) then (Inl Io, tick s)
      else (Inr (), set_disk ((disk s)(p := None)) s))"

definition protect_file :: "fault_env \<Rightarrow> string \<Rightarrow> (rot_error, unit) prog" where
  "protect_file env p s = ((if fails env (clock s) then Inl Io else Inr ()), tick s)"

definition remove_if_present :: "fault_env \<Rightarrow> string \<Rightarrow> (rot_error, unit) prog" where
  "remove_if_present env p = bind_io (exists_file p) (\<lambda>here. if here then unlink_file env p else ret ())"

section \<open>Paths\<close>

definition hex_char :: "char \<Rightarrow> bool" where
  "hex_char c \<longleftrightarrow> CHR ''0'' \<le> c \<and> c \<le> CHR ''9'' \<or> CHR ''a'' \<le> c \<and> c \<le> CHR ''f''"

definition valid_operation :: "string \<Rightarrow> bool" where
  "valid_operation i \<longleftrightarrow> length i = 32 \<and> (\<forall>c \<in> set i. hex_char c)"

definition generation_path :: "string \<Rightarrow> string \<Rightarrow> string \<Rightarrow> (rot_error, string) prog" where
  "generation_path kind secret i = (if valid_operation i then ret (secret @ kind @ i) else throw Bad_Operation)"

definition backup_path :: "string \<Rightarrow> string \<Rightarrow> (rot_error, string) prog" where
  "backup_path = generation_path ''.rotate-rollback.''"
definition temporary_path :: "string \<Rightarrow> string \<Rightarrow> (rot_error, string) prog" where
  "temporary_path = generation_path ''.rotate-new.''"
definition displaced_path :: "string \<Rightarrow> string \<Rightarrow> (rot_error, string) prog" where
  "displaced_path = generation_path ''.rotate-displaced.''"

definition assert_key :: "string \<Rightarrow> (rot_error, string) prog" where
  "assert_key v = (case assert_caller_secret v of Inl _ \<Rightarrow> throw Bad_Key | Inr s \<Rightarrow> ret s)"

definition combined_failure :: "rot_error \<Rightarrow> rot_error option \<Rightarrow> rot_error" where
  "combined_failure e r = (case r of None \<Rightarrow> e | Some e' \<Rightarrow> Rollback_Failed e e')"

section \<open>Swap\<close>

text \<open>The block that moves the files; the flags are \<open>backupPresent\<close> and \<open>newSecretLive\<close>.\<close>

definition swap_files :: "fault_env \<Rightarrow> string \<Rightarrow> string \<Rightarrow> string \<Rightarrow> ((bool \<times> bool) \<times> rot_error, unit) prog" where
  "swap_files env secret temporary backup =
     seq_io (tagged (False, False) (rename_file env secret backup))
    (seq_io (tagged (True, False) (protect_file env backup))
    (seq_io (tagged (True, False) (rename_file env temporary secret))
            (tagged (True, True) (protect_file env secret))))"

definition swap_rollback :: "fault_env \<Rightarrow> string \<Rightarrow> string \<Rightarrow> bool \<Rightarrow> bool \<Rightarrow> (rot_error, unit) prog" where
  "swap_rollback env secret backup present live =
     seq_io (if live then remove_if_present env secret else ret ())
       (bind_io (exists_file backup) (\<lambda>here.
          if present \<and> here then seq_io (rename_file env backup secret) (protect_file env secret) else ret ()))"

definition swap_caught :: "fault_env \<Rightarrow> string \<Rightarrow> string \<Rightarrow> string \<Rightarrow> (bool \<times> bool) \<times> rot_error \<Rightarrow> (rot_error, 'a) prog" where
  "swap_caught env secret temporary backup fe =
     bind_io (attempt (swap_rollback env secret backup (fst (fst fe)) (snd (fst fe)))) (\<lambda>r.
       seq_io (remove_if_present env temporary) (throw (combined_failure (snd fe) r)))"

definition swap_install :: "fault_env \<Rightarrow> string \<Rightarrow> string \<Rightarrow> string \<Rightarrow> (rot_error, unit) prog" where
  "swap_install env secret temporary backup =
     seq_io (catch_io (protect_file env temporary)
               (\<lambda>e. seq_io (remove_if_present env temporary) (throw e)))
            (finally_io
               (catch_io (swap_files env secret temporary backup) (swap_caught env secret temporary backup))
               (remove_if_present env temporary))"

record swapped =
  previous_secret :: string
  current_secret :: string
  backup_file :: string

definition swap_caller_capability :: "fault_env \<Rightarrow> string \<Rightarrow> string \<Rightarrow> string \<Rightarrow> (rot_error, swapped) prog" where
  "swap_caller_capability env secret operation generated =
     bind_io (read_file env secret) (\<lambda>raw.
     bind_io (assert_key (trim raw)) (\<lambda>previous.
     bind_io (assert_key (trim generated)) (\<lambda>current.
     if current = previous then throw Same_Key else
     bind_io (temporary_path secret operation) (\<lambda>temporary.
     bind_io (backup_path secret operation) (\<lambda>backup.
     bind_io (exists_file temporary) (\<lambda>t.
     bind_io (exists_file backup) (\<lambda>b.
     if t \<or> b then throw Generation_Exists else
     seq_io (write_new env temporary (current @ [LF]))
    (seq_io (swap_install env secret temporary backup)
            (ret \<lparr>previous_secret = previous, current_secret = current, backup_file = backup\<rparr>)))))))))"

section \<open>Restore and discard\<close>

text \<open>The flags are \<open>displacedPresent\<close> and \<open>backupMoved\<close>.\<close>

definition restore_files :: "fault_env \<Rightarrow> string \<Rightarrow> string \<Rightarrow> string \<Rightarrow> ((bool \<times> bool) \<times> rot_error, string) prog" where
  "restore_files env secret backup displaced =
     bind_io (exists_file secret) (\<lambda>live.
     seq_io (if live then seq_io (tagged (False, False) (rename_file env secret displaced))
                                 (tagged (True, False) (protect_file env displaced))
             else ret ())
    (seq_io (tagged (live, False) (rename_file env backup secret))
    (seq_io (tagged (live, True) (protect_file env secret))
    (bind_io (tagged (live, True) (bind_io (read_file env secret) (\<lambda>raw. assert_key (trim raw)))) (\<lambda>current.
     seq_io (if live then tagged (live, True) (unlink_file env displaced) else ret ())
            (ret current))))))"

definition restore_rollback :: "fault_env \<Rightarrow> string \<Rightarrow> string \<Rightarrow> string \<Rightarrow> bool \<Rightarrow> bool \<Rightarrow> (rot_error, unit) prog" where
  "restore_rollback env secret backup displaced present moved =
     seq_io
       (bind_io (exists_file secret) (\<lambda>here.
          if moved \<and> here then seq_io (rename_file env secret backup) (protect_file env backup) else ret ()))
       (bind_io (exists_file displaced) (\<lambda>here.
          if present \<and> here then seq_io (rename_file env displaced secret) (protect_file env secret) else ret ()))"

definition restore_caught :: "fault_env \<Rightarrow> string \<Rightarrow> string \<Rightarrow> string \<Rightarrow> (bool \<times> bool) \<times> rot_error \<Rightarrow> (rot_error, 'a) prog" where
  "restore_caught env secret backup displaced fe =
     bind_io (attempt (restore_rollback env secret backup displaced (fst (fst fe)) (snd (fst fe)))) (\<lambda>r.
       throw (combined_failure (snd fe) r))"

text \<open>\<open>None\<close> when there is nothing to restore, otherwise the key in place and the one it displaced.\<close>

definition restore_caller_capability :: "fault_env \<Rightarrow> string \<Rightarrow> string \<Rightarrow> (rot_error, (string \<times> string option) option) prog" where
  "restore_caller_capability env secret operation =
     bind_io (backup_path secret operation) (\<lambda>backup.
     bind_io (exists_file backup) (\<lambda>b.
     if \<not> b then ret None else
     bind_io (displaced_path secret operation) (\<lambda>displaced.
     bind_io (exists_file displaced) (\<lambda>d.
     if d then throw Displaced_Exists else
     bind_io (exists_file secret) (\<lambda>live.
     bind_io (if live then bind_io (read_file env secret) (\<lambda>raw. bind_io (assert_key (trim raw)) (\<lambda>k. ret (Some k)))
              else ret None) (\<lambda>old.
     bind_io (catch_io (restore_files env secret backup displaced) (restore_caught env secret backup displaced))
       (\<lambda>current. ret (Some (current, old)))))))))"

definition discard_backup :: "fault_env \<Rightarrow> string \<Rightarrow> string \<Rightarrow> (rot_error, bool) prog" where
  "discard_backup env secret operation =
     bind_io (backup_path secret operation) (\<lambda>backup.
     bind_io (exists_file backup) (\<lambda>b. if \<not> b then ret False else seq_io (unlink_file env backup) (ret True)))"

section \<open>A logic for crashes\<close>

text \<open>Every state the disk goes through satisfies \<open>I\<close>; normal and thrown results have their own
  postcondition.\<close>

definition hoare :: "(disk \<Rightarrow> bool) \<Rightarrow> (disk \<Rightarrow> bool) \<Rightarrow> ('e, 'a) prog \<Rightarrow> ('a \<Rightarrow> disk \<Rightarrow> bool) \<Rightarrow> ('e \<Rightarrow> disk \<Rightarrow> bool) \<Rightarrow> bool" where
  "hoare I P m Q E \<longleftrightarrow> (\<forall>s. P (disk s) \<and> (\<forall>d \<in> set (log s). I d) \<longrightarrow>
     (\<forall>d \<in> set (log (snd (m s))). I d) \<and>
     (case fst (m s) of Inl e \<Rightarrow> E e (disk (snd (m s))) | Inr x \<Rightarrow> Q x (disk (snd (m s)))))"

named_theorems hoare_rules

lemma hoare_ret [hoare_rules]: "(\<And>d. P d \<Longrightarrow> Q x d) \<Longrightarrow> hoare I P (ret x) Q E"
  by (simp add: hoare_def ret_def)

lemma hoare_throw [hoare_rules]: "(\<And>d. P d \<Longrightarrow> E e d) \<Longrightarrow> hoare I P (throw e) Q E"
  by (simp add: hoare_def throw_def)

definition outcome :: "('a \<Rightarrow> disk \<Rightarrow> bool) \<Rightarrow> ('e \<Rightarrow> disk \<Rightarrow> bool) \<Rightarrow> 'e + 'a \<Rightarrow> disk \<Rightarrow> bool" where
  "outcome Q E r d = (case r of Inl e \<Rightarrow> E e d | Inr x \<Rightarrow> Q x d)"

lemma outcome_simps [simp]: "outcome Q E (Inl e) d = E e d" "outcome Q E (Inr x) d = Q x d"
  by (simp_all add: outcome_def)

lemma hoareD:
  "hoare I P m Q E \<Longrightarrow> P (disk s) \<Longrightarrow> \<forall>d \<in> set (log s). I d \<Longrightarrow>
   (\<forall>d \<in> set (log (snd (m s))). I d) \<and> outcome Q E (fst (m s)) (disk (snd (m s)))"
  by (auto simp: hoare_def outcome_def)

lemma hoareI:
  "(\<And>s. P (disk s) \<Longrightarrow> \<forall>d \<in> set (log s). I d \<Longrightarrow>
     (\<forall>d \<in> set (log (snd (m s))). I d) \<and> outcome Q E (fst (m s)) (disk (snd (m s)))) \<Longrightarrow> hoare I P m Q E"
  by (auto simp: hoare_def outcome_def)

lemma hoare_bind:
  assumes m: "hoare I P m Q E" and f: "\<And>x. hoare I (Q x) (f x) R E"
  shows "hoare I P (bind_io m f) R E"
proof (rule hoareI)
  fix s :: io
  assume s: "P (disk s)" "\<forall>d \<in> set (log s). I d"
  obtain r s' where r: "m s = (r, s')" by fastforce
  note one = hoareD [OF m s, unfolded r fst_conv snd_conv]
  show "(\<forall>d \<in> set (log (snd (bind_io m f s))). I d) \<and> outcome R E (fst (bind_io m f s)) (disk (snd (bind_io m f s)))"
  proof (cases r)
    case (Inl e)
    with one r show ?thesis by (simp add: bind_io_def)
  next
    case (Inr x)
    with one have "Q x (disk s')" by simp
    from hoareD [OF f this] one r Inr show ?thesis by (simp add: bind_io_def)
  qed
qed

lemma hoare_seq: "hoare I P m (\<lambda>_. Q) E \<Longrightarrow> hoare I Q n R E \<Longrightarrow> hoare I P (seq_io m n) R E"
  unfolding seq_io_def by (rule hoare_bind)

lemma hoare_catch:
  assumes m: "hoare I P m Q F" and h: "\<And>e. hoare I (F e) (h e) Q E"
  shows "hoare I P (catch_io m h) Q E"
proof (rule hoareI)
  fix s :: io
  assume s: "P (disk s)" "\<forall>d \<in> set (log s). I d"
  obtain r s' where r: "m s = (r, s')" by fastforce
  note one = hoareD [OF m s, unfolded r fst_conv snd_conv]
  show "(\<forall>d \<in> set (log (snd (catch_io m h s))). I d) \<and> outcome Q E (fst (catch_io m h s)) (disk (snd (catch_io m h s)))"
  proof (cases r)
    case (Inl e)
    with one have "F e (disk s')" by simp
    from hoareD [OF h this] one r Inl show ?thesis by (simp add: catch_io_def)
  next
    case (Inr x)
    with one r show ?thesis by (simp add: catch_io_def)
  qed
qed

lemma hoare_finally:
  assumes m: "hoare I P m Q' E'" and ok: "\<And>x. hoare I (Q' x) n (\<lambda>_. Q x) E"
    and bad: "\<And>e. hoare I (E' e) n (\<lambda>_. E e) E"
  shows "hoare I P (finally_io m n) Q E"
proof (rule hoareI)
  fix s :: io
  assume s: "P (disk s)" "\<forall>d \<in> set (log s). I d"
  obtain r s' where r: "m s = (r, s')" by fastforce
  note one = hoareD [OF m s, unfolded r fst_conv snd_conv]
  obtain q s'' where q: "n s' = (q, s'')" by fastforce
  have "(\<forall>d \<in> set (log s''). I d) \<and> outcome (\<lambda>_. outcome Q E r) E q (disk s'')"
  proof (cases r)
    case (Inl e)
    with one have "E' e (disk s')" by simp
    from hoareD [OF bad this] one q Inl show ?thesis by (cases q) simp_all
  next
    case (Inr x)
    with one have "Q' x (disk s')" by simp
    from hoareD [OF ok this] one q Inr show ?thesis by (cases q) simp_all
  qed
  then show "(\<forall>d \<in> set (log (snd (finally_io m n s))). I d) \<and>
      outcome Q E (fst (finally_io m n s)) (disk (snd (finally_io m n s)))"
    using r q by (cases q) (simp_all add: finally_io_def)
qed

lemma hoare_attempt:
  assumes m: "hoare I P m (\<lambda>_. Q None) (\<lambda>e. Q (Some e))"
  shows "hoare I P (attempt m) Q E"
proof (rule hoareI)
  fix s :: io
  assume s: "P (disk s)" "\<forall>d \<in> set (log s). I d"
  obtain r s' where r: "m s = (r, s')" by fastforce
  from hoareD [OF m s, unfolded r fst_conv snd_conv]
  show "(\<forall>d \<in> set (log (snd (attempt m s))). I d) \<and> outcome Q E (fst (attempt m s)) (disk (snd (attempt m s)))"
    using r by (cases r) (simp_all add: attempt_def)
qed

lemma hoare_tagged:
  assumes m: "hoare I P m Q (\<lambda>e. E (t, e))"
  shows "hoare I P (tagged t m) Q E"
proof (rule hoareI)
  fix s :: io
  assume s: "P (disk s)" "\<forall>d \<in> set (log s). I d"
  obtain r s' where r: "m s = (r, s')" by fastforce
  from hoareD [OF m s, unfolded r fst_conv snd_conv]
  show "(\<forall>d \<in> set (log (snd (tagged t m s))). I d) \<and> outcome Q E (fst (tagged t m s)) (disk (snd (tagged t m s)))"
    using r by (cases r) (simp_all add: tagged_def)
qed

lemma hoare_exists: "(\<And>d. P d \<Longrightarrow> Q (d p \<noteq> None) d) \<Longrightarrow> hoare I P (exists_file p) Q E"
  by (simp add: hoare_def exists_file_def)

lemma hoare_read: "(\<And>d c. P d \<Longrightarrow> d p = Some c \<Longrightarrow> Q c d) \<Longrightarrow> (\<And>d. P d \<Longrightarrow> E Io d) \<Longrightarrow> hoare I P (read_file env p) Q E"
  by (auto simp: hoare_def read_file_def tick_def split: option.splits bool.splits)

lemma hoare_rename: "(\<And>d. P d \<Longrightarrow> d a \<noteq> None \<Longrightarrow> I (d(a := None, b := d a)) \<and> Q () (d(a := None, b := d a))) \<Longrightarrow>
   (\<And>d. P d \<Longrightarrow> E Io d) \<Longrightarrow> hoare I P (rename_file env a b) Q E"
  by (auto simp: hoare_def rename_file_def tick_def set_disk_def)

lemma hoare_unlink: "(\<And>d. P d \<Longrightarrow> d p \<noteq> None \<Longrightarrow> I (d(p := None)) \<and> Q () (d(p := None))) \<Longrightarrow>
   (\<And>d. P d \<Longrightarrow> E Io d) \<Longrightarrow> hoare I P (unlink_file env p) Q E"
  by (auto simp: hoare_def unlink_file_def tick_def set_disk_def)

lemma hoare_write: "(\<And>d. P d \<Longrightarrow> d p = None \<Longrightarrow> I (d(p \<mapsto> c)) \<and> Q () (d(p \<mapsto> c))) \<Longrightarrow>
   (\<And>d x. P d \<Longrightarrow> d p = None \<Longrightarrow> I (d(p := x)) \<and> E Io (d(p := x))) \<Longrightarrow> (\<And>d. P d \<Longrightarrow> E Io d) \<Longrightarrow>
   hoare I P (write_new env p c) Q E"
  by (auto simp: hoare_def write_new_def tick_def set_disk_def)

lemma hoare_protect: "(\<And>d. P d \<Longrightarrow> Q () d) \<Longrightarrow> (\<And>d. P d \<Longrightarrow> E Io d) \<Longrightarrow> hoare I P (protect_file env p) Q E"
  by (auto simp: hoare_def protect_file_def tick_def)

lemma hoare_pre: "hoare I P' m Q E \<Longrightarrow> (\<And>d. P d \<Longrightarrow> P' d) \<Longrightarrow> hoare I P m Q E"
  by (auto simp: hoare_def)

lemma hoare_post: "hoare I P m Q E \<Longrightarrow> (\<And>x d. Q x d \<Longrightarrow> Q' x d) \<Longrightarrow> (\<And>e d. E e d \<Longrightarrow> E' e d) \<Longrightarrow> hoare I P m Q' E'"
  by (auto simp: hoare_def split: sum.splits)

lemma hoare_if: "(b \<Longrightarrow> hoare I P m Q E) \<Longrightarrow> (\<not> b \<Longrightarrow> hoare I P n Q E) \<Longrightarrow> hoare I P (if b then m else n) Q E"
  by simp

lemma hoare_remove:
  "(\<And>d. P d \<Longrightarrow> d p \<noteq> None \<Longrightarrow> I (d(p := None)) \<and> Q () (d(p := None))) \<Longrightarrow> (\<And>d. P d \<Longrightarrow> d p = None \<Longrightarrow> Q () d) \<Longrightarrow>
   (\<And>d. P d \<Longrightarrow> E Io d) \<Longrightarrow> hoare I P (remove_if_present env p) Q E"
  unfolding remove_if_present_def
  by (rule hoare_bind [where Q = "\<lambda>h d. P d \<and> h = (d p \<noteq> None)"])
    (auto intro!: hoare_exists hoare_unlink hoare_ret hoare_if)

section \<open>The swap on disk\<close>

text \<open>The four paths of one rotation are different files.\<close>

definition distinct_paths :: "string \<Rightarrow> string \<Rightarrow> string \<Rightarrow> string \<Rightarrow> bool" where
  "distinct_paths s t b x \<longleftrightarrow> distinct [s, t, b, x]"

text \<open>Where the old key is: in place, or whole in the backup while the place is empty or has the new key.\<close>

definition in_place :: "string \<Rightarrow> string \<Rightarrow> string \<Rightarrow> string \<Rightarrow> disk \<Rightarrow> bool" where
  "in_place s b x raw d \<longleftrightarrow> d s = Some raw \<and> d b = None \<and> d x = None"

definition in_backup :: "string \<Rightarrow> string \<Rightarrow> string \<Rightarrow> string \<Rightarrow> string option set \<Rightarrow> disk \<Rightarrow> bool" where
  "in_backup s b x raw A d \<longleftrightarrow> d b = Some raw \<and> d s \<in> A \<and> d x = None"

definition recoverable :: "string \<Rightarrow> string \<Rightarrow> string \<Rightarrow> string \<Rightarrow> string \<Rightarrow> disk \<Rightarrow> bool" where
  "recoverable s b x raw new d \<longleftrightarrow> in_place s b x raw d \<or> in_backup s b x raw {None, Some new} d"

lemma remove_other:
  assumes "distinct_paths s t b x" "\<And>d. P d \<Longrightarrow> recoverable s b x raw new d"
  shows "hoare (recoverable s b x raw new) P (remove_if_present env t) (\<lambda>_. recoverable s b x raw new) (\<lambda>_. recoverable s b x raw new)"
  using assms by (intro hoare_remove) (auto simp: recoverable_def in_place_def in_backup_def distinct_paths_def)

lemma swap_rollback_hoare:
  assumes "distinct_paths s t b x"
  shows "hoare (recoverable s b x raw new)
    (\<lambda>d. if present then in_backup s b x raw (if live then {Some new} else {None}) d else \<not> live \<and> in_place s b x raw d)
    (swap_rollback env s b present live) (\<lambda>_. in_place s b x raw) (\<lambda>_. recoverable s b x raw new)"
  unfolding swap_rollback_def
  apply (rule hoare_seq [where Q = "\<lambda>d. if present then in_backup s b x raw {None} d else in_place s b x raw d"])
  subgoal using assms
    by (intro hoare_if hoare_remove hoare_ret)
      (auto simp: recoverable_def in_place_def in_backup_def distinct_paths_def split: if_splits)
  apply (rule hoare_bind [where Q = "\<lambda>h d. if present then h \<and> in_backup s b x raw {None} d else \<not> h \<and> in_place s b x raw d"])
  subgoal by (intro hoare_exists) (auto simp: in_place_def in_backup_def split: if_splits)
  apply (rule hoare_if)
  subgoal
    apply (rule hoare_seq [where Q = "in_place s b x raw"])
    subgoal using assms
      by (intro hoare_rename) (auto simp: recoverable_def in_place_def in_backup_def distinct_paths_def split: if_splits)
    subgoal by (intro hoare_protect) (auto simp: recoverable_def)
    done
  subgoal by (intro hoare_ret) (auto split: if_splits)
  done

definition caught_at :: "string \<Rightarrow> string \<Rightarrow> string \<Rightarrow> string \<Rightarrow> string \<Rightarrow> (bool \<times> bool) \<times> rot_error \<Rightarrow> disk \<Rightarrow> bool" where
  "caught_at s b x raw new fe d \<longleftrightarrow>
     (if fst (fst fe) then in_backup s b x raw (if snd (fst fe) then {Some new} else {None}) d
      else \<not> snd (fst fe) \<and> in_place s b x raw d)"

lemma swap_files_caught:
  assumes "distinct_paths s t b x"
  shows "hoare (recoverable s b x raw new) (\<lambda>d. in_place s b x raw d \<and> d t = Some new) (swap_files env s t b)
    (\<lambda>_ d. in_backup s b x raw {Some new} d \<and> d t = None) (caught_at s b x raw new)"
  unfolding swap_files_def
  apply (rule hoare_seq [where Q = "\<lambda>d. in_backup s b x raw {None} d \<and> d t = Some new"])
  subgoal using assms
    by (intro hoare_tagged hoare_rename) (auto simp: caught_at_def in_place_def in_backup_def recoverable_def distinct_paths_def)
  apply (rule hoare_seq [where Q = "\<lambda>d. in_backup s b x raw {None} d \<and> d t = Some new"])
  subgoal by (intro hoare_tagged hoare_protect) (auto simp: caught_at_def)
  apply (rule hoare_seq [where Q = "\<lambda>d. in_backup s b x raw {Some new} d \<and> d t = None"])
  subgoal using assms
    by (intro hoare_tagged hoare_rename) (auto simp: caught_at_def in_place_def in_backup_def recoverable_def distinct_paths_def)
  subgoal by (intro hoare_tagged hoare_protect) (auto simp: caught_at_def)
  done

lemma swap_caught_hoare:
  assumes "distinct_paths s t b x"
  shows "hoare (recoverable s b x raw new) (caught_at s b x raw new fe) (swap_caught env s t b fe)
    Q (\<lambda>_. recoverable s b x raw new)"
  unfolding swap_caught_def
  apply (rule hoare_bind [where Q = "\<lambda>_. recoverable s b x raw new"])
  subgoal
    apply (rule hoare_attempt)
    apply (rule hoare_pre)
     apply (rule hoare_post [OF swap_rollback_hoare [OF assms]])
    by (auto simp: recoverable_def caught_at_def split: if_splits)
  apply (rule hoare_seq [where Q = "recoverable s b x raw new"])
  subgoal using assms by (intro remove_other)
  subgoal by (intro hoare_throw)
  done

lemma hoare_assert:
  "(\<And>d. P d \<Longrightarrow> valid_caller_secret v \<Longrightarrow> Q v d) \<Longrightarrow> (\<And>d. P d \<Longrightarrow> E Bad_Key d) \<Longrightarrow> hoare I P (assert_key v) Q E"
  by (cases "valid_caller_secret v") (auto simp: assert_key_def assert_caller_secret_def intro!: hoare_ret hoare_throw)

lemma hoare_path:
  "(\<And>d. P d \<Longrightarrow> Q (secret @ kind @ i) d) \<Longrightarrow> (\<And>d. P d \<Longrightarrow> E Bad_Operation d) \<Longrightarrow>
   hoare I P (generation_path kind secret i) Q E"
  by (auto simp: generation_path_def intro!: hoare_ret hoare_throw)

lemma swap_install_hoare:
  assumes paths: "distinct_paths s t b x"
  shows "hoare (recoverable s b x raw new) (\<lambda>d. in_place s b x raw d \<and> d t = Some new) (swap_install env s t b)
    (\<lambda>_ d. in_backup s b x raw {Some new} d \<and> d t = None) (\<lambda>_. recoverable s b x raw new)"
  unfolding swap_install_def
  apply (rule hoare_seq [where Q = "\<lambda>d. in_place s b x raw d \<and> d t = Some new"])
  subgoal
    apply (rule hoare_catch [where F = "\<lambda>_. in_place s b x raw"])
    subgoal by (intro hoare_protect) auto
    apply (rule hoare_seq [where Q = "recoverable s b x raw new"])
    subgoal by (rule remove_other [OF paths]) (simp add: recoverable_def)
    subgoal by (intro hoare_throw)
    done
  apply (rule hoare_finally [where Q' = "\<lambda>_ d. in_backup s b x raw {Some new} d \<and> d t = None" and E' = "\<lambda>_. recoverable s b x raw new"])
  subgoal by (rule hoare_catch [OF swap_files_caught [OF paths] swap_caught_hoare [OF paths]])
  subgoal by (intro hoare_remove) (auto simp: recoverable_def in_backup_def)
  subgoal by (rule remove_other [OF paths])
  done

lemma swap_hoare:
  fixes s i x raw generated :: string
  defines "b \<equiv> s @ ''.rotate-rollback.'' @ i" and "t \<equiv> s @ ''.rotate-new.'' @ i" and "new \<equiv> trim generated @ [LF]"
  assumes paths: "distinct_paths s t b x"
  shows "hoare (recoverable s b x raw new) (in_place s b x raw) (swap_caller_capability env s i generated)
    (\<lambda>r d. in_backup s b x raw {Some new} d \<and> d t = None \<and> valid_caller_secret (trim generated) \<and>
       r = \<lparr>previous_secret = trim raw, current_secret = trim generated, backup_file = b\<rparr>)
    (\<lambda>_. recoverable s b x raw new)"
  (is "hoare ?I _ _ ?Q ?E")
proof -
  define K where "K k previous current d \<longleftrightarrow> k \<and> previous = trim raw \<and> current = trim generated \<and>
      valid_caller_secret current \<and> in_place s b x raw d" for k previous current d
  have rec: "in_place s b x raw d \<Longrightarrow> ?E e d" for e d by (simp add: recoverable_def)
  have install: "hoare ?I (\<lambda>d. K (temporary = t \<and> backup = b) previous current d \<and> d t = None)
      (seq_io (write_new env temporary (current @ [LF])) (seq_io (swap_install env s temporary backup)
        (ret \<lparr>previous_secret = previous, current_secret = current, backup_file = backup\<rparr>))) ?Q ?E"
    for temporary backup previous current
  proof (cases "temporary = t \<and> backup = b \<and> previous = trim raw \<and> current = trim generated \<and> valid_caller_secret current")
    case True
    have w: "hoare ?I (in_place s b x raw) (write_new env t new) (\<lambda>_ d. in_place s b x raw d \<and> d t = Some new) ?E"
      using paths by (intro hoare_write) (auto simp: recoverable_def in_place_def distinct_paths_def)
    have r: "hoare ?I (\<lambda>d. in_backup s b x raw {Some new} d \<and> d t = None)
        (ret \<lparr>previous_secret = previous, current_secret = current, backup_file = backup\<rparr>) ?Q ?E"
      using True by (intro hoare_ret) auto
    show ?thesis using True hoare_seq [OF w hoare_seq [OF swap_install_hoare [OF paths] r]]
      by (auto simp: new_def K_def intro: hoare_pre)
  next
    case False
    then show ?thesis by (auto simp: hoare_def K_def)
  qed
  show ?thesis
    unfolding swap_caller_capability_def
    apply (rule hoare_bind [where Q = "\<lambda>c d. c = raw \<and> in_place s b x raw d"])
    subgoal by (intro hoare_read) (auto simp: in_place_def recoverable_def)
    subgoal for c
    apply (rule hoare_bind [where Q = "\<lambda>k d. k = trim raw \<and> in_place s b x raw d"])
    subgoal by (intro hoare_assert) (auto intro: rec)
    subgoal for previous
    apply (rule hoare_bind [where Q = "\<lambda>k. K True previous k"])
    subgoal by (intro hoare_assert) (auto simp: K_def intro: rec)
    subgoal for current
    apply (rule hoare_if)
    subgoal by (intro hoare_throw) (auto simp: K_def intro: rec)
    apply (rule hoare_bind [where Q = "\<lambda>p. K (p = t) previous current"])
    subgoal unfolding temporary_path_def t_def by (intro hoare_path) (auto simp: K_def intro: rec)
    subgoal for temporary
    apply (rule hoare_bind [where Q = "\<lambda>p. K (temporary = t \<and> p = b) previous current"])
    subgoal unfolding backup_path_def by (intro hoare_path) (unfold b_def [symmetric] K_def, auto intro: rec)
    subgoal for backup
    apply (rule hoare_bind [where Q = "\<lambda>h d. h = (d temporary \<noteq> None) \<and> K (temporary = t \<and> backup = b) previous current d"])
    subgoal by (intro hoare_exists) simp
    subgoal for h
    apply (rule hoare_bind [where Q = "\<lambda>_ d. h = (d temporary \<noteq> None) \<and> K (temporary = t \<and> backup = b) previous current d"])
    subgoal by (intro hoare_exists) simp
    apply (rule hoare_if)
    subgoal by (intro hoare_throw) (auto simp: K_def intro: rec)
    subgoal by (rule hoare_pre [OF install]) (auto simp: K_def)
    done done done done done done done
qed

section \<open>Restoring after a crash\<close>

lemma trim_line: "k \<noteq> [] \<Longrightarrow> \<forall>c \<in> set k. secret_char c \<Longrightarrow> trim (k @ [LF]) = k"
proof -
  assume k: "k \<noteq> []" "\<forall>c \<in> set k. secret_char c"
  have lf: "trim_start [LF] = []" by code_simp
  have "trim_end (k @ [LF]) = k" using k(2) by (induction k) (simp_all add: lf trim_start_secret)
  moreover have "trim_start (k @ [LF]) = k @ [LF]" using k by (cases k) (simp_all add: trim_start_secret)
  ultimately show ?thesis by (simp add: trim_def)
qed

lemma trim_secret: "k \<noteq> [] \<Longrightarrow> \<forall>c \<in> set k. secret_char c \<Longrightarrow> trim k = k"
proof -
  assume k: "k \<noteq> []" "\<forall>c \<in> set k. secret_char c"
  have "trim_end k = k" using k(2) by (induction k) (simp_all add: trim_start_secret)
  moreover have "trim_start k = k" using k by (cases k) (simp_all add: trim_start_secret)
  ultimately show ?thesis by (simp add: trim_def)
qed

lemma trim_key: "valid_caller_secret k \<Longrightarrow> trim (k @ [LF]) = k"
  by (rule trim_line) (auto simp: valid_caller_secret_def)

definition no_faults :: fault_env where "no_faults = \<lparr>fails = (\<lambda>_. False), left_behind = (\<lambda>_. None)\<rparr>"

definition fresh_io :: "disk \<Rightarrow> io" where "fresh_io d = \<lparr>disk = d, clock = 0, log = []\<rparr>"

lemmas io_defs = ret_def throw_def bind_io_def seq_io_def catch_io_def tagged_def exists_file_def read_file_def
  rename_file_def unlink_file_def protect_file_def no_faults_def tick_def set_disk_def fresh_io_def
  assert_key_def assert_caller_secret_def generation_path_def

lemma restore_recovers:
  fixes s i raw :: string
  defines "b \<equiv> s @ ''.rotate-rollback.'' @ i" and "x \<equiv> s @ ''.rotate-displaced.'' @ i"
  assumes "recoverable s b x raw new d" and "valid_operation i"
    and "valid_caller_secret (trim raw)" "valid_caller_secret (trim new)"
  shows "\<exists>r s'. restore_caller_capability no_faults s i (fresh_io d) = (Inr r, s') \<and> disk s' s = Some raw \<and> disk s' b = None"
proof -
  have ne: "b \<noteq> s" "x \<noteq> s" "b \<noteq> x" by (simp_all add: b_def x_def)
  have paths: "backup_path s i = ret b" "displaced_path s i = ret x"
    using assms(4) by (simp_all add: backup_path_def displaced_path_def generation_path_def b_def x_def)
  consider "in_place s b x raw d" | "in_backup s b x raw {None} d" | "in_backup s b x raw {Some new} d"
    using assms(3) by (auto simp: recoverable_def in_backup_def)
  then show ?thesis
  proof cases
    case 1
    then show ?thesis
      by (simp add: restore_caller_capability_def paths io_defs in_place_def)
  next
    case 2
    then show ?thesis using assms(5) ne
      by (simp add: restore_caller_capability_def restore_files_def paths io_defs in_backup_def)
  next
    case 3
    then show ?thesis using assms(5,6) ne
      by (simp add: restore_caller_capability_def restore_files_def paths io_defs in_backup_def)
  qed
qed

section \<open>Properties\<close>

text \<open>C9: However a rotation ends and wherever it is cut off, by a failing operation or a crash between any two of
  them, the old key is whole on the disk and a restore puts it back in its place.\<close>

theorem interrupted_swap_is_restored:
  fixes s i raw generated :: string
  assumes "d s = Some raw" and "d (s @ ''.rotate-rollback.'' @ i) = None" and "d (s @ ''.rotate-displaced.'' @ i) = None"
    and "valid_operation i" and "valid_caller_secret (trim raw)" and "valid_caller_secret generated"
    and "swap_caller_capability env s i generated (fresh_io d) = (r, end_io)"
    and "crash = d \<or> crash \<in> set (log end_io) \<or> crash = disk end_io"
  shows "\<exists>q s'. restore_caller_capability no_faults s i (fresh_io crash) = (Inr q, s') \<and>
    disk s' s = Some raw \<and> disk s' (s @ ''.rotate-rollback.'' @ i) = None"
proof -
  let ?b = "s @ ''.rotate-rollback.'' @ i" and ?t = "s @ ''.rotate-new.'' @ i" and ?x = "s @ ''.rotate-displaced.'' @ i"
  have "generated \<noteq> []" "\<forall>c \<in> set generated. secret_char c" using assms(6) by (auto simp: valid_caller_secret_def)
  then have trim: "trim generated = generated"
    using trim_secret by blast
  have paths: "distinct_paths s ?t ?b ?x" by (simp add: distinct_paths_def)
  have start: "in_place s ?b ?x raw (disk (fresh_io d))" using assms(1-3) by (simp add: in_place_def fresh_io_def)
  have "(\<forall>d \<in> set (log end_io). recoverable s ?b ?x raw (generated @ [LF]) d) \<and>
      recoverable s ?b ?x raw (generated @ [LF]) (disk end_io)"
    using hoareD [OF swap_hoare [OF paths, of raw generated env] start] assms(7)
    by (cases r) (auto simp: fresh_io_def trim recoverable_def in_backup_def)
  then have "recoverable s ?b ?x raw (generated @ [LF]) crash"
    using assms(8) start by (auto simp: recoverable_def fresh_io_def)
  then show ?thesis
    by (rule restore_recovers [OF _ assms(4,5)]) (simp add: trim_key [OF assms(6)] assms(6))
qed

text \<open>A rotation that reports success has the new key in place, the old file in the backup and no temporary
  file left.\<close>

theorem swap_success:
  fixes s i raw generated :: string
  assumes "d s = Some raw" and "d (s @ ''.rotate-rollback.'' @ i) = None" and "d (s @ ''.rotate-displaced.'' @ i) = None"
    and "swap_caller_capability env s i generated (fresh_io d) = (Inr r, end_io)"
  shows "disk end_io s = Some (current_secret r @ [LF]) \<and> valid_caller_secret (current_secret r) \<and>
    disk end_io (backup_file r) = Some raw \<and> previous_secret r = trim raw \<and> disk end_io (s @ ''.rotate-new.'' @ i) = None"
proof -
  let ?b = "s @ ''.rotate-rollback.'' @ i" and ?t = "s @ ''.rotate-new.'' @ i" and ?x = "s @ ''.rotate-displaced.'' @ i"
  have paths: "distinct_paths s ?t ?b ?x" by (simp add: distinct_paths_def)
  have start: "in_place s ?b ?x raw (disk (fresh_io d))" using assms(1-3) by (simp add: in_place_def fresh_io_def)
  show ?thesis
    using hoareD [OF swap_hoare [OF paths, of raw generated env] start] assms(4)
    by (auto simp: fresh_io_def in_backup_def)
qed

definition sample_disk :: disk where
  "sample_disk = [''/key'' \<mapsto> sample_key (CHR ''k'') @ [LF]]"

definition sample_operation :: string where "sample_operation = replicate 32 (CHR ''0'')"

lemma sample_operation_valid: "valid_operation sample_operation"
  by code_simp

text \<open>The second rename fails and so does the one that would undo the first.\<close>

definition sample_faults :: fault_env where
  "sample_faults = \<lparr>fails = (\<lambda>n. n = 5 \<or> n = 6), left_behind = (\<lambda>_. None)\<rparr>"

lemma sample_disk_facts:
  "sample_disk ''/key'' = Some (sample_key (CHR ''k'') @ [LF])"
  "sample_disk (''/key'' @ ''.rotate-rollback.'' @ i) = None" "sample_disk (''/key'' @ ''.rotate-displaced.'' @ i) = None"
  "sample_disk (''/key'' @ ''.rotate-new.'' @ i) = None"
  by (simp_all add: sample_disk_def)

lemma interrupted_swap_is_restored_witness:
  "\<exists>q s'. restore_caller_capability no_faults ''/key'' sample_operation
      (fresh_io (disk (snd (swap_caller_capability sample_faults ''/key'' sample_operation (sample_key (CHR ''z'')) (fresh_io sample_disk)))))
      = (Inr q, s') \<and> disk s' ''/key'' = Some (sample_key (CHR ''k'') @ [LF]) \<and>
    disk s' (''/key'' @ ''.rotate-rollback.'' @ sample_operation) = None"
  by (rule interrupted_swap_is_restored [where env = sample_faults, OF sample_disk_facts(1-3) sample_operation_valid
        _ sample_key_valid(2) prod.collapse [symmetric]])
    (simp_all add: trim_key sample_key_valid)

lemma sample_keys_differ: "sample_key (CHR ''z'') \<noteq> sample_key (CHR ''k'')"
  by code_simp

lemma swap_success_witness:
  "\<exists>r end_io. swap_caller_capability no_faults ''/key'' sample_operation (sample_key (CHR ''z'')) (fresh_io sample_disk) = (Inr r, end_io) \<and>
    disk end_io ''/key'' = Some (current_secret r @ [LF])"
proof -
  have trims: "trim (sample_key (CHR ''k'') @ [LF]) = sample_key (CHR ''k'')" "trim (sample_key (CHR ''z'')) = sample_key (CHR ''z'')"
    using trim_key [OF sample_key_valid(1)] trim_secret sample_key_valid(2) by (auto simp: valid_caller_secret_def)
  have paths: "backup_path ''/key'' sample_operation = ret (''/key'' @ ''.rotate-rollback.'' @ sample_operation)"
    "temporary_path ''/key'' sample_operation = ret (''/key'' @ ''.rotate-new.'' @ sample_operation)"
    using sample_operation_valid by (simp_all add: backup_path_def temporary_path_def generation_path_def)
  obtain r end_io where run: "swap_caller_capability no_faults ''/key'' sample_operation (sample_key (CHR ''z'')) (fresh_io sample_disk) = (Inr r, end_io)"
    by (simp add: swap_caller_capability_def swap_install_def swap_files_def finally_io_def remove_if_present_def paths write_new_def
        sample_disk_facts [simplified] trims sample_key_valid sample_keys_differ io_defs)
  with swap_success [OF sample_disk_facts(1-3) run] show ?thesis by blast
qed

end
