(* ===== verification/Think_Tags.thy ===== *)
theory Think_Tags
  imports Utf8_Text
begin

text \<open>
  The text side of \<open>reasoning-tag-stripper.mjs\<close>: the two grammars of reasoning tags, the
  stripper of a complete text (\<open>stripThinkTags\<close>) and the incremental stripper of a streamed
  text (\<open>ThinkStreamStripper\<close>). The regular expressions are recognisers of the tag at the head
  of a text; a search at or after an index is a search in the rest of the text. The tags are
  ASCII, so their places in the bytes of a text are their places in its code units.
\<close>

section \<open>The grammars\<close>

definition TAG_NAMES :: "string list" where
  "TAG_NAMES = [''thinking'', ''reasoning'', ''think'', ''reason'']"
definition MAX_NONCE :: nat where "MAX_NONCE = 32"
definition NONCE_MARKUP_NAMES :: "string list" where
  "NONCE_MARKUP_NAMES = [''tool_calls'', ''tool_call'', ''arg_key'', ''arg_value'']"
definition MAX_PENDING_LEAD :: nat where "MAX_PENDING_LEAD = 8192"

definition nonce_char :: "char \<Rightarrow> bool" where
  "nonce_char c \<longleftrightarrow> (CHR ''0'' \<le> c \<and> c \<le> CHR ''9'') \<or> (CHR ''a'' \<le> c \<and> c \<le> CHR ''z'') \<or> (CHR ''A'' \<le> c \<and> c \<le> CHR ''Z'')"

definition is_reasoning_name :: "string \<Rightarrow> bool" where
  "is_reasoning_name n \<longleftrightarrow> n \<in> set TAG_NAMES"

text \<open>\<open>SUFFIX?>\<close>, \<open>SUFFIX>\<close> or \<open>>\<close> at the head of a text: what it matched.\<close>

datatype suffix = NoSuffix | MaySuffix | MustSuffix

definition tail_match :: "suffix \<Rightarrow> string \<Rightarrow> string option" where
  "tail_match sfx s =
     (if sfx \<noteq> MustSuffix \<and> starts_with ''>'' s then Some ''>''
      else if sfx \<noteq> NoSuffix \<and> starts_with '':'' s then
        (let n = takeWhile nonce_char (take MAX_NONCE (tl s)) in
         if n \<noteq> [] \<and> starts_with ''>'' (drop (length n) (tl s)) then Some ('':'' @ n @ ''>'') else None)
      else None)"

text \<open>An alternation of names and the tail after it.\<close>

fun alt_match :: "string list \<Rightarrow> suffix \<Rightarrow> string \<Rightarrow> string option" where
  "alt_match [] sfx s = None"
| "alt_match (n # ns) sfx s =
     (if starts_with n s then
        (case tail_match sfx (drop (length n) s) of Some t \<Rightarrow> Some (n @ t) | None \<Rightarrow> alt_match ns sfx s)
      else alt_match ns sfx s)"

definition open_match :: "string list \<Rightarrow> suffix \<Rightarrow> string \<Rightarrow> string option" where
  "open_match ns sfx s =
     (if starts_with ''<'' s then map_option (\<lambda>t. ''<'' @ t) (alt_match ns sfx (drop 1 s)) else None)"

definition close_match :: "string list \<Rightarrow> suffix \<Rightarrow> string \<Rightarrow> string option" where
  "close_match ns sfx s =
     (if starts_with ''</'' s then map_option (\<lambda>t. ''</'' @ t) (alt_match ns sfx (drop 2 s)) else None)"

definition or_else :: "'a option \<Rightarrow> 'a option \<Rightarrow> 'a option" where
  "or_else a b = (case a of Some x \<Rightarrow> Some x | None \<Rightarrow> b)"

text \<open>\<open>buildGrammar(nonce)\<close>: the optional slash is tried first, the second alternative last.\<close>

definition name_suffix :: "bool \<Rightarrow> suffix" where
  "name_suffix nonce = (if nonce then MaySuffix else NoSuffix)"

definition orphan_re :: "bool \<Rightarrow> string \<Rightarrow> string option" where
  "orphan_re nonce s =
     or_else (close_match TAG_NAMES (name_suffix nonce) s) (open_match TAG_NAMES (name_suffix nonce) s)"

definition tag_re :: "bool \<Rightarrow> string \<Rightarrow> string option" where
  "tag_re nonce s =
     (if nonce then
        or_else (orphan_re True s)
          (or_else (close_match NONCE_MARKUP_NAMES MustSuffix s) (open_match NONCE_MARKUP_NAMES MustSuffix s))
      else orphan_re False s)"

definition open_re :: "bool \<Rightarrow> string \<Rightarrow> string option" where
  "open_re nonce s =
     (if nonce then
        or_else (open_match TAG_NAMES MaySuffix s) (open_match NONCE_MARKUP_NAMES MustSuffix s)
      else open_match TAG_NAMES NoSuffix s)"

definition close_re :: "bool \<Rightarrow> string \<Rightarrow> string option" where
  "close_re nonce s = close_match TAG_NAMES (name_suffix nonce) s"

definition grammar_names :: "bool \<Rightarrow> string list" where
  "grammar_names nonce = (if nonce then TAG_NAMES @ NONCE_MARKUP_NAMES else TAG_NAMES)"

definition max_tag_len :: "bool \<Rightarrow> nat" where
  "max_tag_len nonce =
     foldr max (map (\<lambda>n. length n + 3 + (if nonce then MAX_NONCE + 1 else 0)) (grammar_names nonce)) 0"

text \<open>\<open>tagPrefixTest\<close>: could the text still grow into a tag?\<close>

definition is_tag_prefix :: "bool \<Rightarrow> string \<Rightarrow> bool" where
  "is_tag_prefix nonce s =
     (if \<not> starts_with ''<'' s then False
      else let r1 = tl s; r = (if starts_with ''/'' r1 then tl r1 else r1) in
        if r = [] then True
        else (case index_of '':'' r of
            None \<Rightarrow> (\<exists>n \<in> set (grammar_names nonce). r \<noteq> [] \<and> starts_with r n)
          | Some colon \<Rightarrow>
              nonce \<and> take colon r \<in> set (grammar_names nonce) \<and>
              js_length (drop (colon + 1) r) \<le> MAX_NONCE \<and> (\<forall>c \<in> set (drop (colon + 1) r). nonce_char c)))"

section \<open>Searching\<close>

text \<open>The leftmost match: the text before it, the match, the text behind it.\<close>

fun find_match :: "(string \<Rightarrow> string option) \<Rightarrow> string \<Rightarrow> (string \<times> string \<times> string) option" where
  "find_match m s =
     (case m s of
        Some t \<Rightarrow> Some ([], t, drop (length t) s)
      | None \<Rightarrow> (case s of [] \<Rightarrow> None | c # cs \<Rightarrow> map_option (\<lambda>(h, t, r). (c # h, t, r)) (find_match m cs)))"

declare find_match.simps [simp del]

text \<open>\<open>replace(re, "")\<close> with a global expression; an empty match would step over one character.\<close>

function remove_all :: "(string \<Rightarrow> string option) \<Rightarrow> string \<Rightarrow> string" where
  "remove_all m s =
     (case s of
        [] \<Rightarrow> []
      | c # cs \<Rightarrow>
          (case m s of
             Some t \<Rightarrow> (if t = [] then c # remove_all m cs else remove_all m (drop (length t) s))
           | None \<Rightarrow> c # remove_all m cs))"
  by pat_completeness auto
termination
  by (relation "measure (\<lambda>(m, s). length s)") auto

declare remove_all.simps [simp del]

record tag_parts =
  tg_name :: string
  tg_nonce :: string
  tg_opening :: bool

definition parse_tag :: "string \<Rightarrow> tag_parts" where
  "parse_tag tag =
     (let opening = (\<not> (1 < length tag \<and> tag ! 1 = CHR ''/''));
          body = butlast (drop (if opening then 1 else 2) tag) in
      case index_of '':'' body of
        None \<Rightarrow> \<lparr>tg_name = body, tg_nonce = [], tg_opening = opening\<rparr>
      | Some colon \<Rightarrow> \<lparr>tg_name = take colon body, tg_nonce = drop (colon + 1) body, tg_opening = opening\<rparr>)"

text \<open>The key \<open>`${name}:${nonce}`\<close>\<close>

definition tag_key :: "tag_parts \<Rightarrow> string" where
  "tag_key t = tg_name t @ '':'' @ tg_nonce t"


section \<open>What the expressions match\<close>

text \<open>A tag is \<open><\<close>, an optional slash, a name, an optional suffix and \<open>></\<close>.\<close>

definition suffix_ok :: "suffix \<Rightarrow> string \<Rightarrow> bool" where
  "suffix_ok sfx u \<longleftrightarrow>
     (if u = [] then sfx \<noteq> MustSuffix
      else sfx \<noteq> NoSuffix \<and> hd u = CHR '':'' \<and> tl u \<noteq> [] \<and> length (tl u) \<le> MAX_NONCE \<and> (\<forall>c \<in> set (tl u). nonce_char c))"

lemma not_nonce_gt [simp]: "\<not> nonce_char CHR ''>''" and not_nonce_colon [simp]: "\<not> nonce_char CHR '':''"
  and not_nonce_lt [simp]: "\<not> nonce_char CHR ''<''"
  by (simp_all add: nonce_char_def)

lemma tail_match_iff:
  "tail_match sfx s = Some t \<longleftrightarrow> (\<exists>u. t = u @ ''>'' \<and> suffix_ok sfx u \<and> starts_with t s)"
proof
  assume m: "tail_match sfx s = Some t"
  show "\<exists>u. t = u @ ''>'' \<and> suffix_ok sfx u \<and> starts_with t s"
  proof (cases "sfx \<noteq> MustSuffix \<and> starts_with ''>'' s")
    case True
    with m show ?thesis by (intro exI [of _ "[]"]) (simp add: tail_match_def suffix_ok_def)
  next
    case False
    let ?n = "takeWhile nonce_char (take MAX_NONCE (tl s))"
    from m False have sfx: "sfx \<noteq> NoSuffix" "starts_with '':'' s" and n: "?n \<noteq> []"
      and gt: "starts_with ''>'' (drop (length ?n) (tl s))" and t: "t = '':'' @ ?n @ ''>''"
      unfolding tail_match_def Let_def by (simp_all split: if_splits)
    from sfx(2) obtain r where s: "s = CHR '':'' # r" by (cases s) auto
    have len: "length ?n \<le> MAX_NONCE" using length_takeWhile_le [of nonce_char "take MAX_NONCE (tl s)"] by simp
    have pre: "?n = take (length ?n) (tl s)"
      using takeWhile_eq_take [of nonce_char "take MAX_NONCE (tl s)"] len by (metis min.absorb1 take_take)
    have "starts_with t s" using gt pre unfolding starts_with_iff_append t s
      by (metis append.assoc append_Cons append_Nil append_take_drop_id list.sel(3))
    moreover have "suffix_ok sfx ('':'' @ ?n)"
      using sfx(1) n len by (auto simp: suffix_ok_def dest: set_takeWhileD)
    ultimately show ?thesis using t by (intro exI [of _ "'':'' @ ?n"]) simp
  qed
next
  assume "\<exists>u. t = u @ ''>'' \<and> suffix_ok sfx u \<and> starts_with t s"
  then obtain u r where t: "t = u @ ''>''" and u: "suffix_ok sfx u" and s: "s = u @ ''>'' @ r"
    by (auto simp: starts_with_iff_append)
  show "tail_match sfx s = Some t"
  proof (cases u)
    case Nil
    with u s t show ?thesis by (simp add: tail_match_def suffix_ok_def)
  next
    case (Cons c n)
    with u have c: "sfx \<noteq> NoSuffix" "c = CHR '':''" "n \<noteq> []" "length n \<le> MAX_NONCE" "\<forall>c \<in> set n. nonce_char c"
      by (simp_all add: suffix_ok_def)
    have tl: "tl s = n @ CHR ''>'' # r" using s Cons by simp
    have "takeWhile nonce_char (take MAX_NONCE (tl s)) = n"
    proof (cases "length n = MAX_NONCE")
      case True
      then have "take MAX_NONCE (tl s) = n" using tl by simp
      then show ?thesis using c(5) by simp
    next
      case False
      then obtain k where "MAX_NONCE - length n = Suc k" using c(4) by (cases "MAX_NONCE - length n") auto
      then have "take MAX_NONCE (tl s) = n @ CHR ''>'' # take k r" using tl c(4) by simp
      then show ?thesis using c(5) by (simp add: takeWhile_append)
    qed
    then show ?thesis using c s Cons t by (simp add: tail_match_def)
  qed
qed

definition plain_names :: "string list \<Rightarrow> bool" where
  "plain_names ns \<longleftrightarrow> (\<forall>n \<in> set ns. n \<noteq> [] \<and> (\<forall>c \<in> set n. c \<notin> {CHR '':'', CHR ''>'', CHR ''/'', CHR ''<''}))"

lemma names_plain [simp]: "plain_names TAG_NAMES" "plain_names NONCE_MARKUP_NAMES"
  by (simp_all add: plain_names_def TAG_NAMES_def NONCE_MARKUP_NAMES_def)

text \<open>What ends at its first \<open>></\<close> is determined by the text it begins.\<close>

lemma first_gt_unique:
  "starts_with (v @ ''>'') s \<Longrightarrow> starts_with (w @ ''>'') s \<Longrightarrow> CHR ''>'' \<notin> set v \<Longrightarrow> CHR ''>'' \<notin> set w \<Longrightarrow> v = w"
proof (induction v arbitrary: w s)
  case Nil
  then show ?case by (cases w; cases s) auto
next
  case (Cons c v)
  then show ?case by (cases w; cases s) auto
qed

lemma suffix_no_gt: "suffix_ok sfx u \<Longrightarrow> CHR ''>'' \<notin> set u"
  by (cases u) (auto simp: suffix_ok_def split: if_splits)

lemma alt_match_iff:
  "plain_names ns \<Longrightarrow> alt_match ns sfx s = Some t \<longleftrightarrow>
     (\<exists>n \<in> set ns. \<exists>u. t = n @ u @ ''>'' \<and> suffix_ok sfx u \<and> starts_with t s)"
proof (induction ns)
  case Nil
  then show ?case by simp
next
  case (Cons n ns)
  have plain: "plain_names ns" using Cons.prems by (simp add: plain_names_def)
  have ext: "starts_with (n @ v) s \<longleftrightarrow> starts_with n s \<and> starts_with v (drop (length n) s)" for v
    by (auto simp: starts_with_iff_append)
  show ?case
  proof (cases "starts_with n s \<and> tail_match sfx (drop (length n) s) \<noteq> None")
    case False
    have none: "\<not> (\<exists>u. t = n @ u @ ''>'' \<and> suffix_ok sfx u \<and> starts_with t s)"
    proof
      assume "\<exists>u. t = n @ u @ ''>'' \<and> suffix_ok sfx u \<and> starts_with t s"
      then obtain u where "t = n @ u @ ''>''" "suffix_ok sfx u" "starts_with n s" "starts_with (u @ ''>'') (drop (length n) s)"
        by (auto simp: ext)
      with False show False using tail_match_iff [of sfx "drop (length n) s" "u @ ''>''"] by auto
    qed
    have "alt_match (n # ns) sfx s = alt_match ns sfx s" using False by auto
    with none Cons.IH [OF plain] show ?thesis by auto
  next
    case True
    then obtain v where v: "tail_match sfx (drop (length n) s) = Some v" by blast
    then obtain u where u: "v = u @ ''>''" "suffix_ok sfx u" "starts_with v (drop (length n) s)"
      using tail_match_iff by blast
    have m: "alt_match (n # ns) sfx s = Some (n @ u @ ''>'')" using True v u(1) by simp
    have st: "starts_with ((n @ u) @ ''>'') s" using ext [of v] u True by simp
    have free: "CHR ''>'' \<notin> set k" if "k \<in> set (n # ns)" for k using Cons.prems that by (auto simp: plain_names_def)
    have "t = n @ u @ ''>''" if "k \<in> set (n # ns)" "t = k @ w @ ''>''" "suffix_ok sfx w" "starts_with t s" for k w
      using first_gt_unique [OF st, of "k @ w"] that free [OF that(1)] free [of n] suffix_no_gt u(2) by auto
    with m u(2) st show ?thesis by (metis append.assoc list.set_intros(1) option.inject)
  qed
qed

definition name_tail :: "string list \<Rightarrow> suffix \<Rightarrow> string \<Rightarrow> bool" where
  "name_tail ns sfx w \<longleftrightarrow> (\<exists>n \<in> set ns. \<exists>u. w = n @ u @ ''>'' \<and> suffix_ok sfx u)"

definition tag_of :: "string \<Rightarrow> string list \<Rightarrow> suffix \<Rightarrow> string \<Rightarrow> bool" where
  "tag_of opening ns sfx t \<longleftrightarrow> (\<exists>w. t = opening @ w \<and> name_tail ns sfx w)"

lemma alt_match_name_tail:
  "plain_names ns \<Longrightarrow> alt_match ns sfx s = Some t \<longleftrightarrow> name_tail ns sfx t \<and> starts_with t s"
  unfolding name_tail_def by (subst alt_match_iff) auto

lemma open_match_iff:
  assumes "plain_names ns"
  shows "open_match ns sfx s = Some t \<longleftrightarrow> tag_of ''<'' ns sfx t \<and> starts_with t s"
  by (cases s) (auto simp: open_match_def tag_of_def alt_match_name_tail [OF assms])

lemma close_match_iff:
  assumes "plain_names ns"
  shows "close_match ns sfx s = Some t \<longleftrightarrow> tag_of ''</'' ns sfx t \<and> starts_with t s"
proof (cases "starts_with ''</'' s")
  case True
  then obtain r where "s = ''</'' @ r" by (auto simp only: starts_with_iff_append)
  then show ?thesis using alt_match_name_tail [OF assms, of sfx r] by (auto simp: close_match_def tag_of_def)
next
  case False
  then have "\<not> starts_with (''</'' @ w) s" for w by (auto simp only: starts_with_iff_append append.assoc)
  with False show ?thesis by (auto simp only: close_match_def tag_of_def if_False)
qed

lemma tag_of_shape:
  assumes "tag_of op ns sfx t" "plain_names ns" "CHR ''>'' \<notin> set op"
  shows "\<exists>v. t = v @ ''>'' \<and> CHR ''>'' \<notin> set v"
proof -
  from assms(1) obtain w where w: "t = op @ w" "name_tail ns sfx w" unfolding tag_of_def by blast
  then obtain n u where n: "n \<in> set ns" "suffix_ok sfx u" and "w = n @ u @ ''>''" unfolding name_tail_def by blast
  with w(1) have t: "t = (op @ n @ u) @ ''>''" by simp
  have "CHR ''>'' \<notin> set (op @ n @ u)" using n assms(2,3) suffix_no_gt [OF n(2)] by (auto simp: plain_names_def)
  with t show ?thesis by (intro exI conjI)
qed

lemma tags_unique:
  assumes "tag_of op ns sfx t" "tag_of op' ns' sfx' t'" "plain_names ns" "plain_names ns'"
    and "op \<in> {''<'', ''</''}" "op' \<in> {''<'', ''</''}" and "starts_with t s" "starts_with t' s"
  shows "t = t'"
proof -
  have "CHR ''>'' \<notin> set op" "CHR ''>'' \<notin> set op'" using assms(5,6) by auto
  with assms(1-4) obtain v w where "t = v @ ''>''" "CHR ''>'' \<notin> set v" "t' = w @ ''>''" "CHR ''>'' \<notin> set w"
    using tag_of_shape by metis
  with first_gt_unique assms(7,8) show ?thesis by blast
qed

text \<open>Both directions of a tag, \<open></?(?:names)suffix></\<close>.\<close>

definition both_tags :: "string list \<Rightarrow> suffix \<Rightarrow> string \<Rightarrow> bool" where
  "both_tags ns sfx t \<longleftrightarrow> tag_of ''</'' ns sfx t \<or> tag_of ''<'' ns sfx t"

lemma both_tags_unique:
  assumes "both_tags ns sfx t" "both_tags ns' sfx' t'" "plain_names ns" "plain_names ns'"
    and "starts_with t s" "starts_with t' s"
  shows "t = t'"
proof -
  obtain op op' where "tag_of op ns sfx t" "tag_of op' ns' sfx' t'" "op \<in> {''<'', ''</''}" "op' \<in> {''<'', ''</''}"
    using assms(1,2) by (auto simp: both_tags_def)
  from tags_unique [OF this(1,2) assms(3,4) this(3,4) assms(5,6)] show ?thesis .
qed

lemma or_else_iff:
  assumes a: "\<And>t. a = Some t \<longleftrightarrow> P t \<and> starts_with t s" and b: "\<And>t. b = Some t \<longleftrightarrow> Q t \<and> starts_with t s"
    and u: "\<And>t t'. P t \<Longrightarrow> Q t' \<Longrightarrow> starts_with t s \<Longrightarrow> starts_with t' s \<Longrightarrow> t = t'"
  shows "or_else a b = Some t \<longleftrightarrow> (P t \<or> Q t) \<and> starts_with t s"
proof (cases a)
  case None
  then show ?thesis using a [of t] b [of t] by (auto simp: or_else_def)
next
  case (Some t')
  with a have "P t'" "starts_with t' s" by auto
  then show ?thesis using Some a [of t] u [of t' t] by (auto simp: or_else_def)
qed

lemma both_match_iff:
  assumes "plain_names ns"
  shows "or_else (close_match ns sfx s) (open_match ns sfx s) = Some t \<longleftrightarrow> both_tags ns sfx t \<and> starts_with t s"
  unfolding both_tags_def
proof (rule or_else_iff)
  show "t = t'" if "tag_of ''</'' ns sfx t" "tag_of ''<'' ns sfx t'" "starts_with t s" "starts_with t' s" for t t'
    using both_tags_unique [OF _ _ assms assms that(3,4)] that(1,2) by (auto simp: both_tags_def)
qed (simp_all add: open_match_iff [OF assms] close_match_iff [OF assms])

definition reasoning_tag :: "bool \<Rightarrow> string \<Rightarrow> bool" where
  "reasoning_tag nonce = both_tags TAG_NAMES (name_suffix nonce)"

definition markup_tag :: "string \<Rightarrow> bool" where
  "markup_tag = both_tags NONCE_MARKUP_NAMES MustSuffix"

definition any_tag :: "bool \<Rightarrow> string \<Rightarrow> bool" where
  "any_tag nonce t \<longleftrightarrow> reasoning_tag nonce t \<or> nonce \<and> markup_tag t"

lemma orphan_re_iff: "orphan_re nonce s = Some t \<longleftrightarrow> reasoning_tag nonce t \<and> starts_with t s"
  by (simp add: orphan_re_def reasoning_tag_def both_match_iff)

lemma any_tag_unique:
  assumes "any_tag nonce t" "any_tag nonce' t'" "starts_with t s" "starts_with t' s"
  shows "t = t'"
proof -
  have "\<exists>ns sfx. both_tags ns sfx t \<and> plain_names ns" if "any_tag k t" for k t
    using that names_plain by (auto simp: any_tag_def reasoning_tag_def markup_tag_def)
  with assms both_tags_unique show ?thesis by metis
qed

lemma tag_re_iff: "tag_re nonce s = Some t \<longleftrightarrow> any_tag nonce t \<and> starts_with t s"
proof (cases nonce)
  case True
  have "tag_re True s = Some t \<longleftrightarrow> (reasoning_tag True t \<or> markup_tag t) \<and> starts_with t s"
    unfolding tag_re_def if_True
  proof (rule or_else_iff)
    show "(or_else (close_match NONCE_MARKUP_NAMES MustSuffix s) (open_match NONCE_MARKUP_NAMES MustSuffix s) = Some t)
        = (markup_tag t \<and> starts_with t s)" for t
      by (simp add: both_match_iff markup_tag_def)
    show "t = t'" if "reasoning_tag True t" "markup_tag t'" "starts_with t s" "starts_with t' s" for t t'
      using any_tag_unique [of True t True t' s] that by (simp add: any_tag_def)
  qed (rule orphan_re_iff)
  with True show ?thesis by (simp add: any_tag_def)
qed (simp add: tag_re_def orphan_re_iff any_tag_def)

lemma close_re_iff: "close_re nonce s = Some t \<longleftrightarrow> tag_of ''</'' TAG_NAMES (name_suffix nonce) t \<and> starts_with t s"
  by (simp add: close_re_def close_match_iff)

lemma open_re_iff:
  "open_re nonce s = Some t \<longleftrightarrow>
     (tag_of ''<'' TAG_NAMES (name_suffix nonce) t \<or> nonce \<and> tag_of ''<'' NONCE_MARKUP_NAMES MustSuffix t) \<and> starts_with t s"
proof (cases nonce)
  case True
  have "open_re True s = Some t \<longleftrightarrow> (tag_of ''<'' TAG_NAMES MaySuffix t \<or> tag_of ''<'' NONCE_MARKUP_NAMES MustSuffix t) \<and> starts_with t s"
    unfolding open_re_def if_True
  proof (rule or_else_iff)
    show "t = t'" if "tag_of ''<'' TAG_NAMES MaySuffix t" "tag_of ''<'' NONCE_MARKUP_NAMES MustSuffix t'"
      "starts_with t s" "starts_with t' s" for t t'
      using any_tag_unique [of True t True t' s] that
      by (simp add: any_tag_def reasoning_tag_def markup_tag_def both_tags_def name_suffix_def)
  qed (simp_all add: open_match_iff)
  with True show ?thesis by (simp add: name_suffix_def)
qed (simp add: open_re_def open_match_iff name_suffix_def)


section \<open>Recognisers of tags\<close>

text \<open>
  The contract the strippers need of an expression: it recognises the words of a set, and each
  of them is \<open><\<close>, characters other than \<open><\<close> and \<open>></\<close>, and \<open>></\<close>.
\<close>

locale tag_matcher =
  fixes m :: "string \<Rightarrow> string option" and P :: "string \<Rightarrow> bool"
  assumes match_iff: "m s = Some t \<longleftrightarrow> P t \<and> starts_with t s"
    and shape: "P t \<Longrightarrow> \<exists>w. t = CHR ''<'' # w @ [CHR ''>''] \<and> CHR ''<'' \<notin> set w"
begin

lemma word_nonempty: "P t \<Longrightarrow> t \<noteq> []"
  using shape by blast

lemma match_Nil [simp]: "m [] = None"
proof (cases "m []")
  case (Some t)
  then show ?thesis using match_iff [of "[]" t] word_nonempty by (cases t) auto
qed simp

lemma match_ext: "m s = Some t \<Longrightarrow> m (s @ x) = Some t"
  using match_iff starts_with_mono by blast

lemma match_back: "m (s @ x) = Some t \<Longrightarrow> length t \<le> length s \<Longrightarrow> m s = Some t"
  using match_iff starts_with_back by blast

lemma find_Nil [simp]: "find_match m [] = None"
  by (simp add: find_match.simps [of _ "[]"])

lemma find_Cons:
  "find_match m (c # s) =
     (case m (c # s) of Some t \<Rightarrow> Some ([], t, drop (length t) (c # s))
      | None \<Rightarrow> map_option (\<lambda>(h, t, r). (c # h, t, r)) (find_match m s))"
  by (simp add: find_match.simps [of _ "c # s"] split: option.split)

lemma find_parts: "find_match m s = Some (h, t, r) \<Longrightarrow> s = h @ t @ r \<and> P t"
proof (induction s arbitrary: h)
  case (Cons c s)
  show ?case
  proof (cases "m (c # s)")
    case None
    with Cons show ?thesis by (auto simp: find_Cons)
  next
    case (Some u)
    with Cons.prems have "h = []" "t = u" "r = drop (length u) (c # s)" by (auto simp: find_Cons)
    with Some show ?thesis using match_iff [of "c # s" u] by (auto simp: starts_with_iff_append)
  qed
qed simp

lemma find_shorter: "find_match m s = Some (h, t, r) \<Longrightarrow> length r < length s"
  using find_parts word_nonempty by fastforce

text \<open>A word cannot reach over the start of the next one.\<close>

lemma match_before_lt:
  assumes "m (h @ CHR ''<'' # y) = Some t" and "h \<noteq> []"
  shows "m h = Some t"
proof -
  obtain w where t: "t = CHR ''<'' # w @ [CHR ''>'']" "CHR ''<'' \<notin> set w" and p: "P t"
    and st: "starts_with t (h @ CHR ''<'' # y)"
    using assms(1) match_iff shape by blast
  have "length t \<le> length h"
  proof (rule ccontr)
    assume "\<not> length t \<le> length h"
    then have n: "length h < length t" by simp
    have eq: "take (length t) (h @ CHR ''<'' # y) = t" using st by (simp add: starts_with_iff)
    have "t ! length h = (h @ CHR ''<'' # y) ! length h"
      using nth_take [OF n, of "h @ CHR ''<'' # y"] unfolding eq .
    then have "t ! length h = CHR ''<''" by simp
    moreover have "t ! length h \<in> set (w @ [CHR ''>''])"
    proof -
      obtain k where k: "length h = Suc k" using assms(2) by (cases h) auto
      have "(w @ [CHR ''>'']) ! k \<in> set (w @ [CHR ''>''])" using n k t(1) by (intro nth_mem) simp
      moreover have "t ! length h = (w @ [CHR ''>'']) ! k" using t(1) k by simp
      ultimately show ?thesis by (simp only:)
    qed
    ultimately show False using t(2) by auto
  qed
  with match_back assms(1) show ?thesis by blast
qed

lemma find_append_lt:
  assumes "find_match m h = None"
  shows "find_match m (h @ CHR ''<'' # y) =
     map_option (\<lambda>(k, t, r). (h @ k, t, r)) (find_match m (CHR ''<'' # y))"
  using assms
proof (induction h)
  case Nil
  then show ?case by (cases "find_match m (CHR ''<'' # y)") auto
next
  case (Cons c h)
  from Cons.prems have none: "m (c # h) = None" "find_match m h = None" by (auto simp: find_Cons split: option.splits)
  have "m (c # h @ CHR ''<'' # y) = None"
    using match_before_lt [of "c # h" y] none(1) by (cases "m (c # h @ CHR ''<'' # y)") auto
  with Cons.IH [OF none(2)] show ?case by (simp add: find_Cons option.map_comp comp_def case_prod_unfold)
qed

lemma find_head: "find_match m s = Some (h, t, r) \<Longrightarrow> find_match m h = None"
proof (induction s arbitrary: h)
  case (Cons c s)
  show ?case
  proof (cases "m (c # s)")
    case None
    with Cons.prems obtain k where k: "find_match m s = Some (k, t, r)" "h = c # k" by (auto simp: find_Cons)
    have "s = k @ t @ r" using find_parts [OF k(1)] by simp
    then have "m (c # k) = None" using None match_ext [of "c # k" _ "t @ r"] by (cases "m (c # k)") auto
    with Cons.IH [OF k(1)] k(2) show ?thesis by (simp add: find_Cons)
  next
    case (Some u)
    with Cons.prems show ?thesis by (simp add: find_Cons)
  qed
qed simp

lemma find_at: "find_match m h = None \<Longrightarrow> P t \<Longrightarrow> find_match m (h @ t @ r) = Some (h, t, r)"
proof -
  assume h: "find_match m h = None" and t: "P t"
  obtain w where w: "t = CHR ''<'' # w" using shape [OF t] by blast
  have "m (t @ r) = Some t" using match_iff t by simp
  then have "find_match m (t @ r) = Some ([], t, r)" by (simp add: w find_Cons)
  with find_append_lt [OF h, of "w @ r"] show ?thesis by (simp add: w)
qed

lemma find_mono: "find_match m s = Some (h, t, r) \<Longrightarrow> find_match m (s @ x) = Some (h, t, r @ x)"
  using find_at [OF find_head, of s h t r t "r @ x"] find_parts [of s h t r] by simp

lemma find_none_suffix: "find_match m (h @ s) = None \<Longrightarrow> find_match m s = None"
  by (induction h) (auto simp: find_Cons split: option.splits)

lemma find_none_head: "find_match m (c # s) = None \<Longrightarrow> m (c # s) = None"
  by (auto simp: find_Cons split: option.splits)

text \<open>Removing every match: up to the first one nothing changes.\<close>

lemma remove_none: "find_match m s = None \<Longrightarrow> remove_all m s = s"
  by (induction s) (auto simp: remove_all.simps [of _ "[]"] remove_all.simps [of _ "_ # _"] find_Cons split: option.splits)

lemma remove_found: "find_match m s = Some (h, t, r) \<Longrightarrow> remove_all m s = h @ remove_all m r"
proof (induction s arbitrary: h)
  case (Cons c s)
  show ?case
  proof (cases "m (c # s)")
    case None
    with Cons.prems obtain k where k: "find_match m s = Some (k, t, r)" "h = c # k" by (auto simp: find_Cons)
    with None Cons.IH [OF k(1)] show ?thesis by (simp add: remove_all.simps [of _ "c # s"])
  next
    case (Some u)
    with Cons.prems have "h = []" "t = u" "r = drop (length u) (c # s)" by (auto simp: find_Cons)
    moreover have "u \<noteq> []" using Some match_iff word_nonempty by blast
    ultimately show ?thesis using Some by (simp add: remove_all.simps [of _ "c # s"])
  qed
qed simp

end


lemma suffix_no_lt: "suffix_ok sfx u \<Longrightarrow> CHR ''<'' \<notin> set u"
  by (cases u) (auto simp: suffix_ok_def split: if_splits)

lemma tag_of_word:
  assumes "tag_of op ns sfx t" "plain_names ns" "op \<in> {''<'', ''</''}"
  shows "\<exists>w. t = CHR ''<'' # w @ [CHR ''>''] \<and> CHR ''<'' \<notin> set w"
proof -
  from assms(1) obtain w where w: "t = op @ w" "name_tail ns sfx w" unfolding tag_of_def by blast
  then obtain n u where n: "n \<in> set ns" "suffix_ok sfx u" and "w = n @ u @ ''>''" unfolding name_tail_def by blast
  moreover have "CHR ''<'' \<notin> set (n @ u)" using n assms(2) suffix_no_lt [OF n(2)] by (auto simp: plain_names_def)
  moreover have "\<exists>q. op = CHR ''<'' # q \<and> CHR ''<'' \<notin> set q" using assms(3) by auto
  ultimately show ?thesis using w(1) by (intro exI [of _ "tl op @ n @ u"]) auto
qed

lemma both_tags_word: "both_tags ns sfx t \<Longrightarrow> plain_names ns \<Longrightarrow> \<exists>w. t = CHR ''<'' # w @ [CHR ''>''] \<and> CHR ''<'' \<notin> set w"
  unfolding both_tags_def using tag_of_word [of "''<''"] tag_of_word [of "''</''"] by blast

interpretation tags: tag_matcher "tag_re nonce" "any_tag nonce" for nonce
  by unfold_locales
    (auto simp: tag_re_iff any_tag_def reasoning_tag_def markup_tag_def intro: both_tags_word)

interpretation orphans: tag_matcher "orphan_re nonce" "reasoning_tag nonce" for nonce
  by unfold_locales (auto simp: orphan_re_iff reasoning_tag_def intro: both_tags_word)

interpretation closes: tag_matcher "close_re nonce" "tag_of ''</'' TAG_NAMES (name_suffix nonce)" for nonce
  by unfold_locales (simp_all add: close_re_iff tag_of_word)

interpretation opens: tag_matcher "open_re nonce"
    "\<lambda>t. tag_of ''<'' TAG_NAMES (name_suffix nonce) t \<or> nonce \<and> tag_of ''<'' NONCE_MARKUP_NAMES MustSuffix t" for nonce
  by unfold_locales (auto simp: open_re_iff intro: tag_of_word)

section \<open>A complete text\<close>

text \<open>\<open>terminatorEnd\<close>: the index behind the last orphan close that carries a nonce.\<close>

function terminator_loop :: "bool \<Rightarrow> string list \<Rightarrow> bool \<Rightarrow> nat \<Rightarrow> nat \<Rightarrow> string \<Rightarrow> nat" where
  "terminator_loop nonce opened think end_at at s =
     (case find_match (tag_re nonce) s of
        None \<Rightarrow> end_at
      | Some (h, tag, r) \<Rightarrow>
          let t = parse_tag tag; key = tag_key t; at1 = at + length h + length tag in
          if tg_opening t then
            terminator_loop nonce (if tg_nonce t \<noteq> [] then key # opened else opened)
              (think \<or> is_reasoning_name (tg_name t)) end_at at1 r
          else if think then terminator_loop nonce opened (\<not> is_reasoning_name (tg_name t)) end_at at1 r
          else terminator_loop nonce opened False
                 (if tg_nonce t \<noteq> [] \<and> key \<notin> set opened then at1 else end_at) at1 r)"
  by pat_completeness auto
termination
  by (relation "measure (\<lambda>(_, _, _, _, _, s). length s)") (auto dest: tags.find_shorter)

declare terminator_loop.simps [simp del]

definition terminator_end :: "bool \<Rightarrow> string \<Rightarrow> nat" where
  "terminator_end nonce s = terminator_loop nonce [] False 0 0 s"

text \<open>\<open>spanRe\<close>: an opening reasoning tag and everything up to the nearest close.\<close>

definition span_re :: "bool \<Rightarrow> string \<Rightarrow> string option" where
  "span_re nonce s =
     (case open_match TAG_NAMES (name_suffix nonce) s of
        None \<Rightarrow> None
      | Some t \<Rightarrow>
          (case find_match (close_re nonce) (drop (length t) s) of
             None \<Rightarrow> None
           | Some (h, c, r) \<Rightarrow> Some (t @ h @ c)))"

definition strip_think_tags :: "bool \<Rightarrow> string \<Rightarrow> string" where
  "strip_think_tags nonce text =
     (if find_match (tag_re nonce) text = None then text
      else
        let end_at = (if nonce then terminator_end nonce text else 0);
            stripped = remove_all (orphan_re nonce) (remove_all (span_re nonce) (drop end_at text))
        in if stripped \<noteq> text then trim_start stripped else stripped)"

section \<open>A streamed text\<close>

record stripper =
  sp_think :: bool
  sp_carry :: string
  sp_settled :: bool
  sp_removed :: bool
  sp_lead :: string
  sp_opened :: "string list"

definition new_stripper :: stripper where
  "new_stripper = \<lparr>sp_think = False, sp_carry = [], sp_settled = False, sp_removed = False, sp_lead = [], sp_opened = []\<rparr>"

text \<open>\<open>#partialHold\<close>: the length of the longest suffix that could grow into a tag.\<close>

fun hold_from :: "(string \<Rightarrow> bool) \<Rightarrow> string \<Rightarrow> nat \<Rightarrow> nat" where
  "hold_from pre s 0 = 0"
| "hold_from pre s (Suc k) = (if pre (drop (length s - Suc k) s) then Suc k else hold_from pre s k)"

definition partial_hold :: "bool \<Rightarrow> string \<Rightarrow> nat" where
  "partial_hold nonce s = hold_from (is_tag_prefix nonce) s (min (length s) (max_tag_len nonce - 1))"

definition emitted :: "bool \<Rightarrow> string \<Rightarrow> string" where
  "emitted nonce s = take (length s - partial_hold nonce s) s"

definition held :: "bool \<Rightarrow> string \<Rightarrow> string" where
  "held nonce s = drop (length s - partial_hold nonce s) s"

text \<open>\<open>#noteOpens\<close>\<close>

function opens_in :: "bool \<Rightarrow> string \<Rightarrow> string list" where
  "opens_in nonce s =
     (case find_match (open_re nonce) s of
        None \<Rightarrow> []
      | Some (h, tag, r) \<Rightarrow>
          let t = parse_tag tag in (if tg_nonce t \<noteq> [] then [tag_key t] else []) @ opens_in nonce r)"
  by pat_completeness auto
termination
  by (relation "measure (\<lambda>(_, s). length s)") (auto dest: opens.find_shorter)

declare opens_in.simps [simp del]

definition note_opens :: "bool \<Rightarrow> string \<Rightarrow> stripper \<Rightarrow> stripper" where
  "note_opens nonce discarded st =
     (if \<not> nonce \<or> discarded = [] then st else st\<lparr>sp_opened := opens_in nonce discarded @ sp_opened st\<rparr>)"


text \<open>
  The loop of \<open>feed\<close>. In normal mode the next tag decides; in think mode everything up to
  the next close is discarded. \<open>out\<close> is what this call has to emit so far.
\<close>

function feed_loop :: "bool \<Rightarrow> stripper \<Rightarrow> string \<Rightarrow> stripper \<times> string" where
  "feed_loop nonce st out =
     (if \<not> sp_think st then
        (case find_match (tag_re nonce) (sp_carry st) of
           None \<Rightarrow> (st\<lparr>sp_carry := held nonce (sp_carry st)\<rparr>, out @ emitted nonce (sp_carry st))
         | Some (head, tag, r) \<Rightarrow>
             let t = parse_tag tag; key = tag_key t; st1 = st\<lparr>sp_carry := r\<rparr> in
             if tg_opening t then
               (let st2 = (if tg_nonce t \<noteq> [] then st1\<lparr>sp_opened := key # sp_opened st1\<rparr> else st1) in
                if is_reasoning_name (tg_name t) then
                  feed_loop nonce (st2\<lparr>sp_removed := True, sp_think := True\<rparr>) (out @ head)
                else feed_loop nonce st2 (out @ head @ tag))
             else if tg_nonce t \<noteq> [] \<and> key \<notin> set (sp_opened st1) then
               feed_loop nonce (st1\<lparr>sp_removed := True, sp_settled := False, sp_lead := []\<rparr>) []
             else if is_reasoning_name (tg_name t) then
               feed_loop nonce (st1\<lparr>sp_removed := True\<rparr>) (out @ head)
             else feed_loop nonce st1 (out @ head @ tag))
      else
        (case find_match (close_re nonce) (sp_carry st) of
           None \<Rightarrow> ((note_opens nonce (emitted nonce (sp_carry st)) st)\<lparr>sp_carry := held nonce (sp_carry st)\<rparr>, out)
         | Some (head, close, r) \<Rightarrow>
             feed_loop nonce
               ((note_opens nonce head st)\<lparr>sp_carry := r, sp_removed := True, sp_think := False\<rparr>) out))"
  by pat_completeness auto
termination
  by (relation "measure (\<lambda>(_, st, _). length (sp_carry st))")
    (auto dest: tags.find_shorter closes.find_shorter)

declare feed_loop.simps [simp del]

text \<open>\<open>#lead\<close>: white space at the start of a message is held until it is known whether it stays.\<close>

definition lead_out :: "string \<Rightarrow> stripper \<Rightarrow> stripper \<times> string" where
  "lead_out out st =
     (if sp_settled st then (st, out)
      else if out = [] then (st, [])
      else let visible = trim_start out in
        if sp_removed st then
          (if visible = [] then (st\<lparr>sp_lead := []\<rparr>, []) else (st\<lparr>sp_lead := [], sp_settled := True\<rparr>, visible))
        else if visible = [] then
          (if js_length (sp_lead st) + js_length out > MAX_PENDING_LEAD
           then (st\<lparr>sp_lead := [], sp_settled := True\<rparr>, sp_lead st @ out)
           else (st\<lparr>sp_lead := sp_lead st @ out\<rparr>, []))
        else (st\<lparr>sp_lead := [], sp_settled := True\<rparr>, sp_lead st @ out))"

definition sp_feed :: "bool \<Rightarrow> string \<Rightarrow> stripper \<Rightarrow> stripper \<times> string" where
  "sp_feed nonce chunk st =
     (let (st1, out) = feed_loop nonce (st\<lparr>sp_carry := sp_carry st @ chunk\<rparr>) [] in lead_out out st1)"

definition sp_flush :: "stripper \<Rightarrow> stripper \<times> string" where
  "sp_flush st =
     (let (st1, t) = lead_out (if sp_think st then [] else sp_carry st) (st\<lparr>sp_carry := []\<rparr>) in
      if t \<noteq> [] then (st1, t)
      else (st1\<lparr>sp_lead := []\<rparr>, if sp_removed st1 then [] else sp_lead st1))"

fun sp_feeds :: "bool \<Rightarrow> string list \<Rightarrow> stripper \<Rightarrow> stripper \<times> string" where
  "sp_feeds nonce [] st = (st, [])"
| "sp_feeds nonce (c # cs) st =
     (let (st1, o1) = sp_feed nonce c st; (st2, o2) = sp_feeds nonce cs st1 in (st2, o1 @ o2))"

definition strip_stream :: "bool \<Rightarrow> string list \<Rightarrow> string" where
  "strip_stream nonce cs = (let (st, out) = sp_feeds nonce cs new_stripper in out @ snd (sp_flush st))"

section \<open>The specification: one pass over the whole text\<close>

text \<open>
  What stripping means, on the complete text and for the plain grammar: a tag ends the visible
  text before it; behind an opening tag everything up to the next closing tag is reasoning.
  The second component says whether the text ends inside reasoning.
\<close>

function scan :: "bool \<Rightarrow> string \<Rightarrow> string \<times> bool" where
  "scan think s =
     (if think then (case find_match (close_re False) s of None \<Rightarrow> ([], True) | Some (h, t, r) \<Rightarrow> scan False r)
      else (case find_match (tag_re False) s of
          None \<Rightarrow> (s, False)
        | Some (h, t, r) \<Rightarrow> let (o1, e) = scan (tg_opening (parse_tag t)) r in (h @ o1, e)))"
  by pat_completeness auto
termination
  by (relation "measure (\<lambda>(_, s). length s)") (auto dest: tags.find_shorter closes.find_shorter)

declare scan.simps [simp del]


section \<open>What is held back\<close>

lemma index_of_char: "c \<notin> set a \<Longrightarrow> index_of [c] (a @ c # b) = Some (length a)"
  by (induction a) auto

lemma index_of_char_none: "c \<notin> set a \<Longrightarrow> index_of [c] a = None"
  by (induction a) auto

lemma js_length_nonce: "\<forall>c \<in> set z. nonce_char c \<Longrightarrow> js_length z \<le> length z"
proof (induction z)
  case (Cons c z)
  then have "unit_count c = 1" by (auto simp: nonce_char_def unit_count_def less_eq_char_def)
  with Cons show ?case by simp
qed simp

lemma is_tag_prefix_word:
  assumes n: "n \<in> set (grammar_names nonce)" and u: "suffix_ok sfx u" "sfx \<noteq> NoSuffix \<longrightarrow> nonce"
    and op: "op \<in> {[], ''/''}" and d: "op @ n @ u = d @ e"
  shows "is_tag_prefix nonce (CHR ''<'' # d)"
proof -
  have nm: "n \<noteq> []" "CHR '':'' \<notin> set n" "hd n \<noteq> CHR ''/''"
  proof -
    have "plain_names (grammar_names nonce)"
      using names_plain by (simp add: grammar_names_def plain_names_def TAG_NAMES_def NONCE_MARKUP_NAMES_def)
    then have "n \<noteq> []" "\<forall>c \<in> set n. c \<notin> {CHR '':'', CHR ''>'', CHR ''/'', CHR ''<''}"
      using n by (simp_all add: plain_names_def)
    then show "n \<noteq> []" "CHR '':'' \<notin> set n" "hd n \<noteq> CHR ''/''" by (cases n; auto)+
  qed
  define r where "r = (if starts_with ''/'' d then tl d else d)"
  have test: "is_tag_prefix nonce (CHR ''<'' # d) =
      (if r = [] then True
       else (case index_of '':'' r of
            None \<Rightarrow> (\<exists>n \<in> set (grammar_names nonce). r \<noteq> [] \<and> starts_with r n)
          | Some colon \<Rightarrow>
              nonce \<and> take colon r \<in> set (grammar_names nonce) \<and>
              js_length (drop (colon + 1) r) \<le> MAX_NONCE \<and> (\<forall>c \<in> set (drop (colon + 1) r). nonce_char c)))"
    by (simp only: is_tag_prefix_def Let_def list.sel r_def [symmetric] starts_with.simps simp_thms if_False)
  have pre: "r = [] \<or> (\<exists>e'. n @ u = r @ e')"
  proof (cases d)
    case (Cons c d1)
    show ?thesis
    proof (cases "op = []")
      case True
      with d Cons nm have "c \<noteq> CHR ''/''" by (cases n) auto
      with d True Cons show ?thesis by (auto simp: r_def)
    next
      case False
      with op d Cons show ?thesis by (auto simp: r_def)
    qed
  qed (simp add: r_def)
  show ?thesis
  proof (cases "r = []")
    case True
    then show ?thesis by (simp add: test)
  next
    case False
    with pre obtain e' where e': "n @ u = r @ e'" by blast
    from e' consider z where "n = r @ z" | v where "r = n @ v" "v \<noteq> []" "u = v @ e'"
    proof -
      from append_eq_append_conv2 [THEN iffD1, OF e'] obtain w where
        "n = r @ w \<and> w @ u = e' \<or> n @ w = r \<and> u = w @ e'" ..
      then show thesis using that(1) [of w] that(1) [of "[]"] that(2) [of w] by (cases "w = []") auto
    qed
    then show ?thesis
    proof cases
      case (1 z)
      note z = this
      with nm(2) have "CHR '':'' \<notin> set r" by (metis UnCI set_append)
      then have "index_of '':'' r = None" by (rule index_of_char_none)
      moreover have "starts_with r n" using z starts_with_iff_append by blast
      ultimately show ?thesis using False n by (auto simp: test)
    next
      case (2 v)
      note v = this
      then obtain z where z: "v = CHR '':'' # z" "set z \<subseteq> set (tl u)" "length z \<le> length (tl u)" and sfx: "sfx \<noteq> NoSuffix"
        using u(1) by (cases v) (auto simp: suffix_ok_def)
      have nonce_z: "\<forall>c \<in> set z. nonce_char c" and len: "length z \<le> MAX_NONCE"
        using u(1) z v by (auto simp: suffix_ok_def split: if_splits)
      have "index_of '':'' r = Some (length n)" using index_of_char [OF nm(2)] v(1) z(1) by simp
      moreover have "js_length z \<le> MAX_NONCE" using js_length_nonce [OF nonce_z] len by simp
      ultimately show ?thesis
        using False n u(2) sfx v(1) z(1) nonce_z unfolding test by simp
    qed
  qed
qed


lemma any_tag_parts:
  assumes "any_tag nonce t"
  obtains op n u sfx where "t = CHR ''<'' # (op @ n @ u) @ ''>''" "op \<in> {[], ''/''}"
    "n \<in> set (grammar_names nonce)" "suffix_ok sfx u" "sfx \<noteq> NoSuffix \<longrightarrow> nonce"
proof -
  obtain lead ns sfx where a: "tag_of lead ns sfx t" "lead \<in> {''<'', ''</''}" "set ns \<subseteq> set (grammar_names nonce)"
    "sfx \<noteq> NoSuffix \<longrightarrow> nonce"
    using assms by (auto simp: any_tag_def reasoning_tag_def markup_tag_def both_tags_def grammar_names_def name_suffix_def
        split: if_splits)
  from a(1) obtain w where w: "t = lead @ w" "name_tail ns sfx w" unfolding tag_of_def by blast
  then obtain n u where n: "n \<in> set ns" "suffix_ok sfx u" and nu: "w = n @ u @ ''>''" unfolding name_tail_def by blast
  have "t = CHR ''<'' # (tl lead @ n @ u) @ ''>''" "tl lead \<in> {[], ''/''}" using a(2) w(1) nu by auto
  with a(3,4) n that show thesis by blast
qed

lemma max_tag_len_ge: "n \<in> set (grammar_names nonce) \<Longrightarrow> length n + 3 + (if nonce then MAX_NONCE + 1 else 0) \<le> max_tag_len nonce"
proof -
  have "x \<in> set xs \<Longrightarrow> (x::nat) \<le> foldr max xs 0" for x xs by (induction xs) auto
  moreover assume "n \<in> set (grammar_names nonce)"
  ultimately show ?thesis unfolding max_tag_len_def by (metis (no_types, lifting) image_eqI list.set_map)
qed

lemma suffix_length: "suffix_ok sfx u \<Longrightarrow> sfx \<noteq> NoSuffix \<longrightarrow> nonce \<Longrightarrow> length u \<le> (if nonce then MAX_NONCE + 1 else 0)"
  by (cases u) (auto simp: suffix_ok_def split: if_splits)

text \<open>A proper beginning of a tag is recognised as such and is shorter than the longest tag.\<close>

lemma tag_prefix_held:
  assumes "any_tag nonce (d @ e)" and "d \<noteq> []" and "e \<noteq> []"
  shows "is_tag_prefix nonce d \<and> length d < max_tag_len nonce"
proof -
  obtain op n u sfx where t: "d @ e = CHR ''<'' # (op @ n @ u) @ ''>''" and p: "op \<in> {[], ''/''}"
    "n \<in> set (grammar_names nonce)" "suffix_ok sfx u" "sfx \<noteq> NoSuffix \<longrightarrow> nonce"
    using any_tag_parts [OF assms(1)] by metis
  obtain d1 where d1: "d = CHR ''<'' # d1" using t assms(2) by (cases d) auto
  have "(op @ n @ u) @ ''>'' = d1 @ butlast e @ [last e]" using t d1 assms(3) by simp
  then have "op @ n @ u = d1 @ butlast e" by (metis append.assoc append1_eq_conv)
  from is_tag_prefix_word [OF p(2-4) p(1) this] have "is_tag_prefix nonce d" using d1 by simp
  moreover have "length (d @ e) = 2 + length op + length n + length u" using t by simp
  then have "length d < 2 + length op + length n + length u" using assms(3) by (cases e) auto
  then have "length d < max_tag_len nonce"
    using suffix_length [OF p(3,4)] max_tag_len_ge [OF p(2)] p(1) by auto
  ultimately show ?thesis ..
qed

text \<open>
  Cutting a text: when no word is complete in a piece, holding back the longest beginning of
  a word loses nothing.
\<close>

lemma hold_from_le: "hold_from pre s k \<le> k"
  by (induction k) auto

lemma hold_from_ge: "j \<le> k \<Longrightarrow> 0 < j \<Longrightarrow> pre (drop (length s - j) s) \<Longrightarrow> j \<le> hold_from pre s k"
  by (induction k) (auto simp: le_Suc_eq)

lemma emitted_held [simp]: "emitted nonce s @ held nonce s = s"
  by (simp add: emitted_def held_def)

locale held_matcher = tag_matcher m P for m P +
  fixes nonce :: bool
  assumes begins: "P (d @ e) \<Longrightarrow> d \<noteq> [] \<Longrightarrow> e \<noteq> [] \<Longrightarrow> is_tag_prefix nonce d \<and> length d < max_tag_len nonce"
begin

lemma no_word_before_held:
  assumes none: "find_match m s = None" and s: "s = a @ b" and long: "partial_hold nonce s < length b"
  shows "m (b @ x) = None"
proof (cases "m (b @ x)")
  case (Some t)
  then have t: "P t" "starts_with t (b @ x)" using match_iff by blast+
  have "b \<noteq> []" using long by auto
  then obtain c b' where b: "b = c # b'" by (cases b) auto
  have "\<not> length t \<le> length b"
  proof
    assume "length t \<le> length b"
    with match_back Some have "m b = Some t" by blast
    with find_none_head [of c b'] find_none_suffix [of a b] none s b show False by simp
  qed
  then have n: "length b < length t" by simp
  have "t = b @ drop (length b) t" using t(2) n by (auto simp: starts_with_iff_append append_eq_append_conv2)
  moreover have "drop (length b) t \<noteq> []" using n by simp
  ultimately have *: "is_tag_prefix nonce b \<and> length b < max_tag_len nonce"
    using begins [of b "drop (length b) t"] t(1) \<open>b \<noteq> []\<close> by metis
  have "drop (length s - length b) s = b" using s by simp
  then have "length b \<le> partial_hold nonce s"
    unfolding partial_hold_def using * s \<open>b \<noteq> []\<close> by (intro hold_from_ge) auto
  with long show ?thesis by simp
qed simp

lemma find_skip: "(\<And>a b. h = a @ b \<Longrightarrow> b \<noteq> [] \<Longrightarrow> m (b @ y) = None) \<Longrightarrow>
    find_match m (h @ y) = map_option (\<lambda>(k, t, r). (h @ k, t, r)) (find_match m y)"
proof (induction h)
  case Nil
  then show ?case by (cases "find_match m y") auto
next
  case (Cons c h)
  have "m ((c # h) @ y) = None" using Cons.prems [of "[]" "c # h"] by simp
  moreover have "m (b @ y) = None" if "h = a @ b" "b \<noteq> []" for a b using Cons.prems [of "c # a" b] that by simp
  ultimately show ?case using Cons.IH by (simp add: find_Cons option.map_comp comp_def case_prod_unfold)
qed

lemma find_over_held:
  assumes none: "find_match m s = None"
  shows "find_match m (s @ x) =
    map_option (\<lambda>(k, t, r). (emitted nonce s @ k, t, r)) (find_match m (held nonce s @ x))"
proof -
  have le: "partial_hold nonce s \<le> length s"
    using hold_from_le [of "is_tag_prefix nonce" s] unfolding partial_hold_def by (meson le_trans min.cobounded1)
  have free: "m (b @ held nonce s @ x) = None" if "emitted nonce s = a @ b" "b \<noteq> []" for a b
  proof -
    have s: "s = a @ b @ held nonce s" using that(1) by (metis append.assoc emitted_held)
    have "length (held nonce s) = partial_hold nonce s" using le by (simp add: held_def)
    then have "partial_hold nonce s < length (b @ held nonce s)" using that(2) by (cases b) auto
    with no_word_before_held [OF none s, of x] show ?thesis by simp
  qed
  have "s @ x = emitted nonce s @ held nonce s @ x"
    by (simp only: append.assoc [symmetric] emitted_held)
  then have "find_match m (s @ x) = find_match m (emitted nonce s @ held nonce s @ x)" by (rule arg_cong)
  also have "\<dots> = map_option (\<lambda>(k, t, r). (emitted nonce s @ k, t, r)) (find_match m (held nonce s @ x))"
    by (rule find_skip) (rule free)
  finally show ?thesis .
qed

lemma find_held: "find_match m s = None \<Longrightarrow> find_match m (held nonce s) = None"
  using find_none_suffix [of "emitted nonce s" "held nonce s"] by simp

end

interpretation held_tags: held_matcher "tag_re nonce" "any_tag nonce" nonce for nonce
  by unfold_locales (rule tag_prefix_held)

interpretation held_closes: held_matcher "close_re nonce" "tag_of ''</'' TAG_NAMES (name_suffix nonce)" nonce for nonce
proof unfold_locales
  show "is_tag_prefix nonce d \<and> length d < max_tag_len nonce"
    if "tag_of ''</'' TAG_NAMES (name_suffix nonce) (d @ e)" "d \<noteq> []" "e \<noteq> []" for d e
    using tag_prefix_held [of nonce d e] that by (simp add: any_tag_def reasoning_tag_def both_tags_def)
qed

end
