(* ===== verification/Think_Stream.thy ===== *)
theory Think_Stream
  imports Think_Tags
begin

text \<open>
  What the strippers of \<open>Think_Tags\<close> guarantee. The incremental stripper refines the one-pass
  specification \<open>scan\<close> however the text is cut into deltas, up to the white space at the
  start of the message; where the specification has no open reasoning at the end, the stripper
  of the complete text agrees with both; a text without tags passes unchanged.
\<close>

section \<open>White space at the start\<close>

text \<open>A piece of a JavaScript string: no continuation byte at its start or behind an ASCII byte.\<close>

fun whole_from :: "bool \<Rightarrow> string \<Rightarrow> bool" where
  "whole_from b [] = True"
| "whole_from b (c # cs) = ((b \<longrightarrow> \<not> is_cont c) \<and> whole_from (is_ascii c) cs)"

abbreviation whole :: "string \<Rightarrow> bool" where "whole \<equiv> whole_from True"

lemma whole_weaken: "whole_from b s \<Longrightarrow> whole_from False s"
  by (cases s) auto

lemma whole_strengthen: "whole_from b s \<Longrightarrow> s = [] \<or> \<not> is_cont (hd s) \<Longrightarrow> whole_from b' s"
  by (cases s) auto

lemma whole_append: "whole_from b s \<Longrightarrow> whole t \<Longrightarrow> whole_from b (s @ t)"
proof (induction b s rule: whole_from.induct)
  case (1 b)
  then show ?case by (cases b) (simp_all add: whole_weaken)
qed simp

lemma whole_prefix: "whole_from b (s @ t) \<Longrightarrow> whole_from b s"
  by (induction b s rule: whole_from.induct) auto

lemma whole_suffix: "whole_from b (s @ t) \<Longrightarrow> t = [] \<or> \<not> is_cont (hd t) \<Longrightarrow> whole t"
  by (induction b s rule: whole_from.induct) (auto intro: whole_strengthen)

lemma whole_behind: "whole_from b (s @ c # t) \<Longrightarrow> is_ascii c \<Longrightarrow> whole t"
  by (induction b s rule: whole_from.induct) auto

lemma whole_hd: "whole s \<Longrightarrow> s \<noteq> [] \<Longrightarrow> \<not> is_cont (hd s)"
  by (cases s) auto

lemma byte_classes:
  "is_ascii a \<Longrightarrow> \<not> is_cont a" "is_lead2 a \<Longrightarrow> \<not> is_cont a \<and> \<not> is_ascii a"
  "is_lead3 a \<Longrightarrow> \<not> is_cont a \<and> \<not> is_ascii a" "is_lead4 a \<Longrightarrow> \<not> is_cont a \<and> \<not> is_ascii a"
  by (simp_all add: is_ascii_def is_cont_def is_lead2_def is_lead3_def is_lead4_def less_eq_char_def)

lemma seq_whole: "seq_len s \<noteq> 0 \<Longrightarrow> whole (take (seq_len s) s)"
proof (cases s)
  case (Cons a r)
  assume n: "seq_len s \<noteq> 0"
  show ?thesis
  proof (cases "is_ascii a")
    case True
    then show ?thesis using Cons byte_classes(1) by simp
  next
    case asc: False
    have cont: "is_cont c \<Longrightarrow> \<not> is_ascii c" for c using byte_classes(1) by blast
    consider "is_lead2 a" | "\<not> is_lead2 a" "is_lead3 a" | "\<not> is_lead2 a" "\<not> is_lead3 a" "is_lead4 a"
      using n Cons asc by (auto split: if_splits)
    then show ?thesis
    proof cases
      case 1
      then show ?thesis using n Cons asc byte_classes(2) by (auto split: list.splits if_splits)
    next
      case 2
      then show ?thesis using n Cons asc byte_classes(3) cont by (auto simp: lead3_ok_def split: list.splits if_splits)
    next
      case 3
      then show ?thesis using n Cons asc byte_classes(4) cont by (auto simp: lead4_ok_def split: list.splits if_splits)
    qed
  qed
qed simp

lemma utf8_valid_whole: "utf8_valid s \<Longrightarrow> whole s"
proof (induction s rule: utf8_valid.induct)
  case (1 s)
  show ?case
  proof (cases "s = []")
    case False
    with "1.prems" have n: "seq_len s \<noteq> 0" and v: "utf8_valid (drop (seq_len s) s)"
      using utf8_valid.simps [of s] by (auto split: if_splits)
    with "1.IH" [OF False n v] seq_whole show ?thesis by (metis append_take_drop_id whole_append)
  qed simp
qed

definition ws1 :: "char \<Rightarrow> bool" where "ws1 a \<longleftrightarrow> a = CHR 0x20 \<or> (CHR 0x09 \<le> a \<and> a \<le> CHR 0x0D)"
definition ws2 :: "char \<Rightarrow> char \<Rightarrow> bool" where "ws2 a b \<longleftrightarrow> a = CHR 0xC2 \<and> b = CHR 0xA0"
definition ws3 :: "char \<Rightarrow> char \<Rightarrow> char \<Rightarrow> bool" where
  "ws3 a b c \<longleftrightarrow> (a = CHR 0xE1 \<and> b = CHR 0x9A \<and> c = CHR 0x80)
     \<or> (a = CHR 0xE2 \<and> b = CHR 0x80 \<and>
         ((CHR 0x80 \<le> c \<and> c \<le> CHR 0x8A) \<or> c = CHR 0xA8 \<or> c = CHR 0xA9 \<or> c = CHR 0xAF))
     \<or> (a = CHR 0xE2 \<and> b = CHR 0x81 \<and> c = CHR 0x9F)
     \<or> (a = CHR 0xE3 \<and> b = CHR 0x80 \<and> c = CHR 0x80)
     \<or> (a = CHR 0xEF \<and> b = CHR 0xBB \<and> c = CHR 0xBF)"

lemma ws_len_cases:
  "ws_len s = (case s of [] \<Rightarrow> 0 | a # r \<Rightarrow> if ws1 a then 1
     else (case r of [] \<Rightarrow> 0 | b # r' \<Rightarrow> if ws2 a b then 2
       else (case r' of [] \<Rightarrow> 0 | c # _ \<Rightarrow> if ws3 a b c then 3 else 0)))"
  unfolding ws_len_def ws1_def ws2_def ws3_def by (rule refl)

lemma ws_cont: "ws2 a b \<Longrightarrow> is_cont b" "ws3 a b c \<Longrightarrow> is_cont b" "ws3 a b c \<Longrightarrow> is_cont c"
  unfolding ws2_def ws3_def is_cont_def by (auto simp: less_eq_char_def)

lemma ws_len_append: "ws_len s \<noteq> 0 \<Longrightarrow> ws_len (s @ x) = ws_len s"
  by (auto simp: ws_len_cases split: list.splits if_splits)

lemma ws_len_clean: "s \<noteq> [] \<Longrightarrow> ws_len s = 0 \<Longrightarrow> x = [] \<or> \<not> is_cont (hd x) \<Longrightarrow> ws_len (s @ x) = 0"
  by (auto simp: ws_len_cases dest: ws_cont split: list.splits if_splits)

lemma ws_len_le: "ws_len s \<le> length s"
  by (auto simp: ws_len_cases split: list.splits)

lemma trim_start_ws: "trim_start a = [] \<Longrightarrow> trim_start (a @ x) = trim_start x"
proof (induction a rule: trim_start.induct)
  case (1 a)
  show ?case
  proof (cases "ws_len a = 0 \<or> a = []")
    case True
    with "1.prems" have "a = []" by (auto simp: trim_start.simps [of a])
    then show ?thesis by simp
  next
    case False
    have le: "ws_len a \<le> length a" by (rule ws_len_le)
    have "trim_start (drop (ws_len a) a) = []" using "1.prems" False by (simp add: trim_start.simps [of a])
    with "1.IH" [OF False] have "trim_start (drop (ws_len a) a @ x) = trim_start x" by blast
    then show ?thesis using False ws_len_append [of a x] le by (simp add: trim_start.simps [of "a @ x"])
  qed
qed

lemma trim_start_visible: "trim_start a \<noteq> [] \<Longrightarrow> x = [] \<or> \<not> is_cont (hd x) \<Longrightarrow> trim_start (a @ x) = trim_start a @ x"
proof (induction a rule: trim_start.induct)
  case (1 a)
  show ?case
  proof (cases "ws_len a = 0 \<or> a = []")
    case True
    with "1.prems" have "ws_len a = 0" "a \<noteq> []" by auto
    with ws_len_clean "1.prems"(2) show ?thesis by (simp add: trim_start.simps [of a] trim_start.simps [of "a @ x"])
  next
    case False
    have le: "ws_len a \<le> length a" by (rule ws_len_le)
    have "trim_start (drop (ws_len a) a) \<noteq> []" using "1.prems"(1) False by (simp add: trim_start.simps [of a])
    from "1.IH" [OF False this "1.prems"(2)] show ?thesis
      using False ws_len_append [of a x] le by (simp add: trim_start.simps [of a] trim_start.simps [of "a @ x"])
  qed
qed

lemma trim_start_idem [simp]: "trim_start (trim_start a) = trim_start a"
proof (induction a rule: trim_start.induct)
  case (1 a)
  show ?case
  proof (cases "ws_len a = 0 \<or> a = []")
    case True
    then show ?thesis by (simp add: trim_start.simps [of a])
  next
    case False
    with "1.IH" show ?thesis by (simp add: trim_start.simps [of a])
  qed
qed

lemma trim_start_append_cong:
  assumes "trim_start a = trim_start b" and "whole x"
  shows "trim_start (a @ x) = trim_start (b @ x)"
proof (cases "trim_start a = []")
  case True
  with assms show ?thesis by (simp add: trim_start_ws)
next
  case False
  have "x = [] \<or> \<not> is_cont (hd x)" using assms(2) whole_hd by blast
  with False assms(1) show ?thesis by (simp add: trim_start_visible)
qed


section \<open>One call of \<open>feed\<close>\<close>

text \<open>A tag of the plain grammar names reasoning and carries no nonce.\<close>

lemma plain_tag:
  assumes "any_tag False t"
  shows "tg_nonce (parse_tag t) = [] \<and> is_reasoning_name (tg_name (parse_tag t))"
proof -
  obtain op n u sfx where t: "t = CHR ''<'' # (op @ n @ u) @ ''>''" "op \<in> {[], ''/''}" "n \<in> set (grammar_names False)"
    "suffix_ok sfx u" "sfx \<noteq> NoSuffix \<longrightarrow> False"
    using any_tag_parts [OF assms] by metis
  have u: "u = []" using t(4,5) by (auto simp: suffix_ok_def split: if_splits)
  have n: "n \<in> set TAG_NAMES" using t(3) by (simp add: grammar_names_def)
  then have nm: "n \<noteq> []" "hd n \<noteq> CHR ''/''" "CHR '':'' \<notin> set n"
    by (auto simp: TAG_NAMES_def)
  have "index_of '':'' n = None" using index_of_char_none [OF nm(3)] .
  moreover have "parse_tag t = (case index_of '':'' n of
        None \<Rightarrow> \<lparr>tg_name = n, tg_nonce = [], tg_opening = (op = [])\<rparr>
      | Some k \<Rightarrow> \<lparr>tg_name = take k n, tg_nonce = drop (k + 1) n, tg_opening = (op = [])\<rparr>)"
  proof (cases "op = []")
    case True
    then have "t ! 1 \<noteq> CHR ''/''" using nm t(1) u by (cases n) auto
    then show ?thesis using True t(1) u nm(1) by (simp add: parse_tag_def split: option.split)
  next
    case False
    then show ?thesis using t(1,2) u by (simp add: parse_tag_def split: option.split)
  qed
  ultimately show ?thesis using n by (simp add: is_reasoning_name_def)
qed

lemma feed_plain:
  "feed_loop False st out =
     (if \<not> sp_think st then
        (case find_match (tag_re False) (sp_carry st) of
           None \<Rightarrow> (st\<lparr>sp_carry := held False (sp_carry st)\<rparr>, out @ emitted False (sp_carry st))
         | Some (h, t, r) \<Rightarrow>
             feed_loop False (st\<lparr>sp_carry := r, sp_removed := True, sp_think := tg_opening (parse_tag t)\<rparr>) (out @ h))
      else
        (case find_match (close_re False) (sp_carry st) of
           None \<Rightarrow> (st\<lparr>sp_carry := held False (sp_carry st)\<rparr>, out)
         | Some (h, t, r) \<Rightarrow>
             feed_loop False (st\<lparr>sp_carry := r, sp_removed := True, sp_think := False\<rparr>) out))"
proof (cases "sp_think st")
  case True
  then show ?thesis
    by (subst feed_loop.simps) (simp add: note_opens_def split: option.splits prod.splits)
next
  case False
  show ?thesis
  proof (cases "find_match (tag_re False) (sp_carry st)")
    case None
    then show ?thesis using False by (subst feed_loop.simps) simp
  next
    case (Some x)
    obtain h t r where x: "x = (h, t, r)" by (cases x)
    have "any_tag False t" using tags.find_parts Some x by blast
    note p = plain_tag [OF this]
    show ?thesis
      using False Some x p by (subst feed_loop.simps) (cases st, simp add: Let_def)
  qed
qed

text \<open>
  What one call returns, against the specification of the text held and all that may follow:
  the output comes first, the rest is the specification of what is still held. Only the carry,
  the mode and the mark that something was removed change.
\<close>

lemma scan_normal:
  "scan False s = (case find_match (tag_re False) s of None \<Rightarrow> (s, False)
     | Some (h, t, r) \<Rightarrow> (let (o1, e) = scan (tg_opening (parse_tag t)) r in (h @ o1, e)))"
  by (subst scan.simps) simp

lemma scan_think:
  "scan True s = (case find_match (close_re False) s of None \<Rightarrow> ([], True) | Some (h, t, r) \<Rightarrow> scan False r)"
  by (subst scan.simps) simp

lemma scan_over_held:
  assumes "find_match (tag_re False) s = None"
  shows "scan False (s @ x) = (emitted False s @ fst (scan False (held False s @ x)), snd (scan False (held False s @ x)))"
proof (cases "find_match (tag_re False) (held False s @ x)")
  case None
  then have "scan False (held False s @ x) = (held False s @ x, False)" "scan False (s @ x) = (s @ x, False)"
    using held_tags.find_over_held [OF assms, of x] by (simp_all add: scan_normal)
  moreover have "emitted False s @ held False s @ x = s @ x"
    by (simp only: append.assoc [symmetric] emitted_held)
  ultimately show ?thesis by simp
next
  case (Some y)
  then obtain h t r where "find_match (tag_re False) (held False s @ x) = Some (h, t, r)" by (cases y) auto
  then show ?thesis
    using held_tags.find_over_held [OF assms, of x] by (simp add: scan_normal case_prod_unfold Let_def)
qed

definition open_state :: "stripper \<Rightarrow> bool" where
  "open_state st \<longleftrightarrow> find_match (if sp_think st then close_re False else tag_re False) (sp_carry st) = None"

lemma feed_loop_scan:
  assumes "feed_loop False st out = (st', o')"
  shows "\<exists>o1 k. o' = out @ o1 \<and>
    (\<forall>x. scan (sp_think st) (sp_carry st @ x) =
        (o1 @ fst (scan (sp_think st') (sp_carry st' @ x)), snd (scan (sp_think st') (sp_carry st' @ x)))) \<and>
    open_state st' \<and>
    (sp_removed st \<longrightarrow> sp_removed st') \<and> st' = st\<lparr>sp_carry := sp_carry st', sp_think := sp_think st', sp_removed := k\<rparr>"
  using assms
proof (induction "length (sp_carry st)" arbitrary: st out rule: less_induct)
  case less
  note step = less.prems [unfolded feed_plain [of st out]]
  show ?case
  proof (cases "sp_think st")
    case normal: False
    show ?thesis
    proof (cases "find_match (tag_re False) (sp_carry st)")
      case None
      with step normal have st': "st' = st\<lparr>sp_carry := held False (sp_carry st)\<rparr>" "o' = out @ emitted False (sp_carry st)" by simp_all
      have "scan False (sp_carry st @ x) =
          (emitted False (sp_carry st) @ fst (scan False (held False (sp_carry st) @ x)), snd (scan False (held False (sp_carry st) @ x)))" for x
        by (rule scan_over_held [OF None])
      then show ?thesis using normal st' held_tags.find_held [OF None]
        by (intro exI [of _ "emitted False (sp_carry st)"] exI [of _ "sp_removed st"]) (simp add: open_state_def)
    next
      case (Some y)
      obtain h t r where y: "y = (h, t, r)" by (cases y)
      note found = Some [unfolded y]
      let ?s = "st\<lparr>sp_carry := r, sp_removed := True, sp_think := tg_opening (parse_tag t)\<rparr>"
      have run: "feed_loop False ?s (out @ h) = (st', o')" using step normal found by simp
      have "length (sp_carry ?s) < length (sp_carry st)" using tags.find_shorter [OF found] by simp
      from less.hyps [OF this run] obtain o1 k where ih: "o' = (out @ h) @ o1"
        "\<And>x. scan (tg_opening (parse_tag t)) (r @ x) =
          (o1 @ fst (scan (sp_think st') (sp_carry st' @ x)), snd (scan (sp_think st') (sp_carry st' @ x)))"
        "open_state st'" "sp_removed st'" "st' = ?s\<lparr>sp_carry := sp_carry st', sp_think := sp_think st', sp_removed := k\<rparr>"
        by auto
      have "scan False (sp_carry st @ x) =
          ((h @ o1) @ fst (scan (sp_think st') (sp_carry st' @ x)), snd (scan (sp_think st') (sp_carry st' @ x)))" for x
        using tags.find_mono [OF found, of x] ih(2) [of x] by (simp add: scan_normal [of "sp_carry st @ x"])
      then show ?thesis using normal ih(1,3,4,5) by (intro exI [of _ "h @ o1"] exI [of _ k]) simp
    qed
  next
    case think: True
    show ?thesis
    proof (cases "find_match (close_re False) (sp_carry st)")
      case None
      with step think have st': "st' = st\<lparr>sp_carry := held False (sp_carry st)\<rparr>" "o' = out" by simp_all
      have "scan True (sp_carry st @ x) = scan True (held False (sp_carry st) @ x)" for x
        using held_closes.find_over_held [OF None, of x]
        by (cases "find_match (close_re False) (held False (sp_carry st) @ x)") (auto simp: scan_think)
      then show ?thesis using think st' held_closes.find_held [OF None]
        by (intro exI [of _ "[]"] exI [of _ "sp_removed st"]) (simp add: open_state_def)
    next
      case (Some y)
      obtain h t r where y: "y = (h, t, r)" by (cases y)
      note found = Some [unfolded y]
      let ?s = "st\<lparr>sp_carry := r, sp_removed := True, sp_think := False\<rparr>"
      have run: "feed_loop False ?s out = (st', o')" using step think found by simp
      have "length (sp_carry ?s) < length (sp_carry st)" using closes.find_shorter [OF found] by simp
      from less.hyps [OF this run] obtain o1 k where ih: "o' = out @ o1"
        "\<And>x. scan False (r @ x) =
          (o1 @ fst (scan (sp_think st') (sp_carry st' @ x)), snd (scan (sp_think st') (sp_carry st' @ x)))"
        "open_state st'" "sp_removed st'" "st' = ?s\<lparr>sp_carry := sp_carry st', sp_think := sp_think st', sp_removed := k\<rparr>"
        by auto
      have "scan True (sp_carry st @ x) =
          (o1 @ fst (scan (sp_think st') (sp_carry st' @ x)), snd (scan (sp_think st') (sp_carry st' @ x)))" for x
        using closes.find_mono [OF found, of x] ih(2) [of x] by (simp add: scan_think [of "sp_carry st @ x"])
      then show ?thesis using think ih(1,3,4,5) by (intro exI [of _ o1] exI [of _ k]) simp
    qed
  qed
qed


section \<open>Pieces stay whole\<close>

lemma hold_from_pre: "hold_from pre s k = 0 \<or> pre (drop (length s - hold_from pre s k) s)"
  by (induction k) auto

lemma held_start: "held nonce s = [] \<or> hd (held nonce s) = CHR ''<''"
proof (cases "partial_hold nonce s = 0")
  case False
  then have "is_tag_prefix nonce (held nonce s)"
    using hold_from_pre [of "is_tag_prefix nonce" s "min (length s) (max_tag_len nonce - 1)"]
    unfolding partial_hold_def held_def by (simp only: simp_thms)
  then show ?thesis by (cases "held nonce s") (auto simp: is_tag_prefix_def split: if_splits)
qed (simp add: held_def)

lemma whole_emitted_held: "whole s \<Longrightarrow> whole (emitted nonce s) \<and> whole (held nonce s)"
proof -
  assume "whole s"
  then have w: "whole (emitted nonce s @ held nonce s)" by simp
  have "held nonce s = [] \<or> \<not> is_cont (hd (held nonce s))"
    using held_start [of nonce s] by (auto simp: is_cont_def less_eq_char_def)
  with w show ?thesis using whole_prefix whole_suffix by blast
qed

lemma whole_found: "any_tag nonce t \<Longrightarrow> whole (h @ t @ r) \<Longrightarrow> whole h \<and> whole r"
proof -
  assume "any_tag nonce t" and w: "whole (h @ t @ r)"
  then obtain v where "t = CHR ''<'' # v @ [CHR ''>'']" using tags.shape by blast
  with w have "whole ((h @ CHR ''<'' # v) @ CHR ''>'' # r)" by simp
  then have "whole r" by (rule whole_behind) (simp add: is_ascii_def less_eq_char_def)
  with w show ?thesis using whole_prefix by blast
qed

lemma feed_loop_whole:
  "feed_loop False st out = (st', o') \<Longrightarrow> whole (sp_carry st) \<Longrightarrow> whole out \<Longrightarrow> whole o' \<and> whole (sp_carry st')"
proof (induction "length (sp_carry st)" arbitrary: st out rule: less_induct)
  case less
  note step = less.prems(1) [unfolded feed_plain [of st out]]
  have parts: "whole (emitted False (sp_carry st))" "whole (held False (sp_carry st))"
    using whole_emitted_held less.prems(2) by blast+
  show ?case
  proof (cases "find_match (if sp_think st then close_re False else tag_re False) (sp_carry st)")
    case None
    with step parts less.prems(3) show ?thesis by (auto simp: whole_append split: if_splits)
  next
    case (Some y)
    obtain h t r where y: "y = (h, t, r)" by (cases y)
    have found: "sp_carry st = h @ t @ r" "any_tag False t" "length r < length (sp_carry st)"
      using Some y tags.find_parts [of False] closes.find_parts [of False] tags.find_shorter [of False] closes.find_shorter [of False]
      by (auto simp: any_tag_def reasoning_tag_def both_tags_def split: if_splits)
    then have w: "whole h" "whole r" using whole_found less.prems(2) by metis+
    show ?thesis
    proof (cases "sp_think st")
      case True
      with step Some y have "feed_loop False (st\<lparr>sp_carry := r, sp_removed := True, sp_think := False\<rparr>) out = (st', o')"
        by simp
      from less.hyps [OF _ this] found(3) w less.prems(3) show ?thesis by simp
    next
      case False
      with step Some y have "feed_loop False (st\<lparr>sp_carry := r, sp_removed := True, sp_think := tg_opening (parse_tag t)\<rparr>)
          (out @ h) = (st', o')" by simp
      from less.hyps [OF _ this] found(3) w less.prems(3) show ?thesis by (simp add: whole_append)
    qed
  qed
qed

section \<open>The white space held back\<close>

text \<open>
  \<open>lead_ok E R st\<close>: of the stripped text \<open>R\<close>, \<open>E\<close> has been sent. They agree up to the white
  space at the start; nothing is sent before the first visible character, and as long as no
  tag was removed what is not sent yet is exactly what is held.
\<close>

definition lead_ok :: "string \<Rightarrow> string \<Rightarrow> stripper \<Rightarrow> bool" where
  "lead_ok E R st \<longleftrightarrow>
     trim_start E = trim_start R \<and> (\<not> sp_settled st \<longrightarrow> E = [] \<and> trim_start R = []) \<and>
     (sp_settled st \<longrightarrow> sp_lead st = []) \<and> (\<not> sp_removed st \<longrightarrow> E @ sp_lead st = R)"

lemma lead_ok_new: "lead_ok [] [] new_stripper"
  by (simp add: lead_ok_def new_stripper_def)

lemma lead_ok_feed:
  "lead_ok E R st \<Longrightarrow> sp_removed st \<longrightarrow> k \<Longrightarrow> lead_ok E R (st\<lparr>sp_carry := c, sp_think := b, sp_removed := k\<rparr>)"
  by (auto simp: lead_ok_def)

lemma lead_out_same:
  "lead_out out st = (st', t) \<Longrightarrow> sp_carry st' = sp_carry st \<and> sp_think st' = sp_think st \<and> sp_removed st' = sp_removed st"
  by (auto simp: lead_out_def Let_def split: if_splits)

lemma lead_ok_out:
  assumes ok: "lead_ok E R st" and w: "whole out" and l: "lead_out out st = (st', t)"
  shows "lead_ok (E @ t) (R @ out) st'"
proof -
  have eq: "trim_start E = trim_start R" using ok by (simp add: lead_ok_def)
  consider "sp_settled st" | "\<not> sp_settled st" "out = []" | "\<not> sp_settled st" "out \<noteq> []" "sp_removed st"
    | "\<not> sp_settled st" "out \<noteq> []" "\<not> sp_removed st" by blast
  then show ?thesis
  proof cases
    case 1
    then have "st' = st" "t = out" using l by (simp_all add: lead_out_def)
    moreover have "trim_start (E @ out) = trim_start (R @ out)" using trim_start_append_cong eq w by blast
    ultimately show ?thesis using ok 1 by (auto simp: lead_ok_def)
  next
    case 2
    then show ?thesis using l ok by (simp add: lead_out_def)
  next
    case 3
    then have E: "E = []" "trim_start R = []" using ok by (simp_all add: lead_ok_def)
    have R: "trim_start (R @ out) = trim_start out" using E(2) by (rule trim_start_ws)
    show ?thesis
    proof (cases "trim_start out = []")
      case True
      then show ?thesis using l 3 E R by (auto simp: lead_out_def lead_ok_def)
    next
      case False
      then show ?thesis using l 3 E R by (auto simp: lead_out_def lead_ok_def)
    qed
  next
    case 4
    then have E: "E = []" "trim_start R = []" "sp_lead st = R" using ok by (auto simp: lead_ok_def)
    have R: "trim_start (R @ out) = trim_start out" using E(2) by (rule trim_start_ws)
    show ?thesis
    proof (cases "trim_start out = []")
      case True
      then show ?thesis using l 4 E R by (auto simp: lead_out_def lead_ok_def split: if_splits)
    next
      case False
      then show ?thesis using l 4 E R by (auto simp: lead_out_def lead_ok_def)
    qed
  qed
qed


section \<open>The whole stream\<close>

text \<open>After any number of calls: what was sent, what is still to come, and the specification.\<close>

lemma sp_feeds_scan:
  assumes "sp_feeds False cs st = (st', out)" and "open_state st" and "whole (sp_carry st)"
    and "\<forall>c \<in> set cs. whole c" and "lead_ok E R st"
  shows "\<exists>o1. open_state st' \<and> whole (sp_carry st') \<and> lead_ok (E @ out) (R @ o1) st' \<and>
    scan (sp_think st) (sp_carry st @ concat cs) =
      (o1 @ fst (scan (sp_think st') (sp_carry st')), snd (scan (sp_think st') (sp_carry st')))"
  using assms
proof (induction cs arbitrary: st E R out)
  case Nil
  then show ?case by (intro exI [of _ "[]"]) simp
next
  case (Cons c cs)
  let ?s = "st\<lparr>sp_carry := sp_carry st @ c\<rparr>"
  obtain s1 r1 where loop: "feed_loop False ?s [] = (s1, r1)" by fastforce
  obtain s2 o2 where lead: "lead_out r1 s1 = (s2, o2)" by fastforce
  obtain o3 where rest: "sp_feeds False cs s2 = (st', o3)" and out: "out = o2 @ o3"
    using Cons.prems(1) loop lead by (auto simp: sp_feed_def split: prod.splits)
  have wc: "whole (sp_carry ?s)" using Cons.prems(3,4) by (simp add: whole_append)
  have w1: "whole r1 \<and> whole (sp_carry s1)" using feed_loop_whole [OF loop wc] by simp
  obtain o1 k where f: "r1 = o1" "open_state s1" "sp_removed st \<longrightarrow> sp_removed s1"
    "s1 = ?s\<lparr>sp_carry := sp_carry s1, sp_think := sp_think s1, sp_removed := k\<rparr>"
    "\<And>x. scan (sp_think st) ((sp_carry st @ c) @ x) =
        (o1 @ fst (scan (sp_think s1) (sp_carry s1 @ x)), snd (scan (sp_think s1) (sp_carry s1 @ x)))"
    using feed_loop_scan [OF loop] by auto
  have k: "sp_removed s1 = k" by (subst f(4)) simp
  have "lead_ok E R (?s\<lparr>sp_carry := sp_carry s1, sp_think := sp_think s1, sp_removed := k\<rparr>)"
    using lead_ok_feed [OF Cons.prems(5), where k = k and c = "sp_carry s1" and b = "sp_think s1"] f(3) k by simp
  then have "lead_ok E R s1" using f(4) by simp
  from lead_ok_out [OF this _ lead] w1 f(1) have ok2: "lead_ok (E @ o2) (R @ o1) s2" by simp
  note same = lead_out_same [OF lead]
  have "open_state s2" "whole (sp_carry s2)" using f(2) w1 same by (simp_all add: open_state_def)
  from Cons.IH [OF rest this _ ok2] Cons.prems(4) obtain o4 where ih: "open_state st'" "whole (sp_carry st')"
    "lead_ok ((E @ o2) @ o3) ((R @ o1) @ o4) st'"
    "scan (sp_think s2) (sp_carry s2 @ concat cs) =
      (o4 @ fst (scan (sp_think st') (sp_carry st')), snd (scan (sp_think st') (sp_carry st')))" by auto
  show ?case
    using ih out same f(5) [of "concat cs"] by (intro exI [of _ "o1 @ o4"]) simp
qed

lemma scan_open: "open_state st \<Longrightarrow> scan (sp_think st) (sp_carry st) = (if sp_think st then [] else sp_carry st, sp_think st)"
  by (cases "sp_think st") (simp_all add: open_state_def scan_normal scan_think)

lemma sp_flush_lead:
  assumes ok: "lead_ok E R st" and w: "whole (sp_carry st)" and r: "R' = R @ (if sp_think st then [] else sp_carry st)"
  shows "trim_start (E @ snd (sp_flush st)) = trim_start R' \<and> (\<not> sp_removed st \<longrightarrow> E @ snd (sp_flush st) = R')"
proof -
  let ?o = "if sp_think st then [] else sp_carry st"
  obtain s1 t where l: "lead_out ?o (st\<lparr>sp_carry := []\<rparr>) = (s1, t)" by fastforce
  have "lead_ok E R (st\<lparr>sp_carry := []\<rparr>)" using ok by (simp add: lead_ok_def)
  from lead_ok_out [OF this _ l] w have ok1: "lead_ok (E @ t) R' s1" by (simp add: r)
  have same: "sp_removed s1 = sp_removed st" using lead_out_same [OF l] by simp
  show ?thesis
  proof (cases "t = []")
    case True
    then have "snd (sp_flush st) = (if sp_removed s1 then [] else sp_lead s1)" using l by (simp add: sp_flush_def)
    with True ok1 same show ?thesis by (auto simp: lead_ok_def)
  next
    case False
    then have "snd (sp_flush st) = t" using l by (simp add: sp_flush_def)
    moreover have "sp_lead s1 = []" using ok1 False by (auto simp: lead_ok_def)
    ultimately show ?thesis using ok1 same by (auto simp: lead_ok_def)
  qed
qed

lemma stream_scan:
  assumes "\<forall>c \<in> set cs. whole c"
  shows "trim_start (strip_stream False cs) = trim_start (fst (scan False (concat cs)))"
proof -
  obtain st out where run: "sp_feeds False cs new_stripper = (st, out)" by fastforce
  have new: "open_state new_stripper" "whole (sp_carry new_stripper)" "sp_think new_stripper = False" "sp_carry new_stripper = []"
    by (simp_all add: new_stripper_def open_state_def)
  from sp_feeds_scan [OF run new(1,2) assms lead_ok_new] new(3,4) obtain o1 where
    s: "open_state st" "whole (sp_carry st)" "lead_ok out o1 st"
    "fst (scan False (concat cs)) = o1 @ fst (scan (sp_think st) (sp_carry st))" by auto
  have "fst (scan False (concat cs)) = o1 @ (if sp_think st then [] else sp_carry st)"
    using s(1,4) scan_open by simp
  from sp_flush_lead [OF s(3,2) this] run show ?thesis by (simp add: strip_stream_def)
qed

text \<open>A message without a tag passes unchanged, its own white space included, in either grammar.\<close>

lemma feed_loop_untouched:
  assumes "\<not> sp_think st" and "find_match (tag_re nonce) (sp_carry st) = None"
  shows "feed_loop nonce st out = (st\<lparr>sp_carry := held nonce (sp_carry st)\<rparr>, out @ emitted nonce (sp_carry st))"
  using assms by (subst feed_loop.simps) simp

lemma sp_feeds_untouched:
  assumes "sp_feeds nonce cs st = (st', out)" and "\<not> sp_think st" "\<not> sp_removed st"
    and "find_match (tag_re nonce) (sp_carry st @ concat cs) = None"
    and "lead_ok E R st" and "whole (sp_carry st)" and "\<forall>c \<in> set cs. whole c"
  shows "\<not> sp_think st' \<and> \<not> sp_removed st' \<and> whole (sp_carry st') \<and>
    (\<exists>R'. lead_ok (E @ out) R' st' \<and> R' @ sp_carry st' = R @ sp_carry st @ concat cs)"
  using assms
proof (induction cs arbitrary: st E R out)
  case Nil
  then show ?case by auto
next
  case (Cons c cs)
  let ?a = "sp_carry st @ c"
  have none: "find_match (tag_re nonce) ?a = None"
    using Cons.prems(4) tags.find_mono [of nonce ?a _ _ _ "concat cs"] by (cases "find_match (tag_re nonce) ?a") auto
  let ?s = "st\<lparr>sp_carry := held nonce ?a\<rparr>"
  have loop: "feed_loop nonce (st\<lparr>sp_carry := ?a\<rparr>) [] = (?s, emitted nonce ?a)"
    using feed_loop_untouched [of "st\<lparr>sp_carry := ?a\<rparr>" nonce "[]"] Cons.prems(2) none by simp
  obtain s2 o2 where lead: "lead_out (emitted nonce ?a) ?s = (s2, o2)" by fastforce
  obtain o3 where rest: "sp_feeds nonce cs s2 = (st', o3)" and out: "out = o2 @ o3"
    using Cons.prems(1) loop lead by (auto simp: sp_feed_def split: prod.splits)
  have w: "whole (emitted nonce ?a)" "whole (held nonce ?a)"
    using whole_emitted_held whole_append Cons.prems(6,7) by simp_all
  have "lead_ok E R ?s" using Cons.prems(5) by (simp add: lead_ok_def)
  note ok2 = lead_ok_out [OF this w(1) lead]
  have s2: "sp_carry s2 = held nonce ?a" "\<not> sp_think s2" "\<not> sp_removed s2"
    using lead_out_same [OF lead] Cons.prems(2,3) by simp_all
  have "find_match (tag_re nonce) (sp_carry s2 @ concat cs) = None"
    using held_tags.find_over_held [OF none, of "concat cs"] Cons.prems(4) s2(1) by simp
  from Cons.IH [OF rest s2(2,3) this ok2] w(2) s2(1) Cons.prems(7) obtain R' where
    "\<not> sp_think st'" "\<not> sp_removed st'" "whole (sp_carry st')" "lead_ok ((E @ o2) @ o3) R' st'"
    and R': "R' @ sp_carry st' = (R @ emitted nonce ?a) @ held nonce ?a @ concat cs" by auto
  moreover have "(R @ emitted nonce ?a) @ held nonce ?a @ concat cs = R @ sp_carry st @ concat (c # cs)"
    using arg_cong [OF emitted_held [of nonce ?a], of "\<lambda>z. R @ z @ concat cs"] by simp
  ultimately show ?case using out by auto
qed

lemma untouched_stream:
  assumes "find_match (tag_re nonce) (concat cs) = None" and "\<forall>c \<in> set cs. whole c"
  shows "strip_stream nonce cs = concat cs"
proof -
  obtain st out where run: "sp_feeds nonce cs new_stripper = (st, out)" by fastforce
  from sp_feeds_untouched [OF run _ _ _ lead_ok_new _ assms(2)] assms(1) obtain R where
    "\<not> sp_think st" "\<not> sp_removed st" "whole (sp_carry st)" "lead_ok out R st" "R @ sp_carry st = concat cs"
    by (auto simp: new_stripper_def)
  with sp_flush_lead [of out R st "concat cs"] run assms(1) show ?thesis
    by (simp add: strip_stream_def)
qed


section \<open>The complete text\<close>

lemma remove_skip:
  "(\<And>a b. h = a @ b \<Longrightarrow> b \<noteq> [] \<Longrightarrow> m (b @ y) = None) \<Longrightarrow> remove_all m (h @ y) = h @ remove_all m y"
proof (induction h)
  case (Cons c h)
  have "m ((c # h) @ y) = None" using Cons.prems [of "[]" "c # h"] by simp
  moreover have "m (b @ y) = None" if "h = a @ b" "b \<noteq> []" for a b using Cons.prems [of "c # a" b] that by simp
  ultimately show ?case using Cons.IH by (simp add: remove_all.simps [of m "c # h @ y"])
qed simp

lemma remove_not: "(\<And>a b. s = a @ b \<Longrightarrow> b \<noteq> [] \<Longrightarrow> m b = None) \<Longrightarrow> remove_all m s = s"
  using remove_skip [of s m "[]"] by (simp add: remove_all.simps [of m "[]"])

lemma tag_free_at: "find_match (tag_re nonce) (a @ b) = None \<Longrightarrow> tag_re nonce b = None"
proof (cases b)
  case (Cons c d)
  assume "find_match (tag_re nonce) (a @ b) = None"
  then have "find_match (tag_re nonce) b = None" by (rule tags.find_none_suffix)
  with Cons tags.find_none_head [of nonce c d] show ?thesis by simp
qed simp

lemma tag_before:
  assumes f: "find_match (tag_re nonce) s = Some (h, t, r)" and h: "h = a @ b" "b \<noteq> []"
  shows "tag_re nonce (b @ t @ r) = None"
proof -
  obtain w where "t = CHR ''<'' # w" using tags.find_parts [OF f] tags.shape by blast
  moreover have "tag_re nonce b = None" using tag_free_at tags.find_head [OF f] h(1) by blast
  ultimately show ?thesis using tags.match_before_lt [of nonce b "w @ r"] h(2)
    by (cases "tag_re nonce (b @ t @ r)") auto
qed

lemma tag_re_lt: "tag_re nonce s = Some t \<Longrightarrow> s \<noteq> [] \<and> hd s = CHR ''<''"
  using tags.shape [of nonce t] by (auto simp: tags.match_iff starts_with_iff_append)

lemma span_tag: "tag_re False s = None \<Longrightarrow> span_re False s = None"
proof (cases "open_match TAG_NAMES NoSuffix s")
  case (Some t)
  then have "any_tag False t \<and> starts_with t s"
    by (simp add: open_match_iff any_tag_def reasoning_tag_def both_tags_def name_suffix_def)
  then have "tag_re False s = Some t" using tags.match_iff by blast
  moreover assume "tag_re False s = None"
  ultimately show ?thesis by simp
qed (simp add: span_re_def name_suffix_def)

lemma tag_direction: "any_tag False t \<Longrightarrow> tg_opening (parse_tag t) \<longleftrightarrow> tag_of ''<'' TAG_NAMES NoSuffix t"
proof -
  assume "any_tag False t"
  moreover have "tg_opening (parse_tag t)" if dir: "tag_of ''<'' TAG_NAMES NoSuffix t"
  proof -
    obtain w where w: "t = ''<'' @ w" "name_tail TAG_NAMES NoSuffix w" using dir unfolding tag_of_def by blast
    then obtain n u where n: "n \<in> set TAG_NAMES" "w = n @ u @ ''>''" unfolding name_tail_def by blast
    have "n \<noteq> [] \<and> hd n \<noteq> CHR ''/''" using n(1) by (auto simp: TAG_NAMES_def)
    with w(1) n(2) show ?thesis by (cases n) (auto simp: parse_tag_def Let_def split: option.split)
  qed
  moreover have "\<not> tg_opening (parse_tag t)" if "tag_of ''</'' TAG_NAMES NoSuffix t"
    using that by (auto simp: tag_of_def name_tail_def parse_tag_def Let_def split: option.split)
  ultimately show ?thesis by (auto simp: any_tag_def reasoning_tag_def both_tags_def name_suffix_def)
qed

lemma span_at:
  assumes "any_tag False t"
  shows "span_re False (t @ r) =
    (if tg_opening (parse_tag t) then
       (case find_match (close_re False) r of None \<Rightarrow> None | Some (h, c, r') \<Rightarrow> Some (t @ h @ c))
     else None)"
proof (cases "tg_opening (parse_tag t)")
  case True
  then have "open_match TAG_NAMES NoSuffix (t @ r) = Some t"
    using tag_direction [OF assms] by (simp add: open_match_iff)
  with True show ?thesis by (simp add: span_re_def name_suffix_def)
next
  case False
  have "open_match TAG_NAMES NoSuffix (t @ r) = None"
  proof (cases "open_match TAG_NAMES NoSuffix (t @ r)")
    case (Some u)
    then have u: "tag_of ''<'' TAG_NAMES NoSuffix u" "starts_with u (t @ r)" by (simp_all add: open_match_iff)
    then have "any_tag False u" by (simp add: any_tag_def reasoning_tag_def both_tags_def name_suffix_def)
    from any_tag_unique [OF this assms u(2)] have "u = t" by simp
    with u(1) False tag_direction [OF assms] show ?thesis by simp
  qed simp
  with False show ?thesis by (simp add: span_re_def name_suffix_def)
qed

lemma remove_spans_before:
  "find_match (tag_re False) s = Some (h, t, r) \<Longrightarrow>
     remove_all (span_re False) s = h @ remove_all (span_re False) (t @ r)"
  using remove_skip [of h "span_re False" "t @ r"] tag_before span_tag tags.find_parts [of False s h t r] by metis

lemma remove_span_close:
  assumes t: "any_tag False t" and c: "\<not> tg_opening (parse_tag t)"
  shows "remove_all (span_re False) (t @ r) = t @ remove_all (span_re False) r"
proof (rule remove_skip)
  fix a b assume ab: "t = a @ b" "b \<noteq> []"
  show "span_re False (b @ r) = None"
  proof (cases "a = []")
    case True
    with ab span_at [OF t] c show ?thesis by simp
  next
    case False
    obtain w where w: "t = CHR ''<'' # w @ [CHR ''>'']" "CHR ''<'' \<notin> set w" using tags.shape [OF t] by blast
    then have "CHR ''<'' \<notin> set b" using ab(1) False by (cases a) (auto simp: append_eq_append_conv2 append_eq_Cons_conv)
    then have "hd (b @ r) \<noteq> CHR ''<''" using ab(2) by (cases b) auto
    then have "tag_re False (b @ r) = None" using tag_re_lt by (cases "tag_re False (b @ r)") blast+
    then show ?thesis by (rule span_tag)
  qed
qed

lemma remove_span_open:
  assumes "any_tag False t" "tg_opening (parse_tag t)" "find_match (close_re False) r = Some (h, c, r')"
  shows "remove_all (span_re False) (t @ r) = remove_all (span_re False) r'"
proof -
  have r: "r = h @ c @ r'" using closes.find_parts [OF assms(3)] by simp
  obtain x where x: "t = CHR ''<'' # x" using tags.shape [OF assms(1)] by blast
  have "span_re False (t @ r) = Some (t @ h @ c)" using span_at [OF assms(1)] assms(2,3) by simp
  moreover have "drop (length (t @ h @ c)) (t @ r) = r'" using r by simp
  ultimately show ?thesis using x by (simp add: remove_all.simps [of _ "CHR ''<'' # _"])
qed


text \<open>Visible text in front of what the rest of the text leaves: no tag may form over the joint.\<close>

lemma remove_tags_joint:
  assumes h: "find_match (tag_re False) h = None"
    and S: "find_match (tag_re False) (h @ remove_all (tag_re False) J) = None"
  shows "remove_all (tag_re False) (h @ J) = h @ remove_all (tag_re False) J"
proof (rule remove_skip)
  fix a b assume ab: "h = a @ b" "b \<noteq> []"
  have none: "tag_re False b = None" using tag_free_at h ab(1) by blast
  show "tag_re False (b @ J) = None"
  proof (cases "tag_re False (b @ J)")
    case (Some u)
    then have u: "any_tag False u" "starts_with u (b @ J)" using tags.match_iff by blast+
    have n: "length b < length u"
      using tags.match_back [OF Some] none by (cases "length u \<le> length b") auto
    then obtain e where e: "u = b @ e" "e \<noteq> []" using u(2) by (auto simp: starts_with_iff_append append_eq_append_conv2)
    then obtain J' where J: "J = e @ J'" using u(2) by (auto simp: starts_with_iff_append)
    obtain w where w: "u = CHR ''<'' # w @ [CHR ''>'']" "CHR ''<'' \<notin> set w" using tags.shape [OF u(1)] by blast
    obtain l where "l @ e = w @ [CHR ''>'']" using w(1) e(1) ab(2) by (cases b) auto
    then have "set e \<subseteq> set (w @ [CHR ''>''])" by (metis Un_upper2 set_append)
    then have lt: "CHR ''<'' \<notin> set e" using w(2) by auto
    have "remove_all (tag_re False) J = e @ remove_all (tag_re False) J'"
      unfolding J
    proof (rule remove_skip)
      fix x y assume "e = x @ y" "y \<noteq> []"
      then have "hd (y @ J') \<noteq> CHR ''<''" using lt by (cases y) auto
      then show "tag_re False (y @ J') = None" using tag_re_lt by (cases "tag_re False (y @ J')") blast+
    qed
    then have "tag_re False (b @ remove_all (tag_re False) J) = Some u"
      using u(1) e(1) starts_with_append [of "b @ e"] by (simp add: tags.match_iff)
    moreover have "tag_re False (b @ remove_all (tag_re False) J) = None"
      using tag_free_at [of False a "b @ remove_all (tag_re False) J"] S ab(1) by simp
    ultimately show ?thesis by simp
  qed simp
qed

lemma remove_tags_scan:
  assumes "\<not> snd (scan False s)" and "find_match (tag_re False) (fst (scan False s)) = None"
  shows "remove_all (tag_re False) (remove_all (span_re False) s) = fst (scan False s)"
  using assms
proof (induction "length s" arbitrary: s rule: less_induct)
  case less
  show ?case
  proof (cases "find_match (tag_re False) s")
    case None
    have "span_re False b = None" if "s = a @ b" for a b using span_tag tag_free_at None that by blast
    then have "remove_all (span_re False) s = s" using remove_not by blast
    then show ?thesis using None tags.remove_none [OF None] by (simp add: scan_normal)
  next
    case (Some x)
    obtain h t r where x: "x = (h, t, r)" by (cases x)
    note found = Some [unfolded x]
    have s: "s = h @ t @ r" "any_tag False t" using tags.find_parts [OF found] by simp_all
    have h: "find_match (tag_re False) h = None" by (rule tags.find_head [OF found])
    note spans = remove_spans_before [OF found]
    show ?thesis
    proof (cases "tg_opening (parse_tag t)")
      case False
      then have sc: "fst (scan False s) = h @ fst (scan False r)" "snd (scan False s) = snd (scan False r)"
        using found by (simp_all add: scan_normal [of s] case_prod_unfold Let_def)
      have "find_match (tag_re False) (fst (scan False r)) = None"
        using less.prems(2) sc(1) tags.find_none_suffix by metis
      with less.hyps [of r] less.prems(1) sc(2) tags.find_shorter [OF found]
      have ih: "remove_all (tag_re False) (remove_all (span_re False) r) = fst (scan False r)" by simp
      have "remove_all (span_re False) s = h @ t @ remove_all (span_re False) r"
        using spans remove_span_close [OF s(2) False] by simp
      then show ?thesis using tags.remove_found [OF tags.find_at [OF h s(2)]] ih sc(1) by simp
    next
      case True
      show ?thesis
      proof (cases "find_match (close_re False) r")
        case None
        then have "snd (scan False s)" using found True by (simp add: scan_normal [of s] scan_think)
        with less.prems(1) show ?thesis by simp
      next
        case (Some y)
        obtain k c r' where y: "y = (k, c, r')" by (cases y)
        note closed = Some [unfolded y]
        have sc: "fst (scan False s) = h @ fst (scan False r')" "snd (scan False s) = snd (scan False r')"
          using found True closed by (simp_all add: scan_normal [of s] scan_think [of r] case_prod_unfold Let_def)
        have "find_match (tag_re False) (fst (scan False r')) = None"
          using less.prems(2) sc(1) tags.find_none_suffix by metis
        with less.hyps [of r'] less.prems(1) sc(2) tags.find_shorter [OF found] closes.find_shorter [OF closed]
        have ih: "remove_all (tag_re False) (remove_all (span_re False) r') = fst (scan False r')" by simp
        have "remove_all (span_re False) s = h @ remove_all (span_re False) r'"
          using spans remove_span_open [OF s(2) True closed] by simp
        then show ?thesis using remove_tags_joint [OF h] less.prems(2) ih sc(1) by simp
      qed
    qed
  qed
qed

lemma snapshot_scan:
  assumes "\<not> snd (scan False s)" and "find_match (tag_re False) (fst (scan False s)) = None"
  shows "trim_start (strip_think_tags False s) = trim_start (fst (scan False s))"
proof (cases "find_match (tag_re False) s = None")
  case True
  then show ?thesis by (simp add: strip_think_tags_def scan_normal)
next
  case False
  have "orphan_re False = tag_re False" by (rule ext) (simp add: tag_re_def)
  with remove_tags_scan [OF assms] have "strip_think_tags False s =
      (if fst (scan False s) \<noteq> s then trim_start (fst (scan False s)) else fst (scan False s))"
    using False unfolding strip_think_tags_def Let_def by (simp only: if_False drop_0)
  then show ?thesis by simp
qed


section \<open>Properties\<close>



lemma scan_hides:
  assumes "find_match (tag_re False) a = None" and "any_tag False t" "tg_opening (parse_tag t)"
    and "find_match (close_re False) r = None" and "tag_of ''</'' TAG_NAMES NoSuffix c"
  shows "scan False (a @ t @ r @ c @ b) = (a @ fst (scan False b), snd (scan False b))"
  using tags.find_at [OF assms(1,2), of "r @ c @ b"] closes.find_at [of False r c b] assms(3-5)
  by (simp add: scan_normal [of "a @ t @ r @ c @ b"] scan_think [of "r @ c @ b"] name_suffix_def case_prod_unfold Let_def)



text \<open>
  A message without a tag of the grammar passes through both strippers unchanged, white space
  included, in either grammar and however it is cut.
\<close>

theorem untouched_text_passes:
  assumes "find_match (tag_re nonce) (concat cs) = None" and "\<forall>c \<in> set cs. whole c"
  shows "strip_stream nonce cs = concat cs \<and> strip_think_tags nonce (concat cs) = concat cs"
  using untouched_stream [OF assms] assms(1) by (simp add: strip_think_tags_def)

theorem untouched_text_passes_witness:
  "strip_stream True [''  a <'', ''b </thin'', ''g>''] = ''  a <b </thing>''"
  using untouched_text_passes [of True "[''  a <'', ''b </thin'', ''g>'']"] by (simp, code_simp)

section \<open>Where the two strippers differ\<close>

text \<open>
  The source states one exception to their agreement, text that was already sent. There are two
  more: reasoning that is never closed is dropped from the stream and kept in the snapshot, and
  a tag that forms around a removed span is removed from the snapshot and sent by the stream.
  A tag that forms around a removed tag survives in both.
\<close>

lemma unclosed_reasoning_differs:
  "strip_stream False [''<think>plan''] = [] \<and> strip_think_tags False ''<think>plan'' = ''plan''"
  by code_simp

lemma nested_tag_differs:
  "strip_stream False [''<th<think>x</think>ink>y''] = ''<think>y'' \<and>
   strip_think_tags False ''<th<think>x</think>ink>y'' = ''y'' \<and>
   strip_think_tags False ''<th</think>ink>y'' = ''<think>y''"
  by code_simp

end
