(* ===== verification/Think_Stage.thy ===== *)
theory Think_Stage
  imports Sse_Frames Think_Stream
begin

text \<open>
  The stage of \<open>reasoning-tag-stripper.mjs\<close>: a transform over a Responses event stream that
  strips reasoning tags from the deltas of a text (one incremental stripper per output index),
  from its final text and from the stored message item. Everything else passes byte for byte.
\<close>

section \<open>Frames and items\<close>

record parsed_block =
  pb_lines :: "string list"
  pb_index :: nat
  pb_newline :: string
  pb_event :: json

fun find_index :: "('a \<Rightarrow> bool) \<Rightarrow> 'a list \<Rightarrow> nat option" where
  "find_index p [] = None"
| "find_index p (x # xs) = (if p x then Some 0 else map_option Suc (find_index p xs))"

definition event_block :: "string \<Rightarrow> parsed_block option" where
  "event_block block =
     (let newline = (if contains_sub block [CR, LF] then [CR, LF] else [LF]); ls = split_lines block in
      case find_index (starts_with DATA_FIELD) ls of
        None \<Rightarrow> None
      | Some i \<Rightarrow>
          let d = data_value (ls ! i) in
          if d = [] \<or> d = DONE_MARK then None
          else (case json_parse d of
              None \<Rightarrow> None
            | Some event \<Rightarrow> Some \<lparr>pb_lines = ls, pb_index = i, pb_newline = newline, pb_event = event\<rparr>))"

definition rewritten_block :: "parsed_block \<Rightarrow> json \<Rightarrow> string" where
  "rewritten_block p event = join (pb_newline p) ((pb_lines p)[pb_index p := ''data: '' @ json_stringify event])"

text \<open>\<open>cleanMessageItem\<close>; \<open>None\<close> stands for the item itself, which the caller tests for.\<close>

definition clean_part :: "bool \<Rightarrow> json \<Rightarrow> json option" where
  "clean_part nonce part =
     (if as_str (obj_get part ''type'') = Some ''output_text'' then
        (case as_str (obj_get part ''text'') of
           None \<Rightarrow> None
         | Some t \<Rightarrow> let cleaned = strip_think_tags nonce t in
             if cleaned \<noteq> t then Some (with_prop part ''text'' (JStr cleaned)) else None)
      else None)"

definition clean_message_item :: "bool \<Rightarrow> json \<Rightarrow> json option" where
  "clean_message_item nonce item =
     (if as_str (obj_get item ''type'') \<noteq> Some ''message'' then None
      else (case as_arr (obj_get item ''content'') of
          None \<Rightarrow> None
        | Some parts \<Rightarrow>
            if \<exists>p \<in> set parts. clean_part nonce p \<noteq> None then
              Some (with_prop item ''content''
                (JArr (map (\<lambda>p. case clean_part nonce p of None \<Rightarrow> p | Some q \<Rightarrow> q) parts)))
            else None))"

section \<open>The stage\<close>

record tag_stage =
  ts_buffer :: bytes
  ts_pass :: bool
  ts_streams :: "int \<Rightarrow> stripper option"

definition new_tag_stage :: tag_stage where
  "new_tag_stage = \<lparr>ts_buffer = [], ts_pass = False, ts_streams = (\<lambda>_. None)\<rparr>"

definition TEXT_DELTA :: string where "TEXT_DELTA = ''response.output_text.delta''"
definition TEXT_DONE :: string where "TEXT_DONE = ''response.output_text.done''"
definition ITEM_DONE :: string where "ITEM_DONE = ''response.output_item.done''"

text \<open>\<open>#streamFor\<close>: the key of an output index, and its stripper, created on first use.\<close>

definition stream_key :: "json \<Rightarrow> int" where
  "stream_key event = (case as_int (obj_get event ''output_index'') of Some i \<Rightarrow> i | None \<Rightarrow> 0)"

definition stream_for :: "json \<Rightarrow> tag_stage \<Rightarrow> stripper" where
  "stream_for event st = (case ts_streams st (stream_key event) of Some s \<Rightarrow> s | None \<Rightarrow> new_stripper)"

definition set_stream :: "json \<Rightarrow> stripper \<Rightarrow> tag_stage \<Rightarrow> tag_stage" where
  "set_stream event s st = st\<lparr>ts_streams := (ts_streams st)(stream_key event \<mapsto> s)\<rparr>"

text \<open>\<open>#rewrite\<close>: the block to send, or \<open>None\<close> to drop it. Its three branches first.\<close>

definition rewrite_delta :: "bool \<Rightarrow> string \<Rightarrow> parsed_block \<Rightarrow> string \<Rightarrow> tag_stage \<Rightarrow> tag_stage \<times> string option" where
  "rewrite_delta nonce block p delta st =
     (let (s, cleaned) = sp_feed nonce delta (stream_for (pb_event p) st) in
      (set_stream (pb_event p) s st,
       if cleaned = delta then Some block
       else if cleaned = [] then None
       else Some (rewritten_block p (with_prop (pb_event p) ''delta'' (JStr cleaned)))))"

definition rewrite_text_done :: "bool \<Rightarrow> string \<Rightarrow> parsed_block \<Rightarrow> string \<Rightarrow> tag_stage \<Rightarrow> tag_stage \<times> string option" where
  "rewrite_text_done nonce block p t st =
     (let (s, _) = sp_flush (stream_for (pb_event p) st); cleaned = strip_think_tags nonce t in
      (set_stream (pb_event p) s st,
       if cleaned = t then Some block
       else Some (rewritten_block p (with_prop (pb_event p) ''text'' (JStr cleaned)))))"

definition rewrite_item_done :: "bool \<Rightarrow> string \<Rightarrow> parsed_block \<Rightarrow> json \<Rightarrow> tag_stage \<Rightarrow> tag_stage \<times> string option" where
  "rewrite_item_done nonce block p item st =
     (st, case clean_message_item nonce item of
            None \<Rightarrow> Some block
          | Some item' \<Rightarrow> Some (rewritten_block p (with_prop (pb_event p) ''item'' item')))"

definition tag_rewrite :: "bool \<Rightarrow> string \<Rightarrow> tag_stage \<Rightarrow> tag_stage \<times> string option" where
  "tag_rewrite nonce block st =
     (case event_block block of
        None \<Rightarrow> (st, Some block)
      | Some p \<Rightarrow>
          let event = pb_event p; type = as_str (obj_get event ''type'') in
          if type = Some TEXT_DELTA \<and> as_str (obj_get event ''delta'') \<noteq> None then
            rewrite_delta nonce block p (the (as_str (obj_get event ''delta''))) st
          else if type = Some TEXT_DONE \<and> as_str (obj_get event ''text'') \<noteq> None then
            rewrite_text_done nonce block p (the (as_str (obj_get event ''text''))) st
          else if type = Some ITEM_DONE \<and> as_str (opt_get (obj_get event ''item'') ''type'') = Some ''message'' then
            rewrite_item_done nonce block p (the (obj_get event ''item'')) st
          else (st, Some block))"

text \<open>\<open>#emitFrame\<close>, with \<open>#disable\<close> for a block that is not UTF-8\<close>

definition tag_frame :: "bool \<Rightarrow> bytes \<Rightarrow> bytes \<Rightarrow> tag_stage \<Rightarrow> tag_stage \<times> bytes list" where
  "tag_frame nonce orig sep st =
     (case fatal_utf8 (take (length orig - length sep) orig) of
        None \<Rightarrow>
          (st\<lparr>ts_buffer := [], ts_pass := True\<rparr>,
           (if orig \<noteq> [] then [orig] else []) @ (if ts_buffer st \<noteq> [] then [ts_buffer st] else []))
      | Some t \<Rightarrow>
          (case tag_rewrite nonce t st of
             (st1, None) \<Rightarrow> (st1, [])
           | (st1, Some piece) \<Rightarrow> (st1, [if piece = t then orig else piece @ sep])))"

lemmas rewrite_defs = rewrite_delta_def rewrite_text_done_def rewrite_item_done_def

lemma stream_set [simp]:
  "ts_buffer (set_stream e s st) = ts_buffer st" "ts_pass (set_stream e s st) = ts_pass st"
  "set_stream e s (st\<lparr>ts_buffer := x\<rparr>) = (set_stream e s st)\<lparr>ts_buffer := x\<rparr>"
  "stream_for e (st\<lparr>ts_buffer := x\<rparr>) = stream_for e st"
  by (simp_all add: set_stream_def stream_for_def)

text \<open>The branches neither read nor write the buffer.\<close>

definition off_buffer :: "(tag_stage \<Rightarrow> tag_stage \<times> string option) \<Rightarrow> bool" where
  "off_buffer f \<longleftrightarrow> (\<forall>st. ts_buffer (fst (f st)) = ts_buffer st \<and> ts_pass (fst (f st)) = ts_pass st \<and>
     (\<forall>x. f (st\<lparr>ts_buffer := x\<rparr>) = ((fst (f st))\<lparr>ts_buffer := x\<rparr>, snd (f st))))"

lemma rewrite_off_buffer:
  "off_buffer (rewrite_delta nonce block p d)" "off_buffer (rewrite_text_done nonce block p d)"
  "off_buffer (rewrite_item_done nonce block p item)" "off_buffer (\<lambda>st. (st, Some block))"
  by (simp_all add: off_buffer_def rewrite_defs case_prod_unfold Let_def)

lemma tag_rewrite_off_buffer: "off_buffer (tag_rewrite nonce block)"
proof (cases "event_block block")
  case None
  then have "tag_rewrite nonce block = (\<lambda>st. (st, Some block))"
    by (simp add: fun_eq_iff tag_rewrite_def)
  then show ?thesis by (simp add: rewrite_off_buffer)
next
  case (Some p)
  let ?type = "as_str (obj_get (pb_event p) ''type'')"
  have "tag_rewrite nonce block =
     (if ?type = Some TEXT_DELTA \<and> as_str (obj_get (pb_event p) ''delta'') \<noteq> None then
        rewrite_delta nonce block p (the (as_str (obj_get (pb_event p) ''delta'')))
      else if ?type = Some TEXT_DONE \<and> as_str (obj_get (pb_event p) ''text'') \<noteq> None then
        rewrite_text_done nonce block p (the (as_str (obj_get (pb_event p) ''text'')))
      else if ?type = Some ITEM_DONE \<and> as_str (opt_get (obj_get (pb_event p) ''item'') ''type'') = Some ''message'' then
        rewrite_item_done nonce block p (the (obj_get (pb_event p) ''item''))
      else (\<lambda>st. (st, Some block)))"
    by (rule ext) (simp only: tag_rewrite_def Some Let_def option.case if_distribR)
  then show ?thesis by (simp only: rewrite_off_buffer simp_thms split: if_split)
qed

lemma tag_rewrite_fields:
  "ts_buffer (fst (tag_rewrite nonce t st)) = ts_buffer st \<and> ts_pass (fst (tag_rewrite nonce t st)) = ts_pass st"
  using tag_rewrite_off_buffer [of nonce t] by (simp add: off_buffer_def)

lemma tag_rewrite_set:
  "tag_rewrite nonce t (st\<lparr>ts_buffer := x\<rparr>) =
     ((fst (tag_rewrite nonce t st))\<lparr>ts_buffer := x\<rparr>, snd (tag_rewrite nonce t st))"
  using tag_rewrite_off_buffer [of nonce t] by (simp add: off_buffer_def)

lemma tag_frame_buffer: "ts_buffer (fst (tag_frame nonce orig sep st)) \<in> {ts_buffer st, []}"
  using tag_rewrite_fields by (auto simp: tag_frame_def case_prod_unfold split: option.splits prod.splits)

text \<open>\<open>#emitBlocks\<close>\<close>

function tag_drain :: "bool \<Rightarrow> bool \<Rightarrow> tag_stage \<Rightarrow> tag_stage \<times> bytes list" where
  "tag_drain nonce flush st =
     (if ts_buffer st = [] \<or> ts_pass st then (st, [])
      else (case find_frame_end (ts_buffer st) of
          None \<Rightarrow>
            if \<not> flush then (st, [])
            else tag_frame nonce (ts_buffer st) [] (st\<lparr>ts_buffer := []\<rparr>)
        | Some (i, sep) \<Rightarrow>
            let n = i + length sep;
                r = tag_frame nonce (take n (ts_buffer st)) sep (st\<lparr>ts_buffer := drop n (ts_buffer st)\<rparr>);
                r2 = tag_drain nonce flush (fst r)
            in (fst r2, snd r @ snd r2)))"
  by pat_completeness auto
termination
proof (relation "measure (\<lambda>(k, f, st). length (ts_buffer st))")
  fix nonce flush :: bool and st :: tag_stage and x i sep n r
  assume "\<not> (ts_buffer st = [] \<or> ts_pass st)" and "find_frame_end (ts_buffer st) = Some x"
    and "(i, sep) = x" and n: "n = i + length sep"
    and r: "r = tag_frame nonce (take n (ts_buffer st)) sep (st\<lparr>ts_buffer := drop n (ts_buffer st)\<rparr>)"
  then have "sep \<noteq> []" "ts_buffer st \<noteq> []" using find_frame_end_sound by blast+
  moreover have "ts_buffer (fst r) \<in> {drop n (ts_buffer st), []}"
    using tag_frame_buffer [of nonce "take n (ts_buffer st)" sep "st\<lparr>ts_buffer := drop n (ts_buffer st)\<rparr>"]
    by (simp add: r)
  ultimately show "((nonce, flush, fst r), nonce, flush, st) \<in> measure (\<lambda>(k, f, st). length (ts_buffer st))"
    by (auto simp: n)
qed simp

declare tag_drain.simps [simp del]

text \<open>\<open>_transform\<close>, \<open>_flush\<close>, and a whole stream\<close>

definition tag_transform :: "bool \<Rightarrow> bytes \<Rightarrow> tag_stage \<Rightarrow> tag_stage \<times> bytes list" where
  "tag_transform nonce piece st =
     (if ts_pass st then (st, [piece]) else tag_drain nonce False (st\<lparr>ts_buffer := ts_buffer st @ piece\<rparr>))"

definition tag_flush :: "bool \<Rightarrow> tag_stage \<Rightarrow> tag_stage \<times> bytes list" where
  "tag_flush nonce st =
     (if ts_pass st then (st\<lparr>ts_buffer := []\<rparr>, if ts_buffer st \<noteq> [] then [ts_buffer st] else [])
      else tag_drain nonce True st)"

definition tag_stream :: "bool \<Rightarrow> bytes list \<Rightarrow> bytes" where
  "tag_stream nonce cs =
     (let (st, out) = feed_chunks (tag_transform nonce) cs new_tag_stage in out @ concat (snd (tag_flush nonce st)))"

definition tag_stage_for :: "string \<Rightarrow> tag_stage option" where
  "tag_stage_for content_type =
     (if contains_sub (to_lower content_type) ''text/event-stream'' then Some new_tag_stage else None)"


section \<open>Chunks\<close>

lemma tag_frame_live:
  assumes "tag_frame nonce f sep s = (s1, o1)" and "\<not> ts_pass s1" and "\<not> ts_pass s"
  shows "ts_buffer s1 = ts_buffer s \<and> (\<forall>x. tag_frame nonce f sep (s\<lparr>ts_buffer := x\<rparr>) = (s1\<lparr>ts_buffer := x\<rparr>, o1))"
proof (cases "fatal_utf8 (take (length f - length sep) f)")
  case None
  with assms show ?thesis by (auto simp: tag_frame_def)
next
  case (Some t)
  with assms(1) have "s1 = fst (tag_rewrite nonce t s)" by (auto simp: tag_frame_def split: prod.splits option.splits)
  with Some assms(1) tag_rewrite_fields [of nonce t s] show ?thesis
    by (auto simp: tag_frame_def tag_rewrite_set split: prod.splits option.splits)
qed

lemma tag_frame_dead:
  assumes "\<not> ts_pass s" and "tag_frame nonce f sep s = (s1, o1)" and "ts_pass s1"
  shows "ts_buffer s1 = [] \<and> (\<forall>x. \<exists>o2. tag_frame nonce f sep (s\<lparr>ts_buffer := ts_buffer s @ x\<rparr>) = (s1, o2) \<and>
      concat o2 = concat o1 @ x)"
proof (cases "fatal_utf8 (take (length f - length sep) f)")
  case None
  with assms show ?thesis by (auto simp: tag_frame_def)
next
  case (Some t)
  then have "s1 = fst (tag_rewrite nonce t s)" using assms(2) by (auto simp: tag_frame_def split: prod.splits option.splits)
  with assms(1,3) tag_rewrite_fields [of nonce t s] show ?thesis by simp
qed

interpretation tg: frame_stage ts_buffer "\<lambda>b s. s\<lparr>ts_buffer := b\<rparr>" ts_pass find_frame_end
  "tag_frame nonce" "tag_drain nonce False" "tag_transform nonce" for nonce
proof unfold_locales
  show "tag_drain nonce False s = (s, [])"
    if "ts_buffer s = [] \<or> ts_pass s \<or> find_frame_end (ts_buffer s) = None" for s
    using that by (subst tag_drain.simps) auto
  show "tag_drain nonce False s =
      (let (s1, o1) = tag_frame nonce (take (i + length sep) (ts_buffer s)) sep
             (s\<lparr>ts_buffer := drop (i + length sep) (ts_buffer s)\<rparr>);
           (s2, o2) = tag_drain nonce False s1 in (s2, o1 @ o2))"
    if "ts_buffer s \<noteq> []" "\<not> ts_pass s" "find_frame_end (ts_buffer s) = Some (i, sep)" for s i sep
    using that by (subst tag_drain.simps) (simp add: Let_def case_prod_unfold)
  show "ts_buffer s1 = ts_buffer s \<and>
      (\<forall>x. tag_frame nonce f sep (s\<lparr>ts_buffer := x\<rparr>) = (s1\<lparr>ts_buffer := x\<rparr>, o1))"
    if "\<not> ts_pass s" "tag_frame nonce f sep s = (s1, o1)" "\<not> ts_pass s1" for s f sep s1 o1
    by (rule tag_frame_live [OF that(2,3,1)])
  show "ts_buffer s1 = [] \<and> (\<forall>x. \<exists>o2. tag_frame nonce f sep (s\<lparr>ts_buffer := ts_buffer s @ x\<rparr>) = (s1, o2) \<and>
      concat o2 = concat o1 @ x)"
    if "\<not> ts_pass s" "tag_frame nonce f sep s = (s1, o1)" "ts_pass s1" for s f sep s1 o1
    by (rule tag_frame_dead [OF that])
  show "sep \<noteq> [] \<and> i + length sep \<le> length b" if "find_frame_end b = Some (i, sep)" for b i sep
    using find_frame_end_sound [OF that] by simp
qed (auto simp: tag_transform_def find_frame_end_stable)

section \<open>A message on the wire\<close>

text \<open>
  The frames of one message: its text, separator and event. \<open>sp_outs\<close> are the texts the
  incremental stripper returns delta by delta, and \<open>delta_out\<close> is the frame that carries one.
\<close>

type_synonym tag_wire = "string \<times> bytes \<times> parsed_block"

fun sp_outs :: "bool \<Rightarrow> string list \<Rightarrow> stripper \<Rightarrow> string list" where
  "sp_outs nonce [] st = []"
| "sp_outs nonce (d # ds) st = snd (sp_feed nonce d st) # sp_outs nonce ds (fst (sp_feed nonce d st))"

lemma concat_sp_outs: "concat (sp_outs nonce ds st) = snd (sp_feeds nonce ds st)"
  by (induction ds arbitrary: st) (simp_all add: case_prod_unfold Let_def)

definition delta_wire :: "int \<Rightarrow> tag_wire \<Rightarrow> string \<Rightarrow> bool" where
  "delta_wire i w d \<longleftrightarrow> (case w of (t, sep, p) \<Rightarrow>
     utf8_valid t \<and> find_frame_end (t @ sep) = Some (length t, sep) \<and> event_block t = Some p \<and>
     obj_get (pb_event p) ''type'' = Some (JStr TEXT_DELTA) \<and> obj_get (pb_event p) ''delta'' = Some (JStr d) \<and>
     stream_key (pb_event p) = i)"

definition done_wire :: "int \<Rightarrow> tag_wire \<Rightarrow> string \<Rightarrow> bool" where
  "done_wire i w d \<longleftrightarrow> (case w of (t, sep, p) \<Rightarrow>
     utf8_valid t \<and> find_frame_end (t @ sep) = Some (length t, sep) \<and> event_block t = Some p \<and>
     obj_get (pb_event p) ''type'' = Some (JStr TEXT_DONE) \<and> obj_get (pb_event p) ''text'' = Some (JStr d) \<and>
     stream_key (pb_event p) = i)"

fun carrying :: "string \<Rightarrow> tag_wire \<Rightarrow> string \<Rightarrow> string \<Rightarrow> bytes" where
  "carrying prop (t, sep, p) d d' =
     (if d' = d then t @ sep else rewritten_block p (with_prop (pb_event p) prop (JStr d')) @ sep)"

definition delta_out :: "tag_wire \<Rightarrow> string \<Rightarrow> string \<Rightarrow> bytes" where
  "delta_out w d d' = (if d' = [] \<and> d \<noteq> [] then [] else carrying ''delta'' w d d')"

fun delta_outs :: "tag_wire list \<Rightarrow> string list \<Rightarrow> string list \<Rightarrow> bytes" where
  "delta_outs (w # ws) (d # ds) (d' # ds') = delta_out w d d' @ delta_outs ws ds ds'"
| "delta_outs _ _ _ = []"

definition tag_wire_bytes :: "tag_wire \<Rightarrow> bytes" where "tag_wire_bytes w = (case w of (t, sep, p) \<Rightarrow> t @ sep)"

abbreviation tag_fs :: "tag_wire list \<Rightarrow> (bytes \<times> bytes) list" where
  "tag_fs \<equiv> map (\<lambda>(t, sep, p). (t @ sep, sep))"

lemma tag_types [simp]: "TEXT_DELTA \<noteq> TEXT_DONE" "TEXT_DONE \<noteq> TEXT_DELTA"
  by (simp_all add: TEXT_DELTA_def TEXT_DONE_def)

lemma tag_frame_text:
  "utf8_valid t \<Longrightarrow> tag_frame nonce (t @ sep) sep st =
     (fst (tag_rewrite nonce t st), case snd (tag_rewrite nonce t st) of None \<Rightarrow> [] | Some piece \<Rightarrow> [piece @ sep])"
  by (auto simp: tag_frame_def fatal_utf8_def split: prod.split option.split)

lemma delta_frame:
  assumes w: "delta_wire i (t, sep, p) d" and st: "case_option new_stripper (\<lambda>s. s) (ts_streams st i) = s"
  shows "tag_frame nonce (t @ sep) sep st =
      (st\<lparr>ts_streams := (ts_streams st)(i \<mapsto> fst (sp_feed nonce d s))\<rparr>,
       if snd (sp_feed nonce d s) = [] \<and> d \<noteq> [] then [] else [carrying ''delta'' (t, sep, p) d (snd (sp_feed nonce d s))])"
proof -
  have k: "stream_key (pb_event p) = i" using w by (simp add: delta_wire_def)
  have s: "stream_for (pb_event p) st = s" using st by (simp add: stream_for_def k split: option.splits)
  have rw: "tag_rewrite nonce t st =
      (st\<lparr>ts_streams := (ts_streams st)(i \<mapsto> fst (sp_feed nonce d s))\<rparr>,
       if snd (sp_feed nonce d s) = d then Some t else if snd (sp_feed nonce d s) = [] then None
       else Some (rewritten_block p (with_prop (pb_event p) ''delta'' (JStr (snd (sp_feed nonce d s))))))"
    using w s k by (simp add: delta_wire_def tag_rewrite_def rewrite_delta_def set_stream_def case_prod_unfold Let_def)
  have "utf8_valid t" using w by (simp add: delta_wire_def)
  then show ?thesis by (auto simp: tag_frame_text rw)
qed

lemma done_frame_text:
  assumes w: "done_wire i (t, sep, p) d"
  shows "snd (tag_frame nonce (t @ sep) sep st) = [carrying ''text'' (t, sep, p) d (strip_think_tags nonce d)]"
proof -
  have rw: "snd (tag_rewrite nonce t st) = (if strip_think_tags nonce d = d then Some t
       else Some (rewritten_block p (with_prop (pb_event p) ''text'' (JStr (strip_think_tags nonce d)))))"
    using w by (simp add: done_wire_def tag_rewrite_def rewrite_text_done_def case_prod_unfold Let_def)
  have "utf8_valid t" using w by (simp add: done_wire_def)
  then show ?thesis by (simp add: tag_frame_text rw)
qed


lemma run_deltas:
  assumes "list_all2 (delta_wire i) ws ds" and "case_option new_stripper (\<lambda>s. s) (ts_streams st i) = s"
  shows "concat (snd (run_handler (tag_frame nonce) (tag_fs ws) st)) = delta_outs ws ds (sp_outs nonce ds s)"
  using assms
proof (induction ws ds arbitrary: st s rule: list_all2_induct)
  case (Cons w ws d ds)
  obtain t sep p where w: "w = (t, sep, p)" by (cases w)
  note frame = delta_frame [OF Cons.hyps(1) [unfolded w] Cons.prems, of nonce]
  let ?s' = "fst (sp_feed nonce d s)"
  have "case_option new_stripper (\<lambda>s. s) (ts_streams (st\<lparr>ts_streams := (ts_streams st)(i \<mapsto> ?s')\<rparr>) i) = ?s'" by simp
  from Cons.IH [OF this] frame show ?case
    by (simp add: w delta_out_def case_prod_unfold Let_def)
qed simp

lemma run_handler_append:
  "snd (run_handler h (fs @ gs) st) = snd (run_handler h fs st) @ snd (run_handler h gs (fst (run_handler h fs st)))"
  by (induction fs arbitrary: st) (auto simp: case_prod_unfold Let_def)

lemma wire_frames:
  assumes "list_all2 (delta_wire i) ws ds \<or> list_all2 (done_wire i) ws ds"
  shows "(\<forall>(f, sep) \<in> set (tag_fs ws). \<exists>n. find_frame_end f = Some (n, sep) \<and> n + length sep = length f) \<and>
    (\<forall>(f, sep) \<in> set (tag_fs ws). \<forall>s. \<not> ts_pass s \<longrightarrow> \<not> ts_pass (fst (tag_frame nonce f sep s)))"
proof -
  have all: "utf8_valid t \<and> find_frame_end (t @ sep) = Some (length t, sep)" if "(t, sep, p) \<in> set ws" for t sep p
    using assms that by (auto simp: list_all2_conv_all_nth in_set_conv_nth delta_wire_def done_wire_def)
  then show ?thesis by (auto simp: tag_frame_text tag_rewrite_fields)
qed

section \<open>Properties\<close>

text \<open>Chunk boundaries are invisible to the stage.\<close>

theorem tag_stage_chunking:
  assumes "concat cs = concat ds" and "cs \<noteq> []" and "ds \<noteq> []"
  shows "tag_stream nonce cs = tag_stream nonce ds"
  using tg.feed_chunks_once [OF assms(2)] tg.feed_chunks_once [OF assms(3)] assms(1)
  by (simp add: tag_stream_def)

lemma tag_stage_chunking_witness:
  "tag_stream False [''data: 1'', [LF, LF]] = tag_stream False [''data: 1'' @ [LF, LF]]"
  by (rule tag_stage_chunking) simp_all

text \<open>
  A message on the wire. Its delta frames leave with the texts the incremental stripper returns,
  a frame that has nothing left to show is dropped, one that is not changed leaves byte for byte;
  its final frame leaves with the stripped complete text. The texts that leave in the deltas are
  what the stripper returns for the message.
\<close>

theorem message_on_the_wire:
  assumes ws: "list_all2 (delta_wire i) ws ds" and fin: "done_wire i w t"
    and cs: "concat cs = concat (map tag_wire_bytes (ws @ [w]))"
  shows "snd (feed_chunks (tag_transform nonce) cs new_tag_stage) =
      delta_outs ws ds (sp_outs nonce ds new_stripper) @ carrying ''text'' w t (strip_think_tags nonce t) \<and>
    concat (sp_outs nonce ds new_stripper) = snd (sp_feeds nonce ds new_stripper)"
proof -
  have done1: "list_all2 (done_wire i) [w] [t]" using fin by simp
  note a = wire_frames [OF disjI1 [OF ws], of nonce] and b = wire_frames [OF disjI2 [OF done1], of nonce]
  let ?fs = "tag_fs (ws @ [w])"
  have frames: "\<forall>(f, sep) \<in> set ?fs. \<exists>n. find_frame_end f = Some (n, sep) \<and> n + length sep = length f"
    "\<forall>(f, sep) \<in> set ?fs. \<forall>s. \<not> ts_pass s \<longrightarrow> \<not> ts_pass (fst (tag_frame nonce f sep s))"
    using a b by auto
  have bytes: "concat cs = concat (map fst ?fs)"
  proof -
    have "map fst ?fs = map tag_wire_bytes (ws @ [w])" by (simp add: tag_wire_bytes_def case_prod_unfold)
    then show ?thesis unfolding cs by (rule arg_cong [symmetric])
  qed
  have new: "\<not> ts_pass new_tag_stage" "ts_buffer new_tag_stage = []" "ts_streams new_tag_stage i = None"
    by (simp_all add: new_tag_stage_def)
  have "snd (feed_chunks (tag_transform nonce) cs new_tag_stage) = concat (snd (run_handler (tag_frame nonce) ?fs new_tag_stage))"
    using tg.feed_frames [OF frames new(1,2) bytes] by simp
  moreover have "concat (snd (run_handler (tag_frame nonce) (tag_fs ws) new_tag_stage)) = delta_outs ws ds (sp_outs nonce ds new_stripper)"
    by (rule run_deltas [OF ws]) (simp add: new)
  moreover obtain u sep p where w: "w = (u, sep, p)" by (cases w)
  moreover have "snd (run_handler (tag_frame nonce) (tag_fs [w]) st) = [carrying ''text'' w t (strip_think_tags nonce t)]" for st
    using done_frame_text [OF fin [unfolded w]] by (simp add: w case_prod_unfold Let_def)
  ultimately show ?thesis by (simp add: run_handler_append concat_sp_outs)
qed


text \<open>A message whose opening tag is cut over two deltas.\<close>

definition sample_tag_wire :: "string \<Rightarrow> string \<Rightarrow> string \<Rightarrow> tag_wire" where
  "sample_tag_wire type prop d =
     (let t = ''data: '' @ json_stringify (JObj [(''type'', JStr type), (''output_index'', JNum 2 0), (prop, JStr d)])
      in (t, [LF, LF], the (event_block t)))"

definition sample_deltas :: "string list" where "sample_deltas = [''<th'', ''ink>x</think>'', '' y'', ''z'']"

definition sample_delta_wires :: "tag_wire list" where
  "sample_delta_wires = map (sample_tag_wire TEXT_DELTA ''delta'') sample_deltas"

definition sample_done_wire :: tag_wire where
  "sample_done_wire = sample_tag_wire TEXT_DONE ''text'' ''<think>x</think> yz''"

lemma sample_tag_wires:
  "list_all2 (delta_wire 2) sample_delta_wires sample_deltas"
  "done_wire 2 sample_done_wire ''<think>x</think> yz''"
  by code_simp+

lemma message_on_the_wire_witness:
  "snd (feed_chunks (tag_transform False) (map tag_wire_bytes (sample_delta_wires @ [sample_done_wire])) new_tag_stage) =
      delta_outs sample_delta_wires sample_deltas [[], [], ''y'', ''z''] @ carrying ''text'' sample_done_wire ''<think>x</think> yz'' ''yz''"
proof -
  have "sp_outs False sample_deltas new_stripper = [[], [], ''y'', ''z'']"
    "strip_think_tags False ''<think>x</think> yz'' = ''yz''" by code_simp+
  with message_on_the_wire [OF sample_tag_wires refl, of False] show ?thesis by simp
qed

end
