(* ===== verification/Retention.thy ===== *)
theory Retention
  imports Json
begin

text \<open>
  Retained tool results, \<open>src/router/src/tool-result-retention.mjs\<close>: what is in the store, emptying it,
  and dropping what has outlived its lifetime. The file system is an argument: what the
  directory lists, what \<open>lstat\<close> and \<open>unlink\<close> answer for each name. A run returns the paths it
  removed beside its result, so that what it did is there even when it throws. Times are whole
  numbers of one unit fine enough for file times; paths are POSIX paths and the directory is
  given resolved. A number that is not finite is \<open>None\<close>.
\<close>

section \<open>Names\<close>

definition RETENTION_MAX_FILES :: nat where "RETENTION_MAX_FILES = 512"
definition RETENTION_MAX_TOTAL_BYTES :: nat where "RETENTION_MAX_TOTAL_BYTES = 512 * 1024 * 1024"
definition RETENTION_KEY_NAME :: string where "RETENTION_KEY_NAME = ''.retention-key''"
definition DAY_MS :: int where "DAY_MS = 24 * 60 * 60 * 1000"
definition RETENTION_DEFAULT_TTL_DAYS :: int where "RETENTION_DEFAULT_TTL_DAYS = 7"
definition RETENTION_DEFAULT_TTL_MS :: int where "RETENTION_DEFAULT_TTL_MS = RETENTION_DEFAULT_TTL_DAYS * DAY_MS"
definition RETENTION_MIN_TTL_DAYS :: int where "RETENTION_MIN_TTL_DAYS = 1"
definition RETENTION_MAX_TTL_DAYS :: int where "RETENTION_MAX_TTL_DAYS = 3650"

definition retention_ttl_ms_from_days :: "int option \<Rightarrow> int" where
  "retention_ttl_ms_from_days days = (case days of Some v \<Rightarrow> if v > 0 then v * DAY_MS else 0 | None \<Rightarrow> 0)"

definition base64url_char :: "char \<Rightarrow> bool" where
  "base64url_char c \<longleftrightarrow> (CHR ''A'' \<le> c \<and> c \<le> CHR ''Z'') \<or> (CHR ''a'' \<le> c \<and> c \<le> CHR ''z'') \<or>
     (CHR ''0'' \<le> c \<and> c \<le> CHR ''9'') \<or> c = CHR ''_'' \<or> c = CHR ''-''"

definition lower_hex :: "char \<Rightarrow> bool" where
  "lower_hex c \<longleftrightarrow> (CHR ''0'' \<le> c \<and> c \<le> CHR ''9'') \<or> (CHR ''a'' \<le> c \<and> c \<le> CHR ''f'')"

text \<open>\<open>/^[A-Za-z0-9_-]{43}\.result$/\<close> and \<open>/^\.[^/\\]+\.stage\.[0-9a-f]{32}$/\<close>\<close>

definition result_file :: "string \<Rightarrow> bool" where
  "result_file name \<longleftrightarrow> length name = 50 \<and> (\<forall>c \<in> set (take 43 name). base64url_char c) \<and> drop 43 name = ''.result''"

definition stage_file :: "string \<Rightarrow> bool" where
  "stage_file name \<longleftrightarrow>
     (let k = length name - 39 in
      length name > 40 \<and> hd name = CHR ''.'' \<and> (\<forall>c \<in> set (take (k - 1) (tl name)). c \<notin> {CHR ''/'', CHR 0x5C}) \<and>
      take 7 (drop k name) = ''.stage.'' \<and> (\<forall>c \<in> set (drop (k + 7) name). lower_hex c))"

definition is_retention_entry :: "string \<Rightarrow> bool" where
  "is_retention_entry name \<longleftrightarrow> name = RETENTION_KEY_NAME \<or> result_file name \<or> stage_file name"

definition is_expirable :: "string \<Rightarrow> bool" where
  "is_expirable name \<longleftrightarrow> result_file name \<or> stage_file name"

section \<open>Paths\<close>

text \<open>\<open>path.resolve\<close> of a resolved directory and a name without separators, \<open>dirname\<close> and \<open>basename\<close>.\<close>

definition resolve_child :: "string \<Rightarrow> string \<Rightarrow> string" where
  "resolve_child root name =
     (if name = [] then root else if root = ''/'' then ''/'' @ name else root @ ''/'' @ name)"

definition base_name :: "string \<Rightarrow> string" where
  "base_name p = rev (takeWhile (\<lambda>c. c \<noteq> CHR ''/'') (rev p))"

definition dir_name :: "string \<Rightarrow> string" where
  "dir_name p =
     (let d = rev (drop 1 (dropWhile (\<lambda>c. c \<noteq> CHR ''/'') (rev p))) in
      if d = [] then (if starts_with ''/'' p then ''/'' else ''.'') else d)"

datatype retention_error = Unusable_Name string | Outside_Directory | File_System string

definition retention_entry_path :: "string \<Rightarrow> string \<Rightarrow> retention_error + string" where
  "retention_entry_path root name =
     (if name = ''.'' \<or> name = ''..'' \<or> CHR ''/'' \<in> set name \<or> CHR 0x5C \<in> set name \<or> CHR 0x00 \<in> set name
      then Inl (Unusable_Name name)
      else let target = resolve_child root name in
        if dir_name target \<noteq> root \<or> base_name target \<noteq> name then Inl Outside_Directory else Inr target)"

section \<open>Numbers for people\<close>

text \<open>\<open>(num / den).toFixed(k)\<close> where the quotient is exact in binary\<close>

definition to_fixed :: "nat \<Rightarrow> nat \<Rightarrow> nat \<Rightarrow> string" where
  "to_fixed k num den =
     (let n = (2 * num * 10 ^ k + den) div (2 * den); f = nat_str (n mod 10 ^ k)
      in nat_str (n div 10 ^ k) @ ''.'' @ replicate (k - length f) (CHR ''0'') @ f)"

definition format_retention_bytes :: "nat \<Rightarrow> string" where
  "format_retention_bytes b =
     (if b < 1024 then nat_str b @ '' bytes''
      else if b < 1024 * 1024 then to_fixed 1 b 1024 @ '' KiB''
      else if b < 1024 * 1024 * 1024 then to_fixed 1 b (1024 * 1024) @ '' MiB''
      else to_fixed 2 b (1024 * 1024 * 1024) @ '' GiB'')"

text \<open>\<open>Math.round\<close> of a quotient of whole milliseconds\<close>

definition round_div :: "int \<Rightarrow> int \<Rightarrow> int" where "round_div a b = (2 * a + b) div (2 * b)"

definition describe_retention_age :: "int option \<Rightarrow> string" where
  "describe_retention_age age =
     (case age of
        None \<Rightarrow> ''unknown''
      | Some ms \<Rightarrow>
          if ms < 0 then ''unknown''
          else if ms < 60 * 60 * 1000 then int_str (max 1 (round_div ms 60000)) @ ''m''
          else if ms < DAY_MS then int_str (round_div ms (60 * 60 * 1000)) @ ''h''
          else int_str (round_div ms DAY_MS) @ ''d'')"

section \<open>What is in the store\<close>

record file_stat =
  fs_file :: bool
  fs_link :: bool
  fs_size :: nat
  fs_mtime :: int

text \<open>Answers of the file system; \<open>Absent\<close> is \<open>ENOENT\<close>.\<close>

datatype listing = Names "string list" | No_Directory | Not_A_Directory | List_Failed string
datatype stat_answer = Stat file_stat | Stat_Absent | Stat_Failed string
datatype unlink_answer = Unlinked | Unlink_Absent | Unlink_Failed string

record file_system =
  fs_listing :: listing
  fs_lstat :: "string \<Rightarrow> stat_answer"
  fs_unlink :: "string \<Rightarrow> unlink_answer"

record entry =
  en_name :: string
  en_bytes :: nat
  en_mtime :: int
  en_age :: int
  en_expired :: bool

record usage =
  us_path :: string
  us_exists :: bool
  us_results :: nat
  us_files :: nat
  us_bytes :: nat
  us_foreign :: "string list"
  us_oldest :: "int option"
  us_oldest_age :: "int option"
  us_entries :: "entry list"
  us_capacity :: bool
  us_ttl :: int
  us_expired :: nat
  us_expired_results :: nat
  us_expired_bytes :: nat

definition lifetime_of :: "int option \<Rightarrow> int" where
  "lifetime_of ttl = (case ttl of Some t \<Rightarrow> if t > 0 then t else 0 | None \<Rightarrow> 0)"

definition empty_usage :: "string \<Rightarrow> int \<Rightarrow> usage" where
  "empty_usage root lifetime =
     \<lparr>us_path = root, us_exists = False, us_results = 0, us_files = 0, us_bytes = 0, us_foreign = [],
      us_oldest = None, us_oldest_age = None, us_entries = [], us_capacity = False, us_ttl = lifetime,
      us_expired = 0, us_expired_results = 0, us_expired_bytes = 0\<rparr>"

text \<open>One listed name: skipped when it is gone, foreign, or an entry.\<close>

definition entry_of :: "int \<Rightarrow> int \<Rightarrow> string \<Rightarrow> file_stat \<Rightarrow> entry" where
  "entry_of now lifetime name st =
     (let age = max 0 (now - fs_mtime st) in
      \<lparr>en_name = name, en_bytes = fs_size st, en_mtime = fs_mtime st, en_age = age,
       en_expired = (lifetime > 0 \<and> is_expirable name \<and> age > lifetime)\<rparr>)"

definition count_entry :: "entry \<Rightarrow> usage \<Rightarrow> usage" where
  "count_entry e u =
     (let u1 = u\<lparr>us_entries := us_entries u @ [e], us_bytes := us_bytes u + en_bytes e\<rparr>;
          u2 = (if en_expired e
                then u1\<lparr>us_expired := us_expired u1 + 1, us_expired_bytes := us_expired_bytes u1 + en_bytes e\<rparr> else u1)
      in if result_file (en_name e) then
           u2\<lparr>us_results := us_results u2 + 1,
              us_expired_results := us_expired_results u2 + (if en_expired e then 1 else 0),
              us_oldest := (case us_oldest u2 of
                  None \<Rightarrow> Some (en_mtime e) | Some m \<Rightarrow> if en_mtime e < m then Some (en_mtime e) else Some m)\<rparr>
         else u2)"

fun scan_names :: "file_system \<Rightarrow> int \<Rightarrow> int \<Rightarrow> string list \<Rightarrow> usage \<Rightarrow> retention_error + usage" where
  "scan_names fs now lifetime [] u = Inr u"
| "scan_names fs now lifetime (name # names) u =
     (case fs_lstat fs name of
        Stat_Absent \<Rightarrow> scan_names fs now lifetime names u
      | Stat_Failed m \<Rightarrow> Inl (File_System m)
      | Stat st \<Rightarrow>
          if \<not> fs_file st \<or> fs_link st \<or> \<not> is_retention_entry name then
            scan_names fs now lifetime names (u\<lparr>us_foreign := us_foreign u @ [name]\<rparr>)
          else scan_names fs now lifetime names (count_entry (entry_of now lifetime name st) u))"


definition retained_tool_results_usage ::
    "file_system \<Rightarrow> string \<Rightarrow> int \<Rightarrow> int option \<Rightarrow> retention_error + usage" where
  "retained_tool_results_usage fs root now ttl =
     (let lifetime = lifetime_of ttl; empty = empty_usage root lifetime in
      case fs_listing fs of
        No_Directory \<Rightarrow> Inr empty
      | Not_A_Directory \<Rightarrow> Inr (empty\<lparr>us_exists := True, us_foreign := [base_name root]\<rparr>)
      | List_Failed m \<Rightarrow> Inl (File_System m)
      | Names names \<Rightarrow>
          (case scan_names fs now lifetime names empty of
             Inl e \<Rightarrow> Inl e
           | Inr u \<Rightarrow> Inr (u\<lparr>us_exists := True, us_files := length (us_entries u),
               us_oldest_age := map_option (\<lambda>m. max 0 (now - m)) (us_oldest u),
               us_capacity := (us_results u \<ge> RETENTION_MAX_FILES \<or> us_bytes u \<ge> RETENTION_MAX_TOTAL_BYTES)\<rparr>)))"

section \<open>Removing\<close>

record purge_summary =
  ps_path :: string
  ps_exists :: bool
  ps_dry :: bool
  ps_results :: nat
  ps_files :: nat
  ps_bytes :: nat
  ps_foreign :: "string list"
  ps_oldest_age :: "int option"
  ps_removed :: nat
  ps_reclaimed :: nat
  ps_failed :: "(string \<times> string) list"

record expire_summary = purge_summary +
  es_ttl :: int
  es_expired :: nat
  es_expired_results :: nat
  es_expired_bytes :: nat

text \<open>\<open>removeRetentionEntries\<close>: one removal path for both commands.\<close>

fun remove_entries ::
    "file_system \<Rightarrow> string \<Rightarrow> entry list \<Rightarrow> 's purge_summary_scheme \<Rightarrow> (retention_error + 's purge_summary_scheme) \<times> string list" where
  "remove_entries fs root [] s = (Inr s, [])"
| "remove_entries fs root (e # es) s =
     (case retention_entry_path root (en_name e) of
        Inl err \<Rightarrow> (Inl err, [])
      | Inr target \<Rightarrow>
          let counted = s\<lparr>ps_removed := ps_removed s + 1, ps_reclaimed := ps_reclaimed s + en_bytes e\<rparr> in
          if ps_dry s then remove_entries fs root es counted
          else (case fs_unlink fs target of
              Unlinked \<Rightarrow> (let (r, gone) = remove_entries fs root es counted in (r, target # gone))
            | Unlink_Absent \<Rightarrow> remove_entries fs root es s
            | Unlink_Failed m \<Rightarrow> remove_entries fs root es (s\<lparr>ps_failed := ps_failed s @ [(en_name e, m)]\<rparr>)))"

definition purge_start :: "bool \<Rightarrow> usage \<Rightarrow> purge_summary" where
  "purge_start dry u =
     \<lparr>ps_path = us_path u, ps_exists = us_exists u, ps_dry = dry, ps_results = us_results u, ps_files = us_files u,
      ps_bytes = us_bytes u, ps_foreign = us_foreign u, ps_oldest_age = us_oldest_age u,
      ps_removed = 0, ps_reclaimed = 0, ps_failed = []\<rparr>"

definition purge_retained_tool_results ::
    "file_system \<Rightarrow> string \<Rightarrow> bool \<Rightarrow> int \<Rightarrow> (retention_error + purge_summary) \<times> string list" where
  "purge_retained_tool_results fs root dry now =
     (case retained_tool_results_usage fs root now (Some 0) of
        Inl e \<Rightarrow> (Inl e, [])
      | Inr u \<Rightarrow>
          let s = purge_start dry u in
          if \<not> us_exists u \<or> us_files u = 0 then (Inr s, [])
          else remove_entries fs (us_path u) (us_entries u) s)"

definition expire_start :: "bool \<Rightarrow> int \<Rightarrow> usage \<Rightarrow> expire_summary" where
  "expire_start dry lifetime u =
     purge_summary.extend (purge_start dry u)
       (expire_summary.fields lifetime (us_expired u) (us_expired_results u) (us_expired_bytes u))"

definition expire_retained_tool_results ::
    "file_system \<Rightarrow> string \<Rightarrow> int option \<Rightarrow> bool \<Rightarrow> int \<Rightarrow> (retention_error + expire_summary) \<times> string list" where
  "expire_retained_tool_results fs root ttl dry now =
     (let lifetime = lifetime_of ttl in
      case retained_tool_results_usage fs root now (Some lifetime) of
        Inl e \<Rightarrow> (Inl e, [])
      | Inr u \<Rightarrow>
          let s = expire_start dry lifetime u in
          if \<not> us_exists u \<or> lifetime = 0 \<or> us_expired u = 0 then (Inr s, [])
          else remove_entries fs (us_path u) (filter en_expired (us_entries u)) s)"

section \<open>What the scan finds\<close>

text \<open>The entries of a scan: the names retention wrote, among the regular files, with their facts.\<close>

definition entries_of :: "file_system \<Rightarrow> int \<Rightarrow> int \<Rightarrow> string list \<Rightarrow> entry list" where
  "entries_of fs now lifetime names =
     concat (map (\<lambda>n. case fs_lstat fs n of
         Stat st \<Rightarrow> if fs_file st \<and> \<not> fs_link st \<and> is_retention_entry n then [entry_of now lifetime n st] else []
       | _ \<Rightarrow> []) names)"

definition counts_hold :: "usage \<Rightarrow> bool" where
  "counts_hold u \<longleftrightarrow>
     us_bytes u = sum_list (map en_bytes (us_entries u)) \<and>
     us_results u = length (filter (\<lambda>e. result_file (en_name e)) (us_entries u)) \<and>
     us_expired u = length (filter en_expired (us_entries u)) \<and>
     us_expired_bytes u = sum_list (map en_bytes (filter en_expired (us_entries u))) \<and>
     us_expired_results u = length (filter (\<lambda>e. result_file (en_name e) \<and> en_expired e) (us_entries u))"

lemma count_entry_counts: "counts_hold u \<Longrightarrow> counts_hold (count_entry e u)"
  by (simp add: counts_hold_def count_entry_def Let_def)

lemma count_entry_fields [simp]:
  "us_entries (count_entry e u) = us_entries u @ [e]" "us_path (count_entry e u) = us_path u"
  "us_ttl (count_entry e u) = us_ttl u"
  by (simp_all add: count_entry_def Let_def)

lemma counts_foreign [simp]: "counts_hold (u\<lparr>us_foreign := x\<rparr>) = counts_hold u"
  by (simp add: counts_hold_def)

lemma entries_of_Cons:
  "entries_of fs now lifetime (n # names) = (case fs_lstat fs n of
       Stat st \<Rightarrow> if fs_file st \<and> \<not> fs_link st \<and> is_retention_entry n then [entry_of now lifetime n st] else []
     | _ \<Rightarrow> []) @ entries_of fs now lifetime names"
  by (simp add: entries_of_def)

lemma scan_names_entries:
  "scan_names fs now lifetime names u = Inr u' \<Longrightarrow>
     us_entries u' = us_entries u @ entries_of fs now lifetime names \<and> us_path u' = us_path u \<and>
     (counts_hold u \<longrightarrow> counts_hold u')"
proof (induction names arbitrary: u)
  case Nil
  then show ?case by (simp add: entries_of_def)
next
  case (Cons n names)
  show ?case
  proof (cases "fs_lstat fs n")
    case (Stat st)
    show ?thesis
    proof (cases "fs_file st \<and> \<not> fs_link st \<and> is_retention_entry n")
      case True
      with Stat Cons.prems have "scan_names fs now lifetime names (count_entry (entry_of now lifetime n st) u) = Inr u'" by simp
      from Cons.IH [OF this] Stat True show ?thesis by (simp add: entries_of_Cons count_entry_counts)
    next
      case False
      with Stat Cons.prems have "scan_names fs now lifetime names (u\<lparr>us_foreign := us_foreign u @ [n]\<rparr>) = Inr u'" by auto
      from Cons.IH [OF this] Stat False show ?thesis by (simp add: entries_of_Cons)
    qed
  next
    case Stat_Absent
    with Cons show ?thesis by (simp add: entries_of_Cons)
  next
    case (Stat_Failed m)
    with Cons.prems show ?thesis by simp
  qed
qed

lemma usage_entries:
  assumes "retained_tool_results_usage fs root now ttl = Inr u"
  shows "us_path u = root \<and> counts_hold u \<and> us_files u = length (us_entries u) \<and>
    us_entries u = (case fs_listing fs of Names names \<Rightarrow> entries_of fs now (lifetime_of ttl) names | _ \<Rightarrow> [])"
proof -
  have empty: "counts_hold (empty_usage root l)" "us_entries (empty_usage root l) = []" "us_path (empty_usage root l) = root"
    "us_files (empty_usage root l) = 0" for l
    by (simp_all add: empty_usage_def counts_hold_def)
  show ?thesis
  proof (cases "fs_listing fs")
    case (Names names)
    then obtain v where v: "scan_names fs now (lifetime_of ttl) names (empty_usage root (lifetime_of ttl)) = Inr v"
      "us_entries u = us_entries v" "us_path u = us_path v" "us_files u = length (us_entries v)" "counts_hold u = counts_hold v"
      using assms by (auto simp: retained_tool_results_usage_def Let_def counts_hold_def split: sum.splits)
    from scan_names_entries [OF v(1)] v(2-) empty Names show ?thesis by simp
  qed (use assms empty in \<open>auto simp: retained_tool_results_usage_def Let_def counts_hold_def\<close>)
qed


section \<open>Removing\<close>

lemma resolve_child_inject: "resolve_child root n = resolve_child root m \<Longrightarrow> n = m"
  by (auto simp: resolve_child_def split: if_splits)

lemma entry_path_parts:
  "retention_entry_path root n = Inr p \<Longrightarrow> p = resolve_child root n \<and> dir_name p = root \<and> base_name p = n"
  by (auto simp: retention_entry_path_def Let_def split: if_splits)

text \<open>Whatever the file system answers, only entries of the list are removed.\<close>

lemma remove_entries_gone:
  "remove_entries fs root es s = (r, gone) \<Longrightarrow> p \<in> set gone \<Longrightarrow>
     \<not> ps_dry s \<and> (\<exists>e \<in> set es. retention_entry_path root (en_name e) = Inr p)"
proof (induction es arbitrary: s gone r)
  case (Cons e es)
  show ?case
  proof (cases "retention_entry_path root (en_name e)")
    case (Inr target)
    let ?c = "s\<lparr>ps_removed := ps_removed s + 1, ps_reclaimed := ps_reclaimed s + en_bytes e\<rparr>"
    show ?thesis
    proof (cases "ps_dry s")
      case True
      with Cons.prems Inr Cons.IH [of ?c r gone] show ?thesis by simp
    next
      case False
      show ?thesis
      proof (cases "fs_unlink fs target")
        case Unlinked
        then obtain g where "remove_entries fs root es ?c = (r, g)" "gone = target # g"
          using Cons.prems(1) Inr False by (auto split: prod.splits)
        with Cons.IH [of ?c r g] Cons.prems(2) Inr False show ?thesis by auto
      next
        case Unlink_Absent
        with Cons.prems Inr False Cons.IH [of s r gone] show ?thesis by simp
      next
        case (Unlink_Failed m)
        with Cons.prems Inr False Cons.IH [of "s\<lparr>ps_failed := ps_failed s @ [(en_name e, m)]\<rparr>" r gone] show ?thesis by simp
      qed
    qed
  qed (use Cons.prems in simp)
qed simp

text \<open>On names that pass the check a run never throws, and this is its outcome.\<close>

definition reachable_entry :: "string \<Rightarrow> entry \<Rightarrow> bool" where
  "reachable_entry root e \<longleftrightarrow> retention_entry_path root (en_name e) = Inr (resolve_child root (en_name e))"

lemma remove_entries_dry:
  "ps_dry s \<Longrightarrow> \<forall>e \<in> set es. reachable_entry root e \<Longrightarrow>
     remove_entries fs root es s =
       (Inr (s\<lparr>ps_removed := ps_removed s + length es, ps_reclaimed := ps_reclaimed s + sum_list (map en_bytes es)\<rparr>), [])"
  by (induction es arbitrary: s) (simp_all add: reachable_entry_def add.assoc)

lemma remove_entries_real:
  "\<not> ps_dry s \<Longrightarrow> \<forall>e \<in> set es. reachable_entry root e \<Longrightarrow> \<forall>p. fs_unlink fs p = Unlinked \<Longrightarrow>
     remove_entries fs root es s =
       (Inr (s\<lparr>ps_removed := ps_removed s + length es, ps_reclaimed := ps_reclaimed s + sum_list (map en_bytes es)\<rparr>),
        map (\<lambda>e. resolve_child root (en_name e)) es)"
  by (induction es arbitrary: s) (simp_all add: reachable_entry_def add.assoc case_prod_unfold Let_def)

text \<open>The names retention writes pass the check in any resolved directory.\<close>

definition resolved_dir :: "string \<Rightarrow> bool" where
  "resolved_dir root \<longleftrightarrow> root = ''/'' \<or> (root \<noteq> [] \<and> last root \<noteq> CHR ''/'')"

lemma split_while:
  "c \<notin> set a \<Longrightarrow> takeWhile (\<lambda>x. x \<noteq> c) (a @ c # y) = a" "c \<notin> set a \<Longrightarrow> dropWhile (\<lambda>x. x \<noteq> c) (a @ c # y) = c # y"
  by (induction a) auto

lemma child_parts:
  assumes "resolved_dir root" and "n \<noteq> []" and "CHR ''/'' \<notin> set n"
  shows "dir_name (resolve_child root n) = root \<and> base_name (resolve_child root n) = n"
proof -
  have rn: "CHR ''/'' \<notin> set (rev n)" using assms(3) by simp
  have tw: "takeWhile (\<lambda>c. c \<noteq> CHR ''/'') (rev n @ CHR ''/'' # x) = rev n"
    and dw: "dropWhile (\<lambda>c. c \<noteq> CHR ''/'') (rev n @ CHR ''/'' # x) = CHR ''/'' # x" for x
    using split_while [OF rn] by simp_all
  show ?thesis
  proof (cases "root = ''/''")
    case True
    with assms(2) have p: "rev (resolve_child root n) = rev n @ [CHR ''/'']" "starts_with ''/'' (resolve_child root n)"
      by (simp_all add: resolve_child_def)
    with tw [of "[]"] dw [of "[]"] True show ?thesis by (simp add: base_name_def dir_name_def)
  next
    case False
    with assms(1,2) have p: "rev (resolve_child root n) = rev n @ CHR ''/'' # rev root" "root \<noteq> []"
      by (auto simp: resolve_child_def resolved_dir_def)
    with tw [of "rev root"] dw [of "rev root"] show ?thesis by (simp add: base_name_def dir_name_def)
  qed
qed

lemma stage_parts:
  assumes "stage_file n"
  obtains k where "length n > 40" "n = hd n # take (k - 1) (tl n) @ ''.stage.'' @ drop (k + 7) n" "hd n = CHR ''.''"
    "\<forall>c \<in> set (take (k - 1) (tl n)). c \<notin> {CHR ''/'', CHR 0x5C}" "\<forall>c \<in> set (drop (k + 7) n). lower_hex c"
proof -
  define k where "k = length n - 39"
  have s: "length n > 40" "hd n = CHR ''.''" "\<forall>c \<in> set (take (k - 1) (tl n)). c \<notin> {CHR ''/'', CHR 0x5C}"
    "take 7 (drop k n) = ''.stage.''" "\<forall>c \<in> set (drop (k + 7) n). lower_hex c"
    using assms unfolding stage_file_def Let_def k_def by blast+
  have "n = take k n @ take 7 (drop k n) @ drop 7 (drop k n)" by (simp only: append_take_drop_id)
  moreover have "take k n = hd n # take (k - 1) (tl n)"
  proof -
    obtain a l where "n = a # l" using s(1) by (cases n) auto
    moreover have "k \<noteq> 0" using s(1) by (simp add: k_def)
    ultimately show ?thesis by (cases k) simp_all
  qed
  ultimately have "n = hd n # take (k - 1) (tl n) @ ''.stage.'' @ drop (k + 7) n"
    using s(4) by (simp add: add.commute)
  with s that show thesis by blast
qed

lemma class_no_slash: "base64url_char c \<Longrightarrow> c \<notin> {CHR ''/'', CHR 0x5C}" "lower_hex c \<Longrightarrow> c \<notin> {CHR ''/'', CHR 0x5C}"
  by (auto simp: base64url_char_def lower_hex_def less_eq_char_def)

lemma entry_no_slash:
  assumes "is_retention_entry n"
  shows "n \<noteq> [] \<and> CHR ''/'' \<notin> set n \<and> CHR 0x5C \<notin> set n \<and> n \<noteq> ''.'' \<and> n \<noteq> ''..''"
  using assms unfolding is_retention_entry_def
proof (elim disjE)
  assume "result_file n"
  then have r: "length n = 50" "\<forall>c \<in> set (take 43 n). base64url_char c" "drop 43 n = ''.result''"
    by (auto simp: result_file_def)
  have "set n = set (take 43 n) \<union> set (drop 43 n)" by (metis append_take_drop_id set_append)
  moreover have "CHR ''/'' \<notin> set (take 43 n)" "CHR 0x5C \<notin> set (take 43 n)" using r(2) class_no_slash(1) by blast+
  ultimately have "CHR ''/'' \<notin> set n" "CHR 0x5C \<notin> set n" using r(3) by auto
  with r(1) show ?thesis by auto
next
  assume "stage_file n"
  then obtain k where k: "length n > 40" "n = hd n # take (k - 1) (tl n) @ ''.stage.'' @ drop (k + 7) n" "hd n = CHR ''.''"
    "\<forall>c \<in> set (take (k - 1) (tl n)). c \<notin> {CHR ''/'', CHR 0x5C}" "\<forall>c \<in> set (drop (k + 7) n). lower_hex c"
    by (rule stage_parts)
  have "set n = insert (hd n) (set (take (k - 1) (tl n)) \<union> (set ''.stage.'' \<union> set (drop (k + 7) n)))"
    using arg_cong [OF k(2), of set] by (simp only: list.set set_append)
  moreover have "CHR ''/'' \<notin> set (drop (k + 7) n)" "CHR 0x5C \<notin> set (drop (k + 7) n)"
    "CHR ''/'' \<notin> set (take (k - 1) (tl n))" "CHR 0x5C \<notin> set (take (k - 1) (tl n))"
    using k(4,5) class_no_slash(2) by blast+
  ultimately have "CHR ''/'' \<notin> set n" "CHR 0x5C \<notin> set n" using k(3) by auto
  with k(1) show ?thesis by auto
qed (simp add: RETENTION_KEY_NAME_def)

lemma entry_reachable:
  "resolved_dir root \<Longrightarrow> is_retention_entry (en_name e) \<Longrightarrow> CHR 0x00 \<notin> set (en_name e) \<Longrightarrow> reachable_entry root e"
  using entry_no_slash [of "en_name e"] child_parts [of root "en_name e"]
  by (simp add: reachable_entry_def retention_entry_path_def)


lemma in_entries_of:
  "e \<in> set (entries_of fs now lifetime names) \<longleftrightarrow>
     (\<exists>n \<in> set names. \<exists>st. fs_lstat fs n = Stat st \<and> fs_file st \<and> \<not> fs_link st \<and> is_retention_entry n \<and> e = entry_of now lifetime n st)"
  by (auto simp: entries_of_def split: stat_answer.splits if_splits) force+

lemma usage_entry:
  assumes "retained_tool_results_usage fs root now ttl = Inr u" and "e \<in> set (us_entries u)"
  shows "\<exists>names st. fs_listing fs = Names names \<and> en_name e \<in> set names \<and> fs_lstat fs (en_name e) = Stat st \<and>
    fs_file st \<and> \<not> fs_link st \<and> is_retention_entry (en_name e) \<and> e = entry_of now (lifetime_of ttl) (en_name e) st"
proof -
  from usage_entries [OF assms(1)] assms(2) obtain names where names: "fs_listing fs = Names names"
    "e \<in> set (entries_of fs now (lifetime_of ttl) names)"
    by (cases "fs_listing fs") auto
  from names(2) obtain n st where n: "n \<in> set names" "fs_lstat fs n = Stat st" "fs_file st" "\<not> fs_link st"
    "is_retention_entry n" "e = entry_of now (lifetime_of ttl) n st" unfolding in_entries_of by blast
  then have "en_name e = n" by (simp add: entry_of_def Let_def)
  with n names(1) show ?thesis by (intro exI [of _ names] exI [of _ st]) simp
qed

lemma key_not_expirable: "\<not> is_expirable RETENTION_KEY_NAME"
  by (simp add: is_expirable_def result_file_def stage_file_def RETENTION_KEY_NAME_def)

lemma lifetime_idem [simp]: "lifetime_of (Some (lifetime_of ttl)) = lifetime_of ttl"
  by (simp add: lifetime_of_def split: option.split)

lemma purge_gone:
  assumes "purge_retained_tool_results fs root dry now = (r, gone)" and "p \<in> set gone"
  obtains u e where "\<not> dry" "retained_tool_results_usage fs root now (Some 0) = Inr u" "e \<in> set (us_entries u)"
    "retention_entry_path root (en_name e) = Inr p"
proof (cases "retained_tool_results_usage fs root now (Some 0)")
  case (Inr u)
  have "us_path u = root" using usage_entries [OF Inr] by simp
  with assms Inr have "remove_entries fs root (us_entries u) (purge_start dry u) = (r, gone)"
    by (auto simp: purge_retained_tool_results_def Let_def split: if_splits)
  from remove_entries_gone [OF this assms(2)] Inr that show thesis by (auto simp: purge_start_def)
qed (use assms in \<open>simp add: purge_retained_tool_results_def\<close>)

lemma expire_gone:
  assumes "expire_retained_tool_results fs root ttl dry now = (r, gone)" and "p \<in> set gone"
  obtains u e where "\<not> dry" "retained_tool_results_usage fs root now (Some (lifetime_of ttl)) = Inr u" "e \<in> set (us_entries u)"
    "en_expired e" "retention_entry_path root (en_name e) = Inr p"
proof (cases "retained_tool_results_usage fs root now (Some (lifetime_of ttl))")
  case (Inr u)
  have "us_path u = root" using usage_entries [OF Inr] by simp
  with assms Inr have "remove_entries fs root (filter en_expired (us_entries u)) (expire_start dry (lifetime_of ttl) u) = (r, gone)"
    by (auto simp: expire_retained_tool_results_def Let_def split: if_splits)
  from remove_entries_gone [OF this assms(2)] Inr that show thesis
    by (auto simp: expire_start_def purge_start_def purge_summary.defs expire_summary.defs)
qed (use assms in \<open>simp add: expire_retained_tool_results_def Let_def\<close>)

section \<open>Properties\<close>

text \<open>C14: 
  Whatever the file system answers: a purge or an expiry removes only files directly inside the
  store, listed there, regular and no symbolic links, with a name retention writes; a dry run
  removes nothing; an expiry never removes the key, and only what is older than a positive
  lifetime.
\<close>

theorem removal_is_contained:
  "(\<forall>p \<in> set (snd (purge_retained_tool_results fs root dry now)).
      \<not> dry \<and> dir_name p = root \<and> is_retention_entry (base_name p) \<and>
      (\<exists>names st. fs_listing fs = Names names \<and> base_name p \<in> set names \<and>
        fs_lstat fs (base_name p) = Stat st \<and> fs_file st \<and> \<not> fs_link st)) \<and>
   (\<forall>p \<in> set (snd (expire_retained_tool_results fs root ttl dry now)).
      \<not> dry \<and> dir_name p = root \<and> is_retention_entry (base_name p) \<and> base_name p \<noteq> RETENTION_KEY_NAME \<and>
      (\<exists>names st. fs_listing fs = Names names \<and> base_name p \<in> set names \<and>
        fs_lstat fs (base_name p) = Stat st \<and> fs_file st \<and> \<not> fs_link st \<and>
        0 < lifetime_of ttl \<and> lifetime_of ttl < now - fs_mtime st))"
proof (intro conjI ballI)
  fix p assume "p \<in> set (snd (purge_retained_tool_results fs root dry now))"
  then obtain u e where e: "\<not> dry" "retained_tool_results_usage fs root now (Some 0) = Inr u" "e \<in> set (us_entries u)"
    "retention_entry_path root (en_name e) = Inr p" using purge_gone by (metis surjective_pairing)
  from usage_entry [OF e(2,3)] entry_path_parts [OF e(4)] e(1)
  show "\<not> dry" "dir_name p = root" "is_retention_entry (base_name p)" "\<exists>names st. fs_listing fs = Names names \<and>
      base_name p \<in> set names \<and> fs_lstat fs (base_name p) = Stat st \<and> fs_file st \<and> \<not> fs_link st" by auto
next
  fix p assume "p \<in> set (snd (expire_retained_tool_results fs root ttl dry now))"
  then obtain u e where e: "\<not> dry" "retained_tool_results_usage fs root now (Some (lifetime_of ttl)) = Inr u"
    "e \<in> set (us_entries u)" "en_expired e" "retention_entry_path root (en_name e) = Inr p"
    using expire_gone by (metis surjective_pairing)
  note p = entry_path_parts [OF e(5)]
  from usage_entry [OF e(2,3)] obtain names st where n: "fs_listing fs = Names names" "en_name e \<in> set names"
    "fs_lstat fs (en_name e) = Stat st" "fs_file st" "\<not> fs_link st" "is_retention_entry (en_name e)"
    "e = entry_of now (lifetime_of ttl) (en_name e) st" by auto
  have x: "0 < lifetime_of ttl" "is_expirable (en_name e)" "lifetime_of ttl < now - fs_mtime st"
  proof -
    have "en_expired (entry_of now (lifetime_of ttl) (en_name e) st)" using e(4) n(7) by simp
    then show "0 < lifetime_of ttl" "is_expirable (en_name e)" "lifetime_of ttl < now - fs_mtime st"
      by (auto simp: entry_of_def Let_def)
  qed
  have "en_name e \<noteq> RETENTION_KEY_NAME" using x(2) key_not_expirable by metis
  with p n e(1) x show "\<not> dry" "dir_name p = root" "is_retention_entry (base_name p)" "base_name p \<noteq> RETENTION_KEY_NAME"
    "\<exists>names st. fs_listing fs = Names names \<and> base_name p \<in> set names \<and> fs_lstat fs (base_name p) = Stat st \<and>
      fs_file st \<and> \<not> fs_link st \<and> 0 < lifetime_of ttl \<and> lifetime_of ttl < now - fs_mtime st" by auto
qed


text \<open>The directory after the removal of the given paths.\<close>

definition after_removal :: "string \<Rightarrow> string list \<Rightarrow> file_system \<Rightarrow> file_system" where
  "after_removal root gone fs =
     (case fs_listing fs of
        Names names \<Rightarrow> fs\<lparr>fs_listing := Names (filter (\<lambda>n. resolve_child root n \<notin> set gone) names)\<rparr>
      | _ \<Rightarrow> fs)"

lemma entries_of_filter:
  assumes "fs_lstat fs' = fs_lstat fs"
    and "\<And>e. e \<in> set (entries_of fs now l names) \<Longrightarrow> p (en_name e) \<longleftrightarrow> q e"
  shows "entries_of fs' now l (filter p names) = filter q (entries_of fs now l names)"
  using assms(2)
proof (induction names)
  case (Cons n names)
  have ih: "entries_of fs' now l (filter p names) = filter q (entries_of fs now l names)"
    using Cons.IH Cons.prems by (simp add: entries_of_Cons)
  show ?case
  proof (cases "\<exists>st. fs_lstat fs n = Stat st \<and> fs_file st \<and> \<not> fs_link st \<and> is_retention_entry n")
    case True
    then obtain st where st: "fs_lstat fs n = Stat st" "fs_file st" "\<not> fs_link st" "is_retention_entry n" by blast
    have "p n \<longleftrightarrow> q (entry_of now l n st)"
      using Cons.prems [of "entry_of now l n st"] st by (simp add: entries_of_Cons entry_of_def Let_def)
    then show ?thesis using ih st assms(1) by (simp add: entries_of_Cons)
  next
    case False
    then have "entries_of fs now l (n # xs) = entries_of fs now l xs"
      "entries_of fs' now l (n # xs) = entries_of fs' now l xs" for xs
      using assms(1) by (auto simp: entries_of_Cons split: stat_answer.splits)
    then show ?thesis using ih by simp
  qed
qed (simp add: entries_of_def)

definition sound_names :: "file_system \<Rightarrow> bool" where
  "sound_names fs \<longleftrightarrow> (case fs_listing fs of Names names \<Rightarrow> \<forall>n \<in> set names. CHR 0x00 \<notin> set n | _ \<Rightarrow> True)"

lemma usage_reachable:
  assumes "resolved_dir root" "sound_names fs" "retained_tool_results_usage fs root now ttl = Inr u" "e \<in> set (us_entries u)"
  shows "reachable_entry root e"
  using usage_entry [OF assms(3,4)] entry_reachable [OF assms(1)] assms(2) by (auto simp: sound_names_def)

text \<open>
  When every removal succeeds, an expiry removes exactly the expired entries, reports their number
  and size, and leaves a store in which, at the same time and lifetime, nothing is expired and
  every other entry is still there.
\<close>

theorem expiry_leaves_the_rest:
  assumes root: "resolved_dir root" and names: "sound_names fs" and works: "\<forall>p. fs_unlink fs p = Unlinked"
    and before: "retained_tool_results_usage fs root now ttl = Inr u"
    and run: "expire_retained_tool_results fs root ttl False now = (Inr s, gone)"
    and later: "retained_tool_results_usage (after_removal root gone fs) root now ttl = Inr v"
  shows "ps_removed s = us_expired u \<and> ps_reclaimed s = us_expired_bytes u \<and> ps_failed s = [] \<and>
    us_expired v = 0 \<and> us_entries v = filter (\<lambda>e. \<not> en_expired e) (us_entries u) \<and>
    gone = map (\<lambda>e. resolve_child root (en_name e)) (filter en_expired (us_entries u))"
proof -
  let ?l = "lifetime_of ttl" and ?x = "filter en_expired (us_entries u)"
  have same: "retained_tool_results_usage fs root now (Some ?l) = Inr u"
    using before by (simp add: retained_tool_results_usage_def Let_def)
  note ue = usage_entries [OF before]
  have count: "us_expired u = length ?x" "us_expired_bytes u = sum_list (map en_bytes ?x)"
    using ue by (simp_all add: counts_hold_def)
  have start: "\<not> ps_dry (expire_start False ?l u)" "ps_removed (expire_start False ?l u) = 0"
    "ps_reclaimed (expire_start False ?l u) = 0" "ps_failed (expire_start False ?l u) = []"
    by (simp_all add: expire_start_def purge_start_def purge_summary.defs)
  have reach: "\<forall>e \<in> set ?x. reachable_entry root e" using usage_reachable [OF root names before] by simp
  have out: "ps_removed s = length ?x \<and> ps_reclaimed s = sum_list (map en_bytes ?x) \<and> ps_failed s = [] \<and>
      gone = map (\<lambda>e. resolve_child root (en_name e)) ?x"
  proof (cases "\<not> us_exists u \<or> ?l = 0 \<or> us_expired u = 0")
    case True
    have "?x = []"
    proof (cases "us_expired u = 0")
      case False
      have "us_exists u \<or> us_entries u = []"
        using before by (auto simp: retained_tool_results_usage_def empty_usage_def Let_def split: listing.splits sum.splits)
      moreover have "\<not> en_expired e" if "?l = 0" "e \<in> set (us_entries u)" for e
      proof -
        from usage_entry [OF before that(2)] obtain st where "e = entry_of now ?l (en_name e) st" by blast
        then have "en_expired e = en_expired (entry_of now ?l (en_name e) st)" by simp
        with that(1) show ?thesis by (simp add: entry_of_def Let_def)
      qed
      ultimately show ?thesis using True False by auto
    qed (use count in simp)
    with run same True start show ?thesis by (auto simp: expire_retained_tool_results_def Let_def)
  next
    case False
    then have "remove_entries fs root ?x (expire_start False ?l u) = (Inr s, gone)"
      using run same ue by (auto simp: expire_retained_tool_results_def Let_def)
    with remove_entries_real [OF start(1) reach works] start show ?thesis by auto
  qed
  have gone: "resolve_child root (en_name e) \<in> set gone \<longleftrightarrow> en_expired e" if e: "e \<in> set (us_entries u)" for e
  proof
    assume "resolve_child root (en_name e) \<in> set gone"
    then obtain f where f: "f \<in> set (us_entries u)" "en_expired f" "en_name f = en_name e"
      using out resolve_child_inject by fastforce
    from usage_entry [OF before e] usage_entry [OF before f(1)] f(3) have "e = f"
      by (metis stat_answer.inject(1))
    with f(2) show "en_expired e" by simp
  qed (use out e in auto)
  have rest: "us_entries v = filter (\<lambda>e. \<not> en_expired e) (us_entries u)"
  proof (cases "fs_listing fs")
    case (Names ns)
    let ?f = "after_removal root gone fs"
    have f: "fs_listing ?f = Names (filter (\<lambda>n. resolve_child root n \<notin> set gone) ns)" "fs_lstat ?f = fs_lstat fs"
      using Names by (simp_all add: after_removal_def)
    have u: "us_entries u = entries_of fs now ?l ns" using ue Names by simp
    have "entries_of ?f now ?l (filter (\<lambda>n. resolve_child root n \<notin> set gone) ns) = filter (\<lambda>e. \<not> en_expired e) (us_entries u)"
      unfolding u by (rule entries_of_filter [OF f(2)]) (use gone u in simp)
    with usage_entries [OF later] f(1) show ?thesis by simp
  qed (use usage_entries [OF later] ue in \<open>auto simp: after_removal_def\<close>)
  have "us_expired v = 0" using usage_entries [OF later] rest by (simp add: counts_hold_def)
  with out count rest show ?thesis by simp
qed

text \<open>
  A dry run predicts the real one: it removes nothing, and when every removal succeeds the real
  run ends with the same summary, for a purge and for an expiry.
\<close>

theorem dry_run_predicts:
  assumes root: "resolved_dir root" and names: "sound_names fs" and works: "\<forall>p. fs_unlink fs p = Unlinked"
  shows "snd (purge_retained_tool_results fs root True now) = [] \<and>
    map_sum id (ps_dry_update (\<lambda>_. False)) (fst (purge_retained_tool_results fs root True now)) =
      fst (purge_retained_tool_results fs root False now) \<and>
    snd (expire_retained_tool_results fs root ttl True now) = [] \<and>
    map_sum id (ps_dry_update (\<lambda>_. False)) (fst (expire_retained_tool_results fs root ttl True now)) =
      fst (expire_retained_tool_results fs root ttl False now)"
proof (intro conjI)
  have purge: "snd (purge_retained_tool_results fs root True now) = [] \<and>
    map_sum id (ps_dry_update (\<lambda>_. False)) (fst (purge_retained_tool_results fs root True now)) =
      fst (purge_retained_tool_results fs root False now)"
  proof (cases "retained_tool_results_usage fs root now (Some 0)")
    case (Inr u)
    have reach: "\<forall>e \<in> set (us_entries u). reachable_entry root e" using usage_reachable [OF root names Inr] by blast
    have path: "us_path u = root" using usage_entries [OF Inr] by blast
    have s: "ps_dry (purge_start True u)" "\<not> ps_dry (purge_start False u)"
      "(purge_start True u)\<lparr>ps_dry := False\<rparr> = purge_start False u" by (simp_all add: purge_start_def)
    have t: "(purge_start True u)\<lparr>ps_removed := a, ps_reclaimed := b, ps_dry := False\<rparr> =
        (purge_start False u)\<lparr>ps_removed := a, ps_reclaimed := b\<rparr>" for a b
      by (simp add: purge_start_def)
    have z: "ps_removed (purge_start d u) = 0" "ps_reclaimed (purge_start d u) = 0" for d
      by (simp_all add: purge_start_def)
    show ?thesis using Inr path remove_entries_dry [OF s(1) reach, of fs] remove_entries_real [OF s(2) reach works] z
      by (simp add: purge_retained_tool_results_def Let_def s(3) t)
  qed (simp add: purge_retained_tool_results_def)
  then show "snd (purge_retained_tool_results fs root True now) = []"
    "map_sum id (ps_dry_update (\<lambda>_. False)) (fst (purge_retained_tool_results fs root True now)) =
      fst (purge_retained_tool_results fs root False now)" by blast+
  have expire: "snd (expire_retained_tool_results fs root ttl True now) = [] \<and>
    map_sum id (ps_dry_update (\<lambda>_. False)) (fst (expire_retained_tool_results fs root ttl True now)) =
      fst (expire_retained_tool_results fs root ttl False now)"
  proof (cases "retained_tool_results_usage fs root now (Some (lifetime_of ttl))")
    case (Inr u)
    let ?x = "filter en_expired (us_entries u)"
    have reach: "\<forall>e \<in> set ?x. reachable_entry root e" using usage_reachable [OF root names Inr] by simp
    have s: "ps_dry (expire_start True l u)" "\<not> ps_dry (expire_start False l u)"
      "(expire_start True l u)\<lparr>ps_dry := False\<rparr> = expire_start False l u" for l
      by (simp_all add: expire_start_def purge_start_def purge_summary.defs)
    have t: "(expire_start True l u)\<lparr>ps_removed := a, ps_reclaimed := b, ps_dry := False\<rparr> =
        (expire_start False l u)\<lparr>ps_removed := a, ps_reclaimed := b\<rparr>" for l a b
      by (simp add: expire_start_def purge_start_def purge_summary.defs)
    have z: "ps_removed (expire_start d l u) = 0" "ps_reclaimed (expire_start d l u) = 0" for d l
      by (simp_all add: expire_start_def purge_start_def purge_summary.defs)
    have path: "us_path u = root" using usage_entries [OF Inr] by blast
    show ?thesis using Inr path remove_entries_dry [OF s(1) reach, of fs "lifetime_of ttl"]
        remove_entries_real [OF s(2) reach works, of "lifetime_of ttl"] z
      by (simp add: expire_retained_tool_results_def Let_def s(3) t)
  qed (simp add: expire_retained_tool_results_def Let_def)
  then show "snd (expire_retained_tool_results fs root ttl True now) = []"
    "map_sum id (ps_dry_update (\<lambda>_. False)) (fst (expire_retained_tool_results fs root ttl True now)) =
      fst (expire_retained_tool_results fs root ttl False now)" by blast+
qed


text \<open>A store with the key, an old result, a fresh one, somebody's file and a link.\<close>

definition sample_result :: "char \<Rightarrow> string" where "sample_result c = replicate 43 c @ ''.result''"

definition sample_store :: file_system where
  "sample_store =
     \<lparr>fs_listing = Names [RETENTION_KEY_NAME, sample_result CHR ''a'', sample_result CHR ''b'', ''notes.txt'', sample_result CHR ''c''],
      fs_lstat = (\<lambda>n. Stat \<lparr>fs_file = True, fs_link = (n = sample_result CHR ''c''), fs_size = 10,
        fs_mtime = (if n = sample_result CHR ''b'' then 90 else 0)\<rparr>),
      fs_unlink = (\<lambda>_. Unlinked)\<rparr>"

lemma sample_store_usage:
  "resolved_dir ''/s''" "sound_names sample_store"
  "case retained_tool_results_usage sample_store ''/s'' 100 (Some 50) of Inl _ \<Rightarrow> False
   | Inr u \<Rightarrow> us_expired u = 1 \<and> us_expired_bytes u = 10 \<and>
       map en_name (us_entries u) = [RETENTION_KEY_NAME, sample_result CHR ''a'', sample_result CHR ''b'']"
  by (simp_all add: resolved_dir_def) code_simp+

theorem expiry_leaves_the_rest_witness:
  "\<exists>s v. expire_retained_tool_results sample_store ''/s'' (Some 50) False 100 = (Inr s, [''/s/'' @ sample_result CHR ''a'']) \<and>
     ps_removed s = 1 \<and> us_expired v = 0 \<and>
     retained_tool_results_usage (after_removal ''/s'' [''/s/'' @ sample_result CHR ''a''] sample_store) ''/s'' 100 (Some 50) = Inr v"
proof -
  let ?run = "expire_retained_tool_results sample_store ''/s'' (Some 50) False 100"
  have gone: "snd ?run = [''/s/'' @ sample_result CHR ''a'']" and ok: "isl (fst ?run) = False" by code_simp+
  then obtain s where run: "?run = (Inr s, [''/s/'' @ sample_result CHR ''a''])"
    by (metis prod.collapse sum.collapse(2))
  obtain u where u: "retained_tool_results_usage sample_store ''/s'' 100 (Some 50) = Inr u" "us_expired u = 1"
    using sample_store_usage(3) by (auto split: sum.splits)
  have "isl (retained_tool_results_usage (after_removal ''/s'' [''/s/'' @ sample_result CHR ''a''] sample_store) ''/s'' 100 (Some 50)) = False"
    by code_simp
  then obtain v where v: "retained_tool_results_usage (after_removal ''/s'' [''/s/'' @ sample_result CHR ''a''] sample_store) ''/s'' 100 (Some 50) = Inr v"
    by (metis sum.collapse(2))
  have works: "\<forall>p. fs_unlink sample_store p = Unlinked" by (simp add: sample_store_def)
  from expiry_leaves_the_rest [OF sample_store_usage(1,2) works u(1) run v] u(2) run v show ?thesis
    by (intro exI [of _ s] exI [of _ v]) simp
qed

theorem dry_run_predicts_witness:
  "snd (purge_retained_tool_results sample_store ''/s'' True 100) = []"
proof -
  have works: "\<forall>p. fs_unlink sample_store p = Unlinked" by (simp add: sample_store_def)
  from dry_run_predicts [OF sample_store_usage(1,2) works, of 100 "Some 50"] show ?thesis by blast
qed

theorem removal_is_contained_witness:
  "''/s/'' @ sample_result CHR ''a'' \<in> set (snd (expire_retained_tool_results sample_store ''/s'' (Some 50) False 100)) \<and>
   dir_name (''/s/'' @ sample_result CHR ''a'') = ''/s''"
proof -
  have "''/s/'' @ sample_result CHR ''a'' \<in> set (snd (expire_retained_tool_results sample_store ''/s'' (Some 50) False 100))"
    by code_simp
  with removal_is_contained [of sample_store "''/s''" False 100 "Some 50"] show ?thesis by blast
qed

end
