(* ===== verification/Ws_Headers.thy ===== *)
theory Ws_Headers
  imports Complex_Main Ws_Frames Caller_Auth Json_Laws
begin

text \<open>
  The headers and the handshake of the Responses WebSocket, \<open>src/router/src/responses-websocket.mjs\<close>:
  which headers a turn sends to the router's own HTTP endpoint, and when an upgrade is accepted.
  Headers arrive as Node gives them, with lower-case names; \<open>new URL\<close> is applied outside and
  SHA-1 is a parameter.
\<close>

definition RESPONSES_WEBSOCKET_BETA :: string where
  "RESPONSES_WEBSOCKET_BETA = ''responses_websockets=2026-02-06''"
definition RESPONSE_ROUTES :: "string list" where
  "RESPONSE_ROUTES = [''/responses'', ''/v1/responses'']"

definition FORWARDED_REQUEST_HEADERS :: "string list" where
  "FORWARDED_REQUEST_HEADERS =
    [''authorization'', ''chatgpt-account-id'', ''openai-beta'', ''originator'', ''session_id'', ''session-id'',
     ''thread-id'', ''traceparent'', ''tracestate'', ''user-agent'', ''version'', ''x-client-request-id'',
     ''x-codex-beta-features'', ''x-codex-installation-id'', ''x-codex-parent-thread-id'',
     ''x-codex-turn-metadata'', ''x-codex-turn-state'', ''x-codex-window-id'', ''x-oai-attestation'',
     ''x-openai-internal-codex-responses-lite'', ''x-openai-subagent'', ''x-responsesapi-include-timing-metrics'']"

definition WS_ONLY_CLIENT_METADATA_KEYS :: "string list" where
  "WS_ONLY_CLIENT_METADATA_KEYS =
    [''ws_request_header_traceparent'', ''ws_request_header_tracestate'',
     ''ws_request_header_x_openai_internal_codex_responses_lite'', ''x-codex-ws-stream-request-start-ms'']"

definition PER_REQUEST_IDENTITY_HEADERS :: "string list" where
  "PER_REQUEST_IDENTITY_HEADERS =
    [''session_id'', ''session-id'', ''thread-id'', ''traceparent'', ''tracestate'', ''x-client-request-id'',
     ''x-codex-installation-id'', ''x-codex-parent-thread-id'', ''x-codex-turn-metadata'',
     ''x-codex-turn-state'', ''x-codex-window-id'', ''x-openai-internal-codex-responses-lite'',
     ''x-openai-subagent'']"

definition MAX_TURN_METADATA_HEADER_BYTES :: nat where "MAX_TURN_METADATA_HEADER_BYTES = 8 * 1024"

text \<open>A value of \<open>request.headers\<close>, and \<open>String(value)\<close> of it.\<close>

datatype hval = One string | Many "string list"

type_synonym req_headers = "(string \<times> hval) list"
type_synonym headers = "(string \<times> string) list"

fun js_text :: "hval \<Rightarrow> string" where
  "js_text (One s) = s"
| "js_text (Many vs) = join '','' vs"

definition text_of :: "hval option \<Rightarrow> string" where
  "text_of v = (case v of None \<Rightarrow> [] | Some h \<Rightarrow> js_text h)"

fun joined :: "hval \<Rightarrow> string" where
  "joined (One s) = s"
| "joined (Many vs) = join '', '' vs"

section \<open>The metadata of a request\<close>

text \<open>\<open>split(/[ \t]+/)\<close>\<close>

definition is_blank :: "char \<Rightarrow> bool" where "is_blank c \<longleftrightarrow> c = CHR 0x20 \<or> c = CHR 0x09"

function split_blanks :: "string \<Rightarrow> string list" where
  "split_blanks s =
     (let w = takeWhile (\<lambda>c. \<not> is_blank c) s; r = dropWhile (\<lambda>c. \<not> is_blank c) s
      in if r = [] then [w] else w # split_blanks (dropWhile is_blank r))"
  by pat_completeness auto
termination
proof (relation "measure length", goal_cases)
  case (2 s w r)
  have r: "r = dropWhile (\<lambda>c. \<not> is_blank c) s" "r \<noteq> []" using 2 by simp_all
  then have "is_blank (hd r)" using hd_dropWhile by blast
  moreover obtain c r' where "r = c # r'" using r(2) by (meson neq_Nil_conv)
  ultimately have "length (dropWhile is_blank r) < length r" by (simp add: length_dropWhile_le less_Suc_eq_le)
  also have "\<dots> \<le> length s" using r(1) by (simp add: length_dropWhile_le)
  finally show ?case by simp
qed simp

declare split_blanks.simps [simp del]

definition is_caller_authorization :: "hval \<Rightarrow> string \<Rightarrow> bool" where
  "is_caller_authorization v key =
     (case v of Many _ \<Rightarrow> False
      | One s \<Rightarrow>
         (case split_blanks (trim s) of
            [scheme, token] \<Rightarrow> to_lower scheme = ''bearer'' \<and> secret_equal token key
          | _ \<Rightarrow> False))"

definition safe_header_value :: "json option \<Rightarrow> string option" where
  "safe_header_value v =
     (case as_str v of Some s \<Rightarrow> if CR \<notin> set s \<and> LF \<notin> set s then Some s else None | None \<Rightarrow> None)"

definition metadata_object :: "json option \<Rightarrow> (string \<times> json) list option" where
  "metadata_object v = (case v of Some (JObj kvs) \<Rightarrow> Some kvs | _ \<Rightarrow> None)"

definition canonical_client_metadata :: "json option \<Rightarrow> json option" where
  "canonical_client_metadata v =
     (case metadata_object v of None \<Rightarrow> v
      | Some kvs \<Rightarrow>
         (let canonical = foldl (\<lambda>m name. AList.delete name m) kvs WS_ONLY_CLIENT_METADATA_KEYS
          in if canonical = [] then None else Some (JObj canonical)))"

text \<open>\<open>replace(/[\u007f-\uffff]/g, ...)\<close>: every code unit above \<open>~\<close> becomes its escape, a character
  beyond the basic plane two of them.\<close>

definition code_value :: "bytes \<Rightarrow> nat" where
  "code_value s =
     (if seq_len s = 2 then (byte_of (s ! 0) - 0xC0) * 64 + (byte_of (s ! 1) - 0x80)
      else if seq_len s = 3
        then (byte_of (s ! 0) - 0xE0) * 4096 + (byte_of (s ! 1) - 0x80) * 64 + (byte_of (s ! 2) - 0x80)
      else if seq_len s = 4
        then (byte_of (s ! 0) - 0xF0) * 262144 + (byte_of (s ! 1) - 0x80) * 4096 +
             (byte_of (s ! 2) - 0x80) * 64 + (byte_of (s ! 3) - 0x80)
      else byte_of (hd s))"

definition u_escapes :: "nat \<Rightarrow> string" where
  "u_escapes n =
     (if n < 0x10000 then u_escape n
      else u_escape (0xD800 + (n - 0x10000) div 1024) @ u_escape (0xDC00 + (n - 0x10000) mod 1024))"

function escape_high :: "string \<Rightarrow> string" where
  "escape_high s =
     (if s = [] then []
      else if hd s < CHR 0x7F then hd s # escape_high (drop 1 s)
      else u_escapes (code_value s) @ escape_high (drop (max 1 (seq_len s)) s))"
  by pat_completeness auto
termination
  by (relation "measure length") auto

declare escape_high.simps [simp del]

definition compatibility_turn_metadata_header :: "json option \<Rightarrow> string option" where
  "compatibility_turn_metadata_header v =
     (case safe_header_value v of None \<Rightarrow> None
      | Some encoded \<Rightarrow>
         (case metadata_object (json_parse encoded) of None \<Rightarrow> None
          | Some metadata \<Rightarrow>
             (let header = escape_high (json_stringify (JObj (AList.delete ''tool_namespaces_info'' metadata)))
              in if length header \<le> MAX_TURN_METADATA_HEADER_BYTES then Some header else None)))"

definition METADATA_PROJECTIONS :: "(string \<times> string list) list" where
  "METADATA_PROJECTIONS =
    [(''session_id'', [''session-id'']),
     (''thread_id'', [''thread-id'', ''x-client-request-id'']),
     (''traceparent'', [''traceparent'']),
     (''tracestate'', [''tracestate'']),
     (''x-codex-installation-id'', [''x-codex-installation-id'']),
     (''x-codex-parent-thread-id'', [''x-codex-parent-thread-id'']),
     (''x-codex-turn-metadata'', [''x-codex-turn-metadata'']),
     (''x-codex-turn-state'', [''x-codex-turn-state'']),
     (''x-codex-window-id'', [''x-codex-window-id'']),
     (''x-openai-subagent'', [''x-openai-subagent'']),
     (''ws_request_header_traceparent'', [''traceparent'']),
     (''ws_request_header_tracestate'', [''tracestate'']),
     (''ws_request_header_x_openai_internal_codex_responses_lite'', [''x-openai-internal-codex-responses-lite''])]"

definition projected_value :: "(string \<times> json) list \<Rightarrow> string \<Rightarrow> string option" where
  "projected_value metadata name =
     (if name = ''x-codex-turn-metadata'' then compatibility_turn_metadata_header (map_of metadata name)
      else safe_header_value (map_of metadata name))"

definition set_all :: "string list \<Rightarrow> string \<Rightarrow> headers \<Rightarrow> headers" where
  "set_all names v hs = foldl (\<lambda>m n. AList.update n v m) hs names"

definition metadata_header_projections :: "json option \<Rightarrow> headers" where
  "metadata_header_projections v =
     (case metadata_object v of None \<Rightarrow> []
      | Some metadata \<Rightarrow>
         foldl (\<lambda>m (name, targets).
            case projected_value metadata name of None \<Rightarrow> m | Some x \<Rightarrow> set_all targets x m)
          [] METADATA_PROJECTIONS)"

definition metadata_turn_id :: "json option \<Rightarrow> string option" where
  "metadata_turn_id v =
     (case metadata_object v of None \<Rightarrow> None
      | Some metadata \<Rightarrow>
         (case as_str (map_of metadata ''x-codex-turn-metadata'') of None \<Rightarrow> None
          | Some encoded \<Rightarrow>
             (case as_str (opt_get (json_parse encoded) ''turn_id'') of
                Some t \<Rightarrow> if t = [] then None else Some t | None \<Rightarrow> None)))"

section \<open>The headers of the internal request\<close>

definition beta_tokens :: "string \<Rightarrow> string list" where
  "beta_tokens v = filter (\<lambda>t. t \<noteq> [] \<and> t \<noteq> RESPONSES_WEBSOCKET_BETA) (map trim (split_at_char (CHR '','') v))"

definition forwarded_value :: "string \<Rightarrow> string \<Rightarrow> hval \<Rightarrow> string option" where
  "forwarded_value key name v =
     (if name = ''authorization'' \<and> is_caller_authorization v key then None
      else if name = ''openai-beta'' then
        (let w = join '', '' (beta_tokens (js_text v)) in if w = [] then None else Some w)
      else Some (joined v))"

definition forward_headers :: "req_headers \<Rightarrow> string \<Rightarrow> headers" where
  "forward_headers req key =
     foldl (\<lambda>m name.
        case map_of req name of None \<Rightarrow> m
        | Some v \<Rightarrow> (case forwarded_value key name v of None \<Rightarrow> m | Some w \<Rightarrow> AList.update name w m))
      [(''accept'', ''text/event-stream''), (''content-type'', ''application/json'')] FORWARDED_REQUEST_HEADERS"

definition stored_turn_state :: "turn_state option \<Rightarrow> string option \<Rightarrow> string option" where
  "stored_turn_state ts current =
     (case ts of None \<Rightarrow> None
      | Some t \<Rightarrow> if current = None \<or> ts_turn_id t = None \<or> current = ts_turn_id t then Some (ts_value t) else None)"

definition with_metadata :: "headers \<Rightarrow> json option \<Rightarrow> headers" where
  "with_metadata hs metadata =
     foldl (\<lambda>m (n, v). AList.update n v m)
       (foldl (\<lambda>m n. AList.delete n m) hs PER_REQUEST_IDENTITY_HEADERS) (metadata_header_projections metadata)"

definition with_turn_state :: "headers \<Rightarrow> string option \<Rightarrow> headers" where
  "with_turn_state hs stored =
     (if map_of hs ''x-codex-turn-state'' \<in> {None, Some []} \<and> stored \<notin> {None, Some []}
      then AList.update ''x-codex-turn-state'' (the stored) hs else hs)"

definition loopback_headers ::
  "req_headers \<Rightarrow> string \<Rightarrow> json option \<Rightarrow> turn_state option \<Rightarrow> json option \<Rightarrow> headers" where
  "loopback_headers req key metadata ts internal =
     (let hs = with_turn_state (with_metadata (forward_headers req key) metadata)
                 (stored_turn_state ts (metadata_turn_id metadata))
      in case safe_header_value internal of
           Some auth \<Rightarrow> if auth = [] then hs else AList.update ''authorization'' auth hs
         | None \<Rightarrow> hs)"

section \<open>The handshake\<close>

definition header_tokens :: "hval option \<Rightarrow> string list" where
  "header_tokens v = filter (\<lambda>t. t \<noteq> []) (map (\<lambda>t. to_lower (trim t)) (split_at_char (CHR '','') (text_of v)))"

definition request_has_beta :: "req_headers \<Rightarrow> bool" where
  "request_has_beta req \<longleftrightarrow>
     RESPONSES_WEBSOCKET_BETA \<in> set (map trim (split_at_char (CHR '','') (text_of (map_of req ''openai-beta''))))"

text \<open>Base64, as \<open>Buffer\<close> reads and prints it.\<close>

definition b64_value :: "char \<Rightarrow> nat option" where
  "b64_value c =
     (if CHR ''A'' \<le> c \<and> c \<le> CHR ''Z'' then Some (byte_of c - 65)
      else if CHR ''a'' \<le> c \<and> c \<le> CHR ''z'' then Some (byte_of c - 71)
      else if CHR ''0'' \<le> c \<and> c \<le> CHR ''9'' then Some (byte_of c + 4)
      else if c = CHR ''+'' then Some 62 else if c = CHR ''/'' then Some 63 else None)"

definition b64_char :: "nat \<Rightarrow> char" where
  "b64_char n =
     (if n < 26 then char_of (65 + n) else if n < 52 then char_of (71 + n)
      else if n < 62 then char_of (n - 4) else if n = 62 then CHR ''+'' else CHR ''/'')"

fun sextets_bytes :: "nat list \<Rightarrow> bytes" where
  "sextets_bytes (a # b # c # d # r) =
     char_of (a * 4 + b div 16) # char_of (b mod 16 * 16 + c div 4) # char_of (c mod 4 * 64 + d) # sextets_bytes r"
| "sextets_bytes [a, b, c] = [char_of (a * 4 + b div 16), char_of (b mod 16 * 16 + c div 4)]"
| "sextets_bytes [a, b] = [char_of (a * 4 + b div 16)]"
| "sextets_bytes _ = []"

definition base64_decode :: "string \<Rightarrow> bytes" where
  "base64_decode s = sextets_bytes (map (the \<circ> b64_value) (takeWhile (\<lambda>c. b64_value c \<noteq> None) s))"

fun base64_encode :: "bytes \<Rightarrow> string" where
  "base64_encode [] = []"
| "base64_encode [a] = [b64_char (byte_of a div 4), b64_char (byte_of a mod 4 * 16), CHR ''='', CHR ''='']"
| "base64_encode [a, b] =
     [b64_char (byte_of a div 4), b64_char (byte_of a mod 4 * 16 + byte_of b div 16),
      b64_char (byte_of b mod 16 * 4), CHR ''='']"
| "base64_encode (a # b # c # r) =
     b64_char (byte_of a div 4) # b64_char (byte_of a mod 4 * 16 + byte_of b div 16) #
     b64_char (byte_of b mod 16 * 4 + byte_of c div 64) # b64_char (byte_of c mod 64) # base64_encode r"

definition valid_web_socket_key :: "hval option \<Rightarrow> bool" where
  "valid_web_socket_key v =
     (case v of
        Some (One s) \<Rightarrow>
          length s = 24 \<and> (\<forall>c \<in> set (take 22 s). b64_value c \<noteq> None) \<and> drop 22 s = ''=='' \<and>
          length (base64_decode s) = 16 \<and> base64_encode (base64_decode s) = s
      | _ \<Rightarrow> False)"

definition crlf_lines :: "string list \<Rightarrow> string" where
  "crlf_lines = join [CR, LF]"

definition status_reason :: "nat \<Rightarrow> string" where
  "status_reason status =
     (case map_of [(400, ''Bad Request''), (401, ''Unauthorized''), (403, ''Forbidden''), (404, ''Not Found''),
                   (426, ''Upgrade Required'')] status of Some r \<Rightarrow> r | None \<Rightarrow> ''Error'')"

definition reject_upgrade :: "nat \<Rightarrow> string \<Rightarrow> headers \<Rightarrow> bytes" where
  "reject_upgrade status message extra =
     (let body = json_stringify (JObj [(''error'', JObj [(''type'', JStr ''websocket_upgrade_rejected''),
                                                         (''message'', JStr message)])])
      in crlf_lines ([''HTTP/1.1 '' @ nat_str status @ '' '' @ status_reason status, ''Connection: close'',
           ''Content-Type: application/json'', ''Content-Length: '' @ nat_str (length body)] @
           map (\<lambda>(n, v). n @ '': '' @ v) extra @ [[], []]) @ body)"

definition accept_upgrade :: "(string \<Rightarrow> string) \<Rightarrow> string \<Rightarrow> bytes" where
  "accept_upgrade sha1_base64 key =
     crlf_lines [''HTTP/1.1 101 Switching Protocols'', ''Upgrade: websocket'', ''Connection: Upgrade'',
       ''Sec-WebSocket-Accept: '' @ sha1_base64 (key @ ''258EAFA5-E914-47DA-95CA-C5AB0DC85B11''), [], []]"

text \<open>A limit option is a number, or \<open>None\<close> where it is none that is finite.\<close>

definition limit_or :: "nat \<Rightarrow> rat option \<Rightarrow> nat" where
  "limit_or fallback v = (case v of Some r \<Rightarrow> if r > 0 then nat \<lfloor>r\<rfloor> else fallback | None \<Rightarrow> fallback)"

record limit_options =
  lo_message :: "rat option"
  lo_event :: "rat option"
  lo_error :: "rat option"
  lo_continuation :: "rat option"
  lo_fragments :: "rat option"

definition effective_limits :: "nat \<Rightarrow> nat \<Rightarrow> limit_options \<Rightarrow> ws_options" where
  "effective_limits body buffered lo =
     (let message = limit_or body (lo_message lo) in
      \<lparr>max_message_bytes = message, max_event_bytes = limit_or buffered (lo_event lo),
       max_error_bytes = limit_or buffered (lo_error lo),
       max_continuation_bytes = limit_or message (lo_continuation lo),
       max_fragment_frames = limit_or MAX_FRAGMENT_FRAMES (lo_fragments lo)\<rparr>)"

record upgrade_request =
  up_method :: string
  up_pathname :: "string option"
  up_headers :: req_headers

definition truthy_header :: "hval option \<Rightarrow> bool" where
  "truthy_header v = (case v of None \<Rightarrow> False | Some (One s) \<Rightarrow> s \<noteq> [] | Some (Many _) \<Rightarrow> True)"

datatype upgrade_result = Rejected nat bytes | Accepted bytes

definition upgrade_route ::
  "(upgrade_request \<Rightarrow> string option) option \<Rightarrow> string \<Rightarrow> upgrade_request \<Rightarrow> string \<Rightarrow> string option" where
  "upgrade_route authenticate key req path =
     (case (case authenticate of Some f \<Rightarrow> f req | None \<Rightarrow> authenticated_route path key) of
        Some route \<Rightarrow> if route = [] then None else Some route | None \<Rightarrow> None)"

definition rfc6455_upgrade :: "upgrade_request \<Rightarrow> bool" where
  "rfc6455_upgrade req \<longleftrightarrow>
     up_method req = ''GET'' \<and> to_lower (text_of (map_of (up_headers req) ''upgrade'')) = ''websocket'' \<and>
     ''upgrade'' \<in> set (header_tokens (map_of (up_headers req) ''connection'')) \<and>
     map_of (up_headers req) ''sec-websocket-version'' = Some (One ''13'') \<and>
     valid_web_socket_key (map_of (up_headers req) ''sec-websocket-key'')"

definition rejected :: "nat \<Rightarrow> string \<Rightarrow> headers \<Rightarrow> upgrade_result" where
  "rejected status message extra = Rejected status (reject_upgrade status message extra)"

definition handle_upgrade ::
  "(string \<Rightarrow> string) \<Rightarrow> (upgrade_request \<Rightarrow> string option) option \<Rightarrow> string \<Rightarrow> upgrade_request \<Rightarrow> upgrade_result" where
  "handle_upgrade sha1_base64 authenticate key req =
     (case up_pathname req of
        None \<Rightarrow> rejected 400 ''Invalid WebSocket request URL.'' []
      | Some path \<Rightarrow>
        (case upgrade_route authenticate key req path of
           None \<Rightarrow> rejected 401 ''This local router endpoint requires its configured caller authentication.'' []
         | Some route \<Rightarrow>
           if route \<notin> set RESPONSE_ROUTES then rejected 404 ''Unsupported router WebSocket route.'' []
           else if truthy_header (map_of (up_headers req) ''origin'') \<or>
                   truthy_header (map_of (up_headers req) ''sec-fetch-site'')
             then rejected 403 ''Browser-originated WebSocket requests are not accepted.'' []
           else if \<not> rfc6455_upgrade req
             then rejected 426 ''A valid RFC 6455 WebSocket upgrade is required.'' [(''Sec-WebSocket-Version'', ''13'')]
           else if \<not> request_has_beta (up_headers req)
             then rejected 426 (''OpenAI-Beta: '' @ RESPONSES_WEBSOCKET_BETA @ '' is required.'')
                    [(''OpenAI-Beta'', RESPONSES_WEBSOCKET_BETA)]
           else Accepted (accept_upgrade sha1_base64 (text_of (map_of (up_headers req) ''sec-websocket-key'')))))"

section \<open>What the internal request may carry\<close>

definition one_line :: "string \<Rightarrow> bool" where "one_line v \<longleftrightarrow> CR \<notin> set v \<and> LF \<notin> set v"

definition each :: "(string \<Rightarrow> string \<Rightarrow> bool) \<Rightarrow> headers \<Rightarrow> bool" where
  "each P hs \<longleftrightarrow> (\<forall>(n, v) \<in> set hs. P n v)"

lemma each_Nil [simp]: "each P []"
  by (simp add: each_def)

lemma each_Cons [simp]: "each P ((n, v) # hs) \<longleftrightarrow> P n v \<and> each P hs"
  by (auto simp: each_def)

lemma each_update: "each P hs \<Longrightarrow> P n v \<Longrightarrow> each P (AList.update n v hs)"
  by (induction hs) (auto simp: each_def)

lemma each_delete: "each P hs \<Longrightarrow> each P (AList.delete n hs)"
  by (auto simp: each_def AList.delete_eq)

lemma each_get: "each P hs \<Longrightarrow> map_of hs n = Some v \<Longrightarrow> P n v"
  by (auto simp: each_def dest: map_of_SomeD)

lemma each_fold:
  assumes "each P hs" "\<And>m x. each P m \<Longrightarrow> x \<in> set xs \<Longrightarrow> each P (f m x)"
  shows "each P (foldl f hs xs)"
  using assms by (induction xs arbitrary: hs) auto

lemma each_set_all: "each P hs \<Longrightarrow> (\<And>n. n \<in> set names \<Longrightarrow> P n v) \<Longrightarrow> each P (set_all names v hs)"
  unfolding set_all_def by (rule each_fold) (auto intro: each_update)

lemma one_line_simps [simp]: "one_line []" "one_line (a @ b) \<longleftrightarrow> one_line a \<and> one_line b"
  "one_line (c # a) \<longleftrightarrow> c \<noteq> CR \<and> c \<noteq> LF \<and> one_line a"
  by (auto simp: one_line_def)

lemma one_line_join: "one_line sep \<Longrightarrow> (\<And>x. x \<in> set xs \<Longrightarrow> one_line x) \<Longrightarrow> one_line (join sep xs)"
  by (induction sep xs rule: join.induct) auto

lemma one_line_safe: "safe_header_value v = Some x \<Longrightarrow> one_line x"
  by (auto simp: safe_header_value_def one_line_def split: option.splits if_splits)

lemma hex_digit_one_line: "hex_digit (n mod 16) \<noteq> CR \<and> hex_digit (n mod 16) \<noteq> LF"
proof -
  have "n mod 16 < 16" by simp
  then have "n mod 16 \<in> set [0..<16]" by simp
  moreover have "\<forall>k \<in> set [0..<16]. hex_digit k \<noteq> CR \<and> hex_digit k \<noteq> LF" by code_simp
  ultimately show ?thesis by blast
qed

lemma u_escape_one_line: "one_line (u_escape n)"
  using hex_digit_one_line by (simp add: u_escape_def CR_def LF_def)

lemma escape_high_one_line: "one_line s \<Longrightarrow> one_line (escape_high s)"
proof (induction s rule: escape_high.induct)
  case (1 s)
  have drop: "one_line (drop n s)" for n using "1.prems" by (auto simp: one_line_def dest: in_set_dropD)
  have head: "s \<noteq> [] \<Longrightarrow> hd s \<noteq> CR \<and> hd s \<noteq> LF" using "1.prems" by (cases s) auto
  show ?case
    using "1.IH"(1) "1.IH"(2) drop head
    by (subst escape_high.simps) (simp add: u_escapes_def u_escape_one_line)
qed

lemma one_line_json: "one_line (json_stringify j)"
  using stringify_one_line by (simp add: one_line_def)

lemma compatibility_one_line: "compatibility_turn_metadata_header v = Some x \<Longrightarrow> one_line x"
  by (auto simp: compatibility_turn_metadata_header_def Let_def simp del: json_stringify.simps
      intro: escape_high_one_line one_line_json split: option.splits if_splits)

definition projected_names :: "string list" where
  "projected_names = concat (map snd METADATA_PROJECTIONS)"

lemma projected_names_forwarded: "set projected_names \<subseteq> set FORWARDED_REQUEST_HEADERS" "''authorization'' \<notin> set projected_names"
  by code_simp+

lemma projections_each: "each (\<lambda>n v. n \<in> set projected_names \<and> one_line v) (metadata_header_projections v)"
proof (cases "metadata_object v")
  case (Some kvs)
  let ?P = "\<lambda>n v. n \<in> set projected_names \<and> one_line v"
  have "each ?P (case (name, targets) of (name, targets) \<Rightarrow>
            case projected_value kvs name of None \<Rightarrow> m | Some x \<Rightarrow> set_all targets x m)"
    if "each ?P m" "(name, targets) \<in> set METADATA_PROJECTIONS" for m name targets
  proof (cases "projected_value kvs name")
    case (Some x)
    then have "one_line x"
      by (auto simp: projected_value_def split: if_splits intro: one_line_safe compatibility_one_line)
    with Some that show ?thesis by (auto simp: projected_names_def intro!: each_set_all bexI [of _ "(name, targets)"])
  qed (simp add: that)
  then show ?thesis unfolding metadata_header_projections_def Some option.case by (intro each_fold) auto
qed (simp add: metadata_header_projections_def)

lemma trim_end_set: "set (trim_end s) \<subseteq> set s"
  by (induction s) auto

lemma trim_start_set: "set (trim_start s) \<subseteq> set s"
  by (metis trim_start_suffix set_append Un_upper2)

lemma trim_set: "set (trim s) \<subseteq> set s"
  unfolding trim_def using trim_end_set trim_start_set by blast

lemma beta_tokens_one_line: "one_line v \<Longrightarrow> t \<in> set (beta_tokens v) \<Longrightarrow> one_line t"
  using trim_set split_at_char_set by (fastforce simp: beta_tokens_def one_line_def)

fun pieces :: "hval \<Rightarrow> string list" where
  "pieces (One s) = [s]"
| "pieces (Many vs) = vs"

lemma joined_one_line: "(\<And>x. x \<in> set (pieces v) \<Longrightarrow> one_line x) \<Longrightarrow> one_line (joined v) \<and> one_line (js_text v)"
  by (cases v) (auto intro!: one_line_join simp: CR_def LF_def)

lemma forwarded_one_line:
  assumes "forwarded_value key name v = Some w" "\<And>x. x \<in> set (pieces v) \<Longrightarrow> one_line x"
  shows "one_line w"
  using assms(1) joined_one_line [OF assms(2)]
  by (auto simp: forwarded_value_def Let_def CR_def LF_def split: if_splits intro!: one_line_join intro: beta_tokens_one_line)

definition hop_names :: "string list" where
  "hop_names = ''accept'' # ''content-type'' # FORWARDED_REQUEST_HEADERS"

definition hop_ok :: "string \<Rightarrow> string \<Rightarrow> bool" where
  "hop_ok n v \<longleftrightarrow> n \<in> set hop_names \<and> one_line v"

lemma forward_headers_ok:
  assumes "\<And>n v x. map_of req n = Some v \<Longrightarrow> x \<in> set (pieces v) \<Longrightarrow> one_line x"
  shows "each hop_ok (forward_headers req key)"
  unfolding forward_headers_def
proof (rule each_fold)
  show "each hop_ok [(''accept'', ''text/event-stream''), (''content-type'', ''application/json'')]"
    by (simp add: hop_ok_def hop_names_def CR_def LF_def)
  show "each hop_ok (case map_of req n of None \<Rightarrow> m
        | Some v \<Rightarrow> (case forwarded_value key n v of None \<Rightarrow> m | Some w \<Rightarrow> AList.update n w m))"
    if "each hop_ok m" "n \<in> set FORWARDED_REQUEST_HEADERS" for m n
    using that
    by (auto intro!: each_update simp: hop_ok_def hop_names_def split: option.splits)
      (use assms forwarded_one_line in blast)
qed

lemma with_metadata_ok: "each hop_ok hs \<Longrightarrow> each hop_ok (with_metadata hs metadata)"
  unfolding with_metadata_def
proof (intro each_fold)
  fix m x assume m: "each hop_ok m" and x: "x \<in> set (metadata_header_projections metadata)"
  obtain n v where "x = (n, v)" by (cases x)
  moreover have "hop_ok n v"
    using projections_each [of metadata] x projected_names_forwarded(1) calculation
    by (auto simp: each_def hop_ok_def hop_names_def)
  ultimately show "each hop_ok (case x of (n, v) \<Rightarrow> AList.update n v m)" using m by (simp add: each_update)
qed (auto intro: each_delete)

lemma with_turn_state_ok:
  "each hop_ok hs \<Longrightarrow> (\<And>v. stored = Some v \<Longrightarrow> one_line v) \<Longrightarrow> each hop_ok (with_turn_state hs stored)"
  by (cases stored) (auto simp: with_turn_state_def hop_ok_def hop_names_def FORWARDED_REQUEST_HEADERS_def intro!: each_update)

text \<open>C25: Whatever a client puts into its headers and metadata, the internal request carries only headers
  of the allow list and no header value with a line break: no header can be injected into the
  loopback request.\<close>

theorem internal_headers_contained:
  assumes "\<And>n v x. map_of req n = Some v \<Longrightarrow> x \<in> set (pieces v) \<Longrightarrow> one_line x"
    and "\<And>t. ts = Some t \<Longrightarrow> one_line (ts_value t)"
    and "(n, v) \<in> set (loopback_headers req key metadata ts internal)"
  shows "n \<in> set hop_names \<and> one_line v"
proof -
  let ?stored = "stored_turn_state ts (metadata_turn_id metadata)"
  have "one_line x" if "?stored = Some x" for x
    using that assms(2) by (auto simp: stored_turn_state_def split: option.splits if_splits)
  then have "each hop_ok (with_turn_state (with_metadata (forward_headers req key) metadata) ?stored)"
    using assms(1) by (intro with_turn_state_ok with_metadata_ok forward_headers_ok)
  then have "each hop_ok (loopback_headers req key metadata ts internal)"
    by (auto simp: loopback_headers_def Let_def hop_ok_def hop_names_def FORWARDED_REQUEST_HEADERS_def
        intro!: each_update one_line_safe split: option.split)
  with assms(3) show ?thesis by (auto simp: each_def hop_ok_def)
qed

section \<open>The caller's key\<close>

lemma map_of_fold_other:
  assumes "\<And>m x. x \<in> set xs \<Longrightarrow> map_of (f m x) n = map_of m n"
  shows "map_of (foldl f hs xs) n = map_of hs n"
  using assms by (induction xs arbitrary: hs) auto

lemma forward_headers_get:
  "n \<in> set FORWARDED_REQUEST_HEADERS \<Longrightarrow>
   map_of (forward_headers req key) n = Option.bind (map_of req n) (forwarded_value key n)"
proof -
  let ?start = "[(''accept'', ''text/event-stream''), (''content-type'', ''application/json'')]"
  let ?step = "\<lambda>m name. case map_of req name of None \<Rightarrow> m
        | Some v \<Rightarrow> (case forwarded_value key name v of None \<Rightarrow> m | Some w \<Rightarrow> AList.update name w m)"
  have fold: "map_of (foldl ?step hs names) n =
      (if n \<in> set names \<and> Option.bind (map_of req n) (forwarded_value key n) \<noteq> None
       then Option.bind (map_of req n) (forwarded_value key n) else map_of hs n)" for hs names
    by (induction names rule: rev_induct) (auto simp: update_conv' split: option.splits)
  assume n: "n \<in> set FORWARDED_REQUEST_HEADERS"
  moreover have "''accept'' \<notin> set FORWARDED_REQUEST_HEADERS" "''content-type'' \<notin> set FORWARDED_REQUEST_HEADERS"
    by code_simp+
  ultimately have "map_of ?start n = None" by auto
  with n show ?thesis unfolding forward_headers_def fold by simp
qed

lemma authorization_kept:
  "map_of (with_turn_state (with_metadata hs metadata) stored) ''authorization'' = map_of hs ''authorization''"
proof -
  have "''authorization'' \<notin> set PER_REQUEST_IDENTITY_HEADERS" by code_simp
  then have "map_of (foldl (\<lambda>m n. AList.delete n m) hs PER_REQUEST_IDENTITY_HEADERS) ''authorization'' = map_of hs ''authorization''"
    by (intro map_of_fold_other) (auto simp: delete_conv')
  moreover have "map_of (case x of (n, v) \<Rightarrow> AList.update n v m) ''authorization'' = map_of m ''authorization''"
    if "x \<in> set (metadata_header_projections metadata)" for m x
    using that projections_each [of metadata] projected_names_forwarded(2) by (cases x) (auto simp: each_def update_conv')
  ultimately show ?thesis
    by (simp add: with_turn_state_def with_metadata_def update_conv' map_of_fold_other)
qed

lemma secret_char_ascii: "secret_char c \<Longrightarrow> c < CHR 0x80 \<and> CHR 0x20 < c"
  unfolding secret_char_def less_char_def less_eq_char_def by auto

lemma ws_part_not_secret: "x \<in> set (take (ws_len s) s) \<Longrightarrow> \<not> secret_char x"
proof
  assume x: "x \<in> set (take (ws_len s) s)" "secret_char x"
  from secret_char_ascii [OF x(2)] have "CHR 0x20 < x" "x < CHR 0x80" by simp_all
  then have "x \<noteq> CHR 0x20" "\<not> x \<le> CHR 0x0D" "\<not> CHR 0x80 \<le> x"
    "x \<noteq> CHR 0xC2" "x \<noteq> CHR 0xE1" "x \<noteq> CHR 0xE2" "x \<noteq> CHR 0xE3" "x \<noteq> CHR 0xEF" "x \<noteq> CHR 0xA0" "x \<noteq> CHR 0x9A"
    "x \<noteq> CHR 0x81" "x \<noteq> CHR 0xBB" "x \<noteq> CHR 0xA8" "x \<noteq> CHR 0xA9" "x \<noteq> CHR 0xAF" "x \<noteq> CHR 0x9F" "x \<noteq> CHR 0xBF"
    by (auto simp: less_char_def less_eq_char_def)
  with x(1) show False
    by (auto simp: ws_len_def eval_nat_numeral split: list.splits if_splits)
qed

lemma secret_keeps_text: "c \<in> set s \<Longrightarrow> secret_char c \<Longrightarrow> trim_start s \<noteq> []"
proof (induction s rule: trim_start.induct)
  case (1 s)
  show ?case
  proof (cases "ws_len s = 0")
    case True
    then show ?thesis using "1.prems"(1) by (subst trim_start.simps) auto
  next
    case False
    have "c \<in> set (take (ws_len s) s) \<or> c \<in> set (drop (ws_len s) s)"
      using "1.prems"(1) by (metis Un_iff append_take_drop_id set_append)
    then have "c \<in> set (drop (ws_len s) s)" using ws_part_not_secret "1.prems"(2) by blast
    with "1.IH" "1.prems" False show ?thesis by (subst trim_start.simps) auto
  qed
qed

lemma trim_start_blank: "is_blank c \<Longrightarrow> trim_start (c # s) = trim_start s"
  by (subst trim_start.simps) (auto simp: is_blank_def ws_len_def)

lemma trim_start_blanks: "\<forall>c \<in> set p. is_blank c \<Longrightarrow> trim_start (p @ s) = trim_start s"
  by (induction p) (simp_all add: trim_start_blank)

lemma trim_end_blanks: "\<forall>c \<in> set p. is_blank c \<Longrightarrow> trim_end p = []"
  using trim_start_blanks [of p "[]"] by (cases p) auto

lemma trim_end_secret: "secret_char c \<Longrightarrow> \<forall>x \<in> set p. is_blank x \<Longrightarrow> trim_end (w @ c # p) = w @ [c]"
proof (induction w)
  case Nil
  then show ?case using secret_keeps_text [of c "c # p"] by (simp add: trim_end_blanks)
next
  case (Cons a w)
  then show ?case using secret_keeps_text [of c "a # w @ c # p"] by simp
qed

lemma trim_between:
  assumes "w \<noteq> []" "secret_char (hd w)" "secret_char (last w)" "\<forall>c \<in> set pre. is_blank c" "\<forall>c \<in> set post. is_blank c"
  shows "trim (pre @ w @ post) = w"
proof -
  have w: "w @ post = butlast w @ last w # post" using append_butlast_last_id [OF assms(1)] by (metis append.assoc append_Cons append_Nil)
  have "trim_start (w @ post) = w @ post" using assms(1,2) by (cases w) (simp_all add: trim_start_secret)
  then show ?thesis
    using assms(1) by (simp add: trim_def trim_start_blanks [OF assms(4)] w trim_end_secret [OF assms(3,5)])
qed

lemma split_blanks_word: "\<forall>c \<in> set w. \<not> is_blank c \<Longrightarrow> split_blanks w = [w]"
  by (subst split_blanks.simps) (simp add: Let_def takeWhile_eq_all_conv [THEN iffD2])

lemma split_blanks_two:
  assumes "\<forall>c \<in> set a. \<not> is_blank c" "\<forall>c \<in> set m. is_blank c" "m \<noteq> []" "\<forall>c \<in> set b. \<not> is_blank c"
  shows "split_blanks (a @ m @ b) = [a, b]"
proof -
  obtain x m' where m: "m = x # m'" using assms(3) by (meson neq_Nil_conv)
  have "takeWhile (\<lambda>c. \<not> is_blank c) (a @ m @ b) = a" "dropWhile (\<lambda>c. \<not> is_blank c) (a @ m @ b) = m @ b"
    using assms(1,2) by (simp_all add: takeWhile_append dropWhile_append m)
  moreover have "dropWhile is_blank (m @ b) = b"
    using assms(2,4) by (cases b) (simp_all add: dropWhile_append)
  ultimately show ?thesis using m by (subst split_blanks.simps) (simp add: Let_def split_blanks_word [OF assms(4)])
qed

lemma bearer_letters: "to_lower scheme = ''bearer'' \<Longrightarrow> \<forall>c \<in> set scheme. secret_char c"
proof
  fix c
  assume scheme: "to_lower scheme = ''bearer''" and c: "c \<in> set scheme"
  have low: "lower_char c \<in> set ''bearer''" unfolding scheme [symmetric] to_lower_def using c by simp
  have bearer: "\<forall>x \<in> set ''bearer''. secret_char x" by code_simp
  show "secret_char c"
  proof (cases "CHR ''A'' \<le> c \<and> c \<le> CHR ''Z''")
    case True
    then show ?thesis by (simp add: secret_char_def)
  next
    case False
    then have "lower_char c = c" unfolding lower_char_def by (rule if_not_P)
    then show ?thesis using low bearer by metis
  qed
qed

lemma secret_not_blank: "secret_char c \<Longrightarrow> \<not> is_blank c"
  using secret_char_ascii [of c] by (auto simp: is_blank_def less_char_def)

lemma bearer_is_caller:
  assumes "valid_caller_secret key" "to_lower scheme = ''bearer''" "mid \<noteq> []"
    and blanks: "\<forall>c \<in> set pre. is_blank c" "\<forall>c \<in> set mid. is_blank c" "\<forall>c \<in> set post. is_blank c"
  shows "is_caller_authorization (One (pre @ scheme @ mid @ key @ post)) key"
proof -
  have s: "scheme \<noteq> []" "\<forall>c \<in> set scheme. secret_char c" using assms(2) bearer_letters by (auto simp: to_lower_def)
  have k: "key \<noteq> []" "\<forall>c \<in> set key. secret_char c" using assms(1) by (auto simp: valid_caller_secret_def)
  have "trim (pre @ (scheme @ mid @ key) @ post) = scheme @ mid @ key"
    using s k blanks by (intro trim_between) auto
  moreover have "split_blanks (scheme @ mid @ key) = [scheme, key]"
    using s k blanks(2) assms(3) secret_not_blank by (intro split_blanks_two) auto
  ultimately show ?thesis using assms(2) by (simp add: is_caller_authorization_def secret_equal_def)
qed

text \<open>C8: The caller's key does not travel on: unless the router brings its own credential, the internal
  request has no authorization header that is the caller's bearer token, in whatever case or spacing the
  client wrote it (Node gives this header as one string).\<close>

theorem caller_key_stays_home:
  assumes "valid_caller_secret key"
    and "\<And>vs. map_of req ''authorization'' \<noteq> Some (Many vs)"
    and "safe_header_value internal \<in> {None, Some []}"
    and "map_of (loopback_headers req key metadata ts internal) ''authorization'' = Some w"
    and "to_lower scheme = ''bearer''" and "mid \<noteq> []" and "\<forall>c \<in> set (pre @ mid @ post). is_blank c"
  shows "w \<noteq> pre @ scheme @ mid @ key @ post"
proof
  assume w: "w = pre @ scheme @ mid @ key @ post"
  have auth: "''authorization'' \<in> set FORWARDED_REQUEST_HEADERS" by code_simp
  have "map_of (forward_headers req key) ''authorization'' = Some w"
    using assms(3,4) by (auto simp: loopback_headers_def Let_def authorization_kept)
  then obtain v where v: "map_of req ''authorization'' = Some v" "forwarded_value key ''authorization'' v = Some w"
    unfolding forward_headers_get [OF auth] by (cases "map_of req ''authorization''") auto
  then obtain s where "v = One s" using assms(2) by (cases v) auto
  with v have "s = w" "\<not> is_caller_authorization (One w) key" by (auto simp: forwarded_value_def split: if_splits)
  moreover have "is_caller_authorization (One w) key"
    unfolding w using assms(1,5-7) by (intro bearer_is_caller) auto
  ultimately show False by simp
qed

section \<open>Who gets a socket\<close>

lemma b64_round: "n < 64 \<Longrightarrow> b64_value (b64_char n) = Some n"
proof -
  assume "n < 64"
  then have "n \<in> set [0..<64]" by simp
  moreover have "\<forall>n \<in> set [0..<64]. b64_value (b64_char n) = Some n" by code_simp
  ultimately show ?thesis by blast
qed

lemma b64_pad: "b64_value (CHR ''='') = None"
  by code_simp

lemma byte_bound: "byte_of c < (256 :: nat)"
  by simp

lemma sextet_bounds:
  fixes x y :: nat
  assumes "x < 256" "y < 256"
  shows "x div 4 < 64" "x mod 4 * 16 < 64" "x mod 16 * 4 < 64"
    "x mod 4 * 16 + y div 16 < 64" "x mod 16 * 4 + y div 64 < 64"
proof -
  have "x mod 4 < 4" "x mod 16 < 16" "y div 16 < 16" "y div 64 < 4" "x div 4 < 64" using assms by (simp_all add: div_less_iff_less_mult)
  then show "x div 4 < 64" "x mod 4 * 16 < 64" "x mod 16 * 4 < 64"
    "x mod 4 * 16 + y div 16 < 64" "x mod 16 * 4 + y div 64 < 64" by linarith+
qed

lemmas byte_parts = sextet_bounds [OF byte_bound byte_bound]

lemma small_parts:
  "byte_of c div 16 div 16 = (0::nat)" "byte_of c div 64 div 4 = (0::nat)"
  "byte_of c div 16 mod 16 = (byte_of c div 16 :: nat)" "byte_of c div 64 mod 4 = (byte_of c div 64 :: nat)"
  using byte_bound [of c] by (simp_all add: div_less_iff_less_mult)

lemma base64_round_trip: "base64_decode (base64_encode bs) = bs"
  by (induction bs rule: base64_encode.induct)
    (simp_all add: base64_decode_def b64_round byte_parts b64_pad small_parts)

lemma list_of_16: "length xs = 16 \<Longrightarrow> xs = map ((!) xs) [0, 1, 2, 3, 4, 5, 6, 7, 8, 9, 10, 11, 12, 13, 14, 15]"
  by (rule nth_equalityI) (auto simp: less_Suc_eq eval_nat_numeral)

lemma encoded_nonce:
  assumes "length nonce = 16"
  shows "length (base64_encode nonce) = 24" "\<forall>c \<in> set (take 22 (base64_encode nonce)). b64_value c \<noteq> None"
    "drop 22 (base64_encode nonce) = ''==''"
  by (subst list_of_16 [OF assms], simp add: b64_round byte_parts)+

lemma valid_key_iff:
  "valid_web_socket_key v \<longleftrightarrow> (\<exists>nonce. length nonce = 16 \<and> v = Some (One (base64_encode nonce)))"
proof
  assume valid: "valid_web_socket_key v"
  then obtain s where v: "v = Some (One s)" by (auto simp: valid_web_socket_key_def split: option.splits hval.splits)
  with valid have "length (base64_decode s) = 16" "s = base64_encode (base64_decode s)"
    by (simp_all add: valid_web_socket_key_def)
  with v show "\<exists>nonce. length nonce = 16 \<and> v = Some (One (base64_encode nonce))" by metis
next
  assume "\<exists>nonce. length nonce = 16 \<and> v = Some (One (base64_encode nonce))"
  then obtain nonce where "length nonce = 16" "v = Some (One (base64_encode nonce))" by blast
  then show "valid_web_socket_key v"
    using encoded_nonce [of nonce] by (simp add: valid_web_socket_key_def base64_round_trip)
qed

text \<open>The conditions on the request besides its route.\<close>

definition handshake_ok :: "upgrade_request \<Rightarrow> bytes \<Rightarrow> bool" where
  "handshake_ok req nonce \<longleftrightarrow>
     up_method req = ''GET'' \<and> to_lower (text_of (map_of (up_headers req) ''upgrade'')) = ''websocket'' \<and>
     ''upgrade'' \<in> set (header_tokens (map_of (up_headers req) ''connection'')) \<and>
     map_of (up_headers req) ''sec-websocket-version'' = Some (One ''13'') \<and>
     map_of (up_headers req) ''sec-websocket-key'' = Some (One (base64_encode nonce)) \<and>
     \<not> truthy_header (map_of (up_headers req) ''origin'') \<and>
     \<not> truthy_header (map_of (up_headers req) ''sec-fetch-site'') \<and> request_has_beta (up_headers req)"

lemma accepted_step:
  "handle_upgrade sha authenticate key req = Accepted b \<longleftrightarrow>
     (\<exists>path route. up_pathname req = Some path \<and> upgrade_route authenticate key req path = Some route \<and>
        route \<in> set RESPONSE_ROUTES \<and> \<not> truthy_header (map_of (up_headers req) ''origin'') \<and>
        \<not> truthy_header (map_of (up_headers req) ''sec-fetch-site'') \<and> rfc6455_upgrade req \<and>
        request_has_beta (up_headers req) \<and>
        b = accept_upgrade sha (text_of (map_of (up_headers req) ''sec-websocket-key'')))"
proof (cases "up_pathname req")
  case (Some path)
  then show ?thesis
    by (cases "upgrade_route authenticate key req path")
      (simp_all add: handle_upgrade_def rejected_def eq_commute [of "accept_upgrade _ _"])
qed (simp add: handle_upgrade_def rejected_def)

lemma text_of_One: "v = Some (One s) \<Longrightarrow> text_of v = s"
  by (simp add: text_of_def)

lemma handshake_iff:
  "(\<not> truthy_header (map_of (up_headers req) ''origin'') \<and>
    \<not> truthy_header (map_of (up_headers req) ''sec-fetch-site'') \<and> rfc6455_upgrade req \<and>
    request_has_beta (up_headers req) \<and>
    b = accept_upgrade sha (text_of (map_of (up_headers req) ''sec-websocket-key''))) \<longleftrightarrow>
   (\<exists>nonce. length nonce = 16 \<and> handshake_ok req nonce \<and> b = accept_upgrade sha (base64_encode nonce))"
  (is "?l \<longleftrightarrow> ?r")
proof
  assume l: ?l
  then obtain nonce where nonce: "length nonce = 16" "map_of (up_headers req) ''sec-websocket-key'' = Some (One (base64_encode nonce))"
    unfolding rfc6455_upgrade_def valid_key_iff by blast
  have "handshake_ok req nonce" using l nonce(2) unfolding rfc6455_upgrade_def handshake_ok_def by (elim conjE) (intro conjI)
  with l nonce show ?r unfolding text_of_One [OF nonce(2)] by blast
next
  assume ?r
  then obtain nonce where nonce: "length nonce = 16" "handshake_ok req nonce" "b = accept_upgrade sha (base64_encode nonce)"
    by blast
  then have key: "map_of (up_headers req) ''sec-websocket-key'' = Some (One (base64_encode nonce))"
    by (simp only: handshake_ok_def)
  show ?l using nonce key unfolding handshake_ok_def rfc6455_upgrade_def valid_key_iff text_of_One [OF key] by (elim conjE) (intro conjI exI)
qed

lemma accepted_iff:
  "handle_upgrade sha authenticate key req = Accepted b \<longleftrightarrow>
     (\<exists>path route nonce. up_pathname req = Some path \<and> upgrade_route authenticate key req path = Some route \<and>
        route \<in> set RESPONSE_ROUTES \<and> length nonce = 16 \<and> handshake_ok req nonce \<and>
        b = accept_upgrade sha (base64_encode nonce))"
  unfolding accepted_step handshake_iff by blast

lemma own_route:
  "upgrade_route None key req path = Some route \<longleftrightarrow> authenticated_route path key = Some route \<and> route \<noteq> []"
  by (cases "authenticated_route path key") (auto simp: upgrade_route_def)


definition sample_upgrade :: upgrade_request where
  "sample_upgrade = \<lparr>up_method = ''GET'',
     up_pathname = Some (CALLER_PATH_PREFIX @ ''/'' @ Caller_Auth.sample_key (CHR ''k'') @ ''/v1/responses''),
     up_headers = [(''connection'', One ''keep-alive, Upgrade''), (''upgrade'', One ''WebSocket''),
       (''sec-websocket-version'', One ''13''), (''openai-beta'', One RESPONSES_WEBSOCKET_BETA),
       (''sec-websocket-key'', One (base64_encode (replicate 16 (CHR ''n''))))]\<rparr>"

lemma sample_upgrade_ok: "handshake_ok sample_upgrade (replicate 16 (CHR ''n''))"
  by code_simp


definition sample_request :: req_headers where
  "sample_request = [(''authorization'', One ''Bearer other''), (''user-agent'', One ''codex''), (''cookie'', One ''x=1'')]"

definition sample_metadata :: json where
  "sample_metadata = JObj [(''session_id'', JStr ''s1''), (''thread_id'', JStr (''t'' @ [LF]))]"

lemma caller_key_stays_home_witness:
  "''Bearer other'' \<noteq> [] @ ''bearer'' @ '' '' @ Caller_Auth.sample_key (CHR ''k'') @ []"
  by (rule caller_key_stays_home [where req = sample_request and metadata = None and ts = None and internal = None,
        OF sample_key_valid(1)]) (simp_all add: sample_request_def, code_simp+)

lemma internal_headers_contained_witness:
  "''session-id'' \<in> set hop_names \<and> one_line ''s1''"
proof (rule internal_headers_contained [where req = sample_request and key = "Caller_Auth.sample_key (CHR ''k'')"
      and metadata = "Some sample_metadata" and ts = None and internal = None])
  show "one_line x" if "map_of sample_request n = Some v" "x \<in> set (pieces v)" for n v x
    using that by (auto simp: sample_request_def CR_def LF_def split: if_splits)
qed (simp, code_simp)

end
