(* ===== verification/Ws_Limits.thy ===== *)
theory Ws_Limits
  imports Ws_Headers "HOL-Library.List_Lexorder"
begin

text \<open>
  The rate limits in the headers of a response, \<open>src/router/src/responses-websocket.mjs\<close>: they reach
  the client as events of the socket, or as headers of an error message. The headers of a response
  are sorted by name and each name is there once, as \<open>Headers\<close> yields them.
\<close>

definition MAX_RATE_LIMIT_FAMILIES :: nat where "MAX_RATE_LIMIT_FAMILIES = 16"
definition MAX_RATE_LIMIT_FAMILY_CANDIDATES :: nat where "MAX_RATE_LIMIT_FAMILY_CANDIDATES = 64"
definition MAX_RATE_LIMIT_ID_BYTES :: nat where "MAX_RATE_LIMIT_ID_BYTES = 64"
definition MAX_RATE_LIMIT_NUMBER_BYTES :: nat where "MAX_RATE_LIMIT_NUMBER_BYTES = 64"
definition MAX_RATE_LIMIT_TEXT_BYTES :: nat where "MAX_RATE_LIMIT_TEXT_BYTES = 256"

definition SAFE_RESPONSE_HEADERS :: "string list" where
  "SAFE_RESPONSE_HEADERS =
    [''openai-model'', ''retry-after'', ''x-codex-safety-buffering-enabled'',
     ''x-codex-safety-buffering-faster-model'', ''x-codex-turn-state'', ''x-models-etag'', ''x-reasoning-included'']"

definition RATE_LIMIT_REACHED_TYPES :: "string list" where
  "RATE_LIMIT_REACHED_TYPES =
    [''rate_limit_reached'', ''workspace_owner_credits_depleted'', ''workspace_member_credits_depleted'',
     ''workspace_owner_usage_limit_reached'', ''workspace_member_usage_limit_reached'']"

section \<open>Header values\<close>

definition control :: "char \<Rightarrow> bool" where "control c \<longleftrightarrow> c < CHR 0x20 \<or> c = CHR 0x7F"

definition bounded_rate_limit_header :: "headers \<Rightarrow> string \<Rightarrow> nat \<Rightarrow> string option" where
  "bounded_rate_limit_header hs name max_bytes =
     (case map_of hs name of None \<Rightarrow> None
      | Some raw \<Rightarrow>
          if raw = [] \<or> length raw > max_bytes \<or> (\<exists>c \<in> set raw. control c) then None else Some raw)"

text \<open>\<open>Number(raw)\<close> for a text that matches the pattern of a decimal.\<close>

definition after_sign :: "string \<Rightarrow> int \<times> string" where
  "after_sign s =
     (if starts_with ''-'' s then (-1, drop 1 s) else if starts_with ''+'' s then (1, drop 1 s) else (1, s))"

definition decimal_number :: "string \<Rightarrow> json option" where
  "decimal_number s =
     (let (sgn, s1) = after_sign s;
          ip = takeWhile is_digit s1; s2 = dropWhile is_digit s1;
          dot = starts_with ''.'' s2;
          fp = (if dot then takeWhile is_digit (drop 1 s2) else []);
          s3 = (if dot then dropWhile is_digit (drop 1 s2) else s2)
      in if ip = [] \<and> fp = [] then None
         else (case parse_exponent s3 of
                 Some (x, []) \<Rightarrow> Some (scale_num (sgn * int (digits_value (ip @ fp))) (x - int (length fp)))
               | _ \<Rightarrow> None))"

definition integer_number :: "string \<Rightarrow> json option" where
  "integer_number s =
     (let (sgn, ds) = after_sign s
      in if ds \<noteq> [] \<and> (\<forall>c \<in> set ds. is_digit c) then Some (JInt (sgn * int (digits_value ds))) else None)"

text \<open>\<open>Number.isFinite\<close>: a decimal from \<open>2^1024 - 2^970\<close> on rounds to infinity.\<close>

fun is_finite_number :: "json \<Rightarrow> bool" where
  "is_finite_number (JNum m e) \<longleftrightarrow> \<bar>m\<bar> < (2 ^ 1024 - 2 ^ 970) * 10 ^ e"
| "is_finite_number _ \<longleftrightarrow> False"

fun is_safe_integer :: "json \<Rightarrow> bool" where
  "is_safe_integer (JNum m e) \<longleftrightarrow> e = 0 \<and> \<bar>m\<bar> \<le> int MAX_SAFE_INTEGER"
| "is_safe_integer _ \<longleftrightarrow> False"

definition finite_header_number :: "headers \<Rightarrow> string \<Rightarrow> bool \<Rightarrow> json option" where
  "finite_header_number hs name integer =
     (case bounded_rate_limit_header hs name MAX_RATE_LIMIT_NUMBER_BYTES of None \<Rightarrow> None
      | Some raw \<Rightarrow>
         (case (if integer then integer_number raw else decimal_number raw) of None \<Rightarrow> None
          | Some v \<Rightarrow>
              if \<not> is_finite_number v then None
              else if integer \<and> \<not> is_safe_integer v then None else Some v))"

definition boolean_header :: "headers \<Rightarrow> string \<Rightarrow> bool option" where
  "boolean_header hs name =
     (case map_option to_lower (bounded_rate_limit_header hs name 5) of None \<Rightarrow> None
      | Some v \<Rightarrow> if v = ''true'' \<or> v = ''1'' then Some True
                  else if v = ''false'' \<or> v = ''0'' then Some False else None)"

section \<open>Snapshots\<close>

record rl_window =
  rw_used :: json
  rw_minutes :: "json option"
  rw_reset :: "json option"

record rl_credits =
  rc_has :: bool
  rc_unlimited :: bool
  rc_balance :: "string option"

record rl_snapshot =
  rs_family :: string
  rs_primary :: "rl_window option"
  rs_secondary :: "rl_window option"
  rs_credits :: "rl_credits option"
  rs_name :: "string option"

definition rate_limit_window :: "headers \<Rightarrow> string \<Rightarrow> rl_window option" where
  "rate_limit_window hs stem =
     (case finite_header_number hs (stem @ ''-used-percent'') False of None \<Rightarrow> None
      | Some used \<Rightarrow>
         (let minutes = finite_header_number hs (stem @ ''-window-minutes'') True;
              reset = finite_header_number hs (stem @ ''-reset-at'') True
          in if used = JInt 0 \<and> \<not> truthy minutes \<and> reset = None then None
             else Some \<lparr>rw_used = used, rw_minutes = minutes, rw_reset = reset\<rparr>))"

definition replace_char :: "char \<Rightarrow> char \<Rightarrow> string \<Rightarrow> string" where
  "replace_char a b = map (\<lambda>c. if c = a then b else c)"

definition nonempty :: "string option \<Rightarrow> string option" where
  "nonempty v = (case v of Some s \<Rightarrow> if s = [] then None else Some s | None \<Rightarrow> None)"

definition family_prefix :: "string \<Rightarrow> string" where
  "family_prefix family = ''x-'' @ replace_char (CHR ''_'') (CHR ''-'') family"

definition rate_limit_credits :: "headers \<Rightarrow> rl_credits option" where
  "rate_limit_credits hs =
     (case (boolean_header hs ''x-codex-credits-has-credits'', boolean_header hs ''x-codex-credits-unlimited'') of
        (Some h, Some u) \<Rightarrow>
          Some \<lparr>rc_has = h, rc_unlimited = u,
                rc_balance = nonempty (map_option trim
                  (bounded_rate_limit_header hs ''x-codex-credits-balance'' MAX_RATE_LIMIT_TEXT_BYTES))\<rparr>
      | _ \<Rightarrow> None)"

definition rate_limit_snapshot :: "headers \<Rightarrow> string \<Rightarrow> rl_snapshot" where
  "rate_limit_snapshot hs family =
     (let stem = family_prefix family in
      \<lparr>rs_family = family,
       rs_primary = rate_limit_window hs (stem @ ''-primary''),
       rs_secondary = rate_limit_window hs (stem @ ''-secondary''),
       rs_credits = rate_limit_credits hs,
       rs_name = nonempty (map_option trim
         (bounded_rate_limit_header hs (stem @ ''-limit-name'') MAX_RATE_LIMIT_TEXT_BYTES))\<rparr>)"

definition some_limit :: "rl_snapshot \<Rightarrow> bool" where
  "some_limit s \<longleftrightarrow> rs_primary s \<noteq> None \<or> rs_secondary s \<noteq> None \<or> rs_credits s \<noteq> None"

text \<open>The pattern of a family name: words of the class, joined by one separator.\<close>

definition family_char :: "char \<Rightarrow> bool" where
  "family_char c \<longleftrightarrow> CHR ''a'' \<le> c \<and> c \<le> CHR ''z'' \<or> is_digit c"

fun family_words :: "(char \<Rightarrow> bool) \<Rightarrow> string \<Rightarrow> bool" where
  "family_words sep [] \<longleftrightarrow> False"
| "family_words sep [c] \<longleftrightarrow> family_char c"
| "family_words sep (c # d # s) \<longleftrightarrow> family_char c \<and> (if sep d then family_words sep s else family_words sep (d # s))"

definition ANCHOR_END :: string where "ANCHOR_END = ''-primary-used-percent''"

definition family_anchor :: "string \<Rightarrow> string option" where
  "family_anchor name =
     (let mid = take (length name - 2 - length ANCHOR_END) (drop 2 name) in
      if name = ''x-'' @ mid @ ANCHOR_END \<and> family_words (\<lambda>c. c = CHR ''-'') mid then Some mid else None)"

definition anchored_family :: "string \<Rightarrow> string option" where
  "anchored_family name =
     (case family_anchor name of None \<Rightarrow> None
      | Some raw \<Rightarrow>
          (let family = replace_char (CHR ''-'') (CHR ''_'') raw in
           if length raw > MAX_RATE_LIMIT_ID_BYTES \<or> family = ''codex'' then None else Some family))"

fun family_ids :: "string list \<Rightarrow> string list \<Rightarrow> string list" where
  "family_ids [] ids = ids"
| "family_ids (name # names) ids =
     (case anchored_family name of None \<Rightarrow> family_ids names ids
      | Some family \<Rightarrow>
          (let ids1 = List.insert family ids in
           if length ids1 \<ge> MAX_RATE_LIMIT_FAMILY_CANDIDATES then ids1 else family_ids names ids1))"

fun add_snapshots :: "headers \<Rightarrow> string list \<Rightarrow> rl_snapshot list \<Rightarrow> rl_snapshot list" where
  "add_snapshots hs [] snapshots = snapshots"
| "add_snapshots hs (family # families) snapshots =
     (let s = rate_limit_snapshot hs family;
          snapshots1 = (if some_limit s then snapshots @ [s] else snapshots)
      in if length snapshots1 \<ge> MAX_RATE_LIMIT_FAMILIES then snapshots1 else add_snapshots hs families snapshots1)"

definition rate_limit_snapshots :: "headers \<Rightarrow> rl_snapshot list" where
  "rate_limit_snapshots hs =
     (let d = rate_limit_snapshot hs ''codex''
      in add_snapshots hs (sort (family_ids (map fst hs) [])) (if some_limit d then [d] else []))"

section \<open>Events and headers\<close>

definition opt_prop :: "string \<Rightarrow> json option \<Rightarrow> (string \<times> json) list" where
  "opt_prop k v = (case v of None \<Rightarrow> [] | Some j \<Rightarrow> [(k, j)])"

definition window_json :: "rl_window \<Rightarrow> json" where
  "window_json w =
     JObj ((''used_percent'', rw_used w) # opt_prop ''window_minutes'' (rw_minutes w) @ opt_prop ''reset_at'' (rw_reset w))"

definition credits_json :: "rl_credits \<Rightarrow> json" where
  "credits_json c =
     JObj ([(''has_credits'', JBool (rc_has c)), (''unlimited'', JBool (rc_unlimited c))] @
           opt_prop ''balance'' (map_option JStr (rc_balance c)))"

definition rate_limit_event :: "rl_snapshot \<Rightarrow> json" where
  "rate_limit_event s =
     JObj ([(''type'', JStr ''codex.rate_limits''), (''metered_limit_name'', JStr (rs_family s))] @
       opt_prop ''limit_name'' (map_option JStr (rs_name s)) @
       (if rs_primary s = None \<and> rs_secondary s = None then []
        else [(''rate_limits'', JObj (opt_prop ''primary'' (map_option window_json (rs_primary s)) @
                                       opt_prop ''secondary'' (map_option window_json (rs_secondary s))))]) @
       opt_prop ''credits'' (map_option credits_json (rs_credits s)))"

definition rate_limit_events :: "headers \<Rightarrow> json list" where
  "rate_limit_events hs = map rate_limit_event (rate_limit_snapshots hs)"

definition put_opt :: "string \<Rightarrow> string option \<Rightarrow> headers \<Rightarrow> headers" where
  "put_opt n v m = (case v of None \<Rightarrow> m | Some x \<Rightarrow> AList.update n x m)"

definition put_window :: "string \<Rightarrow> string \<Rightarrow> rl_window option \<Rightarrow> headers \<Rightarrow> headers" where
  "put_window stem name w m =
     (case w of None \<Rightarrow> m
      | Some x \<Rightarrow>
          put_opt (stem @ ''-'' @ name @ ''-reset-at'') (map_option json_stringify (rw_reset x))
            (put_opt (stem @ ''-'' @ name @ ''-window-minutes'') (map_option json_stringify (rw_minutes x))
              (AList.update (stem @ ''-'' @ name @ ''-used-percent'') (json_stringify (rw_used x)) m)))"

definition bool_str :: "bool \<Rightarrow> string" where
  "bool_str b = (if b then ''true'' else ''false'')"

definition put_credits :: "rl_credits option \<Rightarrow> headers \<Rightarrow> headers" where
  "put_credits c m =
     (case c of None \<Rightarrow> m
      | Some x \<Rightarrow> put_opt ''x-codex-credits-balance'' (rc_balance x)
            (AList.update ''x-codex-credits-unlimited'' (bool_str (rc_unlimited x))
              (AList.update ''x-codex-credits-has-credits'' (bool_str (rc_has x)) m)))"

definition project_snapshot :: "headers \<Rightarrow> rl_snapshot \<Rightarrow> headers \<times> string list \<Rightarrow> headers \<times> string list" where
  "project_snapshot hs s r =
     (let stem = family_prefix (rs_family s);
          discovery = finite_header_number hs (stem @ ''-primary-used-percent'') False
      in if rs_family s \<noteq> ''codex'' \<and> discovery = None then r
         else
           let m = fst r;
               m1 = (if rs_family s \<noteq> ''codex'' \<and> rs_primary s = None
                     then put_opt (stem @ ''-primary-used-percent'') (map_option json_stringify discovery) m else m);
               m2 = put_window stem ''secondary'' (rs_secondary s) (put_window stem ''primary'' (rs_primary s) m1);
               m3 = put_credits (rs_credits s) (put_opt (stem @ ''-limit-name'') (rs_name s) m2)
           in (m3, List.insert (rs_family s) (snd r)))"

definition active_limit :: "headers \<Rightarrow> string list \<Rightarrow> string option" where
  "active_limit hs projected =
     (case nonempty (map_option trim (bounded_rate_limit_header hs ''x-codex-active-limit'' MAX_RATE_LIMIT_ID_BYTES)) of
        None \<Rightarrow> None
      | Some v \<Rightarrow>
          (let normalized = replace_char (CHR ''-'') (CHR ''_'') (to_lower v) in
           if family_words (\<lambda>c. c = CHR ''-'' \<or> c = CHR ''_'') (to_lower v) \<and> normalized \<in> set projected
           then Some normalized else None))"

definition reached_type :: "headers \<Rightarrow> string option" where
  "reached_type hs =
     (case map_option trim (bounded_rate_limit_header hs ''x-codex-rate-limit-reached-type'' MAX_RATE_LIMIT_ID_BYTES) of
        None \<Rightarrow> None
      | Some v \<Rightarrow> if v \<in> set RATE_LIMIT_REACHED_TYPES then Some v else None)"

definition rate_limit_response_headers :: "headers \<Rightarrow> headers" where
  "rate_limit_response_headers hs =
     (let (m, projected) = foldl (\<lambda>r s. project_snapshot hs s r) ([], []) (rate_limit_snapshots hs)
      in put_opt ''x-codex-rate-limit-reached-type'' (reached_type hs)
           (put_opt ''x-codex-active-limit'' (active_limit hs projected) m))"

definition response_headers :: "headers \<Rightarrow> bool \<Rightarrow> headers option" where
  "response_headers hs include_rate_limits =
     (let m = foldl (\<lambda>m n. put_opt n (map_of hs n) m) [] SAFE_RESPONSE_HEADERS;
          m1 = (if include_rate_limits then foldl (\<lambda>m (n, v). AList.update n v m) m (rate_limit_response_headers hs) else m)
      in if m1 = [] then None else Some m1)"

text \<open>The messages of \<open>sendSuccessfulResponseHeaders\<close>, in order.\<close>

definition headers_json :: "headers \<Rightarrow> json" where
  "headers_json hs = JObj (map (\<lambda>(n, v). (n, JStr v)) hs)"

definition CODEX_METADATA_HEADERS :: "string list" where
  "CODEX_METADATA_HEADERS = [''openai-model'', ''x-codex-safety-buffering-enabled'',
     ''x-codex-safety-buffering-faster-model'', ''x-models-etag'']"

definition header_messages :: "headers \<Rightarrow> json list" where
  "header_messages response =
     (let hs = (case response_headers response False of None \<Rightarrow> [] | Some m \<Rightarrow> m);
          turn = map_of hs ''x-codex-turn-state'';
          meta = foldl (\<lambda>m n. put_opt n (map_of hs n) m) [] CODEX_METADATA_HEADERS
      in (case turn of None \<Rightarrow> []
          | Some v \<Rightarrow> [JObj [(''type'', JStr ''response.metadata''),
                            (''headers'', headers_json [(''x-codex-turn-state'', v)])]]) @
         (if meta = [] then []
          else [JObj [(''type'', JStr ''codex.response.metadata''), (''headers'', headers_json meta)]]) @
         rate_limit_events response)"

section \<open>What upstream headers can do\<close>

definition clean :: "string \<Rightarrow> bool" where "clean v \<longleftrightarrow> list_all (\<lambda>c. \<not> control c) v"

definition snapshot_clean :: "rl_snapshot \<Rightarrow> bool" where
  "snapshot_clean s \<longleftrightarrow>
     pred_option clean (rs_name s) \<and> (\<forall>c. rs_credits s = Some c \<longrightarrow> pred_option clean (rc_balance c)) \<and>
     (\<forall>w. rs_primary s = Some w \<or> rs_secondary s = Some w \<longrightarrow>
        clean (json_stringify (rw_used w)) \<and> pred_option clean (map_option json_stringify (rw_minutes w)) \<and>
        pred_option clean (map_option json_stringify (rw_reset w)))"

lemma bounded_clean: "bounded_rate_limit_header hs n k = Some v \<Longrightarrow> clean v"
  by (auto simp: bounded_rate_limit_header_def clean_def list_all_iff split: option.splits if_splits)

lemma clean_subset: "clean v \<Longrightarrow> set w \<subseteq> set v \<Longrightarrow> clean w"
  by (auto simp: clean_def list_all_iff)

lemma trimmed_clean: "pred_option clean (nonempty (map_option trim (bounded_rate_limit_header hs n k)))"
  using bounded_clean clean_subset [OF _ trim_set]
  by (auto simp: nonempty_def pred_option_def split: option.splits if_splits)

lemma digit_clean: "\<not> control (digit (n mod 10))"
proof -
  have "\<forall>k \<in> set [0..<10]. \<not> control (digit k)" by code_simp
  moreover have "n mod 10 \<in> set [0..<10]" by simp
  ultimately show ?thesis by blast
qed

lemma clean_simps [simp]: "clean []" "clean (c # v) \<longleftrightarrow> \<not> control c \<and> clean v" "clean (v @ w) \<longleftrightarrow> clean v \<and> clean w"
  by (simp_all add: clean_def)

lemma nat_str_clean: "clean (nat_str n)"
proof (induction n rule: nat_str.induct)
  case (1 n)
  then show ?case using digit_clean [of n] by (subst nat_str.simps) auto
qed

lemma int_str_clean: "clean (int_str i)"
  by (simp add: int_str_def nat_str_clean control_def less_char_def)

lemma num_str_clean: "clean (num_str m e)"
proof -
  define p where "p = replicate (Suc e - length (nat_str (nat \<bar>m\<bar>))) (CHR ''0'') @ nat_str (nat \<bar>m\<bar>)"
  have "clean (replicate k (CHR ''0''))" for k by (induction k) (simp_all add: control_def less_char_def)
  then have "clean p" unfolding p_def by (simp add: nat_str_clean)
  then have "clean (take k p)" "clean (drop k p)" for k
    by (auto intro: clean_subset [OF _ set_take_subset] clean_subset [OF _ set_drop_subset])
  then show ?thesis unfolding num_str_def Let_def p_def [symmetric]
    by (simp add: int_str_clean control_def less_char_def)
qed

lemma header_number_clean: "finite_header_number hs n i = Some v \<Longrightarrow> clean (json_stringify v)"
proof -
  assume "finite_header_number hs n i = Some v"
  then have "is_finite_number v" by (auto simp: finite_header_number_def split: option.splits if_splits)
  then show ?thesis by (cases v rule: is_finite_number.cases) (simp_all add: num_str_clean)
qed

lemma header_number_opt_clean: "pred_option clean (map_option json_stringify (finite_header_number hs n i))"
  using header_number_clean by (cases "finite_header_number hs n i") auto

lemma window_clean:
  "rate_limit_window hs stem = Some w \<Longrightarrow> clean (json_stringify (rw_used w)) \<and>
     pred_option clean (map_option json_stringify (rw_minutes w)) \<and>
     pred_option clean (map_option json_stringify (rw_reset w))"
  using header_number_clean header_number_opt_clean
  by (auto simp: rate_limit_window_def Let_def simp del: json_stringify.simps split: option.splits if_splits)

lemma snapshot_clean: "snapshot_clean (rate_limit_snapshot hs family)"
  unfolding snapshot_clean_def
proof (intro conjI allI impI)
  show "pred_option clean (rc_balance c)" if "rs_credits (rate_limit_snapshot hs family) = Some c" for c
    using that trimmed_clean by (auto simp: rate_limit_snapshot_def rate_limit_credits_def Let_def split: option.splits)
qed (use window_clean trimmed_clean in \<open>auto simp: rate_limit_snapshot_def Let_def\<close>)

abbreviation clean_headers :: "headers \<Rightarrow> bool" where "clean_headers \<equiv> each (\<lambda>n. clean)"

lemma put_opt_clean: "clean_headers m \<Longrightarrow> pred_option clean v \<Longrightarrow> clean_headers (put_opt n v m)"
  by (cases v) (auto simp: put_opt_def intro: each_update)

lemma put_window_clean:
  assumes "clean_headers m"
    and "\<And>x. w = Some x \<Longrightarrow> clean (json_stringify (rw_used x)) \<and>
        pred_option clean (map_option json_stringify (rw_minutes x)) \<and>
        pred_option clean (map_option json_stringify (rw_reset x))"
  shows "clean_headers (put_window stem name w m)"
  using assms by (cases w) (auto simp: put_window_def intro!: put_opt_clean each_update)

lemma bool_str_clean: "clean (bool_str b)"
  by (simp add: bool_str_def control_def less_char_def)

lemma put_credits_clean:
  "clean_headers m \<Longrightarrow> (\<And>x. c = Some x \<Longrightarrow> pred_option clean (rc_balance x)) \<Longrightarrow> clean_headers (put_credits c m)"
  by (cases c) (auto simp: put_credits_def bool_str_clean intro!: put_opt_clean each_update)

lemma project_snapshot_clean:
  assumes "clean_headers (fst r)" "snapshot_clean s"
  shows "clean_headers (fst (project_snapshot hs s r))"
proof -
  define m1 where "m1 = (if rs_family s \<noteq> ''codex'' \<and> rs_primary s = None
      then put_opt (family_prefix (rs_family s) @ ''-primary-used-percent'') (map_option json_stringify
        (finite_header_number hs (family_prefix (rs_family s) @ ''-primary-used-percent'') False)) (fst r) else fst r)"
  have "clean_headers m1" unfolding m1_def using assms(1) put_opt_clean header_number_opt_clean by simp
  then have "clean_headers (put_credits (rs_credits s) (put_opt n (rs_name s)
      (put_window p q (rs_secondary s) (put_window p' q' (rs_primary s) m1))))" for n p q p' q'
    using assms(2) unfolding snapshot_clean_def
    by (intro put_credits_clean put_opt_clean put_window_clean) blast+
  then show ?thesis using assms(1) by (simp add: project_snapshot_def Let_def m1_def)
qed

lemma clean_lower: "clean v \<Longrightarrow> clean (to_lower v)"
proof -
  have low: "\<not> control (char_of (n + 32 :: nat))" if "65 \<le> n" "n \<le> 90" for n
  proof -
    have "n \<in> set [65..<91]" unfolding set_upt atLeastLessThan_iff using that by simp
    moreover have "\<forall>n \<in> set [65..<91]. \<not> control (char_of (n + 32 :: nat))" by code_simp
    ultimately show ?thesis by blast
  qed
  have "\<not> control (lower_char c)" if "\<not> control c" for c
    using that low [of "byte_of c"] by (simp add: lower_char_def less_eq_char_def)
  then show "clean v \<Longrightarrow> clean (to_lower v)" by (simp add: clean_def to_lower_def list_all_iff)
qed

lemma clean_replace: "clean v \<Longrightarrow> \<not> control b \<Longrightarrow> clean (replace_char a b v)"
  by (auto simp: clean_def replace_char_def list_all_iff)

lemma active_limit_clean: "pred_option clean (active_limit hs projected)"
proof (cases "active_limit hs projected")
  case (Some w)
  then obtain v where v: "nonempty (map_option trim (bounded_rate_limit_header hs ''x-codex-active-limit'' MAX_RATE_LIMIT_ID_BYTES)) = Some v"
      "w = replace_char (CHR ''-'') (CHR ''_'') (to_lower v)"
    by (auto simp: active_limit_def Let_def split: option.splits if_splits)
  with trimmed_clean [of hs "''x-codex-active-limit''" MAX_RATE_LIMIT_ID_BYTES] have "clean v" by simp
  then have "clean w" unfolding v(2) by (intro clean_replace clean_lower) (simp_all add: control_def less_char_def)
  with Some show ?thesis by simp
qed simp

lemma reached_type_clean: "pred_option clean (reached_type hs)"
proof -
  have "\<forall>v \<in> set RATE_LIMIT_REACHED_TYPES. clean v" by code_simp
  then show ?thesis by (auto simp: reached_type_def pred_option_def split: option.splits if_splits)
qed

lemma fold_projections:
  "clean_headers (fst r) \<Longrightarrow> (\<And>s. s \<in> set ss \<Longrightarrow> snapshot_clean s) \<Longrightarrow>
   clean_headers (fst (foldl (\<lambda>r s. project_snapshot hs s r) r ss))"
  by (induction ss arbitrary: r) (simp_all add: project_snapshot_clean)

section \<open>How many\<close>

lemma family_ids_ok:
  assumes "distinct ids" "''codex'' \<notin> set ids"
  shows "distinct (family_ids names ids) \<and> ''codex'' \<notin> set (family_ids names ids)"
  using assms
  by (induction names ids rule: family_ids.induct)
    (auto simp: Let_def anchored_family_def split: option.splits if_splits)

lemma add_snapshots_ok:
  assumes "length sn < MAX_RATE_LIMIT_FAMILIES" "list_all some_limit sn" "distinct (map rs_family sn @ families)"
    and "\<And>s. s \<in> set sn \<Longrightarrow> snapshot_clean s"
  shows "length (add_snapshots hs families sn) \<le> MAX_RATE_LIMIT_FAMILIES \<and>
     distinct (map rs_family (add_snapshots hs families sn)) \<and> list_all some_limit (add_snapshots hs families sn) \<and>
     (\<forall>s \<in> set (add_snapshots hs families sn). snapshot_clean s)"
  using assms
proof (induction hs families sn rule: add_snapshots.induct)
  case (2 hs family families sn)
  define s where "s = rate_limit_snapshot hs family"
  define sn1 where "sn1 = (if some_limit s then sn @ [s] else sn)"
  have fam: "rs_family s = family" by (simp add: s_def rate_limit_snapshot_def Let_def)
  have sn1: "list_all some_limit sn1" "distinct (map rs_family sn1 @ families)" "\<forall>s \<in> set sn1. snapshot_clean s"
    "length sn1 \<le> MAX_RATE_LIMIT_FAMILIES"
    using "2.prems" fam snapshot_clean [of hs family] by (auto simp: sn1_def s_def [symmetric])
  have step: "add_snapshots hs (family # families) sn =
      (if length sn1 \<ge> MAX_RATE_LIMIT_FAMILIES then sn1 else add_snapshots hs families sn1)"
    by (simp add: Let_def sn1_def s_def)
  show ?case
  proof (cases "length sn1 \<ge> MAX_RATE_LIMIT_FAMILIES")
    case True
    with sn1 show ?thesis unfolding step by simp
  next
    case False
    from "2.IH" [OF s_def sn1_def False] False sn1 show ?thesis unfolding step by simp
  qed
qed simp

text \<open>Whatever rate-limit headers an upstream sends, at most sixteen limits are reported, each family once
  and none without content, and no value that the error message passes on holds a control character.\<close>

theorem rate_limits_contained:
  "length (rate_limit_snapshots hs) \<le> MAX_RATE_LIMIT_FAMILIES \<and>
   distinct (map rs_family (rate_limit_snapshots hs)) \<and> list_all some_limit (rate_limit_snapshots hs) \<and>
   clean_headers (rate_limit_response_headers hs)"
proof -
  let ?d = "rate_limit_snapshot hs ''codex''"
  let ?families = "sort (family_ids (map fst hs) [])"
  have d: "rs_family ?d = ''codex''" by (simp add: rate_limit_snapshot_def Let_def)
  have "distinct ?families" "''codex'' \<notin> set ?families" using family_ids_ok [of "[]" "map fst hs"] by simp_all
  then have all: "length (rate_limit_snapshots hs) \<le> MAX_RATE_LIMIT_FAMILIES \<and>
      distinct (map rs_family (rate_limit_snapshots hs)) \<and> list_all some_limit (rate_limit_snapshots hs) \<and>
      (\<forall>s \<in> set (rate_limit_snapshots hs). snapshot_clean s)"
    unfolding rate_limit_snapshots_def Let_def
    by (intro add_snapshots_ok) (auto simp: d MAX_RATE_LIMIT_FAMILIES_def snapshot_clean)
  then have "clean_headers (fst (foldl (\<lambda>r s. project_snapshot hs s r) ([], []) (rate_limit_snapshots hs)))"
    by (intro fold_projections) auto
  then have "clean_headers (rate_limit_response_headers hs)"
    unfolding rate_limit_response_headers_def Let_def case_prod_unfold
    by (intro put_opt_clean active_limit_clean reached_type_clean)
  with all show ?thesis by blast
qed

end
