(* ===== verification/Ws_Turn.thy ===== *)
theory Ws_Turn
  imports Ws_Limits Sse_Prefix Sse_Frames "HOL-Library.Multiset"
begin

text \<open>
  One turn of the Responses WebSocket, \<open>process\<close> in \<open>src/router/src/responses-websocket.mjs\<close>: a request
  message is validated, completed from the stored continuation and sent to the router's own HTTP endpoint;
  the answer is relayed as messages, from an event stream or from one finished JSON body.

  The environment answers the request, delivers the body piece by piece, and decides after which message
  of the turn the peer has left (\<open>te_leaves\<close>); a peer that leaves has its socket closed. A message that is sent
  is recorded as the JSON value that \<open>sendJson\<close> prints into a text frame.
\<close>

section \<open>The surroundings of a turn\<close>

datatype body_read = Chunk bytes | Read_Failed "string option" | Peer_Gone | Drain_Timeout

record fetch_response =
  fr_status :: nat
  fr_headers :: headers
  fr_body :: "body_read list option"

datatype fetch_answer = Fetch_Failed "string option" | Fetch_Aborted | Answered fetch_response

record turn_env =
  te_opts :: ws_options
  te_buffered :: nat
  te_leaves :: "nat \<Rightarrow> bool"
  te_uuid :: string
  te_fetch :: "headers \<Rightarrow> string \<Rightarrow> fetch_answer"
  te_headers :: req_headers
  te_key :: string
  te_internal :: "json option"

record session =
  se_closed :: bool
  se_continuations :: "(json \<times> continuation) list"
  se_turn_state :: "turn_state option"

text \<open>What a turn has sent, and what it remembers of the stream.\<close>

record turn =
  tn_sent :: "json list"
  tn_closed :: bool
  tn_items :: "json list"
  tn_bytes :: nat
  tn_overflow :: bool
  tn_completed :: "json option"
  tn_failure :: bool
  tn_terminal :: bool

definition new_turn :: turn where
  "new_turn = \<lparr>tn_sent = [], tn_closed = False, tn_items = [], tn_bytes = 0, tn_overflow = False,
     tn_completed = None, tn_failure = False, tn_terminal = False\<rparr>"

text \<open>\<open>sendJsonWithBackpressure\<close>: false when the peer is gone once the write has drained.\<close>

definition deliver :: "(nat \<Rightarrow> bool) \<Rightarrow> json \<Rightarrow> turn \<Rightarrow> turn \<times> bool" where
  "deliver leaves msg t =
     (if tn_closed t then (t, False)
      else let t1 = t\<lparr>tn_sent := tn_sent t @ [msg]\<rparr>
           in if leaves (length (tn_sent t1)) then (t1\<lparr>tn_closed := True\<rparr>, False) else (t1, True))"

fun deliver_all :: "(nat \<Rightarrow> bool) \<Rightarrow> json list \<Rightarrow> turn \<Rightarrow> turn \<times> bool" where
  "deliver_all leaves [] t = (t, True)"
| "deliver_all leaves (m # ms) t =
     (let (t1, alive) = deliver leaves m t in if alive then deliver_all leaves ms t1 else (t1, False))"

definition error_message :: "nat \<Rightarrow> json \<Rightarrow> headers option \<Rightarrow> json" where
  "error_message status err hs =
     JObj ([(''type'', JStr ''error''), (''status'', JInt (int status)), (''error'', err)] @
           opt_prop ''headers'' (map_option headers_json hs))"

definition send_error :: "nat \<Rightarrow> json \<Rightarrow> headers option \<Rightarrow> turn \<Rightarrow> turn" where
  "send_error status err hs t =
     (if tn_closed t then t else t\<lparr>tn_sent := tn_sent t @ [error_message status err hs]\<rparr>)"

definition simple_error :: "string \<Rightarrow> string \<Rightarrow> json" where
  "simple_error kind message = JObj [(''type'', JStr kind), (''message'', JStr message)]"

section \<open>Continuations\<close>

definition continuation_state :: "json list \<Rightarrow> json list \<Rightarrow> nat \<Rightarrow> continuation option" where
  "continuation_state input output max_bytes =
     (if length (json_stringify (JObj [(''input'', JArr input), (''output'', JArr output)])) \<le> max_bytes
      then Some \<lparr>ct_input = input, ct_output = output\<rparr> else None)"

definition continuation_item_key :: "json \<Rightarrow> string option" where
  "continuation_item_key item =
     (case nonempty (as_str (obj_get item ''call_id'')) of
        Some i \<Rightarrow> Some (''call:'' @ i)
      | None \<Rightarrow> (case nonempty (as_str (obj_get item ''id'')) of Some i \<Rightarrow> Some (''id:'' @ i) | None \<Rightarrow> None))"

text \<open>Items are told apart by identity: their place in the list of finished items.\<close>

definition done_by_key :: "json list \<Rightarrow> (string \<times> nat) list" where
  "done_by_key items =
     foldl (\<lambda>m (i, item). case continuation_item_key item of None \<Rightarrow> m | Some k \<Rightarrow> AList.update k i m)
       [] (List.enumerate 0 items)"

definition done_for :: "json list \<Rightarrow> json \<Rightarrow> nat option" where
  "done_for items item =
     (case continuation_item_key item of None \<Rightarrow> None | Some k \<Rightarrow> map_of (done_by_key items) k)"

definition reconciled_output :: "json list \<Rightarrow> json list \<Rightarrow> json list" where
  "reconciled_output completed items =
     (if items = [] then completed
      else map (\<lambda>item. case done_for items item of Some i \<Rightarrow> items ! i | None \<Rightarrow> item) completed @
           map snd (filter (\<lambda>(i, item). Some i \<notin> set (map (done_for items) completed)) (List.enumerate 0 items)))"

definition reconciled_continuation_output :: "json option \<Rightarrow> json list \<Rightarrow> json list" where
  "reconciled_continuation_output completed items =
     (case as_arr completed of None \<Rightarrow> items | Some outs \<Rightarrow> reconciled_output outs items)"

section \<open>Errors of the internal endpoint\<close>

definition MAX_ERROR_PLAN_TYPE_BYTES :: nat where "MAX_ERROR_PLAN_TYPE_BYTES = 128"
definition MIN_CODEX_RESET_AT :: int where "MIN_CODEX_RESET_AT = -8334601228800"
definition MAX_CODEX_RESET_AT :: int where "MAX_CODEX_RESET_AT = 8210266876799"

fun is_object_type :: "json option \<Rightarrow> bool" where
  "is_object_type (Some (JObj _)) = True"
| "is_object_type (Some (JArr _)) = True"
| "is_object_type _ = False"

definition error_source :: "json option \<Rightarrow> json" where
  "error_source parsed =
     (if is_object_type (opt_get parsed ''error'') then the (opt_get parsed ''error'')
      else if is_object_type parsed then the parsed else JObj [])"

definition valid_reset_at :: "json option \<Rightarrow> bool" where
  "valid_reset_at v =
     (case v of Some j \<Rightarrow> is_safe_integer j \<and> (case as_int v of Some n \<Rightarrow> MIN_CODEX_RESET_AT \<le> n \<and> n \<le> MAX_CODEX_RESET_AT | None \<Rightarrow> False)
      | None \<Rightarrow> False)"

definition error_shape :: "bytes \<Rightarrow> string \<Rightarrow> string \<Rightarrow> json" where
  "error_shape body fallback_type fallback_message =
     (let source = error_source (json_parse (utf8_lossy body));
          text = (\<lambda>k. as_str (obj_get source k));
          plan = (case text ''plan_type'' of
                    Some s \<Rightarrow> if length s \<le> MAX_ERROR_PLAN_TYPE_BYTES then Some (JStr s) else None | None \<Rightarrow> None);
          reset = (if valid_reset_at (obj_get source ''resets_at'') then obj_get source ''resets_at'' else None)
      in JObj ([(''type'', JStr (case text ''type'' of Some s \<Rightarrow> s | None \<Rightarrow> fallback_type))] @
               opt_prop ''code'' (map_option JStr (text ''code'')) @
               [(''message'', JStr (case text ''message'' of Some s \<Rightarrow> s | None \<Rightarrow> fallback_message))] @
               opt_prop ''plan_type'' plan @ opt_prop ''resets_at'' reset))"

section \<open>Relaying an event stream\<close>

text \<open>\<open>TextDecoder("utf-8", {fatal: true})\<close> on a stream: what is complete is decoded, the start of a character
  waits for its rest, and a byte order mark at the very start is dropped. \<open>None\<close> is the exception.\<close>

definition incomplete :: "bytes \<Rightarrow> bool" where
  "incomplete b =
     (case b of
        [a] \<Rightarrow> is_lead2 a \<or> is_lead3 a \<or> is_lead4 a
      | [a, b] \<Rightarrow> (is_lead3 a \<and> lead3_ok a b) \<or> (is_lead4 a \<and> lead4_ok a b)
      | [a, b, c] \<Rightarrow> is_lead4 a \<and> lead4_ok a b \<and> is_cont c
      | _ \<Rightarrow> False)"

function decode_ready :: "bytes \<Rightarrow> (string \<times> bytes) option" where
  "decode_ready b =
     (if b = [] then Some ([], [])
      else if seq_len b \<noteq> 0 then
        map_option (apfst ((@) (take (seq_len b) b))) (decode_ready (drop (seq_len b) b))
      else if incomplete b then Some ([], b) else None)"
  by pat_completeness auto
termination
  by (relation "measure length") auto

declare decode_ready.simps [simp del]

record reader =
  rd_held :: bytes
  rd_started :: bool
  rd_text :: string
  rd_lines :: "string list"
  rd_chars :: nat

definition new_reader :: reader where
  "new_reader = \<lparr>rd_held = [], rd_started = False, rd_text = [], rd_lines = [], rd_chars = 0\<rparr>"

definition rd_decode :: "bytes \<Rightarrow> reader \<Rightarrow> (reader \<times> string) option" where
  "rd_decode chunk r =
     (case decode_ready (rd_held r @ chunk) of None \<Rightarrow> None
      | Some (t, h) \<Rightarrow>
          Some (r\<lparr>rd_held := h, rd_started := rd_started r \<or> t \<noteq> []\<rparr>,
                if \<not> rd_started r \<and> starts_with UTF8_BOM t then drop 3 t else t))"

datatype flow = Go | Stop | Throw "string option" | Aborted

definition INVALID_SSE :: string where "INVALID_SSE = ''ERR_RESPONSES_WS_INVALID_SSE''"
definition TOO_LARGE :: string where "TOO_LARGE = ''ERR_RESPONSES_WS_EVENT_TOO_LARGE''"

text \<open>What happens to one event.\<close>

definition FAILURE_TYPES :: "string list" where
  "FAILURE_TYPES = [''error'', ''response.failed'', ''response.incomplete'']"

definition has_type :: "json \<Rightarrow> string \<Rightarrow> bool" where
  "has_type event k \<longleftrightarrow> obj_get event ''type'' = Some (JStr k)"

definition with_status :: "json \<Rightarrow> json" where
  "with_status event =
     (if has_type event ''error'' \<and>
         \<not> (case as_int (obj_get event ''status'') of Some n \<Rightarrow> 400 \<le> n \<and> n \<le> 599 | None \<Rightarrow> False)
      then with_prop event ''status'' (JInt 502) else event)"

definition keep_item :: "nat \<Rightarrow> json \<Rightarrow> turn \<Rightarrow> turn" where
  "keep_item max_bytes event t =
     (case obj_get event ''item'' of
        Some item \<Rightarrow>
          if has_type event ''response.output_item.done'' \<and> truthy (Some item) then
            (if tn_bytes t + length (json_stringify item) \<le> max_bytes
             then t\<lparr>tn_items := tn_items t @ [item], tn_bytes := tn_bytes t + length (json_stringify item)\<rparr>
             else t\<lparr>tn_overflow := True\<rparr>)
          else t
      | None \<Rightarrow> t)"

definition note_terminal :: "json \<Rightarrow> turn \<Rightarrow> turn" where
  "note_terminal event t =
     (if has_type event ''response.completed''
        then t\<lparr>tn_completed := obj_get event ''response'', tn_terminal := True\<rparr>
      else if \<exists>k \<in> set FAILURE_TYPES. has_type event k
        then t\<lparr>tn_failure := True, tn_terminal := True\<rparr>
      else t)"

definition on_event :: "turn_env \<Rightarrow> string \<Rightarrow> turn \<Rightarrow> turn \<times> flow" where
  "on_event env data t =
     (case json_parse data of
        None \<Rightarrow> (t, Throw (Some INVALID_SSE))
      | Some event \<Rightarrow>
          if \<not> is_obj event \<or> tn_terminal t then (t, Go)
          else
            let event = with_status event;
                (t1, alive) = deliver (te_leaves env) event t
            in if \<not> alive then (t1, Stop)
               else (note_terminal event (keep_item (max_continuation_bytes (te_opts env)) event t1), Go))"

definition dispatch :: "turn_env \<Rightarrow> reader \<Rightarrow> turn \<Rightarrow> reader \<times> turn \<times> flow" where
  "dispatch env r t =
     (if rd_lines r = [] then (r, t, Go)
      else
        let data = join [LF] (rd_lines r);
            r1 = r\<lparr>rd_lines := [], rd_chars := 0\<rparr>
        in if data = DONE_MARK then (r1, t, Go) else (let (t1, f) = on_event env data t in (r1, t1, f)))"

definition consume_line :: "turn_env \<Rightarrow> string \<Rightarrow> reader \<Rightarrow> turn \<Rightarrow> reader \<times> turn \<times> flow" where
  "consume_line env raw r t =
     (let line = strip_cr raw in
      if line = [] then dispatch env r t
      else if starts_with '':'' line \<or> \<not> starts_with DATA_FIELD line then (r, t, Go)
      else
        let value = data_value line;
            chars = rd_chars r + length value + 1;
            r1 = r\<lparr>rd_chars := chars\<rparr>
        in if chars > max_event_bytes (te_opts env) then (r1, t, Throw (Some TOO_LARGE))
           else (r1\<lparr>rd_lines := rd_lines r1 @ [value]\<rparr>, t, Go))"

lemma dispatch_text [simp]: "rd_text (fst (dispatch env r t)) = rd_text r"
  by (simp add: dispatch_def Let_def split: prod.split)

lemma consume_line_text [simp]: "rd_text (fst (consume_line env l r t)) = rd_text r"
  by (simp add: consume_line_def Let_def)

function take_lines :: "turn_env \<Rightarrow> reader \<Rightarrow> turn \<Rightarrow> reader \<times> turn \<times> flow" where
  "take_lines env r t =
     (case index_of [LF] (rd_text r) of
        None \<Rightarrow> (r, t, Go)
      | Some i \<Rightarrow>
          let (r1, t1, f) = consume_line env (take i (rd_text r)) (r\<lparr>rd_text := drop (Suc i) (rd_text r)\<rparr>) t
          in if f = Go then take_lines env r1 t1 else (r1, t1, f))"
  by pat_completeness auto
termination
proof (relation "measure (\<lambda>(env, r, t). length (rd_text r))", goal_cases)
  case (2 env r t i x r1 y t1 f)
  then have "r1 = fst (consume_line env (take i (rd_text r)) (r\<lparr>rd_text := drop (Suc i) (rd_text r)\<rparr>) t)"
    by (metis fst_conv)
  then have "rd_text r1 = drop (Suc i) (rd_text r)" by simp
  moreover have "Suc i \<le> length (rd_text r)" using index_of_Some [OF 2(1)] by simp
  ultimately show ?case by simp
qed simp

declare take_lines.simps [simp del]

definition DECODE_ERROR :: string where "DECODE_ERROR = ''ERR_ENCODING_INVALID_ENCODED_DATA''"

definition relay_chunk :: "turn_env \<Rightarrow> bytes \<Rightarrow> reader \<Rightarrow> turn \<Rightarrow> reader \<times> turn \<times> flow" where
  "relay_chunk env chunk r t =
     (case rd_decode chunk r of
        None \<Rightarrow> (r, t, Throw (Some DECODE_ERROR))
      | Some (r1, s) \<Rightarrow>
          let r2 = r1\<lparr>rd_text := rd_text r1 @ s\<rparr>
          in if length (rd_text r2) > max_event_bytes (te_opts env) then (r2, t, Throw (Some TOO_LARGE))
             else take_lines env r2 t)"

definition relay_end :: "turn_env \<Rightarrow> reader \<Rightarrow> turn \<Rightarrow> turn \<times> flow" where
  "relay_end env r t =
     (if rd_held r \<noteq> [] then (t, Throw (Some DECODE_ERROR))
      else
        let (r1, t1, f) = (if rd_text r = [] then (r, t, Go) else consume_line env (rd_text r) r t)
        in if f \<noteq> Go then (t1, f) else (let (r2, t2, f2) = dispatch env r1 t1 in (t2, f2)))"

fun relay_reads :: "turn_env \<Rightarrow> body_read list \<Rightarrow> reader \<Rightarrow> turn \<Rightarrow> turn \<times> flow" where
  "relay_reads env [] r t = relay_end env r t"
| "relay_reads env (Chunk c # rs) r t =
     (let (r1, t1, f) = relay_chunk env c r t in if f = Go then relay_reads env rs r1 t1 else (t1, f))"
| "relay_reads env (Read_Failed code # rs) r t = (t, Throw code)"
| "relay_reads env (Peer_Gone # rs) r t = (t\<lparr>tn_closed := True\<rparr>, Aborted)"
| "relay_reads env (Drain_Timeout # rs) r t = (if tn_failure t then (t, Aborted) else relay_reads env rs r t)"

definition relay_sse :: "turn_env \<Rightarrow> body_read list option \<Rightarrow> turn \<Rightarrow> turn \<times> flow" where
  "relay_sse env body t =
     (case body of None \<Rightarrow> (t, Throw None) | Some rs \<Rightarrow> relay_reads env rs new_reader t)"

section \<open>A turn\<close>

text \<open>What became of the turn: its messages, and the continuation it leaves (\<open>None\<close>: what there was stays).\<close>

type_synonym verdict_of_turn = "turn \<times> flow \<times> (json \<times> continuation) list option"

definition continuation_list :: "json \<Rightarrow> continuation option \<Rightarrow> (json \<times> continuation) list" where
  "continuation_list i c = (case c of None \<Rightarrow> [] | Some x \<Rightarrow> [(i, x)])"

definition LOST_STREAM :: string where "LOST_STREAM = ''local_router_stream_failed''"

definition stream_outcome :: "turn_env \<Rightarrow> json list \<Rightarrow> turn \<Rightarrow> verdict_of_turn" where
  "stream_outcome env input t =
     (if truthy (opt_get (tn_completed t) ''id'') \<and> \<not> tn_failure t then
        let output = reconciled_continuation_output (opt_get (tn_completed t) ''output'') (tn_items t);
            c = (if tn_overflow t then None else continuation_state input output (max_continuation_bytes (te_opts env)))
        in (t, Go, Some (continuation_list (the (opt_get (tn_completed t) ''id'')) c))
      else if \<not> tn_failure t \<and> \<not> tn_closed t then
        (send_error 502 (simple_error LOST_STREAM
           ''The internal Responses stream ended before response.completed.'') None t, Go, None)
      else (t, Go, None))"

definition stream_turn :: "turn_env \<Rightarrow> json list \<Rightarrow> fetch_response \<Rightarrow> turn \<Rightarrow> verdict_of_turn" where
  "stream_turn env input response t =
     (let (t1, alive) = deliver_all (te_leaves env) (header_messages (fr_headers response)) t
      in if \<not> alive then (t1, Stop, None)
         else (case relay_sse env (fr_body response) t1 of
                 (t2, Throw code) \<Rightarrow> (t2, Throw code, None)
               | (t2, Aborted) \<Rightarrow> (t2, Aborted, None)
               | (t2, _) \<Rightarrow> stream_outcome env input t2))"

text \<open>\<open>readResponseBody\<close>\<close>

fun read_body :: "nat \<Rightarrow> body_read list \<Rightarrow> bytes \<Rightarrow> turn \<Rightarrow> turn \<times> flow \<times> bytes" where
  "read_body limit [] acc t = (t, Go, acc)"
| "read_body limit (Chunk c # rs) acc t =
     (if length acc + length c > limit then (t, Throw (Some ''ERR_UPSTREAM_RESPONSE_TOO_LARGE''), [])
      else read_body limit rs (acc @ c) t)"
| "read_body limit (Read_Failed code # rs) acc t = (t, Throw code, [])"
| "read_body limit (Peer_Gone # rs) acc t = (t\<lparr>tn_closed := True\<rparr>, Aborted, [])"
| "read_body limit (Drain_Timeout # rs) acc t = read_body limit rs acc t"

definition read_response_body :: "turn_env \<Rightarrow> nat \<Rightarrow> fetch_response \<Rightarrow> turn \<Rightarrow> turn \<times> flow \<times> bytes" where
  "read_response_body env max_bytes response t =
     (case fr_body response of None \<Rightarrow> (t, Go, [])
      | Some rs \<Rightarrow> read_body (if max_bytes > 0 then max_bytes else te_buffered env) rs [] t)"

definition completed_response :: "json option \<Rightarrow> bool" where
  "completed_response v =
     (case v of
        Some j \<Rightarrow> is_obj j \<and> nonempty (as_str (obj_get j ''id'')) \<noteq> None \<and>
          obj_get j ''status'' = Some (JStr ''completed'') \<and> as_arr (obj_get j ''output'') \<noteq> None
      | None \<Rightarrow> False)"

definition json_messages :: "json \<Rightarrow> json list \<Rightarrow> json list" where
  "json_messages response output =
     JObj [(''type'', JStr ''response.created''),
           (''response'', with_prop (with_prop response ''status'' (JStr ''in_progress'')) ''output'' (JArr []))] #
     map (\<lambda>(i, item). JObj [(''type'', JStr ''response.output_item.done''), (''output_index'', JInt (int i)), (''item'', item)])
       (List.enumerate 0 output) @
     [JObj [(''type'', JStr ''response.completed''), (''response'', response)]]"

definition PROTOCOL_ERROR :: string where "PROTOCOL_ERROR = ''local_router_protocol_error''"

definition json_turn :: "turn_env \<Rightarrow> json list \<Rightarrow> fetch_response \<Rightarrow> turn \<Rightarrow> verdict_of_turn" where
  "json_turn env input response t =
     (case read_response_body env (max_event_bytes (te_opts env)) response t of
        (t1, Go, body) \<Rightarrow>
          (case json_parse (utf8_lossy body) of
             None \<Rightarrow> (send_error 502 (simple_error PROTOCOL_ERROR
                 ''The internal Responses endpoint returned invalid response JSON.'') None t1, Go, None)
           | Some j \<Rightarrow>
               if \<not> completed_response (Some j) then
                 (send_error 502 (simple_error PROTOCOL_ERROR
                   ''The internal Responses endpoint returned an invalid completed response.'') None t1, Go, None)
               else
                 let output = the (as_arr (obj_get j ''output''));
                     (t2, alive) = deliver_all (te_leaves env) (header_messages (fr_headers response) @ json_messages j output) t1
                 in if \<not> alive then (t2, Stop, None)
                    else (t2, Go, Some (continuation_list (the (obj_get j ''id''))
                            (continuation_state input output (max_continuation_bytes (te_opts env))))))
      | (t1, f, _) \<Rightarrow> (t1, f, None))"

text \<open>\<open>sniffUndeclaredResponse\<close>: the probe reads on until the detector has decided.\<close>

fun sniff :: "body_read list \<Rightarrow> detector \<Rightarrow> turn \<Rightarrow> turn \<times> flow \<times> bool" where
  "sniff [] d t = (t, Go, fst (snd (dt_end d)) = EventStream)"
| "sniff (Chunk c # rs) d t =
     (case dt_write c d of (d1, v, _) \<Rightarrow> if v = Pending then sniff rs d1 t else (t, Go, v = EventStream))"
| "sniff (Read_Failed code # rs) d t = (t, Throw code, False)"
| "sniff (Peer_Gone # rs) d t = (t\<lparr>tn_closed := True\<rparr>, Aborted, False)"
| "sniff (Drain_Timeout # rs) d t = sniff rs d t"

definition sniff_response :: "fetch_response \<Rightarrow> turn \<Rightarrow> turn \<times> flow \<times> bool" where
  "sniff_response response t =
     (case fr_body response of None \<Rightarrow> (t, Go, False) | Some rs \<Rightarrow> sniff rs (new_detector None) t)"

definition content_type :: "fetch_response \<Rightarrow> string" where
  "content_type response =
     (case map_of (fr_headers response) ''content-type'' of Some v \<Rightarrow> to_lower v | None \<Rightarrow> [])"

definition declared_json :: "string \<Rightarrow> bool" where
  "declared_json ct =
     (let media = trim (hd (split_at_char (CHR '';'') ct))
      in media = ''application/json'' \<or> starts_with (rev ''+json'') (rev media))"

definition is_event_stream :: "string \<Rightarrow> bool" where
  "is_event_stream ct \<longleftrightarrow> contains_sub ct ''text/event-stream''"

definition accepted_response :: "turn_env \<Rightarrow> json list \<Rightarrow> fetch_response \<Rightarrow> turn \<Rightarrow> verdict_of_turn" where
  "accepted_response env input response t =
     (let ct = content_type response in
      if is_event_stream ct then stream_turn env input response t
      else if declared_json ct then json_turn env input response t
      else (case sniff_response response t of
              (t1, Go, stream) \<Rightarrow> if stream then stream_turn env input response t1 else json_turn env input response t1
            | (t1, f, _) \<Rightarrow> (t1, f, None)))"

definition rejected_response :: "turn_env \<Rightarrow> fetch_response \<Rightarrow> turn \<Rightarrow> verdict_of_turn" where
  "rejected_response env response t =
     (case read_response_body env (max_error_bytes (te_opts env)) response t of
        (t1, Go, body) \<Rightarrow>
          (send_error (fr_status response)
             (error_shape body ''local_router_error'' ''The local router rejected the Responses request.'')
             (response_headers (fr_headers response) True) t1, Go, None)
      | (t1, f, _) \<Rightarrow> (t1, f, None))"

definition next_turn_state :: "turn_state option \<Rightarrow> headers \<Rightarrow> string option \<Rightarrow> turn_state option" where
  "next_turn_state ts hs current =
     (case nonempty (safe_header_value (map_option JStr (map_of hs ''x-codex-turn-state''))) of
        None \<Rightarrow> ts
      | Some v \<Rightarrow>
          (case ts of
             None \<Rightarrow> Some \<lparr>ts_value = v, ts_turn_id = current\<rparr>
           | Some s \<Rightarrow>
               if ts_value s = [] \<or> (current \<noteq> None \<and> current \<noteq> ts_turn_id s)
               then Some \<lparr>ts_value = v, ts_turn_id = current\<rparr> else ts))"

text \<open>The \<open>catch\<close> around the request.\<close>

definition caught :: "turn \<Rightarrow> flow \<Rightarrow> turn" where
  "caught t f =
     (case f of
        Throw code \<Rightarrow>
          send_error 502 (simple_error (case nonempty code of Some c \<Rightarrow> c | None \<Rightarrow> LOST_STREAM)
            ''The local router lost the internal Responses stream.'') None t
      | _ \<Rightarrow> t)"

definition close_session :: "turn \<Rightarrow> session \<Rightarrow> session" where
  "close_session t s = (if tn_closed t then s\<lparr>se_closed := True, se_continuations := []\<rparr> else s)"

definition is_ok :: "nat \<Rightarrow> bool" where "is_ok status \<longleftrightarrow> 200 \<le> status \<and> status \<le> 299"

definition run_request :: "turn_env \<Rightarrow> json \<Rightarrow> json option \<Rightarrow> session \<Rightarrow> session \<times> json list" where
  "run_request env full metadata s =
     (let hs = loopback_headers (te_headers env) (te_key env) metadata (se_turn_state s) (te_internal env) in
      case te_fetch env hs (json_stringify full) of
        Fetch_Failed code \<Rightarrow> (s, tn_sent (caught new_turn (Throw code)))
      | Fetch_Aborted \<Rightarrow> (s\<lparr>se_closed := True, se_continuations := []\<rparr>, [])
      | Answered response \<Rightarrow>
          let ok = is_ok (fr_status response);
              s1 = (if ok then s\<lparr>se_turn_state :=
                      next_turn_state (se_turn_state s) (fr_headers response) (metadata_turn_id metadata)\<rparr> else s);
              input = the (as_arr (obj_get full ''input''));
              (t, f, cs) = (if ok then accepted_response env input response new_turn
                            else rejected_response env response new_turn);
              s2 = (case cs of None \<Rightarrow> s1 | Some c \<Rightarrow> s1\<lparr>se_continuations := c\<rparr>)
          in (close_session t s2, tn_sent (caught t f)))"

section \<open>Requests\<close>

datatype built = Refused nat json | Built json

definition invalid_request :: "nat \<Rightarrow> string \<Rightarrow> built" where
  "invalid_request status message = Refused status (simple_error ''invalid_request_error'' message)"

definition without_envelope :: "json \<Rightarrow> json" where
  "without_envelope request =
     (let stripped = without_prop (without_prop (without_prop request ''type'') ''generate'') ''previous_response_id''
      in case canonical_client_metadata (obj_get request ''client_metadata'') of
           None \<Rightarrow> without_prop stripped ''client_metadata''
         | Some m \<Rightarrow> with_prop stripped ''client_metadata'' m)"

definition previous_id :: "json \<Rightarrow> string option" where
  "previous_id request = nonempty (as_str (obj_get request ''previous_response_id''))"

definition continued :: "session \<Rightarrow> json \<Rightarrow> json list \<Rightarrow> built" where
  "continued s request input =
     (case previous_id request of
        None \<Rightarrow> Built (without_envelope request)
      | Some i \<Rightarrow>
          (case map_of (se_continuations s) (JStr i) of
             None \<Rightarrow> Refused 409 (JObj [(''type'', JStr ''invalid_request_error''),
                 (''code'', JStr ''previous_response_not_found''),
                 (''message'', JStr ''Previous response was not found. Retrying the full request.'')])
           | Some c \<Rightarrow>
               Built (with_prop (without_envelope request) ''input'' (JArr (ct_input c @ ct_output c @ input)))))"

definition build_request :: "ws_options \<Rightarrow> session \<Rightarrow> string \<Rightarrow> built" where
  "build_request opts s text =
     (case json_parse text of
        None \<Rightarrow> invalid_request 400 ''Responses WebSocket messages must contain valid JSON.''
      | Some request \<Rightarrow>
          if \<not> has_type request ''response.create''
            then invalid_request 400 ''Responses WebSocket messages must have type response.create.''
          else (case as_arr (obj_get request ''input'') of
              None \<Rightarrow> invalid_request 400 ''response.create requires an input array and stream=true.''
            | Some input \<Rightarrow>
                if obj_get request ''stream'' \<noteq> Some (JBool True)
                  then invalid_request 400 ''response.create requires an input array and stream=true.''
                else (case continued s request input of
                    Built full \<Rightarrow>
                      if length (json_stringify full) > max_message_bytes opts
                      then Refused 413 (simple_error ''request_too_large''
                        (''Reconstructed Responses request exceeds '' @ nat_str (max_message_bytes opts) @ '' bytes.''))
                      else Built full
                  | r \<Rightarrow> r)))"

definition prewarm_messages :: "string \<Rightarrow> json list" where
  "prewarm_messages i =
     [JObj [(''type'', JStr ''response.created''), (''response'', JObj [(''id'', JStr i)])],
      JObj [(''type'', JStr ''response.completed''),
            (''response'', JObj [(''id'', JStr i), (''usage'', JObj [(''input_tokens'', JInt 0),
               (''output_tokens'', JInt 0), (''total_tokens'', JInt 0)])])]]"

definition prewarm :: "turn_env \<Rightarrow> json \<Rightarrow> session \<Rightarrow> session \<times> json list" where
  "prewarm env full s =
     (let i = ''resp_router_prewarm_'' @ te_uuid env;
          input = the (as_arr (obj_get full ''input''));
          (t, _) = deliver_all (te_leaves env) (prewarm_messages i) new_turn
      in (close_session t (s\<lparr>se_continuations := [(JStr i, \<lparr>ct_input = input, ct_output = []\<rparr>)]\<rparr>), tn_sent t))"

definition process :: "turn_env \<Rightarrow> string \<Rightarrow> session \<Rightarrow> session \<times> json list" where
  "process env text s =
     (if se_closed s then (s, [])
      else case build_request (te_opts env) s text of
          Refused status err \<Rightarrow> (s, [error_message status err None])
        | Built full \<Rightarrow>
            let request = the (json_parse text) in
            if obj_get request ''generate'' = Some (JBool False) then prewarm env full s
            else run_request env full (obj_get request ''client_metadata'') s)"

section \<open>What every event keeps, the whole stream keeps\<close>

lemma take_lines_None: "index_of [LF] (rd_text r) = None \<Longrightarrow> take_lines env r t = (r, t, Go)"
  by (simp add: take_lines.simps)

lemma take_lines_Some:
  "index_of [LF] (rd_text r) = Some i \<Longrightarrow>
   take_lines env r t =
     (let (r1, t1, f) = consume_line env (take i (rd_text r)) (r\<lparr>rd_text := drop (Suc i) (rd_text r)\<rparr>) t
      in if f = Go then take_lines env r1 t1 else (r1, t1, f))"
  by (simp add: take_lines.simps [of env r t])

lemma line_shortens: "index_of [LF] (rd_text r) = Some i \<Longrightarrow>
    length (rd_text (fst (consume_line env l (r\<lparr>rd_text := drop (Suc i) (rd_text r)\<rparr>) t))) < length (rd_text r)"
  using index_of_Some [of "[LF]" "rd_text r" i] by simp arith

lemma take_lines_induct:
  assumes none: "\<And>r t. index_of [LF] (rd_text r) = None \<Longrightarrow> P r t (r, t, Go)"
    and halt: "\<And>r t i r1 t1 f. index_of [LF] (rd_text r) = Some i \<Longrightarrow>
      consume_line env (take i (rd_text r)) (r\<lparr>rd_text := drop (Suc i) (rd_text r)\<rparr>) t = (r1, t1, f) \<Longrightarrow>
      f \<noteq> Go \<Longrightarrow> P r t (r1, t1, f)"
    and go: "\<And>r t i r1 t1. index_of [LF] (rd_text r) = Some i \<Longrightarrow>
      consume_line env (take i (rd_text r)) (r\<lparr>rd_text := drop (Suc i) (rd_text r)\<rparr>) t = (r1, t1, Go) \<Longrightarrow>
      P r1 t1 (take_lines env r1 t1) \<Longrightarrow> P r t (take_lines env r1 t1)"
  shows "P r t (take_lines env r t)"
proof (induction "length (rd_text r)" arbitrary: r t rule: less_induct)
  case less
  show ?case
  proof (cases "index_of [LF] (rd_text r)")
    case None
    then show ?thesis by (simp add: take_lines_None none)
  next
    case (Some i)
    obtain r1 t1 f where c: "consume_line env (take i (rd_text r)) (r\<lparr>rd_text := drop (Suc i) (rd_text r)\<rparr>) t = (r1, t1, f)"
      by (cases "consume_line env (take i (rd_text r)) (r\<lparr>rd_text := drop (Suc i) (rd_text r)\<rparr>) t") auto
    with line_shortens [OF Some, of env "take i (rd_text r)" t] have "length (rd_text r1) < length (rd_text r)" by simp
    from less [OF this] have "P r1 t1 (take_lines env r1 t1)" .
    then show ?thesis
      using halt [OF Some c] go [OF Some, of t r1 t1] c by (cases "f = Go") (simp_all add: take_lines_Some [OF Some])
  qed
qed

locale stream_step =
  fixes env :: turn_env and I :: "turn \<Rightarrow> bool"
  assumes event: "I t \<Longrightarrow> I (fst (on_event env d t))"
begin

lemma dispatched: "I t \<Longrightarrow> I (fst (snd (dispatch env r t)))"
  using event by (simp add: dispatch_def Let_def case_prod_unfold)

lemma consumed: "I t \<Longrightarrow> I (fst (snd (consume_line env l r t)))"
  using dispatched by (simp add: consume_line_def Let_def)

lemma consumed_to: "consume_line env l r t = (r1, t1, f) \<Longrightarrow> I t \<Longrightarrow> I t1"
  using consumed [of t l r] by simp

lemma lines_taken: "I t \<longrightarrow> I (fst (snd (take_lines env r t)))"
  by (rule take_lines_induct [where env = env and P = "\<lambda>r t x. I t \<longrightarrow> I (fst (snd x))"]) (auto dest: consumed_to)

lemma chunk_relayed: "I t \<Longrightarrow> I (fst (snd (relay_chunk env c r t)))"
  using lines_taken by (auto simp: relay_chunk_def Let_def split: option.split)

lemma end_relayed: "I t \<Longrightarrow> I (fst (relay_end env r t))"
  using consumed [of t "rd_text r" r] dispatched by (simp add: relay_end_def Let_def case_prod_unfold)

lemma relayed: "I t \<Longrightarrow> Peer_Gone \<notin> set rs \<Longrightarrow> I (fst (relay_reads env rs r t))"
proof (induction rs arbitrary: r t)
  case (Cons a rs)
  show ?case
  proof (cases a)
    case (Chunk c)
    obtain r1 t1 f where c: "relay_chunk env c r t = (r1, t1, f)" by (cases "relay_chunk env c r t") auto
    with chunk_relayed [OF Cons.prems(1), of c r] have "I t1" by simp
    with Cons c Chunk show ?thesis by simp
  qed (use Cons in simp_all)
qed (simp add: end_relayed)

end

section \<open>A turn comes to its end\<close>

definition terminal :: "json \<Rightarrow> bool" where
  "terminal m \<longleftrightarrow> has_type m ''response.completed'' \<or> (\<exists>k \<in> set FAILURE_TYPES. has_type m k)"

definition under_way :: "json list \<Rightarrow> bool" where
  "under_way ms \<longleftrightarrow> list_all (\<lambda>m. \<not> terminal m) ms"

definition ended :: "json list \<Rightarrow> bool" where
  "ended ms \<longleftrightarrow> ms \<noteq> [] \<and> terminal (last ms) \<and> under_way (butlast ms)"

lemma under_way_simps [simp]:
  "under_way []" "under_way (m # ms) \<longleftrightarrow> \<not> terminal m \<and> under_way ms" "under_way (ms @ ns) \<longleftrightarrow> under_way ms \<and> under_way ns"
  by (simp_all add: under_way_def)

lemma ended_snoc [simp]: "ended (ms @ [m]) \<longleftrightarrow> terminal m \<and> under_way ms"
  by (simp add: ended_def)

definition told :: "turn \<Rightarrow> bool" where
  "told t \<longleftrightarrow> \<not> tn_closed t \<and> (if tn_terminal t then ended (tn_sent t) else under_way (tn_sent t)) \<and>
     (tn_failure t \<longrightarrow> tn_terminal t) \<and> (tn_completed t \<noteq> None \<longrightarrow> tn_terminal t)"

lemma deliver_stays: "\<not> leaves (Suc (length (tn_sent t))) \<Longrightarrow> \<not> tn_closed t \<Longrightarrow>
    deliver leaves m t = (t\<lparr>tn_sent := tn_sent t @ [m]\<rparr>, True)"
  by (simp add: deliver_def)

lemma keep_item_sent [simp]:
  "tn_sent (keep_item k e t) = tn_sent t" "tn_closed (keep_item k e t) = tn_closed t"
  "tn_terminal (keep_item k e t) = tn_terminal t" "tn_failure (keep_item k e t) = tn_failure t"
  "tn_completed (keep_item k e t) = tn_completed t"
  by (simp_all add: keep_item_def Let_def split: option.split)

lemma note_terminal_sent [simp]:
  "tn_sent (note_terminal e t) = tn_sent t" "tn_closed (note_terminal e t) = tn_closed t"
  "tn_terminal (note_terminal e t) \<longleftrightarrow> terminal e \<or> tn_terminal t"
  by (auto simp: note_terminal_def terminal_def)

lemma note_terminal_marks:
  "tn_failure (note_terminal e t) \<Longrightarrow> tn_failure t \<or> terminal e"
  "tn_completed (note_terminal e t) \<noteq> None \<Longrightarrow> tn_completed t \<noteq> None \<or> terminal e"
  by (auto simp: note_terminal_def terminal_def split: if_splits)

lemma told_note:
  "told t \<Longrightarrow> \<not> tn_terminal t \<Longrightarrow> told (note_terminal e (keep_item k e (t\<lparr>tn_sent := tn_sent t @ [e]\<rparr>)))"
  using note_terminal_marks [of e "keep_item k e (t\<lparr>tn_sent := tn_sent t @ [e]\<rparr>)"]
  by (auto simp: told_def)

interpretation told: stream_step env "\<lambda>t. (\<forall>n. \<not> te_leaves env n) \<longrightarrow> told t" for env
proof
  fix t d
  assume t: "(\<forall>n. \<not> te_leaves env n) \<longrightarrow> told t"
  show "(\<forall>n. \<not> te_leaves env n) \<longrightarrow> told (fst (on_event env d t))"
  proof
    assume stay: "\<forall>n. \<not> te_leaves env n"
    with t have t: "told t" by simp
    then have "\<not> tn_closed t" by (simp add: told_def)
    then have send: "deliver (te_leaves env) e t = (t\<lparr>tn_sent := tn_sent t @ [e]\<rparr>, True)" for e
      using stay by (simp add: deliver_stays)
    show "told (fst (on_event env d t))"
      using t by (simp add: on_event_def send Let_def told_note split: option.split)
  qed
qed

lemma on_event_flow: "on_event env d t = (t1, f) \<Longrightarrow> f \<noteq> Aborted \<and> (f = Stop \<longrightarrow> tn_closed t1)"
  by (auto simp: on_event_def Let_def deliver_def split: option.splits if_splits prod.splits)

lemma dispatch_flow: "dispatch env r t = (r1, t1, f) \<Longrightarrow> f \<noteq> Aborted \<and> (f = Stop \<longrightarrow> tn_closed t1)"
  by (auto simp: dispatch_def Let_def dest: on_event_flow split: if_splits prod.splits)

lemma consume_flow: "consume_line env l r t = (r1, t1, f) \<Longrightarrow> f \<noteq> Aborted \<and> (f = Stop \<longrightarrow> tn_closed t1)"
  by (auto simp: consume_line_def Let_def dest: dispatch_flow split: if_splits)

lemma lines_flow:
  "snd (snd (take_lines env r t)) \<noteq> Aborted \<and> (snd (snd (take_lines env r t)) = Stop \<longrightarrow> tn_closed (fst (snd (take_lines env r t))))"
  by (rule take_lines_induct [where env = env
        and P = "\<lambda>r t x. snd (snd x) \<noteq> Aborted \<and> (snd (snd x) = Stop \<longrightarrow> tn_closed (fst (snd x)))"])
    (auto dest: consume_flow)

lemma chunk_flow: "relay_chunk env c r t = (r1, t1, f) \<Longrightarrow> f \<noteq> Aborted \<and> (f = Stop \<longrightarrow> tn_closed t1)"
  using lines_flow [of env _ t] by (auto simp: relay_chunk_def Let_def split: option.splits if_splits) (metis fst_conv snd_conv)+

lemma end_flow: "relay_end env r t = (t1, f) \<Longrightarrow> f \<noteq> Aborted \<and> (f = Stop \<longrightarrow> tn_closed t1)"
  by (auto simp: relay_end_def Let_def dest: consume_flow dispatch_flow split: if_splits prod.splits)

lemma reads_flow:
  "relay_reads env rs r t = (t1, f) \<Longrightarrow> Peer_Gone \<notin> set rs \<Longrightarrow>
   (f = Aborted \<longrightarrow> tn_failure t1) \<and> (f = Stop \<longrightarrow> tn_closed t1)"
proof (induction rs arbitrary: r t)
  case Nil
  then show ?case using end_flow by auto
next
  case (Cons a rs)
  show ?case
  proof (cases a)
    case (Chunk c)
    obtain r2 t2 g where c: "relay_chunk env c r t = (r2, t2, g)" by (cases "relay_chunk env c r t") auto
    show ?thesis
      using Cons chunk_flow [OF c] c Chunk by (cases "g = Go") auto
  qed (use Cons in \<open>auto split: if_splits\<close>)
qed

definition finished :: "json list \<Rightarrow> bool" where
  "finished ms \<longleftrightarrow> (\<exists>ns late. ms = ns @ late \<and> ended ns \<and> (late = [] \<or> (\<exists>e. late = [e] \<and> has_type e ''error'')))"

lemma error_message_type: "has_type (error_message status err hs) ''error''" "terminal (error_message status err hs)"
  by (simp_all add: error_message_def has_type_def terminal_def FAILURE_TYPES_def)

lemma told_error: "told t \<Longrightarrow> finished (tn_sent (send_error status err hs t))"
  using error_message_type [of status err hs]
  by (cases "tn_terminal t")
    (auto simp: told_def send_error_def finished_def intro: exI [of _ "tn_sent t"] exI [of _ "tn_sent t @ [error_message status err hs]"])

lemma told_over: "told t \<Longrightarrow> tn_terminal t \<Longrightarrow> finished (tn_sent t)"
  by (auto simp: told_def finished_def)

lemma has_type_known: "has_type (JObj ((''type'', JStr k) # kvs)) k' \<longleftrightarrow> k' = k"
  by (auto simp: has_type_def)

lemma header_messages_under_way: "under_way (header_messages hs)"
  by (auto simp: header_messages_def Let_def rate_limit_events_def rate_limit_event_def under_way_def list_all_iff
      terminal_def has_type_known FAILURE_TYPES_def split: option.split)

lemma json_messages_end: "ended (json_messages j output)"
proof -
  have "json_messages j output = butlast (json_messages j output) @ [JObj [(''type'', JStr ''response.completed''), (''response'', j)]]"
    by (simp add: json_messages_def butlast_append)
  moreover have "under_way (butlast (json_messages j output))"
    by (auto simp: json_messages_def under_way_def list_all_iff terminal_def has_type_known FAILURE_TYPES_def butlast_append)
  ultimately show ?thesis by (metis ended_snoc terminal_def has_type_known)
qed

lemma ended_append: "under_way ms \<Longrightarrow> ended ns \<Longrightarrow> ended (ms @ ns)"
  by (auto simp: ended_def butlast_append)

lemma deliver_all_stays:
  "\<forall>n. \<not> leaves n \<Longrightarrow> \<not> tn_closed t \<Longrightarrow> deliver_all leaves ms t = (t\<lparr>tn_sent := tn_sent t @ ms\<rparr>, True)"
  by (induction ms arbitrary: t) (simp_all add: deliver_stays)

definition fresh :: "turn \<Rightarrow> bool" where
  "fresh t \<longleftrightarrow> told t \<and> \<not> tn_terminal t"

lemma fresh_new [simp]: "fresh new_turn"
  by (simp add: fresh_def told_def new_turn_def)

lemma fresh_send: "fresh t \<Longrightarrow> under_way ms \<Longrightarrow> fresh (t\<lparr>tn_sent := tn_sent t @ ms\<rparr>)"
  by (auto simp: fresh_def told_def)

lemma read_body_stays:
  "Peer_Gone \<notin> set rs \<Longrightarrow> fst (read_body limit rs acc t) = t \<and> fst (snd (read_body limit rs acc t)) \<noteq> Aborted \<and>
     fst (snd (read_body limit rs acc t)) \<noteq> Stop"
  by (induction limit rs acc t rule: read_body.induct) auto

lemma sniff_stays:
  "Peer_Gone \<notin> set rs \<Longrightarrow> fst (sniff rs d t) = t \<and> fst (snd (sniff rs d t)) \<noteq> Aborted \<and> fst (snd (sniff rs d t)) \<noteq> Stop"
proof (induction rs arbitrary: d)
  case (Cons a rs)
  show ?case
  proof (cases a)
    case (Chunk c)
    obtain d1 v b where "dt_write c d = (d1, v, b)" by (cases "dt_write c d") auto
    with Cons Chunk show ?thesis by simp
  qed (use Cons in simp_all)
qed simp

definition stays_connected :: "turn_env \<Rightarrow> bool" where
  "stays_connected env \<longleftrightarrow> (\<forall>n. \<not> te_leaves env n) \<and> (\<forall>hs body. te_fetch env hs body \<noteq> Fetch_Aborted) \<and>
     (\<forall>hs body response rs. te_fetch env hs body = Answered response \<longrightarrow> fr_body response = Some rs \<longrightarrow> Peer_Gone \<notin> set rs)"

text \<open>The answer of one path of the turn: its last messages, with the error that the \<open>catch\<close> adds.\<close>

definition good :: "verdict_of_turn \<Rightarrow> bool" where
  "good v \<longleftrightarrow> finished (tn_sent (caught (fst v) (fst (snd v)))) \<and> \<not> tn_closed (fst v)"

lemma told_thrown: "told t \<Longrightarrow> good (t, Throw code, cs)"
  by (auto simp: good_def caught_def told_error) (simp add: told_def)

lemma told_finished: "told t \<Longrightarrow> tn_terminal t \<Longrightarrow> f = Go \<or> f = Aborted \<Longrightarrow> good (t, f, cs)"
  by (auto simp: good_def caught_def told_over) (simp_all add: told_def)

lemma told_errored: "told t \<Longrightarrow> good (send_error status err hs t, Go, cs)"
  by (auto simp: good_def caught_def told_error) (simp add: told_def send_error_def)

lemma stream_outcome_good: "told t \<Longrightarrow> good (stream_outcome env input t)"
proof -
  assume t: "told t"
  consider "truthy (opt_get (tn_completed t) ''id'')" "\<not> tn_failure t" | "tn_failure t"
    | "\<not> truthy (opt_get (tn_completed t) ''id'')" "\<not> tn_failure t" by blast
  then show ?thesis
  proof cases
    case 1
    then have "tn_completed t \<noteq> None" by (cases "tn_completed t") (simp_all add: opt_get_def)
    with t have "tn_terminal t" by (simp add: told_def)
    with t 1 show ?thesis by (simp add: stream_outcome_def Let_def told_finished)
  next
    case 2
    with t have "tn_terminal t" by (simp add: told_def)
    with t 2 show ?thesis by (simp add: stream_outcome_def told_finished)
  next
    case 3
    with t show ?thesis by (simp add: stream_outcome_def told_errored) (simp add: told_def)
  qed
qed

lemma stream_turn_good:
  assumes "\<forall>n. \<not> te_leaves env n" "\<And>rs. fr_body response = Some rs \<Longrightarrow> Peer_Gone \<notin> set rs" "fresh t"
  shows "good (stream_turn env input response t)"
proof -
  define t1 where "t1 = t\<lparr>tn_sent := tn_sent t @ header_messages (fr_headers response)\<rparr>"
  have t1: "fresh t1" unfolding t1_def using assms(3) header_messages_under_way by (rule fresh_send)
  have "\<not> tn_closed t" using assms(3) by (simp add: fresh_def told_def)
  then have sent: "deliver_all (te_leaves env) (header_messages (fr_headers response)) t = (t1, True)"
    unfolding t1_def by (rule deliver_all_stays [OF assms(1)])
  obtain t2 f where r: "relay_sse env (fr_body response) t1 = (t2, f)" by fastforce
  have t2: "told t2 \<and> (f = Aborted \<longrightarrow> tn_failure t2) \<and> f \<noteq> Stop"
  proof (cases "fr_body response")
    case None
    with r t1 show ?thesis by (auto simp: relay_sse_def fresh_def)
  next
    case (Some rs)
    then have rs: "relay_reads env rs new_reader t1 = (t2, f)" "Peer_Gone \<notin> set rs"
      using r assms(2) by (simp_all add: relay_sse_def)
    have "told t2" using told.relayed [of env t1 rs new_reader] rs assms(1) t1 by (simp add: fresh_def)
    then show ?thesis using reads_flow [OF rs] by (auto simp: told_def)
  qed
  show ?thesis
  proof (cases f)
    case Go
    then show ?thesis using t2 by (simp add: stream_turn_def sent r stream_outcome_good)
  next
    case (Throw code)
    then show ?thesis using t2 by (simp add: stream_turn_def sent r told_thrown)
  next
    case Aborted
    with t2 have "tn_terminal t2" by (simp add: told_def)
    with Aborted t2 show ?thesis by (simp add: stream_turn_def sent r told_finished)
  qed (use t2 in simp)
qed

lemma response_body_stays:
  assumes "\<And>rs. fr_body response = Some rs \<Longrightarrow> Peer_Gone \<notin> set rs"
  obtains f body where "read_response_body env k response t = (t, f, body)" "f \<noteq> Aborted" "f \<noteq> Stop"
proof (cases "fr_body response")
  case None
  then show thesis by (intro that [of Go "[]"]) (simp_all add: read_response_body_def)
next
  case (Some rs)
  define r where "r = read_body (if k > 0 then k else te_buffered env) rs [] t"
  have r: "fst r = t" "fst (snd r) \<noteq> Aborted" "fst (snd r) \<noteq> Stop"
    unfolding r_def using read_body_stays [OF assms [OF Some]] by simp_all
  have "read_response_body env k response t = (t, fst (snd r), snd (snd r))"
    unfolding read_response_body_def Some option.case r_def [symmetric] using r(1) by (simp add: prod_eq_iff)
  then show thesis using r(2,3) by (rule that)
qed

lemma json_turn_good:
  assumes "\<forall>n. \<not> te_leaves env n" "\<And>rs. fr_body response = Some rs \<Longrightarrow> Peer_Gone \<notin> set rs" "fresh t"
  shows "good (json_turn env input response t)"
proof -
  have t: "told t" "\<not> tn_closed t" using assms(3) by (auto simp: fresh_def told_def)
  obtain f body where b: "read_response_body env (max_event_bytes (te_opts env)) response t = (t, f, body)" "f \<noteq> Aborted" "f \<noteq> Stop"
    using response_body_stays [OF assms(2)] by blast
  show ?thesis
  proof (cases f)
    case Go
    show ?thesis
    proof (cases "json_parse (utf8_lossy body)")
      case None
      then show ?thesis using t Go by (simp add: json_turn_def b told_errored)
    next
      case (Some j)
      define ms where "ms = header_messages (fr_headers response) @ json_messages j (the (as_arr (obj_get j ''output'')))"
      have "ended (tn_sent t @ ms)" unfolding ms_def
        using assms(3) json_messages_end header_messages_under_way by (intro ended_append) (auto simp: fresh_def told_def)
      then have "finished (tn_sent t @ ms)" by (auto simp: finished_def)
      then show ?thesis using t Go Some deliver_all_stays [OF assms(1) t(2), of ms]
        by (simp add: json_turn_def b told_errored Let_def ms_def [symmetric]) (simp add: good_def caught_def)
    qed
  next
    case (Throw code)
    then show ?thesis using t by (simp add: json_turn_def b told_thrown)
  qed (use b in simp_all)
qed

lemma rejected_response_good:
  assumes "\<And>rs. fr_body response = Some rs \<Longrightarrow> Peer_Gone \<notin> set rs" "told t"
  shows "good (rejected_response env response t)"
proof -
  obtain f body where b: "read_response_body env (max_error_bytes (te_opts env)) response t = (t, f, body)" "f \<noteq> Aborted" "f \<noteq> Stop"
    using response_body_stays [OF assms(1)] by blast
  then show ?thesis
    using assms(2) by (cases f) (simp_all add: rejected_response_def told_errored told_thrown)
qed

lemma accepted_response_good:
  assumes "\<forall>n. \<not> te_leaves env n" "\<And>rs. fr_body response = Some rs \<Longrightarrow> Peer_Gone \<notin> set rs" "fresh t"
  shows "good (accepted_response env input response t)"
proof -
  note paths = stream_turn_good [OF assms] json_turn_good [OF assms]
  obtain f stream where s: "sniff_response response t = (t, f, stream)" "f \<noteq> Aborted" "f \<noteq> Stop"
  proof (cases "fr_body response")
    case None
    then show thesis by (intro that [of Go False]) (simp_all add: sniff_response_def)
  next
    case (Some rs)
    define r where "r = sniff rs (new_detector None) t"
    have "fst r = t" "fst (snd r) \<noteq> Aborted" "fst (snd r) \<noteq> Stop"
      unfolding r_def using sniff_stays [OF assms(2) [OF Some]] by simp_all
    moreover have "sniff_response response t = r" by (simp add: sniff_response_def Some r_def)
    ultimately show thesis by (metis that prod.collapse)
  qed
  have "told t" using assms(3) by (simp add: fresh_def)
  then show ?thesis using paths s by (cases f) (simp_all add: accepted_response_def Let_def told_thrown)
qed

lemma run_request_finished:
  assumes "stays_connected env"
  shows "finished (snd (run_request env full metadata s))"
proof -
  have leaves: "\<forall>n. \<not> te_leaves env n" using assms by (simp add: stays_connected_def)
  have new: "told new_turn" using fresh_new by (simp add: fresh_def)
  define hs where "hs = loopback_headers (te_headers env) (te_key env) metadata (se_turn_state s) (te_internal env)"
  show ?thesis
  proof (cases "te_fetch env hs (json_stringify full)")
    case (Fetch_Failed code)
    then show ?thesis using told_thrown [OF new, of code] by (simp add: run_request_def hs_def [symmetric] good_def)
  next
    case Fetch_Aborted
    then show ?thesis using assms by (simp add: stays_connected_def)
  next
    case (Answered response)
    then have body: "\<And>rs. fr_body response = Some rs \<Longrightarrow> Peer_Gone \<notin> set rs"
      using assms unfolding stays_connected_def by blast
    have "good (accepted_response env (the (as_arr (obj_get full ''input''))) response new_turn)"
      "good (rejected_response env response new_turn)"
      using accepted_response_good [OF leaves body fresh_new] rejected_response_good [OF body new] by simp_all
    then show ?thesis
      by (simp add: run_request_def hs_def [symmetric] Answered Let_def case_prod_unfold good_def)
  qed
qed

lemma prewarm_finished: "stays_connected env \<Longrightarrow> finished (snd (prewarm env full s))"
proof -
  assume "stays_connected env"
  then have leaves: "\<forall>n. \<not> te_leaves env n" by (simp add: stays_connected_def)
  have "ended (prewarm_messages i)" for i
    by (simp add: prewarm_messages_def ended_def terminal_def has_type_known FAILURE_TYPES_def)
  then have "finished (prewarm_messages i)" for i by (auto simp: finished_def)
  moreover have "snd (prewarm env full s) = prewarm_messages (''resp_router_prewarm_'' @ te_uuid env)"
    by (simp add: prewarm_def Let_def deliver_all_stays [OF leaves] new_turn_def)
  ultimately show ?thesis by simp
qed

lemma ended_finished: "ended ms \<Longrightarrow> finished ms"
  by (auto simp: finished_def)

lemma refused_finished: "finished [error_message status err hs]"
  by (rule ended_finished) (simp add: ended_def error_message_type)

lemma process_finished:
  assumes "\<not> se_closed s" "stays_connected env"
  shows "finished (snd (process env text s))"
proof (cases "build_request (te_opts env) s text")
  case (Refused status err)
  then show ?thesis using assms(1) by (simp add: process_def refused_finished)
next
  case (Built full)
  then show ?thesis
    using assms(1) prewarm_finished [OF assms(2)] run_request_finished [OF assms(2)] by (simp add: process_def Let_def)
qed

text \<open>C5: Every turn of a client that stays comes to an end: whatever the request and however the upstream
  answers, breaks off or misbehaves, the client receives a terminal event or an error, no event is
  relayed behind it, and at most one error of the router itself follows.\<close>

theorem turn_ends:
  assumes "\<not> se_closed s" and "stays_connected env"
  shows "\<exists>before t late. snd (process env text s) = before @ t # late \<and> under_way before \<and> terminal t \<and>
    (late = [] \<or> (\<exists>e. late = [e] \<and> has_type e ''error''))"
proof -
  obtain ns late where "snd (process env text s) = ns @ late" "ended ns"
      "late = [] \<or> (\<exists>e. late = [e] \<and> has_type e ''error'')"
    using process_finished [OF assms] unfolding finished_def by blast
  moreover then have "ns = butlast ns @ [last ns]" "under_way (butlast ns)" "terminal (last ns)"
    by (simp_all add: ended_def)
  ultimately show ?thesis by (metis append.assoc append_Cons append_Nil)
qed

section \<open>The cuts of the network\<close>

lemma dispatch_set: "dispatch env (r\<lparr>rd_held := h, rd_started := b, rd_text := x\<rparr>) t =
    (case dispatch env r t of (r1, t1, f) \<Rightarrow> (r1\<lparr>rd_held := h, rd_started := b, rd_text := x\<rparr>, t1, f))"
  by (simp add: dispatch_def Let_def split: prod.split)

lemma consume_set: "consume_line env l (r\<lparr>rd_held := h, rd_started := b, rd_text := x\<rparr>) t =
    (case consume_line env l r t of (r1, t1, f) \<Rightarrow> (r1\<lparr>rd_held := h, rd_started := b, rd_text := x\<rparr>, t1, f))"
  by (simp add: consume_line_def Let_def dispatch_set split: prod.split)

lemma dispatch_keeps: "dispatch env r t = (r1, t1, f) \<Longrightarrow> rd_held r1 = rd_held r \<and> rd_started r1 = rd_started r \<and> rd_text r1 = rd_text r"
  by (auto simp: dispatch_def Let_def split: if_splits prod.splits)

lemma consume_keeps: "consume_line env l r t = (r1, t1, f) \<Longrightarrow> rd_held r1 = rd_held r \<and> rd_started r1 = rd_started r \<and> rd_text r1 = rd_text r"
  by (auto simp: consume_line_def Let_def dest: dispatch_keeps split: if_splits)

text \<open>More text behind the text, and other decoder state, change nothing about the lines that are there.\<close>

definition grown :: "bytes \<Rightarrow> bool \<Rightarrow> string \<Rightarrow> reader \<Rightarrow> reader" where
  "grown h b x r = r\<lparr>rd_held := h, rd_started := b, rd_text := rd_text r @ x\<rparr>"

lemma grown_text [simp]: "rd_text (grown h b x r) = rd_text r @ x" "rd_held (grown h b x r) = h" "rd_started (grown h b x r) = b"
  by (simp_all add: grown_def)

lemma grown_grown [simp]: "grown h b x (grown h' b' y r) = grown h b (y @ x) r"
  by (simp add: grown_def)

lemma take_lines_grown_step:
  assumes i: "index_of [LF] (rd_text r) = Some i"
    and c: "consume_line env (take i (rd_text r)) (r\<lparr>rd_text := drop (Suc i) (rd_text r)\<rparr>) t = (r1, t1, f)"
  shows "take_lines env (grown h b x r) t =
    (if f = Go then take_lines env (grown h b x r1) t1 else (grown h b x r1, t1, f))"
proof -
  have len: "Suc i \<le> length (rd_text r)" using index_of_Some [OF i] by simp
  have "rd_text r1 = drop (Suc i) (rd_text r)" using consume_keeps [OF c] by simp
  then have "consume_line env (take i (rd_text r)) (r\<lparr>rd_held := h, rd_started := b, rd_text := drop (Suc i) (rd_text r) @ x\<rparr>) t =
      (grown h b x r1, t1, f)"
    using consume_set [where env = env and l = "take i (rd_text r)" and r = "r\<lparr>rd_text := drop (Suc i) (rd_text r)\<rparr>" and h = h
      and b = b and x = "drop (Suc i) (rd_text r) @ x" and t = t] c by (simp add: grown_def)
  moreover have "index_of [LF] (rd_text (grown h b x r)) = Some i" using i by (simp add: index_of_mono)
  ultimately show ?thesis
    using len by (subst take_lines_Some [of _ i]) (simp_all add: grown_def)
qed

lemma take_lines_grown:
  "take_lines env (grown h b x r) t =
     (case take_lines env r t of (r1, t1, f) \<Rightarrow>
        if f = Go then take_lines env (grown h b x r1) t1 else (grown h b x r1, t1, f))"
  by (rule take_lines_induct [where env = env and P = "\<lambda>r t y.
        take_lines env (grown h b x r) t =
        (case y of (r1, t1, f) \<Rightarrow> if f = Go then take_lines env (grown h b x r1) t1 else (grown h b x r1, t1, f))"])
    (simp_all add: take_lines_grown_step)

lemma take_lines_keeps:
  "rd_held (fst (take_lines env r t)) = rd_held r \<and> rd_started (fst (take_lines env r t)) = rd_started r \<and>
   length (rd_text (fst (take_lines env r t))) \<le> length (rd_text r)"
proof (rule take_lines_induct [where env = env and P = "\<lambda>r t y.
    rd_held (fst y) = rd_held r \<and> rd_started (fst y) = rd_started r \<and> length (rd_text (fst y)) \<le> length (rd_text r)"])
qed (auto dest: consume_keeps)

subsection \<open>The decoder\<close>

lemma seq_len_grows: "seq_len x = 0 \<Longrightarrow> x \<noteq> [] \<Longrightarrow> \<not> incomplete x \<Longrightarrow> seq_len (x @ y) = 0 \<and> \<not> incomplete (x @ y)"
  by (cases x rule: seq_len.cases) (auto simp: incomplete_def split: list.splits if_splits)

lemma put_nothing: "map_option (apfst ((@) [])) v = v"
  by (cases v) auto

lemma put_twice: "apfst ((@) a) \<circ> apfst ((@) b) = apfst ((@) (a @ b))"
  by (auto simp: fun_eq_iff)

lemma decode_ready_append:
  "decode_ready (x @ y) = (case decode_ready x of None \<Rightarrow> None
     | Some (t, h) \<Rightarrow> map_option (apfst ((@) t)) (decode_ready (h @ y)))"
proof (induction x rule: decode_ready.induct)
  case (1 x)
  show ?case
  proof (cases "x = []")
    case False
    show ?thesis
    proof (cases "seq_len x = 0")
      case True
      show ?thesis
      proof (cases "incomplete x")
        case True
        then have "decode_ready x = Some ([], x)" using \<open>seq_len x = 0\<close> False by (simp add: decode_ready.simps [of x])
        then show ?thesis by (simp add: put_nothing)
      next
        case no: False
        then show ?thesis using True False seq_len_grows [OF True False no, of y]
          by (simp add: decode_ready.simps [of x] decode_ready.simps [of "x @ y"])
      qed
    next
      case ready: False
      then show ?thesis
        using False "1" seq_len_append [OF ready, of y] seq_len_le [of x]
        by (simp add: decode_ready.simps [of x] decode_ready.simps [of "x @ y"] option.map_comp put_twice split: option.split)
    qed
  qed (simp add: decode_ready.simps [of "[]"] put_nothing)
qed

lemma decode_ready_valid: "utf8_valid b \<Longrightarrow> decode_ready b = Some (b, [])"
proof (induction b rule: utf8_valid.induct)
  case (1 b)
  show ?case
  proof (cases "b = []")
    case False
    with "1.prems" have "seq_len b \<noteq> 0" "utf8_valid (drop (seq_len b) b)"
      using utf8_valid.simps [of b] by (auto split: if_splits)
    with "1.IH" False show ?thesis by (simp add: decode_ready.simps [of b])
  qed (simp add: decode_ready.simps)
qed

lemma decode_ready_bytes: "decode_ready b = Some (t, h) \<Longrightarrow> t @ h = b"
proof (induction b arbitrary: t rule: decode_ready.induct)
  case (1 b)
  show ?case
  proof (cases "b = [] \<or> seq_len b = 0")
    case True
    with "1.prems" show ?thesis by (auto simp: decode_ready.simps [of b] split: if_splits)
  next
    case False
    then obtain t' where "decode_ready (drop (seq_len b) b) = Some (t', h)" "t = take (seq_len b) b @ t'"
      using "1.prems" by (auto simp: decode_ready.simps [of b])
    with "1.IH" [of t'] False show ?thesis by simp
  qed
qed

lemma lead_ef: "hd s = CHR 0xEF \<Longrightarrow> seq_len s \<noteq> 0 \<Longrightarrow> seq_len s = 3"
proof -
  have "\<not> is_ascii (CHR 0xEF) \<and> \<not> is_lead2 (CHR 0xEF) \<and> is_lead3 (CHR 0xEF)" by code_simp
  then show "hd s = CHR 0xEF \<Longrightarrow> seq_len s \<noteq> 0 \<Longrightarrow> seq_len s = 3"
    by (cases s) (auto split: list.splits if_splits)
qed

lemma bom_whole:
  assumes "decode_ready b = Some (t, h)" "t \<noteq> []" "starts_with UTF8_BOM (t @ u)"
  shows "starts_with UTF8_BOM t"
proof -
  have n: "seq_len b \<noteq> 0" "b \<noteq> []" using assms(1,2) by (auto simp: decode_ready.simps [of b] split: if_splits)
  then obtain t' where t: "t = take (seq_len b) b @ t'" using assms(1) by (auto simp: decode_ready.simps [of b])
  have "hd t = CHR 0xEF" using assms(2,3) by (cases t) (simp_all add: UTF8_BOM_def)
  then have "hd b = CHR 0xEF" using n t by (cases b) (auto split: if_splits)
  then have "seq_len b = 3" using n(1) by (rule lead_ef)
  then have "3 \<le> length t" using t seq_len_le [of b] by simp
  then show ?thesis by (intro starts_with_back [OF assms(3)]) (simp add: UTF8_BOM_def)
qed

definition shown_text :: "bool \<Rightarrow> string \<Rightarrow> string" where
  "shown_text started t = (if \<not> started \<and> starts_with UTF8_BOM t then drop 3 t else t)"

lemma shown_text_append:
  assumes "decode_ready b = Some (t, h)"
  shows "shown_text s (t @ u) = shown_text s t @ shown_text (s \<or> t \<noteq> []) u"
proof (cases "t = []")
  case False
  then have "starts_with UTF8_BOM (t @ u) \<longleftrightarrow> starts_with UTF8_BOM t"
    using bom_whole [OF assms False, of u] starts_with_mono by blast
  moreover have "starts_with UTF8_BOM t \<Longrightarrow> 3 \<le> length t"
    using starts_with_length [of UTF8_BOM t] by (simp add: UTF8_BOM_def)
  ultimately show ?thesis using False by (simp add: shown_text_def)
qed (simp add: shown_text_def)

lemma shown_text_length: "length (shown_text s t) \<le> length t"
  by (simp add: shown_text_def)

lemma relay_chunk_decoded:
  assumes "decode_ready (rd_held r @ c) = Some (t, h)" "length (rd_text r) + length t \<le> max_event_bytes (te_opts env)"
  shows "relay_chunk env c r tn = take_lines env (grown h (rd_started r \<or> t \<noteq> []) (shown_text (rd_started r) t) r) tn"
  using assms shown_text_length [of "rd_started r" t]
  by (simp add: relay_chunk_def rd_decode_def shown_text_def grown_def Let_def)

lemma relay_merge:
  assumes d: "decode_ready (rd_held r @ c1 @ c2) = Some (t, h)"
    and fits: "length (rd_text r) + length (rd_held r) + length c1 + length c2 \<le> max_event_bytes (te_opts env)"
  shows "relay_reads env (Chunk c1 # Chunk c2 # rs) r tn = relay_reads env (Chunk (c1 @ c2) # rs) r tn"
proof -
  obtain t1 h1 where d1: "decode_ready (rd_held r @ c1) = Some (t1, h1)"
    using d decode_ready_append [of "rd_held r @ c1" c2] by (auto split: option.splits)
  then obtain t2 where d2: "decode_ready (h1 @ c2) = Some (t2, h)" and t: "t = t1 @ t2"
    using d decode_ready_append [of "rd_held r @ c1" c2] by (cases "decode_ready (h1 @ c2)") auto
  have len: "length t1 + length h1 = length (rd_held r) + length c1" "length t2 + length h = length h1 + length c2"
    using decode_ready_bytes [OF d1] decode_ready_bytes [OF d2] by (metis length_append)+
  let ?s1 = "rd_started r \<or> t1 \<noteq> []"
  let ?x1 = "shown_text (rd_started r) t1" and ?x2 = "shown_text ?s1 t2"
  let ?r1 = "grown h1 ?s1 ?x1 r"
  let ?s2 = "?s1 \<or> t2 \<noteq> []"
  have first: "relay_chunk env c1 r tn = take_lines env ?r1 tn"
    using d1 fits len by (intro relay_chunk_decoded) auto
  have both: "relay_chunk env (c1 @ c2) r tn = take_lines env (grown h ?s2 ?x2 ?r1) tn"
  proof -
    have "length (rd_text r) + length t \<le> max_event_bytes (te_opts env)" using fits len t by simp
    with d have "relay_chunk env (c1 @ c2) r tn = take_lines env (grown h (rd_started r \<or> t \<noteq> []) (shown_text (rd_started r) t) r) tn"
      by (intro relay_chunk_decoded) simp_all
    also have "grown h (rd_started r \<or> t \<noteq> []) (shown_text (rd_started r) t) r = grown h ?s2 ?x2 ?r1"
      using shown_text_append [OF d1, of "rd_started r" t2] by (simp add: t)
    finally show ?thesis .
  qed
  obtain r2 tn2 f where l: "take_lines env ?r1 tn = (r2, tn2, f)" by (cases "take_lines env ?r1 tn") auto
  have keep: "rd_held r2 = h1" "rd_started r2 = ?s1" "length (rd_text r2) \<le> length (rd_text r) + length ?x1"
    using take_lines_keeps [of env ?r1 tn] l by simp_all
  have "relay_chunk env c2 r2 tn2 = take_lines env (grown h ?s2 ?x2 r2) tn2"
    using relay_chunk_decoded [of r2 c2 t2 h env tn2] d2 keep fits len shown_text_length [of "rd_started r" t1] by simp
  moreover have "take_lines env (grown h ?s2 ?x2 ?r1) tn =
      (if f = Go then take_lines env (grown h ?s2 ?x2 r2) tn2 else (grown h ?s2 ?x2 r2, tn2, f))"
    using take_lines_grown [of env h ?s2 ?x2 ?r1 tn] l by simp
  ultimately show ?thesis by (simp add: first both l)
qed

lemma relay_chunks:
  "utf8_valid (c @ concat cs) \<Longrightarrow> length (c @ concat cs) \<le> max_event_bytes (te_opts env) \<Longrightarrow>
   relay_reads env (Chunk c # map Chunk cs) new_reader t = relay_reads env [Chunk (c @ concat cs)] new_reader t"
proof (induction cs arbitrary: c)
  case (Cons d cs)
  obtain x h where "decode_ready (c @ d) = Some (x, h)"
    using decode_ready_valid [OF Cons.prems(1)] decode_ready_append [of "c @ d" "concat cs"] by (auto split: option.splits)
  then have "relay_reads env (Chunk c # Chunk d # map Chunk cs) new_reader t =
      relay_reads env (Chunk (c @ d) # map Chunk cs) new_reader t"
    using Cons.prems(2) by (intro relay_merge [of _ _ _ x h]) (simp_all add: new_reader_def)
  then show ?case using Cons.IH [of "c @ d"] Cons.prems by simp
qed simp

text \<open>The cuts of the network do not show: however the bytes of the stream arrive, the same messages are
  sent and the relay ends in the same way, as long as the stream is well-formed UTF-8 and fits the limit.\<close>

theorem relay_chunking:
  assumes "utf8_valid (concat cs)" and "length (concat cs) \<le> max_event_bytes (te_opts env)"
  shows "relay_sse env (Some (map Chunk cs)) t = relay_sse env (Some [Chunk (concat cs)]) t"
proof (cases cs)
  case Nil
  have "take_lines env r t = (r, t, Go)" if "rd_text r = []" for r
    using that by (intro take_lines_None) simp
  then show ?thesis
    by (simp add: Nil relay_sse_def relay_chunk_def rd_decode_def decode_ready.simps new_reader_def Let_def UTF8_BOM_def relay_end_def dispatch_def)
next
  case (Cons c cs')
  with assms relay_chunks [of c cs' env t] show ?thesis by (simp add: relay_sse_def)
qed

section \<open>Continuations\<close>

lemma has_input: "build_request opts s text = Built full \<Longrightarrow>
    \<exists>request input. json_parse text = Some request \<and> is_obj request \<and> obj_get request ''input'' = Some (JArr input) \<and>
      continued s request input = Built full"
  by (auto simp: build_request_def invalid_request_def has_type_def dest: obj_get_is_obj split: option.splits if_splits built.splits)

lemma is_obj_without [simp]: "is_obj j \<Longrightarrow> is_obj (without_prop j k)"
  by (cases j) auto

lemma without_envelope_get:
  "is_obj request \<Longrightarrow> k \<notin> {''type'', ''generate'', ''previous_response_id'', ''client_metadata''} \<Longrightarrow>
   obj_get (without_envelope request) k = obj_get request k"
  by (simp add: without_envelope_def Let_def split: option.split)

lemma is_obj_envelope: "is_obj request \<Longrightarrow> is_obj (without_envelope request)"
  by (simp add: without_envelope_def Let_def split: option.split)

lemma continued_input:
  assumes "continued s request input = Built full" "is_obj request" "obj_get request ''input'' = Some (JArr input)"
  shows "obj_get full ''input'' = Some (JArr
    (case previous_id request of None \<Rightarrow> input
     | Some i \<Rightarrow> (case map_of (se_continuations s) (JStr i) of None \<Rightarrow> input | Some c \<Rightarrow> ct_input c @ ct_output c @ input)))"
  using assms is_obj_envelope [OF assms(2)] without_envelope_get [OF assms(2), of "''input''"]
  by (auto simp: continued_def split: option.splits)

lemma built_input: "build_request opts s text = Built full \<Longrightarrow> \<exists>input. obj_get full ''input'' = Some (JArr input)"
  using has_input continued_input by blast

lemma continuation_list_input:
  "continuation_state input output k = c \<Longrightarrow> continuation_list i c = [] \<or> (\<exists>x. continuation_list i c = [(i, x)] \<and> ct_input x = input)"
  by (auto simp: continuation_state_def continuation_list_def split: if_splits)

lemma stream_outcome_input:
  "snd (snd (stream_outcome env input t)) = Some cs \<Longrightarrow> cs = [] \<or> (\<exists>i x. cs = [(i, x)] \<and> ct_input x = input)"
  by (auto simp: stream_outcome_def Let_def continuation_state_def continuation_list_def split: if_splits)

lemma stream_turn_input:
  "snd (snd (stream_turn env input response t)) = Some cs \<Longrightarrow> cs = [] \<or> (\<exists>i x. cs = [(i, x)] \<and> ct_input x = input)"
  using stream_outcome_input
  by (auto simp: stream_turn_def Let_def split: prod.splits flow.splits if_splits)

lemma json_turn_input:
  "snd (snd (json_turn env input response t)) = Some cs \<Longrightarrow> cs = [] \<or> (\<exists>i x. cs = [(i, x)] \<and> ct_input x = input)"
  by (auto simp: json_turn_def Let_def continuation_state_def continuation_list_def split: prod.splits flow.splits option.splits if_splits)

lemma accepted_response_input:
  "snd (snd (accepted_response env input response t)) = Some cs \<Longrightarrow> cs = [] \<or> (\<exists>i x. cs = [(i, x)] \<and> ct_input x = input)"
  using stream_turn_input json_turn_input
  by (auto simp: accepted_response_def Let_def split: prod.splits flow.splits if_splits)

lemma rejected_response_input: "snd (snd (rejected_response env response t)) = None"
  by (simp add: rejected_response_def split: prod.split flow.split)

definition stored_by :: "json list \<Rightarrow> session \<Rightarrow> session \<Rightarrow> bool" where
  "stored_by input s s1 \<longleftrightarrow> se_continuations s1 = se_continuations s \<or> se_continuations s1 = [] \<or>
     (\<exists>i x. se_continuations s1 = [(i, x)] \<and> ct_input x = input)"

lemma close_session_stored: "stored_by input s s1 \<Longrightarrow> stored_by input s (close_session t s1)"
  by (auto simp: stored_by_def close_session_def)

lemma run_request_stored: "stored_by (the (as_arr (obj_get full ''input''))) s (fst (run_request env full metadata s))"
proof -
  define hs where "hs = loopback_headers (te_headers env) (te_key env) metadata (se_turn_state s) (te_internal env)"
  show ?thesis
  proof (cases "te_fetch env hs (json_stringify full)")
    case (Fetch_Failed code)
    then show ?thesis by (simp add: run_request_def hs_def [symmetric] stored_by_def)
  next
    case Fetch_Aborted
    then show ?thesis by (simp add: run_request_def hs_def [symmetric] stored_by_def)
  next
    case (Answered response)
    define input where "input = the (as_arr (obj_get full ''input''))"
    define v where "v = (if is_ok (fr_status response) then accepted_response env input response new_turn
                            else rejected_response env response new_turn)"
    define s1 where "s1 = (if is_ok (fr_status response) then s\<lparr>se_turn_state :=
                      next_turn_state (se_turn_state s) (fr_headers response) (metadata_turn_id metadata)\<rparr> else s)"
    have "stored_by input s (case snd (snd v) of None \<Rightarrow> s1 | Some c \<Rightarrow> s1\<lparr>se_continuations := c\<rparr>)"
    proof (cases "snd (snd v)")
      case None
      then show ?thesis by (simp add: stored_by_def s1_def)
    next
      case (Some c)
      then have "c = [] \<or> (\<exists>i x. c = [(i, x)] \<and> ct_input x = input)"
        using accepted_response_input rejected_response_input by (auto simp: v_def split: if_splits)
      with Some show ?thesis by (auto simp: stored_by_def)
    qed
    then have "stored_by input s (close_session (fst v) (case snd (snd v) of None \<Rightarrow> s1 | Some c \<Rightarrow> s1\<lparr>se_continuations := c\<rparr>))"
      by (rule close_session_stored)
    moreover have "fst (run_request env full metadata s) =
        close_session (fst v) (case snd (snd v) of None \<Rightarrow> s1 | Some c \<Rightarrow> s1\<lparr>se_continuations := c\<rparr>)"
      unfolding run_request_def Let_def hs_def [symmetric] Answered fetch_answer.case
        s1_def [symmetric] input_def [symmetric] v_def [symmetric] case_prod_unfold fst_conv ..
    ultimately show ?thesis by (simp only: input_def [symmetric])
  qed
qed

lemma prewarm_stored: "stored_by (the (as_arr (obj_get full ''input''))) s (fst (prewarm env full s))"
  by (simp add: prewarm_def Let_def case_prod_unfold) (intro close_session_stored, simp add: stored_by_def)

lemma process_stored:
  assumes "build_request (te_opts env) s text = Built full"
  shows "stored_by (the (as_arr (obj_get full ''input''))) s (fst (process env text s))"
  using assms prewarm_stored run_request_stored by (simp add: process_def Let_def stored_by_def)

text \<open>C22: A follow-up request that names the response of an earlier turn is sent upstream with the whole
  conversation: the input of that turn as it was sent, the output stored for it, and the new input.\<close>

theorem follow_up_continues:
  assumes "build_request (te_opts env) s text = Built full" and "fst (process env text s) = s1"
    and "map_of (se_continuations s) (JStr i) = None" and "map_of (se_continuations s1) (JStr i) = Some c"
    and "json_parse text2 = Some request2" and "previous_id request2 = Some i"
    and "build_request opts s1 text2 = Built full2"
  shows "\<exists>input input2. obj_get full ''input'' = Some (JArr input) \<and> obj_get request2 ''input'' = Some (JArr input2) \<and>
    obj_get full2 ''input'' = Some (JArr (input @ ct_output c @ input2))"
proof -
  obtain input where input: "obj_get full ''input'' = Some (JArr input)" using built_input [OF assms(1)] by blast
  have "stored_by input s s1" using process_stored [OF assms(1)] assms(2) input by simp
  then have c: "ct_input c = input"
    using assms(3,4) by (auto simp: stored_by_def split: if_splits)
  obtain input2 where i2: "is_obj request2" "obj_get request2 ''input'' = Some (JArr input2)"
      "continued s1 request2 input2 = Built full2"
    using has_input [OF assms(7)] assms(5) by auto
  have "obj_get full2 ''input'' = Some (JArr (input @ ct_output c @ input2))"
    using continued_input [OF i2(3,1,2)] assms(4,6) c by simp
  with input i2(2) show ?thesis by blast
qed

section \<open>No finished item is lost\<close>

lemma enumerate_nth: "List.enumerate 0 xs = map (\<lambda>i. (i, xs ! i)) [0..<length xs]"
  by (rule nth_equalityI) (simp_all add: nth_enumerate_eq)

lemma numbered: "map snd (filter (\<lambda>(i, item). P i) (List.enumerate 0 xs)) = map ((!) xs) (filter P [0..<length xs])"
  by (simp add: enumerate_nth filter_map comp_def)

lemma keyed_from:
  "map_of (foldl (\<lambda>m (i, item). case continuation_item_key item of None \<Rightarrow> m | Some k \<Rightarrow> AList.update k i m) m ps) k = Some i
   \<Longrightarrow> map_of m k = Some i \<or> i \<in> fst ` set ps"
proof (induction ps arbitrary: m)
  case (Cons p ps)
  obtain j item where p: "p = (j, item)" by (cases p)
  show ?case
  proof (cases "continuation_item_key item")
    case None
    with Cons.IH [of m] Cons.prems show ?thesis by (auto simp: p)
  next
    case (Some k')
    with Cons.IH [of "AList.update k' j m"] Cons.prems show ?thesis by (auto simp: p update_conv' split: if_splits)
  qed
qed simp

lemma done_below: "map_of (done_by_key items) k = Some i \<Longrightarrow> i < length items"
proof -
  assume "map_of (done_by_key items) k = Some i"
  from keyed_from [OF this [unfolded done_by_key_def]] have "i \<in> fst ` set (List.enumerate 0 items)" by simp
  then show ?thesis by (auto simp: enumerate_nth)
qed

lemma done_for_below: "done_for items item = Some i \<Longrightarrow> i < length items"
  by (auto simp: done_for_def dest: done_below split: option.splits)

definition substituted :: "json list \<Rightarrow> json \<Rightarrow> json" where
  "substituted items item = (case done_for items item of Some i \<Rightarrow> items ! i | None \<Rightarrow> item)"

lemma substituted_cover:
  "image_mset ((!) items) (mset (List.map_filter (done_for items) completed)) \<subseteq># mset (map (substituted items) completed)"
proof (induction completed)
  case (Cons a completed)
  then show ?case
    by (cases "done_for items a")
      (auto simp: List.map_filter_simps substituted_def intro: subset_mset.order_trans)
qed (simp add: List.map_filter_simps)

text \<open>No item that was streamed as finished is lost from the stored output, whatever the terminal snapshot
  holds: each is there at least as often as it was streamed.\<close>

theorem streamed_items_kept:
  "mset items \<subseteq># mset (reconciled_continuation_output snapshot items)"
proof (cases "as_arr snapshot = None \<or> items = []")
  case True
  then show ?thesis by (auto simp: reconciled_continuation_output_def reconciled_output_def)
next
  case False
  then obtain completed where c: "as_arr snapshot = Some completed" and ne: "items \<noteq> []" by auto
  let ?used = "\<lambda>i. Some i \<in> set (map (done_for items) completed)"
  let ?n = "[0..<length items]"
  have "mset (filter ?used ?n) = mset_set (set (filter ?used ?n))" by (simp add: mset_set_set)
  also have "\<dots> \<subseteq># mset (List.map_filter (done_for items) completed)"
  proof -
    have "set (filter ?used ?n) \<subseteq> set (List.map_filter (done_for items) completed)"
      by (auto simp: List.map_filter_def image_iff) (metis option.sel option.distinct(1))
    then have "mset_set (set (filter ?used ?n)) \<subseteq># mset_set (set (List.map_filter (done_for items) completed))"
      by (simp add: subset_imp_msubset_mset_set)
    also have "\<dots> \<subseteq># mset (List.map_filter (done_for items) completed)"
      using mset_set_set_mset_msubset [of "mset (List.map_filter (done_for items) completed)"] by simp
    finally show ?thesis .
  qed
  finally have "image_mset ((!) items) (mset (filter ?used ?n)) \<subseteq># mset (map (substituted items) completed)"
    using substituted_cover [of items completed] by (meson image_mset_subseteq_mono subset_mset.order_trans)
  moreover have "mset items = image_mset ((!) items) (mset (filter ?used ?n)) + image_mset ((!) items) (mset (filter (\<lambda>i. \<not> ?used i) ?n))"
  proof -
    have "mset items = image_mset ((!) items) (mset ?n)" by (metis map_nth mset_map)
    also have "mset ?n = mset (filter ?used ?n) + mset (filter (\<lambda>i. \<not> ?used i) ?n)"
      unfolding mset_filter by (rule multiset_partition)
    finally show ?thesis by (simp only: image_mset_union)
  qed
  moreover have "reconciled_continuation_output snapshot items =
      map (substituted items) completed @ map ((!) items) (filter (\<lambda>i. \<not> ?used i) ?n)"
    using ne numbered [of "\<lambda>i. \<not> ?used i" items]
    by (simp add: reconciled_continuation_output_def c reconciled_output_def substituted_def [abs_def])
  ultimately show ?thesis by simp
qed

section \<open>Sample turns\<close>

definition sse_event :: "json \<Rightarrow> string" where
  "sse_event j = ''data: '' @ json_stringify j @ [LF, LF]"

definition done_event :: json where
  "done_event = JObj [(''type'', JStr ''response.output_item.done''), (''item'', JObj [(''id'', JStr ''m1'')])]"

definition completed_event :: "json option \<Rightarrow> json" where
  "completed_event i = JObj [(''type'', JStr ''response.completed''),
     (''response'', JObj (opt_prop ''id'' i @ [(''output'', JArr [])]))]"

definition limits_of :: "nat \<Rightarrow> ws_options" where
  "limits_of n = \<lparr>max_message_bytes = n, max_event_bytes = n, max_error_bytes = n, max_continuation_bytes = n,
     max_fragment_frames = 8\<rparr>"

definition env_with :: "body_read list \<Rightarrow> turn_env" where
  "env_with body = \<lparr>te_opts = limits_of 4000, te_buffered = 4000, te_leaves = (\<lambda>n. False), te_uuid = ''u'',
     te_fetch = (\<lambda>hs b. Answered \<lparr>fr_status = 200, fr_headers = [(''content-type'', ''text/event-stream'')],
                             fr_body = Some body\<rparr>),
     te_headers = [], te_key = ''k'', te_internal = None\<rparr>"

definition open_session :: session where
  "open_session = \<lparr>se_closed = False, se_continuations = [], se_turn_state = None\<rparr>"

definition sample_text :: string where
  "sample_text = json_stringify (JObj [(''type'', JStr ''response.create''), (''input'', JArr [JStr ''hi'']), (''stream'', JBool True)])"

definition follow_text :: string where
  "follow_text = json_stringify (JObj [(''type'', JStr ''response.create''), (''previous_response_id'', JStr ''r1''),
     (''input'', JArr [JStr ''more'']), (''stream'', JBool True)])"

definition whole_body :: "body_read list" where
  "whole_body = [Chunk (sse_event done_event), Chunk (sse_event (completed_event (Some (JStr ''r1''))))]"

lemma sample_turn:
  "process (env_with whole_body) sample_text open_session =
   (open_session\<lparr>se_continuations := [(JStr ''r1'', \<lparr>ct_input = [JStr ''hi''], ct_output = [JObj [(''id'', JStr ''m1'')]]\<rparr>)]\<rparr>,
    [done_event, completed_event (Some (JStr ''r1''))])"
  by code_simp

text \<open>Once the finished response was relayed, a connection that breaks while the rest of the body is drained
  still makes the router send an error behind it, and the continuation is not stored.\<close>

lemma late_failure_reported:
  "process (env_with (whole_body @ [Read_Failed None])) sample_text open_session =
   (open_session, [done_event, completed_event (Some (JStr ''r1'')),
      error_message 502 (simple_error LOST_STREAM ''The local router lost the internal Responses stream.'') None])"
  by code_simp

text \<open>A finished response without an id is relayed, and then reported as missing.\<close>

lemma completed_without_id_reported:
  "snd (process (env_with [Chunk (sse_event (completed_event None))]) sample_text open_session) =
   [completed_event None, error_message 502 (simple_error LOST_STREAM
      ''The internal Responses stream ended before response.completed.'') None]"
  by code_simp

text \<open>The limit on a line is tested on all the text that has arrived: two short events pass in two chunks and
  are refused in one.\<close>

lemma line_limit_depends_on_chunks:
  "let env = (env_with [])\<lparr>te_opts := limits_of 12\<rparr>; e = ''data: {}'' @ [LF, LF]
   in snd (relay_sse env (Some [Chunk e, Chunk e]) new_turn) = Go \<and>
      snd (relay_sse env (Some [Chunk (e @ e)]) new_turn) = Throw (Some TOO_LARGE)"
  by code_simp

lemma sample_stays: "Peer_Gone \<notin> set body \<Longrightarrow> stays_connected (env_with body)"
  by (simp add: stays_connected_def env_with_def)

lemma turn_ends_witness:
  "\<exists>before t late. snd (process (env_with (whole_body @ [Read_Failed None])) sample_text open_session) = before @ t # late \<and>
     under_way before \<and> terminal t \<and> (late = [] \<or> (\<exists>e. late = [e] \<and> has_type e ''error''))"
  by (rule turn_ends) (simp add: open_session_def, rule sample_stays, simp add: whole_body_def)

lemma relay_chunking_witness:
  "relay_sse (env_with []) (Some (map Chunk [''data: '', ''{}'' @ [LF], [LF]])) new_turn =
   relay_sse (env_with []) (Some [Chunk (concat [''data: '', ''{}'' @ [LF], [LF]])]) new_turn"
  by (rule relay_chunking) code_simp+

lemma follow_up_continues_witness:
  "\<exists>input input2. obj_get (JObj [(''input'', JArr [JStr ''hi'']), (''stream'', JBool True)]) ''input'' = Some (JArr input) \<and>
     obj_get (the (json_parse follow_text)) ''input'' = Some (JArr input2) \<and>
     obj_get (JObj [(''input'', JArr [JStr ''hi'', JObj [(''id'', JStr ''m1'')], JStr ''more'']), (''stream'', JBool True)])
       ''input'' = Some (JArr (input @ [JObj [(''id'', JStr ''m1'')]] @ input2))"
proof -
  let ?c = "\<lparr>ct_input = [JStr ''hi''], ct_output = [JObj [(''id'', JStr ''m1'')]]\<rparr>"
  let ?s1 = "open_session\<lparr>se_continuations := [(JStr ''r1'', ?c)]\<rparr>"
  have a: "build_request (te_opts (env_with whole_body)) open_session sample_text =
      Built (JObj [(''input'', JArr [JStr ''hi'']), (''stream'', JBool True)])" by code_simp
  have b: "fst (process (env_with whole_body) sample_text open_session) = ?s1" by (simp add: sample_turn)
  have c: "map_of (se_continuations open_session) (JStr ''r1'') = None" by (simp add: open_session_def)
  have d: "map_of (se_continuations ?s1) (JStr ''r1'') = Some ?c" by simp
  have e: "json_parse follow_text = Some (the (json_parse follow_text))" by code_simp
  have f: "previous_id (the (json_parse follow_text)) = Some ''r1''" by code_simp
  have g: "build_request (limits_of 4000) ?s1 follow_text =
      Built (JObj [(''input'', JArr [JStr ''hi'', JObj [(''id'', JStr ''m1'')], JStr ''more'']), (''stream'', JBool True)])"
    by code_simp
  show ?thesis using follow_up_continues [OF a b c d e f g] by (simp only: continuation.simps)
qed

end
