(* ===== verification/Call_Arguments.thy ===== *)
theory Call_Arguments
  imports Sse_Frames "HOL-Library.Multiset"
begin

text \<open>
  \<open>invalid-function-call.mjs\<close>: a completed \<open>function_call\<close> whose arguments are not JSON is
  refused, in a stored history before it is sent and in a response before it is relayed. The
  response side is a stage: frames of an open call are held until the call completes, so that a
  call found unusable leaves nothing of itself on the wire. Frames are never rewritten.

  The name lookups of \<open>namespace-relay.mjs\<close> that the constructor is given enter as the set of
  names whose arguments are kept raw (\<open>lk\<close>); no lookups is the empty set. The wording of the
  engine's \<open>SyntaxError\<close> is the argument \<open>se\<close>.
\<close>

section \<open>One call\<close>

record unusable =
  un_tool :: "string option"
  un_call :: "string option"
  un_item :: "string option"
  un_param :: "string option"
  un_error :: string

text \<open>\<open>functionCallArgumentsAreJson\<close>\<close>

definition arguments_are_json :: "json option \<Rightarrow> bool \<Rightarrow> bool" where
  "arguments_are_json value allow_empty =
     (case as_str value of None \<Rightarrow> True
      | Some s \<Rightarrow> (allow_empty \<and> trim s = []) \<or> json_parse s \<noteq> None)"

text \<open>\<open>preservesRawFunctionCallArguments\<close>\<close>

definition preserves_raw :: "(string \<Rightarrow> bool) \<Rightarrow> json \<Rightarrow> bool" where
  "preserves_raw lk item \<longleftrightarrow>
     as_str (obj_get item ''type'') = Some ''function_call'' \<and> obj_get item ''namespace'' = None \<and>
     (case as_str (obj_get item ''name'') of Some n \<Rightarrow> lk n | None \<Rightarrow> False)"

text \<open>\<open>typeof v === "string" && v\<close>\<close>

definition filled :: "json option \<Rightarrow> string option" where
  "filled v = (case as_str v of Some s \<Rightarrow> if s = [] then None else Some s | None \<Rightarrow> None)"

definition or_else :: "'a option \<Rightarrow> 'a option \<Rightarrow> 'a option" where
  "or_else a b = (case a of Some x \<Rightarrow> Some x | None \<Rightarrow> b)"

text \<open>\<open>describeFunctionCallIdentity\<close>, with the message of \<open>jsonParseError\<close>\<close>

definition parse_error :: "(string \<Rightarrow> string) \<Rightarrow> string \<Rightarrow> string" where
  "parse_error se s = (if se s = [] then ''Invalid JSON'' else se s)"

definition call_identity :: "json \<Rightarrow> string option \<Rightarrow> string \<Rightarrow> unusable" where
  "call_identity item path err =
     \<lparr>un_tool = or_else (filled (obj_get item ''name'')) (filled (opt_get (obj_get item ''function'') ''name'')),
      un_call = or_else (filled (obj_get item ''call_id'')) (filled (obj_get item ''id'')),
      un_item = filled (obj_get item ''id''),
      un_param = path, un_error = err\<rparr>"

text \<open>\<open>inspectFunctionCallArguments\<close>\<close>

definition arguments_text :: "json \<Rightarrow> string option" where
  "arguments_text item =
     or_else (as_str (obj_get item ''arguments'')) (as_str (opt_get (obj_get item ''function'') ''arguments''))"

definition inspect_call :: "(string \<Rightarrow> string) \<Rightarrow> (string \<Rightarrow> bool) \<Rightarrow> string \<Rightarrow> json \<Rightarrow> unusable option" where
  "inspect_call se lk path item =
     (if as_str (obj_get item ''type'') = Some ''custom_tool_call'' then None
      else if preserves_raw lk item then None
      else (case arguments_text item of None \<Rightarrow> None
        | Some text \<Rightarrow>
           if arguments_are_json (Some (JStr text)) True then None
           else Some (call_identity item (Some path) (parse_error se text))))"

text \<open>A literal with properties that may be \<open>undefined\<close>; \<open>a ?? b\<close>.\<close>

definition object_of :: "(string \<times> json option) list \<Rightarrow> json" where
  "object_of kvs = JObj (concat (map (\<lambda>(k, v). case v of Some j \<Rightarrow> [(k, j)] | None \<Rightarrow> []) kvs))"

definition nullish :: "json option \<Rightarrow> json option \<Rightarrow> json option" where
  "nullish a b = (case a of None \<Rightarrow> b | Some JNull \<Rightarrow> b | Some j \<Rightarrow> Some j)"

fun is_object :: "json \<Rightarrow> bool" where
  "is_object (JObj _) = True" | "is_object (JArr _) = True" | "is_object _ = False"

text \<open>\<open>inspectChatToolCall\<close>: the shape of a Chat Completions call, recast.\<close>

definition recast_call :: "json \<Rightarrow> json" where
  "recast_call call =
     object_of [(''type'', Some (JStr ''function_call'')),
       (''name'', nullish (opt_get (obj_get call ''function'') ''name'') (obj_get call ''name'')),
       (''arguments'', nullish (opt_get (obj_get call ''function'') ''arguments'') (obj_get call ''arguments'')),
       (''call_id'', nullish (obj_get call ''call_id'') (obj_get call ''id'')),
       (''id'', obj_get call ''id'')]"

definition inspect_chat_call :: "(string \<Rightarrow> string) \<Rightarrow> string \<Rightarrow> json \<Rightarrow> unusable option" where
  "inspect_chat_call se path call =
     (if is_object call then inspect_call se (\<lambda>_. False) path (recast_call call) else None)"

section \<open>A stored history\<close>

text \<open>\<open>inspectOutputItems\<close>, and the loops of \<open>findUnusableFunctionCallArguments\<close>: the first
  finding of a list, each element with its place.\<close>

fun first_found :: "(nat \<Rightarrow> 'a \<Rightarrow> 'b option) \<Rightarrow> nat \<Rightarrow> 'a list \<Rightarrow> 'b option" where
  "first_found f i [] = None"
| "first_found f i (x # xs) = or_else (f i x) (first_found f (Suc i) xs)"

definition place :: "string \<Rightarrow> nat \<Rightarrow> string" where
  "place what i = what @ ''['' @ nat_str i @ '']''"

definition inspect_input_item :: "(string \<Rightarrow> string) \<Rightarrow> (string \<Rightarrow> bool) \<Rightarrow> nat \<Rightarrow> json \<Rightarrow> unusable option" where
  "inspect_input_item se lk i item =
     or_else (inspect_call se lk (place ''input'' i) item)
       (case as_arr (obj_get item ''tool_calls'') of None \<Rightarrow> None
        | Some calls \<Rightarrow>
           first_found (\<lambda>j. inspect_chat_call se (place (place ''input'' i @ ''.tool_calls'') j)) 0 calls)"

definition find_unusable_input :: "(string \<Rightarrow> string) \<Rightarrow> (string \<Rightarrow> bool) \<Rightarrow> json option \<Rightarrow> unusable option" where
  "find_unusable_input se lk input =
     (case as_arr input of None \<Rightarrow> None | Some xs \<Rightarrow> first_found (inspect_input_item se lk) 0 xs)"

section \<open>An event of a response\<close>

definition inspect_output :: "(string \<Rightarrow> string) \<Rightarrow> (string \<Rightarrow> bool) \<Rightarrow> json option \<Rightarrow> unusable option" where
  "inspect_output se lk output_items =
     (case as_arr output_items of None \<Rightarrow> None
      | Some xs \<Rightarrow> first_found (\<lambda>i. inspect_call se lk (place ''output'' i)) 0 xs)"

definition type_is :: "json \<Rightarrow> string \<Rightarrow> bool" where
  "type_is event k \<longleftrightarrow> as_str (obj_get event ''type'') = Some k"

definition ARGS_DELTA :: string where "ARGS_DELTA = ''response.function_call_arguments.delta''"
definition ARGS_DONE :: string where "ARGS_DONE = ''response.function_call_arguments.done''"
definition CALL_ADDED :: string where "CALL_ADDED = ''response.output_item.added''"
definition CALL_DONE :: string where "CALL_DONE = ''response.output_item.done''"

definition is_end_event :: "json \<Rightarrow> bool" where
  "is_end_event event \<longleftrightarrow> type_is event ''response.completed'' \<or> type_is event ''response.done''"

text \<open>\<open>findUnusableCompletedFunctionCall\<close>\<close>

definition completed_arguments :: "json \<Rightarrow> json" where
  "completed_arguments event =
     object_of [(''type'', Some (JStr ''function_call'')), (''name'', obj_get event ''name''),
       (''arguments'', obj_get event ''arguments''), (''call_id'', obj_get event ''call_id''),
       (''id'', obj_get event ''item_id''), (''namespace'', obj_get event ''namespace'')]"

definition find_unusable_event :: "(string \<Rightarrow> string) \<Rightarrow> (string \<Rightarrow> bool) \<Rightarrow> json \<Rightarrow> unusable option" where
  "find_unusable_event se lk event =
     (let response_output = opt_get (obj_get event ''response'') ''output'';
          own_output = obj_get event ''output'' in
      if \<not> is_object event then None
      else if type_is event ARGS_DONE then
        inspect_call se lk ''function_call_arguments.done'' (completed_arguments event)
      else if type_is event CALL_DONE then
        (case obj_get event ''item'' of None \<Rightarrow> None | Some item \<Rightarrow> inspect_call se lk ''output_item.done'' item)
      else if is_end_event event then
        or_else (inspect_output se lk (nullish response_output own_output)) (inspect_output se lk own_output)
      else if as_arr own_output \<noteq> None then inspect_output se lk own_output
      else if as_arr response_output \<noteq> None then inspect_output se lk response_output
      else None)"

section \<open>Messages\<close>

text \<open>\<open>identityClause\<close> and \<open>invalidFunctionCallArgumentsMessage\<close>; \<open>param\<close> and the parse
  error are left out when empty or absent.\<close>

definition present :: "string option \<Rightarrow> string \<Rightarrow> string \<Rightarrow> string list" where
  "present v before after =
     (case v of Some s \<Rightarrow> if s = [] then [] else [before @ s @ after] | None \<Rightarrow> [])"

definition QUOTE_MARK :: string where "QUOTE_MARK = [CHR 0x27]"

definition identity_clause ::
  "string option \<Rightarrow> string option \<Rightarrow> string option \<Rightarrow> string option \<Rightarrow> string" where
  "identity_clause tool call item param =
     (let parts = present tool (''tool '' @ QUOTE_MARK) QUOTE_MARK @
            (if present call [] [] \<noteq> [] then present call (''call_id '' @ QUOTE_MARK) QUOTE_MARK
             else present item (''item '' @ QUOTE_MARK) QUOTE_MARK) @
            present param [] []
      in if parts = [] then ''.'' else '' '' @ join '', '' parts @ ''.'')"

definition HISTORY_REFUSED :: string where
  "HISTORY_REFUSED = ''The local router refused this request because a stored function_call has arguments that are not valid JSON, so the turn cannot be sent.''"

definition HISTORY_REASON :: string where
  "HISTORY_REASON = '' This is a broken history item from an earlier response, not a provider rejection.''"

definition RESPONSE_REFUSED :: string where
  "RESPONSE_REFUSED = ''The model completed a function_call whose arguments are not valid JSON.''"

definition RESPONSE_REASON :: string where
  "RESPONSE_REASON = '' The router did not relay the completed item, because the client cannot execute it and storing it would break later turns.''"

definition invalid_arguments_message :: "bool \<Rightarrow> string \<Rightarrow> string \<Rightarrow> string" where
  "invalid_arguments_message from_history identity err =
     (let parse = concat (present (Some err) '' ('' '')'') in
      if from_history then HISTORY_REFUSED @ identity @ HISTORY_REASON @ parse
      else RESPONSE_REFUSED @ identity @ RESPONSE_REASON @ parse)"

definition INVALID_ARGUMENTS_CODE :: string where
  "INVALID_ARGUMENTS_CODE = ''invalid_function_call_arguments''"

text \<open>\<open>InvalidFunctionCallArgumentsError\<close>\<close>

record arguments_error =
  ae_message :: string
  ae_code :: string
  ae_status :: nat
  ae_source :: string
  ae_param :: json
  ae_tool :: "string option"
  ae_call :: "string option"
  ae_item :: "string option"

definition arguments_error_of :: "bool \<Rightarrow> unusable \<Rightarrow> arguments_error" where
  "arguments_error_of from_history u =
     \<lparr>ae_message = invalid_arguments_message from_history
        (identity_clause (un_tool u) (un_call u) (un_item u) (un_param u)) (un_error u),
      ae_code = INVALID_ARGUMENTS_CODE,
      ae_status = (if from_history then 400 else 502),
      ae_source = (if from_history then ''history'' else ''response''),
      ae_param = (case un_param u of Some p \<Rightarrow> JStr p | None \<Rightarrow> JNull),
      ae_tool = un_tool u, ae_call = un_call u, ae_item = un_item u\<rparr>"

text \<open>\<open>historyFunctionCallArgumentsError\<close>\<close>

definition error_body :: "string \<Rightarrow> json \<Rightarrow> json" where
  "error_body message param =
     JObj [(''error'', JObj [(''message'', JStr message), (''type'', JStr ''invalid_request_error''),
        (''param'', param), (''code'', JStr INVALID_ARGUMENTS_CODE)])]"

definition history_error :: "unusable \<Rightarrow> json" where
  "history_error u = (let e = arguments_error_of True u in error_body (ae_message e) (ae_param e))"

section \<open>A conversion that failed locally\<close>

text \<open>\<open>TOOL_NAME_IN_CONVERSION\<close>: the phrase in any letter case, an optional quote, the name.\<close>

definition CONVERSION_PHRASE :: string where
  "CONVERSION_PHRASE = ''failed to parse tool call arguments for tool ''"

definition is_quote :: "char \<Rightarrow> bool" where
  "is_quote c \<longleftrightarrow> c = CHR 0x27 \<or> c = CHR 0x22"

fun name_run :: "string \<Rightarrow> string" where
  "name_run [] = []"
| "name_run (c # cs) = (if is_quote c \<or> ws_len (c # cs) \<noteq> 0 then [] else c # name_run cs)"

definition tool_name_at :: "string \<Rightarrow> string option" where
  "tool_name_at s =
     (if to_lower (take (length CONVERSION_PHRASE) s) \<noteq> CONVERSION_PHRASE then None
      else let r = drop (length CONVERSION_PHRASE) s;
               r' = (case r of c # cs \<Rightarrow> if is_quote c then cs else r | [] \<Rightarrow> []);
               n = name_run r' in if n = [] then None else Some n)"

fun tool_name_in_conversion :: "string \<Rightarrow> string option" where
  "tool_name_in_conversion [] = None"
| "tool_name_in_conversion (c # cs) = or_else (tool_name_at (c # cs)) (tool_name_in_conversion cs)"

definition TOOL_INVOKE :: string where "TOOL_INVOKE = ''(Anthropic tool invoke)''"

text \<open>\<open>isLocalToolArgumentConversionFailure\<close>, \<open>localToolArgumentConversionError\<close>\<close>

definition local_conversion_failure :: "string option \<Rightarrow> bool" where
  "local_conversion_failure body =
     (case body of None \<Rightarrow> False
      | Some s \<Rightarrow> s \<noteq> [] \<and> (tool_name_in_conversion s \<noteq> None \<or> contains_sub s TOOL_INVOKE))"

definition local_conversion_error :: "string option \<Rightarrow> json" where
  "local_conversion_error body =
     error_body (invalid_arguments_message True
       (identity_clause (Option.bind body tool_name_in_conversion) None None None) []) JNull"

section \<open>The stage\<close>

definition MAX_FRAME :: nat where "MAX_FRAME = 10 * 1024 * 1024"
definition MAX_CAPTURE :: nat where "MAX_CAPTURE = 10 * 1024 * 1024"

record held_call =
  hc_frames :: "bytes list"
  hc_bytes :: nat

record call_guard =
  cg_buffer :: bytes
  cg_pass :: bool
  cg_names :: "(string \<times> string) list"
  cg_held :: "(string \<times> held_call) list"

definition new_guard :: call_guard where
  "new_guard = \<lparr>cg_buffer = [], cg_pass = False, cg_names = [], cg_held = []\<rparr>"

text \<open>What an operation pushed, and the error it threw.\<close>

type_synonym guarded = "call_guard \<times> bytes list \<times> unusable option"

text \<open>Going on unless an error was thrown.\<close>

fun and_then :: "guarded \<Rightarrow> (call_guard \<Rightarrow> guarded) \<Rightarrow> guarded" where
  "and_then (s, out, Some b) f = (s, out, Some b)"
| "and_then (s, out, None) f = (let (s1, o1, e1) = f s in (s1, out @ o1, e1))"

abbreviation no_error :: "call_guard \<times> bytes list \<Rightarrow> guarded" where
  "no_error r \<equiv> (fst r, snd r, None)"

lemma and_then_assoc: "and_then (and_then r f) g = and_then r (\<lambda>s. and_then (f s) g)"
proof (cases "(r, f)" rule: and_then.cases)
  case (2 s out h)
  then show ?thesis by (cases "(f s, g)" rule: and_then.cases) (auto simp: split_beta)
qed auto

lemma and_then_nothing [simp]: "and_then (s, [], None) f = f s"
  by simp

lemma and_then_error: "snd (snd r) \<noteq> None \<Longrightarrow> and_then r f = r"
  by (cases "(r, f)" rule: and_then.cases) auto

lemma and_then_ok: "snd (snd r) = None \<Longrightarrow> and_then r f =
    (fst (f (fst r)), fst (snd r) @ fst (snd (f (fst r))), snd (snd (f (fst r))))"
  by (cases "(r, f)" rule: and_then.cases) (auto simp: split_beta)

lemma and_then_None: "snd (snd (and_then r f)) = None \<longleftrightarrow> snd (snd r) = None \<and> snd (snd (f (fst r))) = None"
  by (cases "(r, f)" rule: and_then.cases) (auto simp: split_beta)

text \<open>\<open>eventFromSseBlock\<close>\<close>

definition block_event :: "string \<Rightarrow> json option" where
  "block_event block =
     (let ls = data_lines block; text = join [LF] ls in
      if ls = [] then None else if text = [] \<or> text = DONE_MARK then None else json_parse text)"

definition is_call_item :: "json \<Rightarrow> bool" where
  "is_call_item event \<longleftrightarrow> as_str (opt_get (obj_get event ''item'') ''type'') = Some ''function_call''"

text \<open>\<open>functionCallHoldId\<close>, \<open>isFunctionCallCompletion\<close>\<close>

definition hold_id :: "json \<Rightarrow> string option" where
  "hold_id event =
     (if type_is event CALL_ADDED \<and> is_call_item event then filled (opt_get (obj_get event ''item'') ''id'')
      else if type_is event ARGS_DELTA \<or> type_is event ARGS_DONE then filled (obj_get event ''item_id'')
      else if type_is event CALL_DONE \<and> is_call_item event then filled (opt_get (obj_get event ''item'') ''id'')
      else None)"

definition is_completion :: "json \<Rightarrow> bool" where
  "is_completion event \<longleftrightarrow> type_is event ARGS_DONE \<or> (type_is event CALL_DONE \<and> is_call_item event)"

text \<open>The names of added items, and \<open>#withKnownName\<close>\<close>

definition learn_name :: "json \<Rightarrow> (string \<times> string) list \<Rightarrow> (string \<times> string) list" where
  "learn_name event names =
     (if type_is event CALL_ADDED \<and> is_call_item event then
        (case (filled (opt_get (obj_get event ''item'') ''id''), as_str (opt_get (obj_get event ''item'') ''name'')) of
           (Some i, Some n) \<Rightarrow> AList.update i n names
         | _ \<Rightarrow> names)
      else names)"

definition known_name :: "(string \<times> string) list \<Rightarrow> json \<Rightarrow> string option" where
  "known_name names event =
     (case (case as_str (obj_get event ''item_id'') of Some i \<Rightarrow> Some i
            | None \<Rightarrow> as_str (opt_get (obj_get event ''item'') ''id'')) of
        None \<Rightarrow> None
      | Some i \<Rightarrow> if i = [] then None else filled (map_option JStr (map_of names i)))"

definition with_known_name :: "(string \<times> string) list \<Rightarrow> json \<Rightarrow> json" where
  "with_known_name names event =
     (case known_name names event of None \<Rightarrow> event
      | Some n \<Rightarrow>
         let e1 = (if filled (obj_get event ''name'') = None then with_prop event ''name'' (JStr n) else event)
         in (case obj_get event ''item'' of None \<Rightarrow> e1
             | Some item \<Rightarrow>
                if truthy (Some item) \<and> filled (obj_get item ''name'') = None
                then with_prop e1 ''item'' (with_prop item ''name'' (JStr n)) else e1))"


text \<open>\<open>#hold\<close>, \<open>#flushHeld\<close>, \<open>#dropHeld\<close>, \<open>#flushAllHeld\<close>\<close>

definition release_call :: "string \<Rightarrow> call_guard \<Rightarrow> call_guard \<times> bytes list" where
  "release_call k s =
     (case map_of (cg_held s) k of None \<Rightarrow> (s, [])
      | Some h \<Rightarrow> (s\<lparr>cg_held := AList.delete k (cg_held s)\<rparr>, hc_frames h))"

definition drop_call :: "string \<Rightarrow> call_guard \<Rightarrow> call_guard" where
  "drop_call k s = s\<lparr>cg_held := AList.delete k (cg_held s)\<rparr>"

definition hold_frame :: "string \<Rightarrow> bytes \<Rightarrow> call_guard \<Rightarrow> call_guard \<times> bytes list \<times> bool" where
  "hold_frame k frame s =
     (let h = (case map_of (cg_held s) k of Some h \<Rightarrow> h | None \<Rightarrow> \<lparr>hc_frames = [], hc_bytes = 0\<rparr>);
          n = hc_bytes h + length frame;
          s1 = s\<lparr>cg_held := AList.update k (h\<lparr>hc_bytes := n\<rparr>) (cg_held s)\<rparr>
      in if MAX_CAPTURE < n then (let (s2, out) = release_call k s1 in (s2, out, False))
         else (s\<lparr>cg_held := AList.update k \<lparr>hc_frames = hc_frames h @ [frame], hc_bytes = n\<rparr> (cg_held s)\<rparr>, [], True))"

fun release_calls :: "string list \<Rightarrow> call_guard \<Rightarrow> call_guard \<times> bytes list" where
  "release_calls [] s = (s, [])"
| "release_calls (k # ks) s =
     (let (s1, o1) = release_call k s; (s2, o2) = release_calls ks s1 in (s2, o1 @ o2))"

definition release_all :: "call_guard \<Rightarrow> call_guard \<times> bytes list" where
  "release_all s = release_calls (map fst (cg_held s)) s"

text \<open>\<open>#reject\<close>\<close>

definition reject :: "call_guard \<Rightarrow> bytes list \<Rightarrow> unusable \<Rightarrow> guarded" where
  "reject s out bad = (s\<lparr>cg_held := []\<rparr>, out, Some bad)"

text \<open>\<open>#inspectSseFrame\<close>\<close>

definition guard_event ::
  "(string \<Rightarrow> string) \<Rightarrow> (string \<Rightarrow> bool) \<Rightarrow> bytes \<Rightarrow> json \<Rightarrow> call_guard \<Rightarrow> guarded" where
  "guard_event se lk frame event0 s0 =
     (let s = s0\<lparr>cg_names := learn_name event0 (cg_names s0)\<rparr>;
          event = with_known_name (cg_names s) event0;
          bad = find_unusable_event se lk event in
      case hold_id event of
        Some k \<Rightarrow>
          (let (s1, o1, held) = hold_frame k frame s in
           if \<not> held then (s1, o1 @ [frame], None)
           else (case bad of Some b \<Rightarrow> reject (drop_call k s1) o1 b
             | None \<Rightarrow>
                if is_completion event then (let (s2, o2) = release_call k s1 in (s2, o1 @ o2, None))
                else (s1, o1, None)))
      | None \<Rightarrow>
          (case bad of Some b \<Rightarrow> reject s [] b
           | None \<Rightarrow>
              if is_end_event event then (let (s1, o1) = release_all s in (s1, o1 @ [frame], None))
              else (s, [frame], None)))"

definition guard_frame ::
  "(string \<Rightarrow> string) \<Rightarrow> (string \<Rightarrow> bool) \<Rightarrow> bytes \<Rightarrow> call_guard \<Rightarrow> guarded" where
  "guard_frame se lk frame s =
     (if MAX_FRAME < length frame then (s, [frame], None)
      else (case fatal_utf8 frame of
          None \<Rightarrow> (s\<lparr>cg_pass := True, cg_buffer := []\<rparr>,
                    frame # (if cg_buffer s = [] then [] else [cg_buffer s]), None)
        | Some text \<Rightarrow>
            (case block_event text of None \<Rightarrow> (s, [frame], None)
             | Some event \<Rightarrow> guard_event se lk frame event s)))"

text \<open>\<open>#releaseJson\<close>\<close>

definition give_up :: "call_guard \<Rightarrow> call_guard \<times> bytes list" where
  "give_up s =
     (let (s1, o1) = release_all s in
      (s1\<lparr>cg_buffer := [], cg_pass := True\<rparr>, o1 @ (if cg_buffer s1 = [] then [] else [cg_buffer s1])))"

lemma release_call_buffer [simp]: "cg_buffer (fst (release_call k s)) = cg_buffer s"
  by (simp add: release_call_def split: option.splits)

lemma release_calls_buffer [simp]: "cg_buffer (fst (release_calls ks s)) = cg_buffer s"
  by (induction ks arbitrary: s) (simp_all add: Let_def case_prod_unfold)

lemma release_all_buffer [simp]: "cg_buffer (fst (release_all s)) = cg_buffer s"
  by (simp add: release_all_def)

lemma hold_frame_buffer [simp]: "cg_buffer (fst (hold_frame k f s)) = cg_buffer s"
  by (simp add: hold_frame_def Let_def case_prod_unfold)

lemma guard_event_buffer [simp]: "cg_buffer (fst (guard_event se lk f e s)) = cg_buffer s"
  by (simp add: guard_event_def reject_def drop_call_def Let_def case_prod_unfold split: option.splits)

lemma guard_frame_buffer: "length (cg_buffer (fst (guard_frame se lk f s))) \<le> length (cg_buffer s)"
  by (simp add: guard_frame_def split: option.splits)

text \<open>\<open>#emitSse\<close>\<close>

function emit_sse ::
  "(string \<Rightarrow> string) \<Rightarrow> (string \<Rightarrow> bool) \<Rightarrow> bool \<Rightarrow> call_guard \<Rightarrow> guarded" where
  "emit_sse se lk flush s =
     (let b = cg_buffer s in
      if b = [] \<or> cg_pass s then (s, [], None)
      else if MAX_FRAME < length b \<and> find_frame_end b = None then
        no_error (give_up s)
      else (case find_frame_end b of
          None \<Rightarrow> if \<not> flush then (s, [], None) else guard_frame se lk b (s\<lparr>cg_buffer := []\<rparr>)
        | Some (i, sep) \<Rightarrow>
            (let n = i + length sep;
                 r = guard_frame se lk (take n b) (s\<lparr>cg_buffer := drop n b\<rparr>) in
             if snd (snd r) \<noteq> None then r else and_then r (\<lambda>_. emit_sse se lk flush (fst r)))))"
  by pat_completeness auto
termination
proof (relation "measure (\<lambda>(se, lk, flush, s). length (cg_buffer s))", goal_cases)
  case 1
  show ?case by simp
next
  case (2 se lk flush s b r i sep n r2)
  then have "0 < n \<and> n \<le> length b" using find_frame_end_sound [of b i sep] by auto
  then have "length (drop n b) < length b" unfolding length_drop by linarith
  then show ?case
    using guard_frame_buffer [of se lk "take n b" "s\<lparr>cg_buffer := drop n b\<rparr>"] 2 by simp
qed

declare emit_sse.simps [simp del]

text \<open>\<open>_transform\<close>, \<open>#finishJson\<close> and \<open>_flush\<close>; \<open>stream\<close> is \<open>#eventStream\<close>.\<close>

definition cg_transform ::
  "(string \<Rightarrow> string) \<Rightarrow> (string \<Rightarrow> bool) \<Rightarrow> bool \<Rightarrow> bytes \<Rightarrow> call_guard \<Rightarrow> guarded" where
  "cg_transform se lk stream piece s =
     (if cg_pass s then (s, [piece], None)
      else let s1 = s\<lparr>cg_buffer := cg_buffer s @ piece\<rparr> in
        if stream then emit_sse se lk False s1
        else if MAX_CAPTURE < length (cg_buffer s1) then no_error (give_up s1)
        else (s1, [], None))"

definition finish_json :: "(string \<Rightarrow> string) \<Rightarrow> (string \<Rightarrow> bool) \<Rightarrow> call_guard \<Rightarrow> guarded" where
  "finish_json se lk s =
     (let b = cg_buffer s; quit = no_error (give_up s) in
      if b = [] then (s, [], None)
      else if MAX_CAPTURE < length b then quit
      else (case Option.bind (fatal_utf8 b) json_parse of None \<Rightarrow> quit
        | Some payload \<Rightarrow>
            (case find_unusable_event se lk payload of Some bad \<Rightarrow> reject s [] bad
             | None \<Rightarrow> (s\<lparr>cg_buffer := []\<rparr>, [b], None))))"

definition cg_flush :: "(string \<Rightarrow> string) \<Rightarrow> (string \<Rightarrow> bool) \<Rightarrow> bool \<Rightarrow> call_guard \<Rightarrow> guarded" where
  "cg_flush se lk stream s =
     (if cg_pass s then (s, [], None)
      else if stream then and_then (emit_sse se lk True s) (\<lambda>s1. no_error (release_all s1))
      else finish_json se lk s)"

text \<open>A body chunk by chunk. After an error the stream is destroyed: nothing more is read.\<close>

fun cg_feed ::
  "(string \<Rightarrow> string) \<Rightarrow> (string \<Rightarrow> bool) \<Rightarrow> bool \<Rightarrow> bytes list \<Rightarrow> call_guard \<Rightarrow> guarded" where
  "cg_feed se lk stream [] s = cg_flush se lk stream s"
| "cg_feed se lk stream (c # cs) s = and_then (cg_transform se lk stream c s) (cg_feed se lk stream cs)"

definition guard_body ::
  "(string \<Rightarrow> string) \<Rightarrow> (string \<Rightarrow> bool) \<Rightarrow> bool \<Rightarrow> bytes list \<Rightarrow> bytes list \<times> unusable option" where
  "guard_body se lk stream cs = snd (cg_feed se lk stream cs new_guard)"

text \<open>\<open>invalidCompletedFunctionCallTransform\<close>: which bodies are guarded, and as what.\<close>

definition EVENT_STREAM :: string where "EVENT_STREAM = ''text/event-stream''"

definition guard_mode :: "string \<Rightarrow> bool option" where
  "guard_mode content_type =
     (let t = to_lower content_type in
      if \<not> contains_sub t EVENT_STREAM \<and> \<not> contains_sub t ''json'' then None
      else Some (contains_sub t EVENT_STREAM))"


section \<open>The stage on whole frames\<close>

text \<open>The frames of a body: up to each boundary, and what is left after the last.\<close>

function cut_frames :: "bytes \<Rightarrow> bytes list \<times> bytes" where
  "cut_frames b =
     (case find_frame_end b of None \<Rightarrow> ([], b)
      | Some (i, sep) \<Rightarrow> apfst (Cons (take (i + length sep) b)) (cut_frames (drop (i + length sep) b)))"
  by pat_completeness auto
termination
proof (relation "measure length", goal_cases)
  case 1
  show ?case by simp
next
  case (2 b r i sep)
  then have "find_frame_end b = Some (i, sep)" by simp
  from find_frame_end_sound [OF this] have "0 < length sep" "i + length sep \<le> length b" by simp_all
  then have "length b - (i + length sep) < length b" by linarith
  then show ?case by simp
qed

declare cut_frames.simps [simp del]

definition frames_of :: "bytes \<Rightarrow> bytes list" where
  "frames_of b = (let (fs, r) = cut_frames b in fs @ (if r = [] then [] else [r]))"

lemma cut_frames_None: "find_frame_end b = None \<Longrightarrow> cut_frames b = ([], b)"
  by (subst cut_frames.simps) simp

lemma cut_frames_Some: "find_frame_end b = Some (i, sep) \<Longrightarrow>
    cut_frames b = apfst (Cons (take (i + length sep) b)) (cut_frames (drop (i + length sep) b))"
  by (subst cut_frames.simps) simp

lemma find_frame_end_Nil [simp]: "find_frame_end [] = None"
  by (simp add: find_frame_end_def CRLF_SEP_def LF_SEP_def)

lemma cut_frames_append:
  "cut_frames (a @ x) = (fst (cut_frames a) @ fst (cut_frames (snd (cut_frames a) @ x)),
                         snd (cut_frames (snd (cut_frames a) @ x)))"
proof (induction a rule: cut_frames.induct)
  case (1 b)
  show ?case
  proof (cases "find_frame_end b")
    case None
    then show ?thesis by (simp add: cut_frames_None)
  next
    case (Some r)
    obtain i sep where r: "r = (i, sep)" by (cases r)
    note found = Some [unfolded r]
    have n: "i + length sep \<le> length b" using find_frame_end_sound [OF found] by simp
    show ?thesis
      using 1 [OF found refl] n
      by (simp add: cut_frames_Some [OF found] cut_frames_Some [OF find_frame_end_stable [OF found]] apfst_def map_prod_def split_beta)
  qed
qed

lemma cut_frames_rest: "find_frame_end (snd (cut_frames b)) = None"
proof (induction b rule: cut_frames.induct)
  case (1 b)
  show ?case
  proof (cases "find_frame_end b")
    case None
    then show ?thesis by (simp add: cut_frames_None)
  next
    case (Some r)
    obtain i sep where r: "r = (i, sep)" by (cases r)
    show ?thesis using 1 [OF Some [unfolded r] refl] by (simp add: cut_frames_Some [OF Some [unfolded r]])
  qed
qed

lemma concat_cut_frames: "concat (fst (cut_frames b)) @ snd (cut_frames b) = b"
proof (induction b rule: cut_frames.induct)
  case (1 b)
  show ?case
  proof (cases "find_frame_end b")
    case None
    then show ?thesis by (simp add: cut_frames_None)
  next
    case (Some r)
    obtain i sep where r: "r = (i, sep)" by (cases r)
    show ?thesis using 1 [OF Some [unfolded r] refl] by (simp add: cut_frames_Some [OF Some [unfolded r]])
  qed
qed

lemma concat_frames_of: "concat (frames_of b) = b"
  using concat_cut_frames [of b] by (auto simp: frames_of_def split_beta)

text \<open>A cut at a line feed does not split a character.\<close>

lemma cont_not_ascii: "is_cont c \<Longrightarrow> \<not> is_ascii c"
  unfolding is_cont_def is_ascii_def by (auto dest: order_trans)

lemma seq_len_inside: "k < seq_len s \<Longrightarrow> 1 < seq_len s \<Longrightarrow> \<not> is_ascii (s ! k)"
  by (cases s) (auto simp: lead3_ok_def lead4_ok_def nth_Cons cont_not_ascii split: if_splits list.splits nat.splits)

lemma seq_len_back: "seq_len (a @ c) \<noteq> 0 \<Longrightarrow> seq_len (a @ c) \<le> length a \<Longrightarrow> seq_len a = seq_len (a @ c)"
  by (cases a) (auto simp: Cons_eq_append_conv append_eq_Cons_conv split: if_splits list.splits)

lemma utf8_valid_cut: "utf8_valid (a @ c) \<Longrightarrow> a = [] \<or> is_ascii (last a) \<Longrightarrow> utf8_valid a"
proof (induction "length a" arbitrary: a rule: less_induct)
  case less
  show ?case
  proof (cases "a = []")
    case False
    let ?n = "seq_len (a @ c)"
    have n: "?n \<noteq> 0" and rest: "utf8_valid (drop ?n (a @ c))"
      using less.prems(1) False utf8_valid.simps [of "a @ c"] by (auto split: if_splits)
    have le: "?n \<le> length a"
    proof (rule ccontr)
      assume "\<not> ?n \<le> length a"
      moreover have "0 < length a" using False by simp
      ultimately have k: "length a - 1 < ?n" "1 < ?n" by linarith+
      have "(a @ c) ! (length a - 1) = last a" using False by (simp add: nth_append last_conv_nth)
      with seq_len_inside [OF k] less.prems(2) False show False by simp
    qed
    then have same: "seq_len a = ?n"
      using seq_len_back [OF n] by simp
    have "utf8_valid (drop ?n a)"
    proof (rule less.hyps)
      show "length (drop ?n a) < length a" using n False by simp
      show "utf8_valid (drop ?n a @ c)" using rest le by simp
      show "drop ?n a = [] \<or> is_ascii (last (drop ?n a))" using less.prems(2) False le
        by (cases "?n = length a") (simp_all add: last_drop)
    qed
    with n False same show ?thesis by (subst utf8_valid.simps) simp
  qed simp
qed


lemma find_frame_end_ascii:
  assumes "find_frame_end b = Some (i, sep)"
  shows "is_ascii (last (take (i + length sep) b))"
proof -
  from find_frame_end_sound [OF assms] obtain t where s: "sep \<noteq> []" "i + length sep \<le> length b" "drop i b = sep @ t"
    by (auto simp: starts_with_iff_append)
  have "take (i + length sep) b = take i b @ sep"
    using s by (simp add: take_add)
  moreover have "last sep = LF" using assms s(1)
    by (auto simp: find_frame_end_def Let_def CRLF_SEP_def LF_SEP_def split: option.splits if_splits)
  ultimately show ?thesis using s(1) by (simp add: LF_def is_ascii_def)
qed

lemma cut_frames_valid: "utf8_valid b \<Longrightarrow> list_all utf8_valid (fst (cut_frames b)) \<and> utf8_valid (snd (cut_frames b))"
proof (induction b rule: cut_frames.induct)
  case (1 b)
  show ?case
  proof (cases "find_frame_end b")
    case None
    then show ?thesis using "1.prems" by (simp add: cut_frames_None)
  next
    case (Some r)
    obtain i sep where r: "r = (i, sep)" by (cases r)
    note found = Some [unfolded r]
    let ?n = "i + length sep"
    have v: "utf8_valid (take ?n b)"
      using utf8_valid_cut [of "take ?n b" "drop ?n b"] "1.prems" find_frame_end_ascii [OF found] by simp
    have "utf8_valid (drop ?n b)" using utf8_valid_append [OF v, of "drop ?n b"] "1.prems" by simp
    with v 1(1) [OF found refl] show ?thesis by (simp add: cut_frames_Some [OF found])
  qed
qed

lemma frames_of_valid: "utf8_valid b \<Longrightarrow> list_all utf8_valid (frames_of b)"
  using cut_frames_valid [of b] by (auto simp: frames_of_def split_beta)

text \<open>The stage frame by frame, up to the first error.\<close>

fun guard_frames ::
  "(string \<Rightarrow> string) \<Rightarrow> (string \<Rightarrow> bool) \<Rightarrow> bytes list \<Rightarrow> call_guard \<Rightarrow> guarded" where
  "guard_frames se lk [] s = (s, [], None)"
| "guard_frames se lk (f # fs) s = and_then (guard_frame se lk f s) (guard_frames se lk fs)"

text \<open>A frame of the stage does not look at the undecided bytes, as long as it is text.\<close>

abbreviation put_buffer :: "bytes \<Rightarrow> call_guard \<Rightarrow> call_guard" where
  "put_buffer x s \<equiv> s\<lparr>cg_buffer := x\<rparr>"

lemma release_call_put: "release_call k (put_buffer x s) = apfst (put_buffer x) (release_call k s)"
  by (simp add: release_call_def split: option.splits)

lemma release_calls_put: "release_calls ks (put_buffer x s) = apfst (put_buffer x) (release_calls ks s)"
  by (induction ks arbitrary: s) (simp_all add: release_call_put split_beta)

lemma release_all_put: "release_all (put_buffer x s) = apfst (put_buffer x) (release_all s)"
  by (simp add: release_all_def release_calls_put)

lemma hold_frame_put: "hold_frame k f (put_buffer x s) = apfst (put_buffer x) (hold_frame k f s)"
proof -
  have "s\<lparr>cg_buffer := x, cg_held := h\<rparr> = put_buffer x (s\<lparr>cg_held := h\<rparr>)" for h by simp
  then show ?thesis
    by (simp only: hold_frame_def Let_def release_call_put) (simp add: split_beta release_call_put)
qed

lemma guard_event_put: "guard_event se lk f e (put_buffer x s) = apfst (put_buffer x) (guard_event se lk f e s)"
proof -
  have names: "(put_buffer x s)\<lparr>cg_names := n\<rparr> = put_buffer x (s\<lparr>cg_names := n\<rparr>)" for n by simp
  show ?thesis
    by (simp only: guard_event_def Let_def names call_guard.select_convs)
      (simp add: hold_frame_put release_call_put release_all_put reject_def drop_call_def split_beta names split: option.splits)
qed

lemma release_call_pass [simp]: "cg_pass (fst (release_call k s)) = cg_pass s"
  by (simp add: release_call_def split: option.splits)

lemma release_calls_pass [simp]: "cg_pass (fst (release_calls ks s)) = cg_pass s"
  by (induction ks arbitrary: s) (simp_all add: split_beta)

lemma release_all_pass [simp]: "cg_pass (fst (release_all s)) = cg_pass s"
  by (simp add: release_all_def)

lemma hold_frame_pass [simp]: "cg_pass (fst (hold_frame k f s)) = cg_pass s"
  by (simp add: hold_frame_def Let_def split_beta)

lemma guard_event_pass [simp]: "cg_pass (fst (guard_event se lk f e s)) = cg_pass s"
  by (simp add: guard_event_def reject_def drop_call_def Let_def split_beta split: option.splits)

lemma guard_frame_text:
  "utf8_valid f \<Longrightarrow> guard_frame se lk f s =
     (if MAX_FRAME < length f then (s, [f], None)
      else (case block_event f of None \<Rightarrow> (s, [f], None) | Some e \<Rightarrow> guard_event se lk f e s))"
  by (simp add: guard_frame_def fatal_utf8_def)

lemma guard_frame_put: "utf8_valid f \<Longrightarrow>
    guard_frame se lk f (put_buffer x s) = apfst (put_buffer x) (guard_frame se lk f s)"
  by (simp add: guard_frame_text guard_event_put split: option.splits)

lemma guard_frame_pass: "utf8_valid f \<Longrightarrow> cg_pass (fst (guard_frame se lk f s)) = cg_pass s"
  by (simp add: guard_frame_text split: option.splits)

lemma guard_frame_buf: "utf8_valid f \<Longrightarrow> cg_buffer (fst (guard_frame se lk f s)) = cg_buffer s"
  by (simp add: guard_frame_text split: option.splits)

lemma and_then_put:
  "(\<And>s. f (put_buffer x s) = apfst (put_buffer x) (f s)) \<Longrightarrow>
   and_then (apfst (put_buffer x) r) f = apfst (put_buffer x) (and_then r f)"
  by (cases "(r, f)" rule: and_then.cases) (auto simp: split_beta)

lemma guard_frames_put: "list_all utf8_valid fs \<Longrightarrow>
    guard_frames se lk fs (put_buffer x s) = apfst (put_buffer x) (guard_frames se lk fs s)"
  by (induction fs arbitrary: s) (simp_all add: guard_frame_put and_then_put)

lemma and_then_keeps:
  "P (fst r) \<Longrightarrow> (\<And>s. P s \<Longrightarrow> P (fst (f s))) \<Longrightarrow> P (fst (and_then r f))"
  by (cases "(r, f)" rule: and_then.cases) (auto simp: split_beta)

lemma guard_frames_keep: "list_all utf8_valid fs \<Longrightarrow> cg_pass s = p \<and> cg_buffer s = b \<Longrightarrow>
    cg_pass (fst (guard_frames se lk fs s)) = p \<and> cg_buffer (fst (guard_frames se lk fs s)) = b"
proof (induction fs arbitrary: s)
  case (Cons f fs)
  show ?case unfolding guard_frames.simps
    by (rule and_then_keeps [where P = "\<lambda>s. cg_pass s = p \<and> cg_buffer s = b"])
      (use Cons in \<open>simp_all add: guard_frame_pass guard_frame_buf\<close>)
qed simp

lemma guard_frames_append:
  "guard_frames se lk (fs @ gs) s = and_then (guard_frames se lk fs s) (guard_frames se lk gs)"
proof (induction fs arbitrary: s)
  case (Cons f fs)
  then have "guard_frames se lk (fs @ gs) = (\<lambda>s. and_then (guard_frames se lk fs s) (guard_frames se lk gs))" ..
  then show ?case by (simp add: and_then_assoc)
qed simp

text \<open>Two outcomes that agree as far as the reader of the stream can tell.\<close>

definition agree :: "guarded \<Rightarrow> guarded \<Rightarrow> bool" where
  "agree r q \<longleftrightarrow> snd r = snd q \<and> (snd (snd r) = None \<longrightarrow> fst r = fst q)"

lemma agree_refl [simp]: "agree r r"
  by (simp add: agree_def)

lemma agree_trans: "agree r q \<Longrightarrow> agree q p \<Longrightarrow> agree r p"
  by (auto simp: agree_def)

lemma agree_then: "snd r = snd q \<Longrightarrow> (snd (snd q) = None \<Longrightarrow> agree (f (fst r)) (g (fst q))) \<Longrightarrow>
    agree (and_then r f) (and_then q g)"
  by (cases "snd (snd q) = None") (auto simp: agree_def and_then_ok and_then_error)


lemma emit_step:
  assumes "find_frame_end (cg_buffer s) = Some (i, sep)" and "\<not> cg_pass s" and "length (cg_buffer s) \<le> MAX_FRAME"
  shows "emit_sse se lk fl s =
    and_then (guard_frame se lk (take (i + length sep) (cg_buffer s)) (put_buffer (drop (i + length sep) (cg_buffer s)) s))
      (emit_sse se lk fl)"
proof -
  have ne: "cg_buffer s \<noteq> []" using assms(1) by auto
  show ?thesis
    using assms ne by (subst emit_sse.simps) (simp add: Let_def and_then_error and_then_ok)
qed

lemma emit_stop:
  "find_frame_end (cg_buffer s) = None \<Longrightarrow> \<not> cg_pass s \<Longrightarrow> length (cg_buffer s) \<le> MAX_FRAME \<Longrightarrow>
   emit_sse se lk fl s = (if fl \<and> cg_buffer s \<noteq> [] then guard_frame se lk (cg_buffer s) (put_buffer [] s) else (s, [], None))"
  by (subst emit_sse.simps) (simp add: Let_def)

lemma emit_frames:
  assumes "list_all utf8_valid (fst (cut_frames (cg_buffer s)))" and "\<not> cg_pass s" and "length (cg_buffer s) \<le> MAX_FRAME"
  shows "agree (emit_sse se lk fl s)
    (and_then (guard_frames se lk (fst (cut_frames (cg_buffer s))) (put_buffer (snd (cut_frames (cg_buffer s))) s))
       (emit_sse se lk fl))"
  using assms
proof (induction "length (cg_buffer s)" arbitrary: s rule: less_induct)
  case less
  let ?b = "cg_buffer s"
  show ?case
  proof (cases "find_frame_end ?b")
    case None
    then show ?thesis by (simp add: cut_frames_None)
  next
    case (Some r)
    obtain i sep where r: "r = (i, sep)" by (cases r)
    note found = Some [unfolded r]
    let ?n = "i + length sep" and ?rest = "snd (cut_frames ?b)"
    let ?f = "take ?n ?b"
    have n: "sep \<noteq> []" "?n \<le> length ?b" using find_frame_end_sound [OF found] by auto
    have v: "utf8_valid ?f" and vr: "list_all utf8_valid (fst (cut_frames (drop ?n ?b)))"
      using less.prems(1) by (simp_all add: cut_frames_Some [OF found])
    let ?t = "put_buffer (drop ?n ?b) s"
    let ?g = "guard_frame se lk ?f ?t"
    have st: "cg_buffer (fst ?g) = drop ?n ?b" "\<not> cg_pass (fst ?g)"
      using guard_frame_buf [OF v] guard_frame_pass [OF v] less.prems(2) by simp_all
    have shorter: "length (cg_buffer (fst ?g)) < length ?b"
    proof -
      have "0 < ?n" using n(1) by simp
      then show ?thesis using n(2) unfolding st(1) length_drop by linarith
    qed
    have cut: "fst (cut_frames ?b) = ?f # fst (cut_frames (drop ?n ?b))" "?rest = snd (cut_frames (drop ?n ?b))"
      by (simp_all add: cut_frames_Some [OF found])
    have put: "put_buffer ?rest (fst ?g) = fst (guard_frame se lk ?f (put_buffer ?rest s))"
    proof -
      have "guard_frame se lk ?f (put_buffer ?rest ?t) = apfst (put_buffer ?rest) ?g" by (rule guard_frame_put [OF v])
      then show ?thesis by simp
    qed
    have same: "snd ?g = snd (guard_frame se lk ?f (put_buffer ?rest s))"
    proof -
      have "guard_frame se lk ?f (put_buffer ?rest ?t) = apfst (put_buffer ?rest) ?g" by (rule guard_frame_put [OF v])
      then show ?thesis by simp
    qed
    have ih: "agree (emit_sse se lk fl (fst ?g))
      (and_then (guard_frames se lk (fst (cut_frames (drop ?n ?b))) (put_buffer ?rest (fst ?g))) (emit_sse se lk fl))"
      using less.hyps [OF shorter] st less.prems(3) vr cut(2) by simp
    have "agree (and_then ?g (emit_sse se lk fl))
      (and_then (guard_frame se lk ?f (put_buffer ?rest s))
        (\<lambda>s. and_then (guard_frames se lk (fst (cut_frames (drop ?n ?b))) s) (emit_sse se lk fl)))"
      by (rule agree_then [OF same]) (use ih [unfolded put] in simp)
    then show ?thesis
      by (simp add: emit_step [OF found less.prems(2,3)] cut and_then_assoc)
  qed
qed


lemma agree_after: "agree r q \<Longrightarrow> agree (and_then r f) (and_then q f)"
  by (rule agree_then) (simp_all add: agree_def)

lemma frames_of_append: "frames_of (a @ x) = fst (cut_frames a) @ frames_of (snd (cut_frames a) @ x)"
  by (simp add: frames_of_def cut_frames_append [of a x] split_beta)

text \<open>The whole frames of the buffer, run with the rest of it in place or out of the way.\<close>

lemma whole_frames_run:
  assumes "list_all utf8_valid (fst (cut_frames (cg_buffer s)))"
  shows "guard_frames se lk (fst (cut_frames (cg_buffer s))) (put_buffer x s) =
    apfst (put_buffer x) (guard_frames se lk (fst (cut_frames (cg_buffer s))) s)"
  by (rule guard_frames_put [OF assms])

lemma whole_frames_live:
  assumes "list_all utf8_valid (fst (cut_frames (cg_buffer s)))" and "\<not> cg_pass s"
  shows "\<not> cg_pass (fst (guard_frames se lk (fst (cut_frames (cg_buffer s))) (put_buffer x s))) \<and>
    cg_buffer (fst (guard_frames se lk (fst (cut_frames (cg_buffer s))) (put_buffer x s))) = x"
  using guard_frames_keep [OF assms(1), of "put_buffer x s" False x] assms(2) by simp

lemma rest_stop:
  assumes "cg_buffer s1 = snd (cut_frames b)" and "\<not> cg_pass s1" and "length b \<le> MAX_FRAME"
  shows "emit_sse se lk fl s1 =
    (if fl \<and> cg_buffer s1 \<noteq> [] then guard_frame se lk (cg_buffer s1) (put_buffer [] s1) else (s1, [], None))"
proof (rule emit_stop)
  have "length (snd (cut_frames b)) \<le> length b"
    using concat_cut_frames [of b] by (metis le_add2 length_append)
  then show "length (cg_buffer s1) \<le> MAX_FRAME" using assms(1,3) by simp
qed (use assms cut_frames_rest in simp_all)

lemma emit_open:
  assumes "list_all utf8_valid (fst (cut_frames (cg_buffer s)))" and "\<not> cg_pass s" and "length (cg_buffer s) \<le> MAX_FRAME"
  shows "agree (emit_sse se lk False s)
    (guard_frames se lk (fst (cut_frames (cg_buffer s))) (put_buffer (snd (cut_frames (cg_buffer s))) s))"
proof -
  let ?r = "guard_frames se lk (fst (cut_frames (cg_buffer s))) (put_buffer (snd (cut_frames (cg_buffer s))) s)"
  have "emit_sse se lk False (fst ?r) = (fst ?r, [], None)"
    using whole_frames_live [OF assms(1,2)] rest_stop [OF _ _ assms(3)] by simp
  then have "and_then ?r (emit_sse se lk False) = ?r"
    by (cases "snd (snd ?r)") (simp_all add: and_then_ok and_then_error prod_eq_iff)
  with emit_frames [OF assms, of se lk False] show ?thesis by simp
qed

lemma emit_end:
  assumes "list_all utf8_valid (frames_of (cg_buffer s))" and "\<not> cg_pass s" and "length (cg_buffer s) \<le> MAX_FRAME"
  shows "agree (emit_sse se lk True s) (guard_frames se lk (frames_of (cg_buffer s)) (put_buffer [] s))"
proof -
  have whole: "list_all utf8_valid (fst (cut_frames (cg_buffer s)))" using assms(1) by (simp add: frames_of_def split_beta)
  let ?fs = "fst (cut_frames (cg_buffer s))" and ?rest = "snd (cut_frames (cg_buffer s))"
  let ?tail = "if ?rest = [] then [] else [?rest]"
  have tail: "emit_sse se lk True (put_buffer ?rest t) = guard_frames se lk ?tail (put_buffer [] t)" if "\<not> cg_pass t" for t
  proof -
    have "emit_sse se lk True (put_buffer ?rest t) =
      (if ?rest \<noteq> [] then guard_frame se lk ?rest (put_buffer [] t) else (put_buffer ?rest t, [], None))"
      using rest_stop [of "put_buffer ?rest t" "cg_buffer s" se lk True] assms(3) that by simp
    then show ?thesis by (cases "snd (snd (guard_frame se lk ?rest (put_buffer [] t)))") (auto simp: and_then_ok and_then_error prod_eq_iff)
  qed
  have "agree (and_then (guard_frames se lk ?fs (put_buffer ?rest s)) (emit_sse se lk True))
    (and_then (guard_frames se lk ?fs (put_buffer [] s)) (guard_frames se lk ?tail))"
  proof (rule agree_then)
    show "snd (guard_frames se lk ?fs (put_buffer ?rest s)) = snd (guard_frames se lk ?fs (put_buffer [] s))"
      by (simp add: whole_frames_run [OF whole])
    have "\<not> cg_pass (fst (guard_frames se lk ?fs s))" using whole_frames_live [OF whole assms(2), of se lk "cg_buffer s"] by simp
    then show "agree (emit_sse se lk True (fst (guard_frames se lk ?fs (put_buffer ?rest s))))
      (guard_frames se lk ?tail (fst (guard_frames se lk ?fs (put_buffer [] s))))"
      using tail [of "fst (guard_frames se lk ?fs s)"] by (simp add: whole_frames_run [OF whole])
  qed
  then have "agree (and_then (guard_frames se lk ?fs (put_buffer ?rest s)) (emit_sse se lk True))
     (guard_frames se lk (frames_of (cg_buffer s)) (put_buffer [] s))"
    by (simp add: frames_of_def split_beta guard_frames_append)
  with emit_frames [OF whole assms(2,3), of se lk True] show ?thesis by (rule agree_trans)
qed

text \<open>However it is cut, a body of valid text is guarded frame by frame.\<close>

lemma cg_feed_frames:
  assumes "list_all utf8_valid (frames_of (cg_buffer s @ concat cs))" and "\<not> cg_pass s"
    and "length (cg_buffer s @ concat cs) \<le> MAX_FRAME"
  shows "agree (cg_feed se lk True cs s)
    (and_then (guard_frames se lk (frames_of (cg_buffer s @ concat cs)) (put_buffer [] s)) (\<lambda>s. no_error (release_all s)))"
  using assms
proof (induction cs arbitrary: s)
  case Nil
  then show ?case using emit_end [of s se lk] by (simp add: cg_flush_def agree_after)
next
  case (Cons c cs)
  let ?b = "cg_buffer s @ c" and ?rel = "\<lambda>s. no_error (release_all s)"
  let ?fs = "fst (cut_frames ?b)" and ?rest = "snd (cut_frames ?b)"
  let ?gs = "frames_of (?rest @ concat cs)"
  let ?r = "guard_frames se lk ?fs (put_buffer ?rest s)"
  have parts: "frames_of (cg_buffer s @ concat (c # cs)) = ?fs @ ?gs"
    using frames_of_append [of ?b "concat cs"] by simp
  have valid: "list_all utf8_valid ?fs" "list_all utf8_valid ?gs" using Cons.prems(1) unfolding parts by simp_all
  have rest: "length (?rest @ concat cs) \<le> MAX_FRAME"
  proof -
    have "length ?rest \<le> length ?b" using concat_cut_frames [of ?b] by (metis le_add2 length_append)
    with Cons.prems(3) show ?thesis by simp
  qed
  have st: "\<not> cg_pass (fst ?r)" "cg_buffer (fst ?r) = ?rest"
    using whole_frames_live [of "put_buffer ?b s" se lk ?rest] valid(1) Cons.prems(2) by simp_all
  have "agree (emit_sse se lk False (put_buffer ?b s)) ?r"
    using emit_open [of "put_buffer ?b s" se lk] valid(1) Cons.prems(2,3) by simp
  then have "agree (cg_feed se lk True (c # cs) s) (and_then ?r (cg_feed se lk True cs))"
    using Cons.prems(2) by (simp add: cg_transform_def agree_after)
  moreover have "agree (and_then ?r (cg_feed se lk True cs))
    (and_then (guard_frames se lk ?fs (put_buffer [] s)) (\<lambda>s. and_then (guard_frames se lk ?gs s) ?rel))"
  proof (rule agree_then)
    show "snd ?r = snd (guard_frames se lk ?fs (put_buffer [] s))"
      by (simp add: guard_frames_put [OF valid(1)])
    have "put_buffer [] (fst ?r) = fst (guard_frames se lk ?fs (put_buffer [] s))"
      by (simp add: guard_frames_put [OF valid(1)])
    then show "agree (cg_feed se lk True cs (fst ?r))
      (and_then (guard_frames se lk ?gs (fst (guard_frames se lk ?fs (put_buffer [] s)))) ?rel)"
      using Cons.IH [of "fst ?r"] st valid(2) rest by simp
  qed
  ultimately show ?case unfolding parts guard_frames_append and_then_assoc by (rule agree_trans)
qed


theorem guard_body_frames:
  assumes "utf8_valid (concat cs)" and "length (concat cs) \<le> MAX_FRAME"
  shows "guard_body se lk True cs =
    snd (and_then (guard_frames se lk (frames_of (concat cs)) new_guard) (\<lambda>s. no_error (release_all s)))"
proof -
  have "put_buffer [] new_guard = new_guard" by (simp add: new_guard_def)
  then show ?thesis
    using cg_feed_frames [of new_guard cs se lk] frames_of_valid [OF assms(1)] assms(2)
    by (simp add: guard_body_def agree_def new_guard_def)
qed

section \<open>What a frame is\<close>

text \<open>The call a frame belongs to, whether it completes one, whether it ends the response, and
  what is wrong with it given the names learned so far.\<close>

definition call_of :: "bytes \<Rightarrow> string option" where
  "call_of f = Option.bind (block_event f) hold_id"

definition completes :: "bytes \<Rightarrow> bool" where
  "completes f \<longleftrightarrow> (case block_event f of None \<Rightarrow> False | Some e \<Rightarrow> is_completion e)"

definition ends_response :: "bytes \<Rightarrow> bool" where
  "ends_response f \<longleftrightarrow> (case block_event f of None \<Rightarrow> False | Some e \<Rightarrow> is_end_event e)"

definition names_after :: "bytes \<Rightarrow> (string \<times> string) list \<Rightarrow> (string \<times> string) list" where
  "names_after f ns = (case block_event f of None \<Rightarrow> ns | Some e \<Rightarrow> learn_name e ns)"

definition frame_bad ::
  "(string \<Rightarrow> string) \<Rightarrow> (string \<Rightarrow> bool) \<Rightarrow> (string \<times> string) list \<Rightarrow> bytes \<Rightarrow> unusable option" where
  "frame_bad se lk ns f =
     (case block_event f of None \<Rightarrow> None
      | Some e \<Rightarrow> find_unusable_event se lk (with_known_name (names_after f ns) e))"

fun first_bad ::
  "(string \<Rightarrow> string) \<Rightarrow> (string \<Rightarrow> bool) \<Rightarrow> (string \<times> string) list \<Rightarrow> bytes list \<Rightarrow> (bytes list \<times> bytes \<times> unusable) option" where
  "first_bad se lk ns [] = None"
| "first_bad se lk ns (f # fs) =
     (case frame_bad se lk ns f of Some b \<Rightarrow> Some ([], f, b)
      | None \<Rightarrow> map_option (apfst (Cons f)) (first_bad se lk (names_after f ns) fs))"

text \<open>Telling an event a name changes nothing but the name.\<close>

lemma with_prop_get: "is_obj e \<or> (\<forall>k. obj_get e k = None) \<Longrightarrow>
    obj_get (with_prop e n v) k = (if k = n then Some v else obj_get e k)"
  by (cases e) (auto simp: update_conv')

lemma is_obj_or_bare: "is_obj e \<or> (\<forall>k. obj_get e k = None)"
  by (cases e) auto

lemmas with_prop_any = with_prop_get [OF is_obj_or_bare]

lemma with_known_name_get:
  "k \<noteq> ''name'' \<Longrightarrow> k \<noteq> ''item'' \<Longrightarrow> obj_get (with_known_name ns e) k = obj_get e k"
  by (simp add: with_known_name_def Let_def with_prop_any split: option.splits)

lemma with_known_name_item:
  "k \<noteq> ''name'' \<Longrightarrow> opt_get (obj_get (with_known_name ns e) ''item'') k = opt_get (obj_get e ''item'') k"
  by (simp add: with_known_name_def Let_def with_prop_any opt_get_def split: option.splits)

lemma with_known_name_kind [simp]:
  "type_is (with_known_name ns e) k = type_is e k" "is_call_item (with_known_name ns e) = is_call_item e"
  by (simp_all add: type_is_def is_call_item_def with_known_name_get with_known_name_item)

lemma with_known_name_hold [simp]:
  "hold_id (with_known_name ns e) = hold_id e" "is_completion (with_known_name ns e) = is_completion e"
  "is_end_event (with_known_name ns e) = is_end_event e"
  by (simp_all add: hold_id_def is_completion_def is_end_event_def with_known_name_get with_known_name_item)


section \<open>Accounting for the frames\<close>

lemma same_filters_mset:
  fixes xs ys :: "'b list"
  assumes "\<And>c. filter (\<lambda>x. g x = c) xs = filter (\<lambda>x. g x = c) ys"
  shows "mset xs = mset ys"
proof (rule multiset_eqI)
  fix x
  have count: "count (mset zs) x = count (mset (filter (\<lambda>y. g y = g x) zs)) x" for zs :: "'b list"
    by (induction zs) auto
  have "count (mset xs) x = count (mset (filter (\<lambda>y. g y = g x) xs)) x" by (rule count)
  also have "\<dots> = count (mset (filter (\<lambda>y. g y = g x) ys)) x" by (simp only: assms)
  also have "\<dots> = count (mset ys) x" by (rule count [symmetric])
  finally show "count (mset xs) x = count (mset ys) x" .
qed

lemma length_concat_filter: "length (concat (filter P xs)) \<le> length (concat xs)"
  by (induction xs) auto

definition held_of :: "call_guard \<Rightarrow> string \<Rightarrow> bytes list" where
  "held_of s k = (case map_of (cg_held s) k of Some h \<Rightarrow> hc_frames h | None \<Rightarrow> [])"

definition held_frames_of :: "call_guard \<Rightarrow> string option \<Rightarrow> bytes list" where
  "held_frames_of s c = (case c of None \<Rightarrow> [] | Some k \<Rightarrow> held_of s k)"

definition measured :: "call_guard \<Rightarrow> bool" where
  "measured s \<longleftrightarrow> (\<forall>k h. map_of (cg_held s) k = Some h \<longrightarrow> hc_bytes h = length (concat (hc_frames h)))"

text \<open>What came in of each call, and of no call, went out in order, but for what is held.\<close>

definition account :: "bytes list \<Rightarrow> bytes list \<Rightarrow> call_guard \<Rightarrow> bool" where
  "account past out s \<longleftrightarrow>
     (\<forall>c. filter (\<lambda>f. call_of f = c) past = filter (\<lambda>f. call_of f = c) out @ held_frames_of s c)"

text \<open>Nothing of a call leaves before it completes or the response ends.\<close>

definition untouched :: "bytes list \<Rightarrow> bytes list \<Rightarrow> bool" where
  "untouched past out \<longleftrightarrow>
     (\<forall>k. (\<forall>g \<in> set past. \<not> (call_of g = Some k \<and> completes g) \<and> \<not> ends_response g) \<longrightarrow>
       (\<forall>g \<in> set out. call_of g \<noteq> Some k))"

lemma account_held: "account past out s \<Longrightarrow> g \<in> set (held_of s k) \<Longrightarrow> call_of g = Some k"
proof -
  assume "account past out s" and g: "g \<in> set (held_of s k)"
  then have "filter (\<lambda>f. call_of f = Some k) past = filter (\<lambda>f. call_of f = Some k) out @ held_of s k"
    by (simp add: account_def held_frames_of_def)
  then have "set (held_of s k) \<subseteq> set (filter (\<lambda>f. call_of f = Some k) past)" by simp
  with g show ?thesis by auto
qed

lemma filter_held: "account past out s \<Longrightarrow>
    filter (\<lambda>f. call_of f = c) (held_of s k) = (if c = Some k then held_of s k else [])"
  using account_held [of past out s _ k] by (auto simp: filter_empty_conv filter_id_conv)

lemma account_mset: "account past out s \<Longrightarrow> cg_held s = [] \<Longrightarrow> mset out = mset past"
proof -
  assume "account past out s" "cg_held s = []"
  then have "filter (\<lambda>f. call_of f = c) out = filter (\<lambda>f. call_of f = c) past" for c
    by (simp add: account_def held_frames_of_def held_of_def split: option.splits)
  then show ?thesis by (rule same_filters_mset)
qed

lemma held_bytes: "account past out s \<Longrightarrow> length (concat (held_of s k)) \<le> length (concat past)"
proof -
  assume "account past out s"
  then have "filter (\<lambda>f. call_of f = Some k) past = filter (\<lambda>f. call_of f = Some k) out @ held_of s k"
    by (simp add: account_def held_frames_of_def)
  then have "concat (filter (\<lambda>f. call_of f = Some k) past) =
      concat (filter (\<lambda>f. call_of f = Some k) out) @ concat (held_of s k)" by simp
  then have "length (concat (held_of s k)) \<le> length (concat (filter (\<lambda>f. call_of f = Some k) past))" by simp
  also have "\<dots> \<le> length (concat past)" by (rule length_concat_filter)
  finally show ?thesis .
qed

lemma hold_frame_account:
  assumes "account past out s" and "measured s" and "call_of f = Some k"
    and "length (concat past) + length f \<le> MAX_CAPTURE"
  shows "\<exists>s1. hold_frame k f s = (s1, [], True) \<and> account (past @ [f]) out s1 \<and> measured s1 \<and> cg_names s1 = cg_names s"
proof -
  let ?h = "case map_of (cg_held s) k of Some h \<Rightarrow> h | None \<Rightarrow> \<lparr>hc_frames = [], hc_bytes = 0\<rparr>"
  let ?s1 = "s\<lparr>cg_held := AList.update k \<lparr>hc_frames = hc_frames ?h @ [f], hc_bytes = hc_bytes ?h + length f\<rparr> (cg_held s)\<rparr>"
  have h: "hc_frames ?h = held_of s k" "hc_bytes ?h = length (concat (held_of s k))"
    using assms(2) by (simp_all add: held_of_def measured_def split: option.splits)
  have fits: "\<not> MAX_CAPTURE < hc_bytes ?h + length f" using held_bytes [OF assms(1), of k] assms(4) h(2) by simp
  have "hold_frame k f s = (?s1, [], True)" using fits by (simp add: hold_frame_def Let_def)
  moreover have held: "held_of ?s1 j = (if j = k then held_of s k @ [f] else held_of s j)" for j
    using h(1) by (simp add: held_of_def update_conv')
  have "account (past @ [f]) out ?s1"
    using assms(1,3) unfolding account_def held_frames_of_def held by (auto split: option.splits)
  moreover have "measured ?s1" using assms(2) h by (simp add: measured_def update_conv')
  ultimately show ?thesis by auto
qed

lemma release_call_account:
  assumes "account past out s" and "measured s"
  shows "\<exists>s1. release_call k s = (s1, held_of s k) \<and> account past (out @ held_of s k) s1 \<and> measured s1 \<and>
    cg_names s1 = cg_names s \<and> map_of (cg_held s1) = (map_of (cg_held s))(k := None)"
proof (cases "map_of (cg_held s) k")
  case None
  then have "held_of s k = []" "release_call k s = (s, [])" by (simp_all add: held_of_def release_call_def)
  with assms None show ?thesis by auto
next
  case (Some h)
  let ?s1 = "s\<lparr>cg_held := AList.delete k (cg_held s)\<rparr>"
  have maps: "map_of (cg_held ?s1) = (map_of (cg_held s))(k := None)" by (simp add: delete_conv')
  have held: "held_of ?s1 j = (if j = k then [] else held_of s j)" for j by (simp add: held_of_def delete_conv')
  have "release_call k s = (?s1, held_of s k)" using Some by (simp add: release_call_def held_of_def)
  moreover have "account past (out @ held_of s k) ?s1"
    using assms(1) filter_held [OF assms(1), of _ k]
    unfolding account_def held_frames_of_def held by (auto split: option.splits)
  moreover have "measured ?s1" using assms(2) by (simp add: measured_def delete_conv')
  ultimately show ?thesis using maps by auto
qed

lemma release_calls_account:
  "account past out s \<Longrightarrow> measured s \<Longrightarrow> \<exists>s1 o1. release_calls ks s = (s1, o1) \<and> account past (out @ o1) s1 \<and> measured s1 \<and>
    cg_names s1 = cg_names s \<and> (\<forall>k. map_of (cg_held s1) k = (if k \<in> set ks then None else map_of (cg_held s) k))"
proof (induction ks arbitrary: s out)
  case (Cons k ks)
  obtain s1 where s1: "release_call k s = (s1, held_of s k)" "account past (out @ held_of s k) s1" "measured s1"
    "cg_names s1 = cg_names s" "map_of (cg_held s1) = (map_of (cg_held s))(k := None)"
    using release_call_account [OF Cons.prems] by blast
  from Cons.IH [OF s1(2,3)] obtain s2 o2 where s2: "release_calls ks s1 = (s2, o2)" "account past ((out @ held_of s k) @ o2) s2"
    "measured s2" "cg_names s2 = cg_names s1" "\<forall>j. map_of (cg_held s2) j = (if j \<in> set ks then None else map_of (cg_held s1) j)"
    by blast
  have "\<forall>j. map_of (cg_held s2) j = (if j \<in> set (k # ks) then None else map_of (cg_held s) j)"
    using s2(5) s1(5) by auto
  with s1 s2 show ?case by auto
qed simp

lemma release_all_account:
  assumes "account past out s" and "measured s"
  shows "\<exists>s1 o1. release_all s = (s1, o1) \<and> account past (out @ o1) s1 \<and> measured s1 \<and> cg_names s1 = cg_names s \<and> cg_held s1 = []"
proof -
  obtain s1 o1 where r: "release_all s = (s1, o1)" "account past (out @ o1) s1" "measured s1" "cg_names s1 = cg_names s"
    "\<forall>k. map_of (cg_held s1) k = (if k \<in> set (map fst (cg_held s)) then None else map_of (cg_held s) k)"
    using release_calls_account [OF assms, of "map fst (cg_held s)"] unfolding release_all_def by blast
  have "map_of (cg_held s1) k = None" for k using r(5) by (simp add: map_of_eq_None_iff)
  then have "cg_held s1 = []"
  proof (cases "cg_held s1")
    case (Cons kh r)
    then have "map_of (cg_held s1) (fst kh) \<noteq> None" by (cases kh) simp
    with \<open>\<And>k. map_of (cg_held s1) k = None\<close> show ?thesis by simp
  qed
  with r show ?thesis by auto
qed


lemma held_of_names [simp]: "held_of (s\<lparr>cg_names := n\<rparr>) = held_of s"
  by (simp add: held_of_def fun_eq_iff)

lemma account_names [simp]: "account past out (s\<lparr>cg_names := n\<rparr>) = account past out s" "measured (s\<lparr>cg_names := n\<rparr>) = measured s"
  by (simp_all add: account_def held_frames_of_def measured_def cong: option.case_cong)

lemma account_push: "account past out s \<Longrightarrow> call_of f = None \<Longrightarrow> account (past @ [f]) (out @ [f]) s"
  by (auto simp: account_def held_frames_of_def split: option.splits)

lemma end_holds_nothing: "is_end_event e \<Longrightarrow> hold_id e = None"
  by (auto simp: is_end_event_def hold_id_def type_is_def CALL_ADDED_def ARGS_DELTA_def ARGS_DONE_def CALL_DONE_def)

lemma untouched_more: "untouched past out \<Longrightarrow> untouched (past @ [f]) out"
  by (auto simp: untouched_def)

lemma untouched_push: "untouched past out \<Longrightarrow> call_of f = None \<Longrightarrow> untouched (past @ [f]) (out @ [f])"
  by (auto simp: untouched_def)

lemma untouched_end: "ends_response f \<Longrightarrow> untouched (past @ [f]) out"
  by (auto simp: untouched_def)

lemma untouched_completed: "untouched past out \<Longrightarrow> call_of f = Some k \<Longrightarrow> completes f \<Longrightarrow>
    (\<And>g. g \<in> set o1 \<Longrightarrow> call_of g = Some k) \<Longrightarrow> untouched (past @ [f]) (out @ o1)"
  unfolding untouched_def by (metis UnE list.set_intros(1) set_append Un_iff)

definition stepped :: "bytes list \<Rightarrow> bytes list \<Rightarrow> bytes \<Rightarrow> (string \<times> string) list \<Rightarrow> call_guard \<Rightarrow> bytes list \<Rightarrow> bool" where
  "stepped past out f ns s1 o1 \<longleftrightarrow>
     account (past @ [f]) (out @ o1) s1 \<and> measured s1 \<and> untouched (past @ [f]) (out @ o1) \<and>
     cg_names s1 = names_after f ns \<and> (ends_response f \<longrightarrow> (\<exists>p. o1 = p @ [f]) \<and> cg_held s1 = [])"

lemma guard_event_step:
  assumes acc: "account past out s0" "measured s0" "untouched past out" and e: "block_event f = Some e"
    and fits: "length (concat past) + length f \<le> MAX_CAPTURE"
  shows "\<exists>s1 o1. guard_event se lk f e s0 = (s1, o1, frame_bad se lk (cg_names s0) f) \<and>
    (if frame_bad se lk (cg_names s0) f = None then stepped past out f (cg_names s0) s1 o1 else o1 = [])"
proof -
  let ?s = "s0\<lparr>cg_names := learn_name e (cg_names s0)\<rparr>"
  have ns: "names_after f (cg_names s0) = learn_name e (cg_names s0)" using e by (simp add: names_after_def)
  have bad: "find_unusable_event se lk (with_known_name (learn_name e (cg_names s0)) e) = frame_bad se lk (cg_names s0) f"
    using e by (simp add: frame_bad_def ns)
  have acc': "account past out ?s" "measured ?s" using acc by simp_all
  note run = guard_event_def Let_def call_guard.select_convs call_guard.update_convs with_known_name_hold bad
  show ?thesis
  proof (cases "hold_id e")
    case None
    then have call: "call_of f = None" using e by (simp add: call_of_def)
    show ?thesis
    proof (cases "frame_bad se lk (cg_names s0) f")
      case (Some b)
      then show ?thesis using None by (simp add: run reject_def)
    next
      case ok: None
      show ?thesis
      proof (cases "is_end_event e")
        case True
        obtain s1 o1 where r: "release_all ?s = (s1, o1)" "account past (out @ o1) s1" "measured s1"
          "cg_names s1 = cg_names ?s" "cg_held s1 = []" using release_all_account [OF acc'] by blast
        have "stepped past out f (cg_names s0) s1 (o1 @ [f])"
          using account_push [OF r(2) call] untouched_end [of f past "out @ o1 @ [f]"] True e r
          by (simp add: stepped_def ns ends_response_def)
        with r(1) None ok True show ?thesis by (simp add: run)
      next
        case False
        have "stepped past out f (cg_names s0) ?s [f]"
          using account_push [OF acc'(1) call] acc'(2) untouched_push [OF acc(3) call] False e
          by (simp add: stepped_def ns ends_response_def)
        with None ok False show ?thesis by (simp add: run)
      qed
    qed
  next
    case (Some k)
    then have call: "call_of f = Some k" using e by (simp add: call_of_def)
    have no_end: "\<not> ends_response f" using Some e end_holds_nothing [of e] by (auto simp: ends_response_def)
    obtain s1 where h: "hold_frame k f ?s = (s1, [], True)" "account (past @ [f]) out s1" "measured s1" "cg_names s1 = cg_names ?s"
      using hold_frame_account [OF acc' call fits] by blast
    show ?thesis
    proof (cases "frame_bad se lk (cg_names s0) f")
      case (Some b)
      then show ?thesis using \<open>hold_id e = Some k\<close> h(1) by (simp add: run reject_def)
    next
      case ok: None
      show ?thesis
      proof (cases "is_completion e")
        case True
        then have comp: "completes f" using e by (simp add: completes_def)
        obtain s2 where r: "release_call k s1 = (s2, held_of s1 k)" "account (past @ [f]) (out @ held_of s1 k) s2" "measured s2"
          "cg_names s2 = cg_names s1" using release_call_account [OF h(2,3)] by blast
        have "untouched (past @ [f]) (out @ held_of s1 k)"
          by (rule untouched_completed [OF acc(3) call comp account_held [OF h(2)]])
        then have "stepped past out f (cg_names s0) s2 (held_of s1 k)"
          using r h(4) no_end by (simp add: stepped_def ns)
        with r(1) h(1) Some ok True show ?thesis by (simp add: run)
      next
        case False
        have "stepped past out f (cg_names s0) s1 []"
          using h no_end untouched_more [OF acc(3)] by (simp add: stepped_def ns)
        with h(1) Some ok False show ?thesis by (simp add: run)
      qed
    qed
  qed
qed

lemma guard_frame_step:
  assumes acc: "account past out s" "measured s" "untouched past out" and v: "utf8_valid f"
    and fits: "length (concat past) + length f \<le> MAX_CAPTURE"
  shows "\<exists>s1 o1. guard_frame se lk f s = (s1, o1, frame_bad se lk (cg_names s) f) \<and>
    (if frame_bad se lk (cg_names s) f = None then stepped past out f (cg_names s) s1 o1 else o1 = [])"
proof -
  have small: "\<not> MAX_FRAME < length f" using fits by (simp add: MAX_FRAME_def MAX_CAPTURE_def)
  show ?thesis
  proof (cases "block_event f")
    case None
    then have "call_of f = None" by (simp add: call_of_def)
    from account_push [OF acc(1) this] untouched_push [OF acc(3) this] None small v acc(2) show ?thesis
      by (simp add: guard_frame_text frame_bad_def stepped_def names_after_def ends_response_def)
  next
    case (Some e)
    from guard_event_step [OF acc Some fits, of se lk] small v Some show ?thesis by (simp add: guard_frame_text)
  qed
qed


lemma guard_frames_run:
  assumes "account past out s" "measured s" "untouched past out" and "list_all utf8_valid fs"
    and "length (concat past) + length (concat fs) \<le> MAX_CAPTURE"
  shows "case first_bad se lk (cg_names s) fs of
      None \<Rightarrow> (\<exists>s1 o1. guard_frames se lk fs s = (s1, o1, None) \<and> account (past @ fs) (out @ o1) s1 \<and>
        measured s1 \<and> untouched (past @ fs) (out @ o1) \<and> cg_names s1 = fold names_after fs (cg_names s))
    | Some (ps, f, b) \<Rightarrow> (\<exists>s1 o1 s2. guard_frames se lk fs s = (s1, o1, Some b) \<and>
        account (past @ ps) (out @ o1) s2 \<and> untouched (past @ ps) (out @ o1) \<and> starts_with (ps @ [f]) fs)"
  using assms
proof (induction fs arbitrary: past out s)
  case (Cons f fs)
  obtain s1 o1 where st: "guard_frame se lk f s = (s1, o1, frame_bad se lk (cg_names s) f)"
    "if frame_bad se lk (cg_names s) f = None then stepped past out f (cg_names s) s1 o1 else o1 = []"
    using guard_frame_step [OF Cons.prems(1-3), of f se lk] Cons.prems(4,5) by auto
  show ?case
  proof (cases "frame_bad se lk (cg_names s) f")
    case (Some b)
    with st Cons.prems(1,3) show ?thesis by auto
  next
    case None
    then have ok: "account (past @ [f]) (out @ o1) s1" "measured s1" "untouched (past @ [f]) (out @ o1)"
      "cg_names s1 = names_after f (cg_names s)" using st(2) by (simp_all add: stepped_def)
    have v: "list_all utf8_valid fs" "length (concat (past @ [f])) + length (concat fs) \<le> MAX_CAPTURE"
      using Cons.prems(4,5) by simp_all
    note ih = Cons.IH [OF ok(1-3) v, unfolded ok(4)]
    show ?thesis
    proof (cases "first_bad se lk (names_after f (cg_names s)) fs")
      case ok': None
      with ih None st(1) show ?thesis by auto
    next
      case (Some r)
      with ih None st(1) show ?thesis by (cases r) fastforce
    qed
  qed
qed simp

lemma new_guard_account [simp]: "account [] [] new_guard" "measured new_guard" "untouched [] []" "cg_names new_guard = []"
  by (simp_all add: account_def measured_def untouched_def new_guard_def held_frames_of_def held_of_def split: option.splits)

lemma body_run:
  assumes "utf8_valid (concat cs)" and "length (concat cs) \<le> MAX_FRAME"
  shows "case first_bad se lk [] (frames_of (concat cs)) of
      None \<Rightarrow> snd (guard_body se lk True cs) = None \<and>
        (\<forall>c. filter (\<lambda>f. call_of f = c) (fst (guard_body se lk True cs)) =
             filter (\<lambda>f. call_of f = c) (frames_of (concat cs)))
    | Some (ps, f, b) \<Rightarrow> snd (guard_body se lk True cs) = Some b \<and>
        (\<exists>s2. account ps (fst (guard_body se lk True cs)) s2) \<and> untouched ps (fst (guard_body se lk True cs)) \<and>
        starts_with (ps @ [f]) (frames_of (concat cs))"
proof -
  let ?fs = "frames_of (concat cs)"
  have fits: "length (concat []) + length (concat ?fs) \<le> MAX_CAPTURE"
    using assms(2) by (simp add: concat_frames_of MAX_FRAME_def MAX_CAPTURE_def)
  note run = guard_frames_run [OF new_guard_account(1-3) frames_of_valid [OF assms(1)] fits, of se lk]
  show ?thesis
  proof (cases "first_bad se lk [] ?fs")
    case None
    with run obtain s1 o1 where r: "guard_frames se lk ?fs new_guard = (s1, o1, None)" "account ?fs o1 s1" "measured s1" by auto
    obtain s2 o2 where q: "release_all s1 = (s2, o2)" "account ?fs (o1 @ o2) s2" "cg_held s2 = []"
      using release_all_account [OF r(2,3)] by blast
    have "guard_body se lk True cs = (o1 @ o2, None)"
      using guard_body_frames [OF assms, of se lk] r(1) q(1) by simp
    moreover have "filter (\<lambda>f. call_of f = c) (o1 @ o2) = filter (\<lambda>f. call_of f = c) ?fs" for c
      using q(2,3) by (simp add: account_def held_frames_of_def held_of_def split: option.splits)
    ultimately show ?thesis using None by simp
  next
    case (Some r)
    with run guard_body_frames [OF assms, of se lk] show ?thesis by (cases r) fastforce
  qed
qed


lemma account_below: "account past out s \<Longrightarrow> mset out \<subseteq># mset past"
proof (rule mset_subset_eqI)
  fix x
  assume "account past out s"
  then have "filter (\<lambda>f. call_of f = call_of x) past = filter (\<lambda>f. call_of f = call_of x) out @ held_frames_of s (call_of x)"
    by (simp add: account_def)
  then have "count (mset (filter (\<lambda>f. call_of f = call_of x) out)) x \<le> count (mset (filter (\<lambda>f. call_of f = call_of x) past)) x"
    by simp
  then show "count (mset out) x \<le> count (mset past) x" by simp
qed

lemma first_bad_append:
  "first_bad se lk ns (fs @ gs) = None \<longleftrightarrow>
     first_bad se lk ns fs = None \<and> first_bad se lk (fold names_after fs ns) gs = None"
  by (induction fs arbitrary: ns) (auto split: option.splits)

lemma cg_feed_pass: "cg_pass s \<Longrightarrow> cg_feed se lk st cs s = (s, cs, None)"
  by (induction cs) (simp_all add: cg_flush_def cg_transform_def)

lemma give_up_free: "cg_held s = [] \<Longrightarrow>
    give_up s = (s\<lparr>cg_buffer := [], cg_pass := True\<rparr>, if cg_buffer s = [] then [] else [cg_buffer s])"
  by (simp add: give_up_def release_all_def)

lemma cg_feed_json:
  assumes "\<not> cg_pass s" and "cg_held s = []"
  shows "case snd (snd (cg_feed se lk False cs s)) of
      None \<Rightarrow> concat (fst (snd (cg_feed se lk False cs s))) = cg_buffer s @ concat cs
    | Some b \<Rightarrow> fst (snd (cg_feed se lk False cs s)) = [] \<and>
        Option.bind (json_parse (cg_buffer s @ concat cs)) (find_unusable_event se lk) = Some b"
  using assms
proof (induction cs arbitrary: s)
  case Nil
  then show ?case
    by (auto simp: cg_flush_def finish_json_def Let_def give_up_free reject_def fatal_utf8_def split: option.splits bind_splits)
next
  case (Cons c cs)
  let ?s1 = "put_buffer (cg_buffer s @ c) s"
  show ?case
  proof (cases "MAX_CAPTURE < length (cg_buffer ?s1)")
    case True
    with Cons.prems have t: "cg_transform se lk False c s =
      (?s1\<lparr>cg_buffer := [], cg_pass := True\<rparr>, (if cg_buffer ?s1 = [] then [] else [cg_buffer ?s1]), None)"
      by (simp add: cg_transform_def give_up_free)
    then show ?thesis by (auto simp: cg_feed_pass)
  next
    case False
    with Cons.prems have "cg_feed se lk False (c # cs) s = cg_feed se lk False cs ?s1" by (simp add: cg_transform_def)
    with Cons.IH [of ?s1] Cons.prems show ?thesis by (simp del: cg_feed.simps cong: option.case_cong)
  qed
qed

section \<open>Histories\<close>

lemma or_else_None [simp]: "or_else a b = None \<longleftrightarrow> a = None \<and> b = None"
  by (simp add: or_else_def split: option.splits)

lemma or_else_Some: "or_else a b = Some x \<longleftrightarrow> a = Some x \<or> (a = None \<and> b = Some x)"
  by (auto simp: or_else_def split: option.splits)

lemma first_found_None: "first_found f n xs = None \<longleftrightarrow> (\<forall>i < length xs. f (n + i) (xs ! i) = None)"
proof (induction xs arbitrary: n)
  case (Cons x xs)
  show ?case unfolding first_found.simps or_else_None Cons.IH
    by (auto simp: nth_Cons split: nat.splits)
qed simp

lemma first_found_Some: "first_found f n xs = Some u \<Longrightarrow>
    \<exists>i < length xs. f (n + i) (xs ! i) = Some u \<and> first_found f n (take i xs) = None"
proof (induction xs arbitrary: n)
  case (Cons x xs)
  from Cons.prems consider "f n x = Some u" | "f n x = None" "first_found f (Suc n) xs = Some u"
    by (auto simp: or_else_Some)
  then show ?case
  proof cases
    case 1
    then show ?thesis by (intro exI [of _ 0]) simp
  next
    case 2
    from Cons.IH [OF 2(2)] obtain i where "i < length xs" "f (Suc n + i) (xs ! i) = Some u"
      "first_found f (Suc n) (take i xs) = None" by blast
    with 2(1) show ?thesis by (intro exI [of _ "Suc i"]) simp
  qed
qed simp

text \<open>A stored item that can be sent: its own call and its Chat Completions calls parse.\<close>

definition call_sendable :: "(string \<Rightarrow> bool) \<Rightarrow> json \<Rightarrow> bool" where
  "call_sendable lk item \<longleftrightarrow>
     as_str (obj_get item ''type'') = Some ''custom_tool_call'' \<or> preserves_raw lk item \<or>
     (case arguments_text item of None \<Rightarrow> True | Some t \<Rightarrow> trim t = [] \<or> json_parse t \<noteq> None)"

definition item_sendable :: "(string \<Rightarrow> bool) \<Rightarrow> json \<Rightarrow> bool" where
  "item_sendable lk item \<longleftrightarrow> call_sendable lk item \<and>
     (case as_arr (obj_get item ''tool_calls'') of None \<Rightarrow> True
      | Some calls \<Rightarrow> list_all (\<lambda>c. is_object c \<longrightarrow> call_sendable (\<lambda>_. False) (recast_call c)) calls)"

lemma inspect_call_None: "inspect_call se lk p item = None \<longleftrightarrow> call_sendable lk item"
  by (simp add: inspect_call_def call_sendable_def arguments_are_json_def split: option.splits)

lemma inspect_call_param: "inspect_call se lk p item = Some u \<Longrightarrow> un_param u = Some p"
  by (auto simp: inspect_call_def call_identity_def split: option.splits if_splits)

lemma inspect_chat_None: "inspect_chat_call se p c = None \<longleftrightarrow> (is_object c \<longrightarrow> call_sendable (\<lambda>_. False) (recast_call c))"
  by (simp add: inspect_chat_call_def inspect_call_None)

lemma inspect_item_None: "inspect_input_item se lk i item = None \<longleftrightarrow> item_sendable lk item"
  by (simp add: inspect_input_item_def item_sendable_def inspect_call_None first_found_None inspect_chat_None
      list_all_length split: option.splits)

lemma inspect_item_param:
  assumes "inspect_input_item se lk i item = Some u"
  shows "\<exists>p. un_param u = Some (place ''input'' i @ p)"
proof -
  from assms consider "inspect_call se lk (place ''input'' i) item = Some u"
    | calls where "first_found (\<lambda>j. inspect_chat_call se (place (place ''input'' i @ ''.tool_calls'') j)) 0 calls = Some u"
    by (auto simp: inspect_input_item_def or_else_Some split: option.splits)
  then show ?thesis
  proof cases
    case 1
    then show ?thesis using inspect_call_param [OF 1] by simp
  next
    case 2
    from first_found_Some [OF 2] obtain j where "inspect_chat_call se (place (place ''input'' i @ ''.tool_calls'') j) (calls ! j) = Some u"
      by auto
    then show ?thesis by (auto simp: inspect_chat_call_def place_def dest!: inspect_call_param split: if_splits)
  qed
qed


section \<open>Samples\<close>

definition sse_frame :: "json \<Rightarrow> bytes" where
  "sse_frame j = ''data: '' @ json_stringify j @ [LF, LF]"

definition call_added :: json where
  "call_added = JObj [(''type'', JStr CALL_ADDED),
     (''item'', JObj [(''type'', JStr ''function_call''), (''id'', JStr ''fc''), (''name'', JStr ''ls'')])]"

definition text_delta :: json where
  "text_delta = JObj [(''type'', JStr ''response.output_text.delta''), (''delta'', JStr ''hi'')]"

definition call_done :: "string \<Rightarrow> json" where
  "call_done args = JObj [(''type'', JStr ARGS_DONE), (''item_id'', JStr ''fc''), (''arguments'', JStr args)]"

definition completed :: json where
  "completed = JObj [(''type'', JStr ''response.completed''), (''response'', JObj [(''output'', JArr [])])]"

definition sample_frames :: "string \<Rightarrow> bytes list" where
  "sample_frames args = map sse_frame [call_added, text_delta, call_done args, completed]"

lemma sample_cut: "frames_of (concat (sample_frames args)) = sample_frames args" if "args = ''{}'' \<or> args = ''{''"
  using that by (elim disjE) (hypsubst, code_simp)+


lemma sample_bodies_fit: "args = ''{}'' \<or> args = ''{'' \<Longrightarrow>
    utf8_valid (concat (sample_frames args)) \<and> length (concat (sample_frames args)) \<le> MAX_FRAME"
  by (elim disjE) (hypsubst, code_simp)+

lemma sample_first_bad:
  "first_bad (\<lambda>_. []) (\<lambda>_. False) [] (sample_frames ''{}'') = None"
  "first_bad (\<lambda>_. []) (\<lambda>_. False) [] (sample_frames ''{'') =
     Some (map sse_frame [call_added, text_delta], sse_frame (call_done ''{''),
       \<lparr>un_tool = Some ''ls'', un_call = Some ''fc'', un_item = Some ''fc'',
        un_param = Some ''function_call_arguments.done'', un_error = ''Invalid JSON''\<rparr>)"
  by code_simp+

section \<open>Properties\<close>



text \<open>C24: A body of valid text in which every completed call parses is relayed whole: no frame is
  lost, repeated or changed, and the frames of each call, like those of no call, keep their
  order.\<close>

theorem sound_calls_relayed:
  assumes "utf8_valid (concat cs)" and "length (concat cs) \<le> MAX_FRAME"
    and "first_bad se lk [] (frames_of (concat cs)) = None"
  shows "snd (guard_body se lk True cs) = None \<and>
    mset (fst (guard_body se lk True cs)) = mset (frames_of (concat cs)) \<and>
    (\<forall>c. filter (\<lambda>f. call_of f = c) (fst (guard_body se lk True cs)) =
         filter (\<lambda>f. call_of f = c) (frames_of (concat cs)))"
proof -
  have run: "snd (guard_body se lk True cs) = None"
    "\<And>c. filter (\<lambda>f. call_of f = c) (fst (guard_body se lk True cs)) = filter (\<lambda>f. call_of f = c) (frames_of (concat cs))"
    using body_run [OF assms(1,2), of se lk] assms(3) by simp_all
  then show ?thesis using same_filters_mset [OF run(2)] by blast
qed

lemma sound_calls_relayed_witness:
  "let cs = [take 20 (concat (sample_frames ''{}'')), drop 20 (concat (sample_frames ''{}''))]
   in mset (fst (guard_body (\<lambda>_. []) (\<lambda>_. False) True cs)) = mset (sample_frames ''{}'')"
proof -
  let ?cs = "[take 20 (concat (sample_frames ''{}'')), drop 20 (concat (sample_frames ''{}''))]"
  have whole: "concat ?cs = concat (sample_frames ''{}'')" by simp
  note t = sound_calls_relayed [of ?cs, unfolded whole sample_cut [OF disjI1, OF refl],
      OF sample_bodies_fit [OF disjI1, OF refl, THEN conjunct1] sample_bodies_fit [OF disjI1, OF refl, THEN conjunct2] sample_first_bad(1)]
  show ?thesis using t by (simp add: Let_def)
qed

text \<open>C34: Nothing is behind the end: when the event that ends the response leaves, every frame that
  came before it has left.\<close>

theorem end_comes_last:
  assumes "utf8_valid (concat cs)" and "length (concat cs) \<le> MAX_FRAME"
    and "first_bad se lk [] (frames_of (concat cs)) = None"
    and "frames_of (concat cs) = ps @ t # qs" and "ends_response t"
  shows "\<exists>o1 o2. fst (guard_body se lk True cs) = o1 @ t # o2 \<and> mset o1 = mset ps"
proof -
  have valid: "list_all utf8_valid ps" "utf8_valid t" and fits: "length (concat ps) + length t \<le> MAX_CAPTURE"
  proof -
    show "list_all utf8_valid ps" "utf8_valid t" using frames_of_valid [OF assms(1)] unfolding assms(4) by simp_all
    have "length (concat (ps @ t # qs)) \<le> MAX_FRAME"
      using assms(2) concat_frames_of [of "concat cs"] unfolding assms(4) by metis
    then show "length (concat ps) + length t \<le> MAX_CAPTURE" by (simp add: MAX_FRAME_def MAX_CAPTURE_def)
  qed
  have none: "first_bad se lk [] ps = None" "frame_bad se lk (fold names_after ps []) t = None"
    using assms(3) unfolding assms(4) first_bad_append by (simp_all split: option.splits)
  obtain s1 o1 where r: "guard_frames se lk ps new_guard = (s1, o1, None)" "account ps o1 s1" "measured s1"
    "untouched ps o1" "cg_names s1 = fold names_after ps []"
    using guard_frames_run [OF new_guard_account(1-3) valid(1), of se lk] none(1) fits by auto
  obtain s2 o2 where q: "guard_frame se lk t s1 = (s2, o2, None)" "stepped ps o1 t (cg_names s1) s2 o2"
    using guard_frame_step [OF r(2-4) valid(2) fits, of se lk] none(2) unfolding r(5) [symmetric] by auto
  then obtain p where p: "o2 = p @ [t]" "cg_held s2 = []" "account (ps @ [t]) (o1 @ o2) s2"
    using assms(5) by (auto simp: stepped_def)
  have "mset (o1 @ o2) = mset (ps @ [t])" by (rule account_mset [OF p(3,2)])
  then have same: "mset (o1 @ p) = mset ps" using p(1) by simp
  have "guard_frames se lk (ps @ t # qs) new_guard = and_then (s2, o1 @ o2, None) (guard_frames se lk qs)"
    by (simp add: guard_frames_append r(1) q(1) split: prod.splits)
  then have "\<exists>o3. fst (snd (guard_frames se lk (ps @ t # qs) new_guard)) = (o1 @ p) @ t # o3"
    using p(1) by (simp add: split_beta)
  then obtain o3 where o3: "fst (snd (guard_frames se lk (ps @ t # qs) new_guard)) = (o1 @ p) @ t # o3" by blast
  have "fst (guard_body se lk True cs) = fst (snd (and_then (guard_frames se lk (ps @ t # qs) new_guard) (\<lambda>s. no_error (release_all s))))"
    using guard_body_frames [OF assms(1,2), of se lk] unfolding assms(4) by simp
  then have "\<exists>o4. fst (guard_body se lk True cs) = (o1 @ p) @ t # o4"
    using o3 by (cases "snd (snd (guard_frames se lk (ps @ t # qs) new_guard))") (auto simp: and_then_ok and_then_error)
  with same show ?thesis by blast
qed

lemma end_comes_last_witness:
  "\<exists>o1 o2. fst (guard_body (\<lambda>_. []) (\<lambda>_. False) True [concat (sample_frames ''{}'')]) =
      o1 @ sse_frame completed # o2 \<and> mset o1 = mset (map sse_frame [call_added, text_delta, call_done ''{}''])"
proof (rule end_comes_last)
  have whole: "concat [concat (sample_frames ''{}'')] = concat (sample_frames ''{}'')" by simp
  note cut = sample_cut [OF disjI1, OF refl]
  show "utf8_valid (concat [concat (sample_frames ''{}'')])" "length (concat [concat (sample_frames ''{}'')]) \<le> MAX_FRAME"
    using sample_bodies_fit [OF disjI1, OF refl] unfolding whole by simp_all
  show "first_bad (\<lambda>_. []) (\<lambda>_. False) [] (frames_of (concat [concat (sample_frames ''{}'')])) = None"
    unfolding whole cut by (rule sample_first_bad(1))
  show "frames_of (concat [concat (sample_frames ''{}'')]) =
      map sse_frame [call_added, text_delta, call_done ''{}''] @ sse_frame completed # []"
    unfolding whole cut by (simp add: sample_frames_def)
  show "ends_response (sse_frame completed)" by code_simp
qed


text \<open>How the network cuts a body of valid text cannot be seen: neither in what is relayed nor
  in the verdict.\<close>

theorem guard_chunking:
  assumes "utf8_valid (concat cs)" and "length (concat cs) \<le> MAX_FRAME"
  shows "guard_body se lk True cs = guard_body se lk True [concat cs]"
  using guard_body_frames [of cs se lk] guard_body_frames [of "[concat cs]" se lk] assms by simp

lemma guard_chunking_witness:
  "guard_body (\<lambda>_. []) (\<lambda>_. False) True [take 20 (concat (sample_frames ''{}'')), drop 20 (concat (sample_frames ''{}''))] =
   guard_body (\<lambda>_. []) (\<lambda>_. False) True [concat (sample_frames ''{}'')]"
  using guard_chunking [of "[take 20 (concat (sample_frames ''{}'')), drop 20 (concat (sample_frames ''{}''))]"]
    sample_bodies_fit [OF disjI1, OF refl] by simp

text \<open>A JSON body of any size and content is either refused as a whole, with nothing relayed,
  because the parsed response holds a completed call whose arguments do not parse, or relayed
  byte for byte.\<close>

theorem json_body_all_or_nothing:
  "case snd (guard_body se lk False cs) of
      None \<Rightarrow> concat (fst (guard_body se lk False cs)) = concat cs
    | Some b \<Rightarrow> fst (guard_body se lk False cs) = [] \<and>
        Option.bind (json_parse (concat cs)) (find_unusable_event se lk) = Some b"
  using cg_feed_json [of new_guard se lk cs] by (simp add: guard_body_def new_guard_def cong: option.case_cong)

text \<open>A stored history passes when every call in it parses; otherwise it is refused for the
  first item that holds a call that does not, and the refusal names that item's place.\<close>

theorem history_refused_for_the_first:
  "case find_unusable_input se lk (Some (JArr xs)) of
      None \<Rightarrow> list_all (item_sendable lk) xs
    | Some u \<Rightarrow> \<exists>i p. i < length xs \<and> list_all (item_sendable lk) (take i xs) \<and>
        \<not> item_sendable lk (xs ! i) \<and> un_param u = Some (place ''input'' i @ p)"
proof -
  have all: "first_found (inspect_input_item se lk) 0 ys = None \<longleftrightarrow> list_all (item_sendable lk) ys" for ys
    by (simp add: first_found_None inspect_item_None list_all_length)
  show ?thesis
  proof (cases "first_found (inspect_input_item se lk) 0 xs")
    case None
    then show ?thesis using all [of xs] by (simp add: find_unusable_input_def)
  next
    case (Some u)
    then obtain i where i: "i < length xs" "inspect_input_item se lk i (xs ! i) = Some u"
      "list_all (item_sendable lk) (take i xs)"
      using first_found_Some [OF Some] all by auto
    moreover have "\<not> item_sendable lk (xs ! i)" using i(2) inspect_item_None [of se lk i "xs ! i"] by simp
    ultimately show ?thesis using Some inspect_item_param [OF i(2)] by (auto simp: find_unusable_input_def)
  qed
qed

text \<open>A frame that is not UTF-8 switches the stage to relaying, and the flush of a relaying stage
  does nothing: the frames held for an open call are never sent.\<close>

lemma held_frames_are_lost:
  "guard_body (\<lambda>_. []) (\<lambda>_. False) True [sse_frame call_added @ [CHR 0xFF, LF, LF]] = ([[CHR 0xFF, LF, LF]], None)"
  by code_simp

end
