(* ===== verification/Js_Regex.thy ===== *)
theory Js_Regex
  imports Utf8_Text
begin

text \<open>
  The regular expressions of JavaScript that the classifiers of upstream errors use. A pattern
  is matched against the UTF-16 code units of a string by backtracking in the order the
  language prescribes: \<open>ends\<close> lists the matches of a pattern at a position, the preferred one
  first, each with its captures. \<open>exec\<close> takes the first match at the first position that has
  one. Under the flag \<open>i\<close> only ASCII letters ic: the patterns contain no other letters that have
  a case, and no other unit folds to an ASCII one.
\<close>

section \<open>Code units\<close>

definition low_bits :: "string \<Rightarrow> nat \<Rightarrow> nat" where
  "low_bits s k = (if k < length s then byte_of (s ! k) mod 64 else 0)"

function units :: "string \<Rightarrow> nat list" where
  "units [] = []"
| "units (a # s) =
     (let b = byte_of a in
      if b < 192 then b # units s
      else if b < 224 then ((b mod 32) * 64 + low_bits s 0) # units (drop 1 s)
      else if b < 240 then ((b mod 16) * 4096 + low_bits s 0 * 64 + low_bits s 1) # units (drop 2 s)
      else let v = (b mod 8) * 262144 + low_bits s 0 * 4096 + low_bits s 1 * 64 + low_bits s 2 - 65536
        in (55296 + v div 1024) # (56320 + v mod 1024) # units (drop 3 s))"
  by pat_completeness auto
termination
  by (relation "measure length") auto

section \<open>Patterns\<close>

text \<open>A class is a list of ranges, negated or not; a repetition has a least and a greatest count
  and is greedy or lazy.\<close>

datatype re =
    Eps
  | Cls bool "(nat \<times> nat) list"
  | Seq re re
  | Alt re re
  | Rep nat "nat option" bool re
  | Cap nat re
  | Word_Edge
  | Start
  | End

definition lit :: "string \<Rightarrow> re" where
  "lit s = foldr (\<lambda>c r. Seq (Cls False [(byte_of c, byte_of c)]) r) s Eps"

definition seqs :: "re list \<Rightarrow> re" where "seqs rs = foldr Seq rs Eps"

fun alts :: "re list \<Rightarrow> re" where
  "alts [] = Cls False []"
| "alts [r] = r"
| "alts (r # rs) = Alt r (alts rs)"

definition maybe :: "re \<Rightarrow> re" where "maybe r = Rep 0 (Some 1) True r"
definition star :: "re \<Rightarrow> re" where "star r = Rep 0 None True r"
definition plus :: "re \<Rightarrow> re" where "plus r = Rep 1 None True r"

definition SPACES :: "(nat \<times> nat) list" where
  "SPACES = [(9, 13), (32, 32), (160, 160), (5760, 5760), (8192, 8202), (8232, 8233), (8239, 8239),
     (8287, 8287), (12288, 12288), (65279, 65279)]"
definition WORD :: "(nat \<times> nat) list" where "WORD = [(48, 57), (65, 90), (95, 95), (97, 122)]"

definition space :: re where "space = Cls False SPACES"
definition digits :: re where "digits = Cls False [(48, 57)]"
definition any_char :: re where "any_char = Cls True [(10, 10), (13, 13), (8232, 8233)]"
definition anything :: re where "anything = Cls True []"

section \<open>Matching\<close>

definition in_ranges :: "(nat \<times> nat) list \<Rightarrow> nat \<Rightarrow> bool" where
  "in_ranges rs u = list_ex (\<lambda>(a, b). a \<le> u \<and> u \<le> b) rs"

definition other_case :: "nat \<Rightarrow> nat" where
  "other_case u = (if 65 \<le> u \<and> u \<le> 90 then u + 32 else if 97 \<le> u \<and> u \<le> 122 then u - 32 else u)"

definition in_class :: "bool \<Rightarrow> bool \<Rightarrow> (nat \<times> nat) list \<Rightarrow> nat \<Rightarrow> bool" where
  "in_class ic neg rs u \<longleftrightarrow> neg \<noteq> (in_ranges rs u \<or> (ic \<and> in_ranges rs (other_case u)))"

definition word_at :: "nat list \<Rightarrow> nat \<Rightarrow> bool" where
  "word_at t i \<longleftrightarrow> i < length t \<and> in_ranges WORD (t ! i)"

definition word_edge :: "nat list \<Rightarrow> nat \<Rightarrow> bool" where
  "word_edge t i \<longleftrightarrow> (0 < i \<and> word_at t (i - 1)) \<noteq> word_at t i"

type_synonym match = "nat \<times> (nat \<times> nat list) list"

definition continue :: "match list \<Rightarrow> (nat \<Rightarrow> match list) \<Rightarrow> match list" where
  "continue ms f = concat (map (\<lambda>(p, c). map (\<lambda>(q, d). (q, c @ d)) (f p)) ms)"

text \<open>Repetition: once the least count is reached, an iteration that takes nothing is not tried.
  Every further iteration takes a unit, so the length of the text bounds them.\<close>

fun iterate :: "nat \<Rightarrow> (nat \<Rightarrow> match list) \<Rightarrow> nat \<Rightarrow> nat option \<Rightarrow> bool \<Rightarrow> nat \<Rightarrow> match list" where
  "iterate 0 f lo hi greedy i = (if lo = 0 then [(i, [])] else [])"
| "iterate (Suc n) f lo hi greedy i =
     (let more = (if hi = Some 0 then []
            else continue (if lo = 0 then filter (\<lambda>(p, _). p \<noteq> i) (f i) else f i)
                   (iterate n f (lo - 1) (map_option (\<lambda>h. h - 1) hi) greedy))
      in if 0 < lo then more else if greedy then more @ [(i, [])] else (i, []) # more)"

primrec ends :: "bool \<Rightarrow> nat list \<Rightarrow> re \<Rightarrow> nat \<Rightarrow> match list" where
  "ends ic t Eps = (\<lambda>i. [(i, [])])"
| "ends ic t (Cls neg rs) =
     (\<lambda>i. if i < length t \<and> in_class ic neg rs (t ! i) then [(Suc i, [])] else [])"
| "ends ic t (Seq r q) = (\<lambda>i. continue (ends ic t r i) (ends ic t q))"
| "ends ic t (Alt r q) = (\<lambda>i. ends ic t r i @ ends ic t q i)"
| "ends ic t (Rep lo hi greedy r) = iterate (length t + lo + 1) (ends ic t r) lo hi greedy"
| "ends ic t (Cap k r) = (\<lambda>i. map (\<lambda>(p, c). (p, c @ [(k, take (p - i) (drop i t))])) (ends ic t r i))"
| "ends ic t Word_Edge = (\<lambda>i. if word_edge t i then [(i, [])] else [])"
| "ends ic t Start = (\<lambda>i. if i = 0 then [(i, [])] else [])"
| "ends ic t End = (\<lambda>i. if i = length t then [(i, [])] else [])"

text \<open>\<open>pattern.exec(text)\<close>: the captures of the match; \<open>pattern.test(text)\<close>\<close>

fun first_match :: "(nat \<Rightarrow> match list) \<Rightarrow> nat list \<Rightarrow> (nat \<times> match) option" where
  "first_match f [] = None"
| "first_match f (i # js) = (case f i of m # _ \<Rightarrow> Some (i, m) | [] \<Rightarrow> first_match f js)"

definition exec :: "bool \<Rightarrow> re \<Rightarrow> string \<Rightarrow> (nat \<times> match) option" where
  "exec ic r s = (let t = units s in first_match (ends ic t r) [0..<Suc (length t)])"

definition test :: "bool \<Rightarrow> re \<Rightarrow> string \<Rightarrow> bool" where
  "test ic r s \<longleftrightarrow> exec ic r s \<noteq> None"

text \<open>The text of a capture of digits.\<close>

definition capture :: "nat \<Rightarrow> match \<Rightarrow> string" where
  "capture k m = (case map_of (rev (snd m)) k of Some us \<Rightarrow> map char_of us | None \<Rightarrow> [])"

section \<open>What a match is\<close>

text \<open>The declarative reading of a pattern: the stretches of a text it spans.\<close>

inductive spans :: "bool \<Rightarrow> nat list \<Rightarrow> re \<Rightarrow> nat \<Rightarrow> nat \<Rightarrow> bool"
  and repeats :: "bool \<Rightarrow> nat list \<Rightarrow> re \<Rightarrow> nat \<Rightarrow> nat \<Rightarrow> nat \<Rightarrow> bool" for ic t where
  sp_eps: "spans ic t Eps i i"
| sp_cls: "i < length t \<Longrightarrow> in_class ic neg rs (t ! i) \<Longrightarrow> spans ic t (Cls neg rs) i (Suc i)"
| sp_seq: "spans ic t r i j \<Longrightarrow> spans ic t q j k \<Longrightarrow> spans ic t (Seq r q) i k"
| sp_left: "spans ic t r i j \<Longrightarrow> spans ic t (Alt r q) i j"
| sp_right: "spans ic t q i j \<Longrightarrow> spans ic t (Alt r q) i j"
| sp_rep: "repeats ic t r n i j \<Longrightarrow> lo \<le> n \<Longrightarrow> (\<forall>h. hi = Some h \<longrightarrow> n \<le> h) \<Longrightarrow> spans ic t (Rep lo hi g r) i j"
| sp_cap: "spans ic t r i j \<Longrightarrow> spans ic t (Cap k r) i j"
| sp_edge: "word_edge t i \<Longrightarrow> spans ic t Word_Edge i i"
| sp_start: "spans ic t Start 0 0"
| sp_end: "spans ic t End (length t) (length t)"
| rp_none: "repeats ic t r 0 i i"
| rp_more: "spans ic t r i j \<Longrightarrow> repeats ic t r n j k \<Longrightarrow> repeats ic t r (Suc n) i k"


inductive_cases spans_Eps: "spans ic t Eps i j"
inductive_cases spans_Cls: "spans ic t (Cls neg rs) i j"
inductive_cases spans_Seq: "spans ic t (Seq r q) i j"
inductive_cases spans_Alt: "spans ic t (Alt r q) i j"
inductive_cases spans_Rep: "spans ic t (Rep lo hi g r) i j"
inductive_cases spans_Cap: "spans ic t (Cap k r) i j"
inductive_cases spans_Edge: "spans ic t Word_Edge i j"
inductive_cases spans_Start: "spans ic t Start i j"
inductive_cases spans_End: "spans ic t End i j"
inductive_cases repeats_Zero: "repeats ic t r 0 i j"
inductive_cases repeats_Suc: "repeats ic t r (Suc n) i j"

definition stops :: "match list \<Rightarrow> nat set" where "stops ms = fst ` set ms"

lemma stops_simps [simp]:
  "stops [] = {}" "stops (m # ms) = insert (fst m) (stops ms)" "stops (ms @ ns) = stops ms \<union> stops ns"
  "stops ms = {} \<longleftrightarrow> ms = []"
  by (simp_all add: stops_def image_Un)

lemma stops_map [simp]: "stops (map (\<lambda>(p, c). (p, h p c)) ms) = stops ms"
  by (induction ms) (simp_all add: split_beta)

lemma stops_filter [simp]: "stops (filter (\<lambda>(p, _). p \<noteq> i) ms) = stops ms - {i}"
  by (induction ms) (simp_all add: split_beta insert_Diff_if)

lemma stops_continue [simp]: "stops (continue ms f) = (\<Union>p \<in> stops ms. stops (f p))"
proof (induction ms)
  case (Cons m ms)
  obtain p c where m: "m = (p, c)" by (cases m)
  have "continue (m # ms) f = map (\<lambda>(q, d). (q, c @ d)) (f p) @ continue ms f" by (simp add: continue_def m)
  then have "stops (continue (m # ms) f) = stops (f p) \<union> stops (continue ms f)"
    using stops_map [of "\<lambda>_ d. c @ d" "f p"] by simp
  with Cons m show ?case by simp
qed (simp add: continue_def)

definition forward :: "nat \<Rightarrow> (nat \<Rightarrow> match list) \<Rightarrow> bool" where
  "forward n f \<longleftrightarrow> (\<forall>i j. i \<le> n \<longrightarrow> j \<in> stops (f i) \<longrightarrow> i \<le> j \<and> j \<le> n)"

lemma forwardD: "forward n f \<Longrightarrow> i \<le> n \<Longrightarrow> j \<in> stops (f i) \<Longrightarrow> i \<le> j \<and> j \<le> n"
  unfolding forward_def by blast

lemma forward_twice:
  assumes "forward n f" "forward n g" "i \<le> n" "p \<in> stops (f i)" "k \<in> stops (g p)"
  shows "i \<le> k \<and> k \<le> n"
proof -
  have p: "i \<le> p \<and> p \<le> n" by (rule forwardD [OF assms(1,3,4)])
  then have "p \<le> k \<and> k \<le> n" using forwardD [OF assms(2) _ assms(5)] by blast
  with p show ?thesis by linarith
qed

lemma iterate_stops:
  "stops (iterate (Suc m) f lo hi g i) = (if lo = 0 then {i} else {}) \<union>
     (if hi = Some 0 then {} else
      (\<Union>p \<in> (if lo = 0 then stops (f i) - {i} else stops (f i)).
         stops (iterate m f (lo - 1) (map_option (\<lambda>h. h - 1) hi) g p)))"
  by (simp only: iterate.simps(2) Let_def if_distrib [of stops] stops_simps stops_continue stops_filter fst_conv if_distribR split: if_split) blast

declare iterate.simps(2) [simp del]

lemma iterate_cases:
  assumes "j \<in> stops (iterate (Suc m) f lo hi g i)"
  shows "j = i \<or> (\<exists>p \<in> stops (f i). j \<in> stops (iterate m f (lo - 1) (map_option (\<lambda>h. h - 1) hi) g p))"
proof (cases "lo = 0")
  case True
  with assms show ?thesis unfolding iterate_stops by (cases "hi = Some 0") auto
next
  case False
  with assms show ?thesis unfolding iterate_stops by (cases "hi = Some 0") auto
qed

lemma iterate_forward: "forward n f \<Longrightarrow> forward n (iterate m f lo hi g)"
proof (induction m arbitrary: lo hi)
  case 0
  show ?case by (simp add: forward_def)
next
  case (Suc m)
  have ih: "forward n (iterate m f (lo - 1) (map_option (\<lambda>h. h - 1) hi) g)" using Suc by blast
  show ?case unfolding forward_def
  proof (intro allI impI)
    fix i j
    assume i: "i \<le> n" and j: "j \<in> stops (iterate (Suc m) f lo hi g i)"
    from iterate_cases [OF j] show "i \<le> j \<and> j \<le> n"
    proof (elim disjE bexE)
      show ?thesis if "j = i" using that i by simp
      show ?thesis if "p \<in> stops (f i)" "j \<in> stops (iterate m f (lo - 1) (map_option (\<lambda>h. h - 1) hi) g p)" for p
        by (rule forward_twice [OF Suc.prems ih i that])
    qed
  qed
qed

lemma ends_forward: "forward (length t) (ends ic t r)"
proof (induction r)
  case (Seq r q)
  show ?case unfolding forward_def
  proof (intro allI impI)
    fix i j
    assume i: "i \<le> length t" and "j \<in> stops (ends ic t (Seq r q) i)"
    then obtain p where "p \<in> stops (ends ic t r i)" "j \<in> stops (ends ic t q p)" by auto
    from forward_twice [OF Seq.IH i this] show "i \<le> j \<and> j \<le> length t" .
  qed
next
  case (Rep lo hi g r)
  then show ?case unfolding ends.simps by (rule iterate_forward)
next
  case (Alt r q)
  then show ?case unfolding forward_def ends.simps stops_simps by blast
next
  case (Cap k r)
  then show ?case unfolding forward_def ends.simps stops_map .
qed (simp_all add: forward_def)

lemma iterate_ends:
  assumes f: "forward n f" "\<And>i. i \<le> n \<Longrightarrow> stops (f i) = {j. spans ic t r i j}"
  shows "i \<le> n \<Longrightarrow> n - i + lo + 1 \<le> m \<Longrightarrow>
    stops (iterate m f lo hi g i) = {j. \<exists>k \<ge> lo. (\<forall>h. hi = Some h \<longrightarrow> k \<le> h) \<and> repeats ic t r k i j}"
proof (induction m arbitrary: i lo hi)
  case (Suc m)
  let ?lo = "lo - 1" and ?hi = "map_option (\<lambda>h. h - 1) hi"
  let ?it = "iterate m f ?lo ?hi g"
  define first where "first = (if lo = 0 then stops (f i) - {i} else stops (f i))"
  have first: "p \<in> first \<longleftrightarrow> spans ic t r i p \<and> (lo = 0 \<longrightarrow> p \<noteq> i)" for p
    using f(2) [OF Suc.prems(1)] by (simp add: first_def)
  have later: "stops (?it p) = {j. \<exists>k \<ge> ?lo. (\<forall>h. ?hi = Some h \<longrightarrow> k \<le> h) \<and> repeats ic t r k p j}" if "p \<in> first" for p
  proof (rule Suc.IH)
    have "p \<in> stops (f i)" using that by (auto simp: first_def split: if_splits)
    from forwardD [OF f(1) Suc.prems(1) this] have p: "i \<le> p" "p \<le> n" by simp_all
    show "p \<le> n" by (rule p(2))
    show "n - p + ?lo + 1 \<le> m"
    proof (cases "lo = 0")
      case True
      with that p have "i < p" by (auto simp: first)
      with True Suc.prems(2) p show ?thesis by simp
    next
      case False
      with Suc.prems(2) p show ?thesis by simp
    qed
  qed
  have all: "stops (iterate (Suc m) f lo hi g i) =
    (if lo = 0 then {i} else {}) \<union> (if hi = Some 0 then {} else (\<Union>p \<in> first. stops (?it p)))"
    unfolding iterate_stops first_def ..
  show ?case
  proof (intro equalityI subsetI)
    fix j
    assume "j \<in> stops (iterate (Suc m) f lo hi g i)"
    then consider "lo = 0" "j = i"
      | p k where "hi \<noteq> Some 0" "p \<in> first" "?lo \<le> k" "\<forall>h. ?hi = Some h \<longrightarrow> k \<le> h" "repeats ic t r k p j"
      unfolding all using later by (auto split: if_splits)
    then show "j \<in> {j. \<exists>k \<ge> lo. (\<forall>h. hi = Some h \<longrightarrow> k \<le> h) \<and> repeats ic t r k i j}"
    proof cases
      case 1
      then show ?thesis using rp_none by auto
    next
      case 2
      have "repeats ic t r (Suc k) i j" using rp_more [OF _ 2(5)] 2(2) by (simp add: first)
      moreover have "lo \<le> Suc k" using 2(3) by simp
      moreover have "\<forall>h. hi = Some h \<longrightarrow> Suc k \<le> h" using 2(1,4) by (cases hi) auto
      ultimately show ?thesis by blast
    qed
  next
    fix j
    assume "j \<in> {j. \<exists>k \<ge> lo. (\<forall>h. hi = Some h \<longrightarrow> k \<le> h) \<and> repeats ic t r k i j}"
    then obtain k where k: "lo \<le> k" "\<forall>h. hi = Some h \<longrightarrow> k \<le> h" "repeats ic t r k i j" by blast
    then show "j \<in> stops (iterate (Suc m) f lo hi g i)"
    proof (induction k)
      case 0
      then have "j = i" by (auto elim: repeats_Zero)
      with 0 show ?case unfolding all by simp
    next
      case (Suc k)
      from Suc.prems(3) obtain p where p: "spans ic t r i p" "repeats ic t r k p j" by (rule repeats_Suc)
      show ?case
      proof (cases "lo = 0 \<and> p = i")
        case True
        have "\<forall>h. hi = Some h \<longrightarrow> k \<le> h" using Suc.prems(2) by auto
        with True Suc.IH p show ?thesis by simp
      next
        case False
        then have pf: "p \<in> first" unfolding first using p(1) by blast
        have "?lo \<le> k" "\<forall>h. ?hi = Some h \<longrightarrow> k \<le> h" using Suc.prems(1,2) by auto
        then have "j \<in> stops (?it p)" unfolding later [OF pf] using p(2) by blast
        moreover have "hi \<noteq> Some 0" using Suc.prems(2) by auto
        ultimately show ?thesis unfolding all using pf by auto
      qed
    qed
  qed
qed simp

text \<open>The matcher finds exactly the stretches that the pattern spans.\<close>

theorem ends_spans: "i \<le> length t \<Longrightarrow> stops (ends ic t r i) = {j. spans ic t r i j}"
proof (induction r arbitrary: i)
  case (Seq r q)
  have q: "stops (ends ic t q p) = {j. spans ic t q p j}" if "spans ic t r i p" for p
    using that forwardD [OF ends_forward Seq.prems, of p ic r] Seq.IH(1) [OF Seq.prems] by (intro Seq.IH(2)) auto
  have "stops (ends ic t (Seq r q) i) = (\<Union>p \<in> {p. spans ic t r i p}. stops (ends ic t q p))"
    using Seq.IH(1) [OF Seq.prems] by simp
  also have "\<dots> = {j. spans ic t (Seq r q) i j}" using q by (auto elim!: spans_Seq intro: sp_seq)
  finally show ?case .
next
  case (Rep lo hi g r)
  have "stops (ends ic t (Rep lo hi g r) i) =
      {j. \<exists>k \<ge> lo. (\<forall>h. hi = Some h \<longrightarrow> k \<le> h) \<and> repeats ic t r k i j}"
    unfolding ends.simps
    by (rule iterate_ends [where n = "length t", OF ends_forward Rep.IH Rep.prems]) (use Rep.prems in simp_all)
  also have "\<dots> = {j. spans ic t (Rep lo hi g r) i j}" by (auto elim!: spans_Rep intro: sp_rep)
  finally show ?case .
next
  case (Cap k r)
  have "stops (ends ic t (Cap k r) i) = stops (ends ic t r i)" by simp
  with Cap show ?case by (auto elim!: spans_Cap intro: sp_cap)
qed (auto elim!: spans_Eps spans_Cls spans_Alt spans_Edge spans_Start spans_End intro: spans_repeats.intros)

lemma first_match_None: "first_match f js = None \<longleftrightarrow> (\<forall>i \<in> set js. f i = [])"
  by (induction js) (auto split: list.splits)

theorem test_spans: "test ic r s \<longleftrightarrow> (\<exists>i j. i \<le> length (units s) \<and> spans ic (units s) r i j)"
proof -
  have "test ic r s \<longleftrightarrow> (\<exists>i \<in> {0..<Suc (length (units s))}. ends ic (units s) r i \<noteq> [])"
    unfolding test_def exec_def Let_def first_match_None set_upt by blast
  also have "\<dots> \<longleftrightarrow> (\<exists>i \<le> length (units s). stops (ends ic (units s) r i) \<noteq> {})" by (auto simp: less_Suc_eq_le)
  also have "\<dots> \<longleftrightarrow> (\<exists>i \<le> length (units s). {j. spans ic (units s) r i j} \<noteq> {})"
    by (rule ex_cong1) (simp only: ends_spans cong: conj_cong)
  finally show ?thesis by auto
qed

end
