(* ===== verification/Error_Translation.thy ===== *)
theory Error_Translation
  imports Js_Regex Call_Arguments Message_Phase
begin

text \<open>
  \<open>error-translation.mjs\<close>: what an upstream failure is and how it is worded. The message of the
  innermost error is dug out of the gateway's wrapping (\<open>extract_detail\<close>), classified by the
  patterns of the source, and turned into an OpenAI-shaped error that names the provider. The
  number of a capture is its exact value: rounding beyond 2 to the 53 is not modelled.
\<close>

section \<open>The message of an error body\<close>

definition DETAIL_LIMIT :: nat where "DETAIL_LIMIT = 300"

text \<open>\<open>parseUpstreamError\<close>: the message, and the type where there is one.\<close>

definition parse_upstream_error :: "string option \<Rightarrow> string \<times> string option" where
  "parse_upstream_error body =
     (case filled (map_option JStr body) of None \<Rightarrow> ([], None)
      | Some text \<Rightarrow>
          (case json_parse text of None \<Rightarrow> (text, None)
           | Some parsed \<Rightarrow>
               let error = obj_get parsed ''error'';
                   found = or_else (filled error) (or_else (filled (opt_get error ''message''))
                     (or_else (filled (opt_get (obj_get parsed ''base_resp'') ''status_msg''))
                     (or_else (filled (obj_get parsed ''message'')) (filled (obj_get parsed ''detail'')))))
               in (case found of Some m \<Rightarrow> m | None \<Rightarrow> text,
                   or_else (as_str (opt_get error ''type'')) (as_str (opt_get error ''status'')))))"

text \<open>\<open>ROUTING_NOISE\<close>: from the first match to the end of the text.\<close>

definition MODEL_GROUP :: string where "MODEL_GROUP = ''Received Model Group=''"
definition FALLBACKS :: string where "FALLBACKS = ''Available Model Group Fallbacks=''"

definition noise_at :: "bool \<Rightarrow> string \<Rightarrow> string \<Rightarrow> bool" where
  "noise_at dot mark s \<longleftrightarrow> starts_with mark (trim_start (if dot \<and> starts_with ''.'' s then tl s else s))"

fun cut_noise :: "bool \<Rightarrow> string \<Rightarrow> string \<Rightarrow> string" where
  "cut_noise dot mark [] = []"
| "cut_noise dot mark (c # cs) = (if noise_at dot mark (c # cs) then [] else c # cut_noise dot mark cs)"

text \<open>\<open>WRAPPER_PREFIXES\<close>\<close>

definition is_letter :: "char \<Rightarrow> bool" where
  "is_letter c \<longleftrightarrow> (CHR ''A'' \<le> c \<and> c \<le> CHR ''Z'') \<or> (CHR ''a'' \<le> c \<and> c \<le> CHR ''z'')"

definition ends_with :: "string \<Rightarrow> string \<Rightarrow> bool" where
  "ends_with p s \<longleftrightarrow> starts_with (rev p) (rev s)"

definition strip_litellm :: "string \<Rightarrow> string" where
  "strip_litellm s =
     (let r = drop 8 s; rest = dropWhile is_letter r in
      if starts_with ''litellm.'' s \<and> takeWhile is_letter r \<noteq> [] \<and> starts_with '':'' rest
      then trim_start (tl rest) else s)"

definition strip_error :: "string \<Rightarrow> string" where
  "strip_error s =
     (let run = takeWhile is_letter s; rest = dropWhile is_letter s in
      if ends_with ''Error'' run \<and> 5 < length run \<and> starts_with '':'' rest then trim_start (tl rest) else s)"

definition strip_exception :: "string \<Rightarrow> string" where
  "strip_exception s =
     (let run = takeWhile is_letter s; rest = trim_start (dropWhile is_letter s) in
      if ends_with ''Exception'' run \<and> 9 < length run \<and> starts_with ''-'' rest then trim_start (tl rest) else s)"

definition strip_once :: "string \<Rightarrow> string" where
  "strip_once s = strip_exception (strip_error (strip_litellm s))"

lemma length_trim_start: "length (trim_start s) \<le> length s"
  using trim_start_suffix [of s] by (metis le_add2 length_append)

lemma trimmed_shorter: "rest \<noteq> [] \<Longrightarrow> length rest \<le> n \<Longrightarrow> length (trim_start (tl rest)) < n"
  using length_trim_start [of "tl rest"] by (cases rest) auto

lemma strip_litellm_shorter: "strip_litellm s = s \<or> length (strip_litellm s) < length s"
proof -
  have "length (dropWhile is_letter (drop 8 s)) \<le> length s"
    using length_dropWhile_le [of is_letter "drop 8 s"] by simp
  from trimmed_shorter [OF _ this] show ?thesis by (auto simp: strip_litellm_def Let_def)
qed

lemma strip_error_shorter: "strip_error s = s \<or> length (strip_error s) < length s"
  using trimmed_shorter [OF _ length_dropWhile_le [of is_letter s]] by (auto simp: strip_error_def Let_def)

lemma strip_exception_shorter: "strip_exception s = s \<or> length (strip_exception s) < length s"
proof -
  have "length (trim_start (dropWhile is_letter s)) \<le> length s"
    using length_trim_start [of "dropWhile is_letter s"] length_dropWhile_le [of is_letter s] by linarith
  from trimmed_shorter [OF _ this] show ?thesis by (auto simp: strip_exception_def Let_def)
qed

lemma strip_once_shorter: "strip_once s = s \<or> length (strip_once s) < length s"
proof -
  let ?a = "strip_litellm s"
  let ?b = "strip_error ?a"
  consider "?a = s" "?b = ?a" | "length ?b < length s" "?b = ?b"
    using strip_litellm_shorter [of s] strip_error_shorter [of ?a] by force
  then show ?thesis
    using strip_exception_shorter [of ?b] unfolding strip_once_def by cases auto
qed

text \<open>The loop of \<open>extractUpstreamDetail\<close>\<close>

function strip_all :: "string \<Rightarrow> string" where
  "strip_all s = (if strip_once s = s then s else strip_all (strip_once s))"
  by pat_completeness auto
termination
  by (relation "measure length") (use strip_once_shorter in auto)

declare strip_all.simps [simp del]

text \<open>\<open>unwrapNestedUpstreamMessage\<close>: bare JSON, or JSON in a Python bytes literal.\<close>

definition bytes_literal :: "string \<Rightarrow> string" where
  "bytes_literal text =
     (if starts_with ''b'' text \<and> 3 \<le> length text \<and> is_quote (text ! 1) \<and> last text = text ! 1
      then butlast (drop 2 text)
      else if starts_with ''b{'' text \<or> starts_with ''b['' text then tl text
      else text)"

definition unwrap_nested :: "string \<Rightarrow> string" where
  "unwrap_nested message =
     (let text = trim (bytes_literal (trim message)) in
      if \<not> (starts_with ''{'' text \<or> starts_with ''['' text) then message
      else let nested = fst (parse_upstream_error (Some text)) in
        if nested = [] \<or> nested = text then message else trim nested)"

definition inner_message :: "string option \<Rightarrow> string" where
  "inner_message body =
     strip_all (cut_noise False FALLBACKS (cut_noise True MODEL_GROUP (fst (parse_upstream_error body))))"

definition extract_detail :: "string option \<Rightarrow> string" where
  "extract_detail body =
     (let message = unwrap_nested (trim (inner_message body)) in
      if DETAIL_LIMIT < js_length message then js_take DETAIL_LIMIT message else message)"

section \<open>Classification\<close>

definition QUOTA_PATTERNS :: "re list" where
  "QUOTA_PATTERNS =
    [seqs [lit ''insufficient'', Cls False ((95, 95) # SPACES), lit ''quota''],
     lit ''exceeded your current quota'',
     seqs [lit ''insufficient '', alts [lit ''balance'', seqs [lit ''credit'', maybe (lit ''s'')]]],
     lit ''credit balance is too low'',
     seqs [alts [lit ''no'', lit ''any'', lit ''out of''], lit '' credits''],
     seqs [lit ''usage limit'', maybe (lit ''s''), lit '' '', alts [lit ''reached'', lit ''exceeded'', lit ''hit'']],
     seqs [alts [lit ''weekly'', lit ''monthly'', lit ''daily''], plus space, lit ''limit'', plus space, lit ''exhausted''],
     seqs [alts [lit ''package'', lit ''plan'', lit ''subscription''], lit '' has expired''],
     seqs [lit ''reached your '', alts [lit ''usage'', lit ''monthly'', lit ''daily''], lit '' limit''],
     seqs [alts [lit ''monthly'', lit ''daily'', lit ''plan''], lit '' usage limit''],
     lit ''purchase extra usage'',
     lit ''upgrade your plan'',
     seqs [lit ''quota'', Word_Edge, star (Cls True [(46, 46)]), Word_Edge, lit ''exhausted''],
     seqs [lit ''quota '', alts [lit ''exceeded'', lit ''exhausted'', lit ''will be refreshed'']],
     seqs [Word_Edge, lit ''arrears'', Word_Edge],
     seqs [lit ''balance '', maybe (lit ''is ''), alts [lit ''too low'', lit ''not enough'', lit ''insufficient'']],
     seqs [Cls False [(20313, 20313)], Cls False [(39069, 39069)], Cls False [(19981, 19981)], Cls False [(36275, 36275)]],
     seqs [Cls False [(27424, 27424)], Cls False [(36153, 36153)]],
     seqs [Cls False [(39069, 39069)], Cls False [(24230, 24230)],
       alts [seqs [Cls False [(19981, 19981)], Cls False [(36275, 36275)]],
             seqs [Cls False [(24050, 24050)], Cls False [(29992, 29992)], Cls False [(23436, 23436)]]]]]"

definition DOES_NOT :: re where
  "DOES_NOT = seqs [lit ''plan does'', alts [seqs [lit ''n'', lit [CHR 0x27], lit ''t''], lit '' not'']]"

definition ENTITLEMENT_PATTERNS :: "re list" where
  "ENTITLEMENT_PATTERNS =
    [seqs [DOES_NOT, lit '' include''],
     seqs [lit ''not included '', alts [lit ''in'', lit ''with''], lit '' your '', Rep 0 (Some 40) True any_char, lit ''plan''],
     seqs [lit ''upgrade to '', Rep 1 (Some 30) True (Cls False (WORD @ SPACES)), alts [lit ''or higher'', lit ''plan'']],
     seqs [lit ''require'', maybe (lit ''s''), lit '' '', maybe (alts [lit ''the '', lit ''a '', lit ''an '']),
       Rep 1 (Some 30) True (Cls False (WORD @ SPACES)), lit ''plan''],
     seqs [DOES_NOT, lit '' support''],
     lit ''no api access'']"

definition USAGE_TYPE :: re where
  "USAGE_TYPE = alts [lit ''quota'', lit ''billing'', lit ''resource_exhausted'', lit ''freeusagelimiterror'']"

definition is_plan_entitlement :: "string \<Rightarrow> bool" where
  "is_plan_entitlement detail = list_ex (\<lambda>r. test True r detail) ENTITLEMENT_PATTERNS"

definition is_out_of_usage :: "string \<Rightarrow> string option \<Rightarrow> bool" where
  "is_out_of_usage detail error_type =
     ((case error_type of Some t \<Rightarrow> test True USAGE_TYPE t | None \<Rightarrow> False) \<or>
      list_ex (\<lambda>r. test True r detail) QUOTA_PATTERNS)"

text \<open>\<open>upstreamFailureKind\<close>\<close>

definition upstream_failure_kind :: "int \<Rightarrow> string option \<Rightarrow> string option" where
  "upstream_failure_kind status body =
     (if \<not> status < 500 then None
      else let detail = extract_detail body in
        if is_plan_entitlement detail then Some ''entitlement''
        else if is_out_of_usage detail (snd (parse_upstream_error body)) then Some ''out_of_usage''
        else None)"

section \<open>Context length\<close>

text \<open>Which capture is the size of the input and which is the limit, if any.\<close>

datatype context_kind = Input_First | Limit_First | Bare

definition the_digits :: "nat \<Rightarrow> re" where "the_digits k = Cap k (plus digits)"

definition CONTEXT_PATTERNS :: "(context_kind \<times> re) list" where
  "CONTEXT_PATTERNS =
    [(Input_First, seqs [lit ''input length ('', the_digits 1, lit '' tokens) exceeds the model'', lit [CHR 0x27],
        lit ''s maximum context length ('', the_digits 2, lit '' tokens)'']),
     (Bare, seqs [lit ''input after truncation exceeds '', maybe (lit ''the ''), lit ''maximum context length'']),
     (Limit_First, seqs [lit ''maximum context length '', alts [lit ''is'', lit ''of''], lit '' '', the_digits 1,
        maybe (seqs [lit '' token'', maybe (lit ''s'')]), Rep 0 (Some 80) False any_char, alts [lit ''input'', lit ''request''],
        Rep 0 (Some 40) False any_char, the_digits 2]),
     (Bare, seqs [lit ''context'', Cls False ((95, 95) # (45, 45) # SPACES), lit ''length'',
        Cls False ((95, 95) # (45, 45) # SPACES), lit ''exceeded'']),
     (Input_First, seqs [lit ''prompt too long:'', star space, lit ''about'', plus space, the_digits 1, plus space,
        lit ''tokens estimated'', Rep 0 (Some 160) False anything, lit ''maximum context length is'', plus space, the_digits 2]),
     (Bare, seqs [lit ''prompt too long'', maybe (lit '' for every available model''), maybe (lit '', including the completion'')]),
     (Bare, seqs [lit ''reduce the length of the messages'', maybe (lit '' or completion'')])]"

record context_failure =
  cf_detail :: string
  cf_input :: "nat option"
  cf_limit :: "nat option"

text \<open>Units back to text, for the part of the text that matched.\<close>

fun from_units :: "nat list \<Rightarrow> string" where
  "from_units [] = []"
| "from_units (u # us) =
     (case us of
        v # vs \<Rightarrow>
          if 55296 \<le> u \<and> u < 56320 \<and> 56320 \<le> v \<and> v < 57344
          then code_point (65536 + (u - 55296) * 1024 + (v - 56320)) @ from_units vs
          else code_point u @ from_units us
      | [] \<Rightarrow> code_point u)"

definition matched_text :: "string \<Rightarrow> nat \<times> match \<Rightarrow> string" where
  "matched_text s = (\<lambda>(i, m). from_units (take (fst m - i) (drop i (units s))))"

definition captured_number :: "nat \<Rightarrow> nat \<times> match \<Rightarrow> nat option" where
  "captured_number k = (\<lambda>(i, m). Some (digits_value (capture k m)))"

definition context_match :: "string \<Rightarrow> string \<Rightarrow> context_kind \<times> re \<Rightarrow> context_failure option" where
  "context_match detail text = (\<lambda>(kind, r).
     (case exec True r text of None \<Rightarrow> None
      | Some m \<Rightarrow>
          let d = (if detail = [] then matched_text text m else detail) in
          Some (case kind of
              Input_First \<Rightarrow> \<lparr>cf_detail = d, cf_input = captured_number 1 m, cf_limit = captured_number 2 m\<rparr>
            | Limit_First \<Rightarrow> \<lparr>cf_detail = d, cf_input = captured_number 2 m, cf_limit = captured_number 1 m\<rparr>
            | Bare \<Rightarrow> \<lparr>cf_detail = d, cf_input = None, cf_limit = None\<rparr>)))"

fun first_some :: "('a \<Rightarrow> 'b option) \<Rightarrow> 'a list \<Rightarrow> 'b option" where
  "first_some f [] = None"
| "first_some f (x # xs) = or_else (f x) (first_some f xs)"

definition context_length_failure :: "string option \<Rightarrow> context_failure option" where
  "context_length_failure body =
     (let detail = extract_detail body;
          texts = detail # (case filled (map_option JStr body) of Some b \<Rightarrow> if b = detail then [] else [b] | None \<Rightarrow> [])
      in first_some (\<lambda>text. if text = [] then None else first_some (context_match detail text) CONTEXT_PATTERNS) texts)"

definition gateway_error_status :: "int \<Rightarrow> string option \<Rightarrow> int" where
  "gateway_error_status status body = (if context_length_failure body \<noteq> None then 400 else status)"

section \<open>Wording\<close>

record failure =
  fl_status :: int
  fl_model :: string
  fl_provider :: string
  fl_kind :: "string option"
  fl_auth :: "string option"
  fl_retry :: "json option"

definition BILLING :: string where "BILLING = ''billing_error''"
definition AUTHENTICATION :: string where "AUTHENTICATION = ''authentication_error''"
definition INVALID_REQUEST :: string where "INVALID_REQUEST = ''invalid_request_error''"

text \<open>\<open>Number.isFinite(v) && v > 0\<close>\<close>

definition waiting_time :: "json option \<Rightarrow> string option" where
  "waiting_time v = (case v of Some (JNum m e) \<Rightarrow> if 0 < m then Some (num_str m e) else None | _ \<Rightarrow> None)"

definition describe_failure :: "failure \<Rightarrow> string \<Rightarrow> string option \<Rightarrow> string \<times> string" where
  "describe_failure f detail error_type =
     (let status = fl_status f; p = fl_provider f; m = fl_model f in
      if status < 500 \<and> is_plan_entitlement detail then
        (BILLING, p @ '' accepted the credential, but this plan does not include the API that serves '' @ m @
           ''. Upgrade the plan on your '' @ p @ '' account; re-entering or refreshing the credential will not help.'')
      else if status < 500 \<and> is_out_of_usage detail error_type then
        (BILLING, ''You have run out of usage at '' @ p @ '' for '' @ m @ ''. Top up or check the plan on your '' @ p @ '' account.'')
      else if status = 401 \<or> status = 403 then
        (if fl_kind f = Some ''oauth'' then
           (AUTHENTICATION, p @ '' rejected the OAuth session while serving '' @ m @ ''. Sign in to '' @ p @ '' again.'')
         else if fl_auth f = Some ''anonymous'' then
           (AUTHENTICATION, p @ '' serves '' @ m @ '' anonymously, so there is no stored credential to refresh. '' @ p @
              '' rejected this request on its free route; the free catalog and limits change without notice, so retry later or switch models.'')
         else
           (AUTHENTICATION, p @ '' rejected the stored credentials while serving '' @ m @ ''. Re-run codex-router setup to refresh them.''))
      else if status = 402 then
        (BILLING, p @ '' reports a billing or quota problem for '' @ m @ ''. Check the plan on your '' @ p @ '' account.'')
      else if status = 404 then
        (INVALID_REQUEST, p @ '' no longer recognizes the upstream model behind '' @ m @ ''. It may have been renamed or removed.'')
      else if status = 429 then
        (''rate_limit_error'', p @ '' is rate-limiting '' @ m @ ''. '' @
           (case waiting_time (fl_retry f) of Some t \<Rightarrow> ''Retry in about '' @ t @ ''s.'' | None \<Rightarrow> ''Wait a bit and retry.''))
      else if 500 \<le> status then
        (''server_error'', ''Something is wrong at '' @ p @ '': '' @ m @
           '' is unavailable right now. Retry in a few minutes or switch models.'')
      else (INVALID_REQUEST, p @ '' rejected the request for '' @ m @ ''.''))"

text \<open>\<open>toLocaleString("en-US")\<close> of a count\<close>

function grouped :: "nat \<Rightarrow> string" where
  "grouped n = (if n < 1000 then nat_str n
     else grouped (n div 1000) @ '','' @ [digit (n mod 1000 div 100), digit (n mod 100 div 10), digit (n mod 10)])"
  by pat_completeness auto
termination
  by (relation "measure id") auto

declare grouped.simps [simp del]

definition openai_error :: "string \<Rightarrow> string \<Rightarrow> json \<Rightarrow> string \<Rightarrow> json" where
  "openai_error message type param code =
     JObj [(''error'', JObj [(''message'', JStr message), (''type'', JStr type), (''param'', param), (''code'', JStr code)])]"

definition context_message :: "failure \<Rightarrow> context_failure \<Rightarrow> string" where
  "context_message f c =
     fl_provider f @ '' could not run '' @ fl_model f @ ''. '' @
     (case (cf_input c, cf_limit c) of
        (Some i, Some l) \<Rightarrow> ''The rendered prompt is '' @ grouped i @ '' tokens, exceeding the model'' @ [CHR 0x27] @ ''s '' @
          grouped l @ ''-token context window.''
      | _ \<Rightarrow> ''The rendered prompt exceeds the model'' @ [CHR 0x27] @ ''s context window.'') @
     '' This is a context-window or tokenizer/template mismatch, not high demand. '' @
     ''Start a shorter task or choose a different model tag.''"

definition translate_gateway_error :: "failure \<Rightarrow> string option \<Rightarrow> json" where
  "translate_gateway_error f body =
     (if local_conversion_failure body then local_conversion_error body
      else let detail = extract_detail body in
        (case context_length_failure body of
           Some c \<Rightarrow> openai_error (context_message f c) INVALID_REQUEST (JStr ''input'') ''context_length_exceeded''
         | None \<Rightarrow>
             let d = describe_failure f detail (snd (parse_upstream_error body));
                 suffix = (if detail = [] then '' (HTTP '' @ int_str (fl_status f) @ '')''
                           else '' (HTTP '' @ int_str (fl_status f) @ '': '' @ detail @ '')'')
             in openai_error (snd d @ suffix) (fst d) JNull (int_str (fl_status f))))"


section \<open>What is left of the wrapping\<close>

text \<open>Being a piece of a text: what a text does not contain, its pieces do not either.\<close>

definition piece_of :: "string \<Rightarrow> string \<Rightarrow> bool" where
  "piece_of x s \<longleftrightarrow> (\<exists>a b. s = a @ x @ b)"

lemma piece_refl [simp]: "piece_of s s"
  unfolding piece_of_def by (rule exI [of _ "[]"], rule exI [of _ "[]"]) simp

lemma piece_trans: "piece_of x y \<Longrightarrow> piece_of y z \<Longrightarrow> piece_of x z"
  unfolding piece_of_def by (metis append.assoc)

lemma contains_piece: "contains_sub s p \<longleftrightarrow> piece_of p s"
proof
  assume "contains_sub s p"
  then obtain i where "index_of p s = Some i" by (auto simp: contains_sub_def)
  from index_of_Some [OF this] obtain t where "drop i s = p @ t" by (auto simp: starts_with_iff_append)
  then have "s = take i s @ p @ t" by (metis append_take_drop_id)
  then show "piece_of p s" unfolding piece_of_def by blast
next
  assume "piece_of p s"
  then obtain a b where "s = a @ p @ b" by (auto simp: piece_of_def)
  then have "starts_with p (drop (length a) s)" by simp
  then show "contains_sub s p" using index_of_None [of p s "length a"] by (auto simp: contains_sub_def)
qed

lemma piece_suffix: "piece_of x (y @ x)"
  unfolding piece_of_def by (rule exI [of _ y], rule exI [of _ "[]"]) simp

lemma piece_prefix: "piece_of x (x @ y)"
  unfolding piece_of_def by (rule exI [of _ "[]"]) simp

lemma trim_start_piece: "piece_of (trim_start s) s"
  using trim_start_suffix [of s] piece_suffix by metis

lemma tl_piece: "piece_of (tl s) s"
  by (cases s) (simp_all add: piece_suffix [of _ "[_]", simplified])

lemma dropWhile_piece: "piece_of (dropWhile P s) s"
  using piece_suffix [of "dropWhile P s" "takeWhile P s"] by simp

lemma drop_piece: "piece_of (drop n s) s"
  using piece_suffix [of "drop n s" "take n s"] by simp

lemma take_piece: "piece_of (take n s) s"
  using piece_prefix [of "take n s" "drop n s"] by simp

lemma trim_end_prefix: "\<exists>t. s = trim_end s @ t"
  by (induction s) auto

lemma trim_piece: "piece_of (trim s) s"
  unfolding trim_def using piece_trans [OF _ trim_start_piece] trim_end_prefix piece_prefix by metis

lemma strip_tail_piece: "piece_of (trim_start (tl (dropWhile P s))) s"
  by (rule piece_trans [OF trim_start_piece piece_trans [OF tl_piece dropWhile_piece]])

lemma strip_litellm_piece: "piece_of (strip_litellm s) s"
  using piece_trans [OF strip_tail_piece drop_piece] by (simp add: strip_litellm_def Let_def)

lemma strip_error_piece: "piece_of (strip_error s) s"
  using strip_tail_piece by (simp add: strip_error_def Let_def)

lemma strip_exception_piece: "piece_of (strip_exception s) s"
proof -
  have "piece_of (trim_start (tl (trim_start (dropWhile is_letter s)))) s"
    by (rule piece_trans [OF trim_start_piece piece_trans [OF tl_piece piece_trans [OF trim_start_piece dropWhile_piece]]])
  then show ?thesis by (simp add: strip_exception_def Let_def)
qed

lemma strip_once_piece: "piece_of (strip_once s) s"
  unfolding strip_once_def
  by (rule piece_trans [OF strip_exception_piece piece_trans [OF strip_error_piece strip_litellm_piece]])

lemma strip_all_piece: "piece_of (strip_all s) s"
proof (induction s rule: strip_all.induct)
  case (1 s)
  show ?case
  proof (cases "strip_once s = s")
    case True
    then show ?thesis by (simp add: strip_all.simps [of s])
  next
    case False
    from piece_trans [OF 1 [OF False] strip_once_piece] False show ?thesis by (simp add: strip_all.simps [of s])
  qed
qed

text \<open>The loop ends on a text without a wrapper at its head.\<close>

lemma strip_all_done: "strip_once (strip_all s) = strip_all s"
proof (induction s rule: strip_all.induct)
  case (1 s)
  then show ?case by (cases "strip_once s = s") (simp_all add: strip_all.simps [of s])
qed

lemma cut_noise_prefix: "\<exists>t. s = cut_noise dot mark s @ t"
  by (induction s) auto

lemma cut_noise_piece: "piece_of (cut_noise dot mark s) s"
  using cut_noise_prefix piece_prefix by metis

definition plain_mark :: "string \<Rightarrow> bool" where
  "plain_mark mark \<longleftrightarrow> mark \<noteq> [] \<and> is_letter (hd mark) \<and> list_all is_ascii mark"

lemma letter_range: "is_letter c \<Longrightarrow> CHR ''A'' \<le> c \<and> c \<le> CHR ''z''"
  unfolding is_letter_def by (elim disjE conjE) (auto elim: order_trans [rotated] order_trans)

lemma letter_stays:
  assumes "is_letter c"
  shows "trim_start (c # s) = c # s"
proof -
  have r: "CHR ''A'' \<le> c" "c \<le> CHR ''z''" using letter_range [OF assms] by simp_all
  have low: "\<not> c \<le> CHR 0x0D" "c \<noteq> CHR 0x20" using order_trans [OF r(1), of "CHR 0x0D"] r(1) by auto
  have high: "c \<noteq> CHR 0xC2" "c \<noteq> CHR 0xE1" "c \<noteq> CHR 0xE2" "c \<noteq> CHR 0xE3" "c \<noteq> CHR 0xEF" using r(2) by auto
  have "ws_len (c # s) = 0" using low high by (simp add: ws_len_def split: list.splits)
  then show ?thesis by (subst trim_start.simps) simp
qed

lemma noise_at_mark: "plain_mark mark \<Longrightarrow> starts_with mark s \<Longrightarrow> noise_at dot mark s"
proof -
  assume m: "plain_mark mark" and s: "starts_with mark s"
  obtain c ms where mark: "mark = c # ms" "is_letter c" using m by (cases mark) (auto simp: plain_mark_def)
  from s mark obtain t where t: "s = c # ms @ t" by (auto simp: starts_with_iff_append)
  have "c \<noteq> CHR ''.''" using mark(2) by (auto simp: is_letter_def)
  then show ?thesis using s t letter_stays [OF mark(2), of "ms @ t"] by (simp add: noise_at_def)
qed

lemma cut_noise_clean: "plain_mark mark \<Longrightarrow> \<not> piece_of mark (cut_noise dot mark s)"
proof (induction s)
  case Nil
  then show ?case by (auto simp: piece_of_def plain_mark_def)
next
  case (Cons c s)
  show ?case
  proof (cases "noise_at dot mark (c # s)")
    case True
    then show ?thesis using Cons.prems by (auto simp: piece_of_def plain_mark_def)
  next
    case False
    show ?thesis
    proof
      assume "piece_of mark (cut_noise dot mark (c # s))"
      with False obtain a b where ab: "c # cut_noise dot mark s = a @ mark @ b" by (auto simp: piece_of_def)
      show False
      proof (cases a)
        case Nil
        obtain t where "s = cut_noise dot mark s @ t" using cut_noise_prefix by blast
        with ab Nil have "c # s = mark @ (b @ t)" by (metis append_Cons append_Nil append.assoc)
        then have "starts_with mark (c # s)" by simp
        from noise_at_mark [OF Cons.prems this] False show False by blast
      next
        case (Cons d a')
        with ab have "piece_of mark (cut_noise dot mark s)" by (auto simp: piece_of_def)
        with Cons.IH Cons.prems show False by blast
      qed
    qed
  qed
qed


lemma js_take_parts: "\<exists>k h. js_take n s = take k s @ h \<and> (\<forall>c \<in> set h. \<not> is_ascii c)"
proof (induction n s rule: js_take.induct)
  case (2 n c s)
  show ?case
  proof (cases "unit_count c \<le> n")
    case True
    with 2(1) obtain k h where kh: "js_take (n - unit_count c) s = take k s @ h" "\<forall>c \<in> set h. \<not> is_ascii c" by blast
    with True have "js_take n (c # s) = take (Suc k) (c # s) @ h" by simp
    with kh(2) show ?thesis by blast
  next
    case False
    let ?v = "surrogate_value (c # s)"
    have hi: "\<not> is_ascii (CHR 0xED)" by (simp add: is_ascii_def)
    have cont: "\<not> is_ascii (char_of (128 + m))" if "m < 128" for m :: nat
    proof -
      have "(128::nat) \<le> of_char (char_of (128 + m) :: char)" using that by (simp add: of_char_of)
      then show ?thesis unfolding is_ascii_def less_eq_char_def by simp
    qed
    have "(?v div 64) mod 16 < 16" by simp
    then have "\<not> is_ascii (char_of (160 + (?v div 64) mod 16))" using cont [of "32 + (?v div 64) mod 16"] by simp
    moreover have "\<not> is_ascii (char_of (128 + ?v mod 64))" using cont [of "?v mod 64"] by simp
    ultimately have "js_take n (c # s) = take 0 (c # s) @ js_take n (c # s) \<and> (\<forall>c \<in> set (js_take n (c # s)). \<not> is_ascii c)"
      using False hi by (simp add: Let_def)
    then show ?thesis by blast
  qed
qed simp

lemma js_take_plain:
  assumes "plain_mark mark" and "piece_of mark (js_take n s)"
  shows "piece_of mark s"
proof -
  obtain k h where kh: "js_take n s = take k s @ h" "\<forall>c \<in> set h. \<not> is_ascii c" using js_take_parts by blast
  obtain a b where ab: "take k s @ h = a @ mark @ b" using assms(2) unfolding kh(1) by (auto simp: piece_of_def)
  have ascii: "\<forall>c \<in> set mark. is_ascii c" "mark \<noteq> []" using assms(1) by (simp_all add: plain_mark_def list_all_iff)
  have "length (a @ mark) \<le> length (take k s)"
  proof (rule ccontr)
    assume "\<not> ?thesis"
    then have len: "length (take k s) < length (a @ mark)" by (simp only: not_le)
    have "last (a @ mark) = (take k s @ h) ! (length (a @ mark) - 1)"
      unfolding ab using ascii(2) by (simp add: nth_append last_conv_nth)
    also have "\<dots> = h ! (length (a @ mark) - 1 - length (take k s))"
    proof -
      have "\<not> length (a @ mark) - 1 < length (take k s)" using len by linarith
      then show ?thesis by (simp only: nth_append if_False)
    qed
    also have "\<dots> \<in> set h"
    proof (rule nth_mem)
      have "length (a @ mark) \<le> length (take k s @ h)" unfolding ab by simp
      with len show "length (a @ mark) - 1 - length (take k s) < length h" by simp
    qed
    finally have "\<not> is_ascii (last (a @ mark))" using kh(2) by blast
    with ascii show False by simp
  qed
  then have le: "length (a @ mark) \<le> length (take k s)" .
  have "take k s = take (length (take k s)) (take k s @ h)" by (simp only: append_eq_conv_conj [THEN iffD1, OF refl, THEN conjunct1])
  also have "\<dots> = take (length (take k s)) ((a @ mark) @ b)" unfolding ab append.assoc ..
  also have "\<dots> = (a @ mark) @ take (length (take k s) - length (a @ mark)) b"
    by (simp only: take_append [of _ "a @ mark" b] take_all [OF le])
  finally have "take k s = a @ mark @ take (length (take k s) - length (a @ mark)) b" unfolding append.assoc .
  then have "piece_of mark (take k s)" unfolding piece_of_def by metis
  then show ?thesis using take_piece piece_trans by blast
qed

lemma js_take_length: "js_length (js_take n s) \<le> n"
proof (induction n s rule: js_take.induct)
  case (2 n c s)
  have cont: "unit_count (char_of (128 + m)) = 0" if "m < 64" for m :: nat
  proof -
    have "of_char (char_of (128 + m) :: char) = (128::nat) + m" using that by (simp add: of_char_of)
    then show ?thesis using that unfolding unit_count_def less_eq_char_def by simp
  qed
  have "(surrogate_value (c # s) div 64) mod 16 < 16" "surrogate_value (c # s) mod 64 < 64" by simp_all
  then have tail: "unit_count (char_of (160 + (surrogate_value (c # s) div 64) mod 16)) = 0"
    "unit_count (char_of (128 + surrogate_value (c # s) mod 64)) = 0"
    using cont [of "32 + (surrogate_value (c # s) div 64) mod 16"] cont [of "surrogate_value (c # s) mod 64"] by simp_all
  have "unit_count (CHR 0xED) = 1" by (simp add: unit_count_def)
  with 2 tail show ?case by (auto simp: Let_def)
qed simp

lemma detail_is_short: "js_length (extract_detail body) \<le> DETAIL_LIMIT"
  using js_take_length [of DETAIL_LIMIT] by (simp add: extract_detail_def Let_def)

lemma plain_marks: "plain_mark MODEL_GROUP" "plain_mark FALLBACKS"
  by code_simp+

lemma inner_message_clean: "\<not> piece_of MODEL_GROUP (inner_message body)" "\<not> piece_of FALLBACKS (inner_message body)"
proof -
  let ?m = "cut_noise True MODEL_GROUP (fst (parse_upstream_error body))"
  have whole: "piece_of (inner_message body) (cut_noise False FALLBACKS ?m)" unfolding inner_message_def by (rule strip_all_piece)
  show "\<not> piece_of FALLBACKS (inner_message body)"
    using piece_trans [OF _ whole] cut_noise_clean [OF plain_marks(2)] by blast
  show "\<not> piece_of MODEL_GROUP (inner_message body)"
    using piece_trans [OF _ piece_trans [OF whole cut_noise_piece]] cut_noise_clean [OF plain_marks(1)] by blast
qed

section \<open>Properties\<close>

definition sample_failure :: failure where
  "sample_failure = \<lparr>fl_status = 429, fl_model = ''glm'', fl_provider = ''Z.ai'', fl_kind = None, fl_auth = None, fl_retry = None\<rparr>"

definition sample_wrapped :: string where
  "sample_wrapped = ''litellm.RateLimitError: RateLimitError: OpenAIException - slow down. Received Model Group=x''"

text \<open>What is quoted of an upstream message has at most 300 units; when the message is not
  itself JSON it carries neither of the gateway's routing notes, and no wrapper of the gateway
  is left at the head of the message it is cut from.\<close>

theorem gateway_names_removed:
  assumes "unwrap_nested (trim (inner_message body)) = trim (inner_message body)"
  shows "js_length (extract_detail body) \<le> 300 \<and>
    \<not> contains_sub (extract_detail body) MODEL_GROUP \<and> \<not> contains_sub (extract_detail body) FALLBACKS \<and>
    strip_once (inner_message body) = inner_message body"
proof -
  have "\<not> piece_of mark (extract_detail body)" if "plain_mark mark" "\<not> piece_of mark (inner_message body)" for mark
  proof
    assume "piece_of mark (extract_detail body)"
    then have "piece_of mark (trim (inner_message body))"
      using js_take_plain [OF that(1)] assms by (auto simp: extract_detail_def Let_def split: if_splits)
    with piece_trans [OF _ trim_piece] that(2) show False by blast
  qed
  with plain_marks inner_message_clean detail_is_short [of body] show ?thesis
    by (simp add: contains_piece DETAIL_LIMIT_def inner_message_def strip_all_done)
qed

lemma gateway_names_removed_witness:
  "extract_detail (Some sample_wrapped) = ''slow down'' \<and> \<not> contains_sub (extract_detail (Some sample_wrapped)) MODEL_GROUP"
proof -
  have "unwrap_nested (trim (inner_message (Some sample_wrapped))) = trim (inner_message (Some sample_wrapped))" by code_simp
  from gateway_names_removed [OF this] show ?thesis by (auto) code_simp
qed


lemma named_in: "piece_of x s \<Longrightarrow> piece_of x (a @ s)" "piece_of x s \<Longrightarrow> piece_of x (s @ b)"
  unfolding piece_of_def by (metis append.assoc)+

lemma named_first: "piece_of p (p @ x @ m @ y) \<and> piece_of m (p @ x @ m @ y)"
  unfolding piece_of_def by (metis append.assoc append_Nil)

lemma named_later: "piece_of p (w @ p @ x @ m @ y) \<and> piece_of m (w @ p @ x @ m @ y)"
  using named_first [of p x m y] named_in(1) by blast

lemma describe_names: "piece_of (fl_provider f) (snd (describe_failure f detail t)) \<and>
    piece_of (fl_model f) (snd (describe_failure f detail t))"
  unfolding describe_failure_def Let_def
  by (simp only: snd_conv named_first named_later simp_thms split: if_split)

text \<open>Every translated failure, local conversions apart, names the provider that failed and the
  model that was asked for.\<close>

theorem failure_names_provider:
  assumes "\<not> local_conversion_failure body"
  shows "\<exists>message type param code. translate_gateway_error f body = openai_error message type param code \<and>
    contains_sub message (fl_provider f) \<and> contains_sub message (fl_model f)"
proof (cases "context_length_failure body")
  case (Some c)
  have "piece_of (fl_provider f) (context_message f c)" unfolding context_message_def by (rule piece_prefix)
  moreover have "piece_of (fl_model f) (context_message f c)" unfolding context_message_def
    by (rule named_in(1), rule named_in(1), rule piece_prefix)
  ultimately have "piece_of (fl_provider f) (context_message f c) \<and> piece_of (fl_model f) (context_message f c)" ..
  with Some assms show ?thesis unfolding contains_piece translate_gateway_error_def Let_def by auto
next
  case None
  let ?d = "describe_failure f (extract_detail body) (snd (parse_upstream_error body))"
  have "piece_of (fl_provider f) (snd ?d @ x) \<and> piece_of (fl_model f) (snd ?d @ x)" for x
    using named_in(2) describe_names by blast
  moreover have "translate_gateway_error f body = openai_error
      (snd ?d @ (if extract_detail body = [] then '' (HTTP '' @ int_str (fl_status f) @ '')''
         else '' (HTTP '' @ int_str (fl_status f) @ '': '' @ extract_detail body @ '')''))
      (fst ?d) JNull (int_str (fl_status f))"
    using None assms by (simp add: translate_gateway_error_def Let_def)
  ultimately show ?thesis unfolding contains_piece by blast
qed

lemma failure_names_provider_witness:
  "\<exists>message type param code. translate_gateway_error sample_failure (Some sample_wrapped) = openai_error message type param code \<and>
    contains_sub message ''Z.ai'' \<and> contains_sub message ''glm''"
proof -
  have "\<not> local_conversion_failure (Some sample_wrapped)" by code_simp
  from failure_names_provider [OF this, of sample_failure] show ?thesis by (simp add: sample_failure_def)
qed

end
