(* ===== verification/Transport_Failure.thy ===== *)
theory Transport_Failure
  imports Error_Translation
begin

text \<open>
  \<open>transport-failure.mjs\<close>: which host could not be reached and what went wrong, read off a thrown
  error and its causes, and the marker with which the provider forwarder tells the router that no
  response was ever started. A thrown value is its own properties; of a chain of causes that
  comes back to itself, the first eight links, which are all that is read.
\<close>

section \<open>The chain of causes\<close>

definition MAX_CAUSE_DEPTH :: nat where "MAX_CAUSE_DEPTH = 8"

definition cause_of :: "json \<Rightarrow> json option" where
  "cause_of link = nullish (obj_get link ''cause'')
     (case obj_get link ''errors'' of Some (JArr (e # _)) \<Rightarrow> Some e | _ \<Rightarrow> None)"

fun causes :: "nat \<Rightarrow> json option \<Rightarrow> json list" where
  "causes 0 current = []"
| "causes (Suc depth) current =
     (case current of None \<Rightarrow> []
      | Some link \<Rightarrow> if is_object link then link # causes depth (cause_of link) else [])"

definition cause_chain :: "json \<Rightarrow> json list" where
  "cause_chain error = causes MAX_CAUSE_DEPTH (Some error)"

definition not_in :: "string \<Rightarrow> re" where
  "not_in s = Cls True (SPACES @ map (\<lambda>c. (byte_of c, byte_of c)) s)"

definition HOST_PATTERNS :: "re list" where
  "HOST_PATTERNS =
    [seqs [lit ''attempted address:'', star space, Cap 1 (plus (not_in '':,)''))],
     seqs [lit ''attempted addresses:'', star space, Cap 1 (plus (not_in '':,)''))],
     seqs [lit ''getaddrinfo'', plus space, plus (Cls False WORD), plus space, Cap 1 (plus (not_in '',)''))],
     seqs [lit ''Host:'', star space, Cap 1 (Rep 1 None False (not_in '':,'')), maybe (lit ''.''), space]]"

definition captured_text :: "nat \<Rightarrow> match \<Rightarrow> string" where
  "captured_text k m = (case map_of (rev (snd m)) k of Some us \<Rightarrow> from_units us | None \<Rightarrow> [])"

definition host_match :: "string \<Rightarrow> re \<Rightarrow> string option" where
  "host_match message r =
     (case exec True r message of None \<Rightarrow> None
      | Some (i, m) \<Rightarrow> if captured_text 1 m = [] then None else Some (captured_text 1 m))"

definition link_host :: "json \<Rightarrow> string option" where
  "link_host link = or_else (filled (obj_get link ''hostname''))
     (first_some (host_match (case as_str (obj_get link ''message'') of Some s \<Rightarrow> s | None \<Rightarrow> [])) HOST_PATTERNS)"

definition transport_failure_host :: "json \<Rightarrow> string option" where
  "transport_failure_host error = first_some link_host (cause_chain error)"

definition transport_failure_code :: "json \<Rightarrow> string option" where
  "transport_failure_code error = first_some (\<lambda>link. filled (obj_get link ''code'')) (cause_chain error)"

section \<open>The diagnosis\<close>

text \<open>A description is what stands before and behind the host.\<close>

record diagnosis =
  dg_reachable :: bool
  dg_before :: string
  dg_after :: string

abbreviation diag :: "bool \<Rightarrow> string \<Rightarrow> string \<Rightarrow> diagnosis" where
  "diag r b a \<equiv> \<lparr>dg_reachable = r, dg_before = b, dg_after = a\<rparr>"

definition INTERCEPTING :: string where
  "INTERCEPTING = '', so something on this network is intercepting the connection''"

definition DIAGNOSES :: "(string \<times> diagnosis) list" where
  "DIAGNOSES =
    [(''UND_ERR_CONNECT_TIMEOUT'', diag False ''timed out connecting to '' []),
     (''ETIMEDOUT'', diag False ''timed out connecting to '' []),
     (''ENOTFOUND'', diag False ''could not resolve '' []),
     (''EAI_AGAIN'', diag False ''could not resolve '' '' (DNS lookup failed)''),
     (''ECONNREFUSED'', diag False [] '' refused the connection''),
     (''EHOSTUNREACH'', diag False ''no route to '' []),
     (''ENETUNREACH'', diag False ''no route to '' []),
     (''ECONNRESET'', diag True [] '' reset the connection''),
     (''UND_ERR_SOCKET'', diag True ''the connection to '' '' closed early''),
     (''UND_ERR_HEADERS_TIMEOUT'', diag True [] '' sent no response headers in time''),
     (''UND_ERR_BODY_TIMEOUT'', diag True [] '' stopped sending the response body''),
     (''ERR_TLS_CERT_ALTNAME_INVALID'',
        diag False ''the TLS certificate served for '' ('' belongs to a different host'' @ INTERCEPTING)),
     (''SELF_SIGNED_CERT_IN_CHAIN'', diag False ''the TLS chain for '' ('' is self-signed'' @ INTERCEPTING)),
     (''UNABLE_TO_VERIFY_LEAF_SIGNATURE'', diag False ''the TLS certificate for '' '' could not be verified''),
     (''CERT_HAS_EXPIRED'', diag True ''the TLS certificate for '' '' has expired'')]"

definition PROXY_HINT :: string where
  "PROXY_HINT = '' If this network needs an outbound proxy, set NODE_USE_ENV_PROXY=1 with http_proxy/https_proxy/no_proxy and rerun install.''"

definition LOCAL_HINT :: string where
  "LOCAL_HINT = '' That is one of this install'' @ [CHR 0x27] @ ''s own processes, not the network: run ./bin/doctor --fix.''"

definition LOCAL_HOSTS :: "string list" where
  "LOCAL_HOSTS = [''localhost'', ''127.0.0.1'', ''::1'', ''[::1]'', ''0.0.0.0'']"

definition bare_host :: "string \<Rightarrow> string" where
  "bare_host host =
     (let h = (if starts_with ''['' host then tl host else host)
      in to_lower (if h \<noteq> [] \<and> last h = CHR '']'' then butlast h else h))"

definition local_transport_host :: "string \<Rightarrow> bool" where
  "local_transport_host host \<longleftrightarrow> host \<noteq> [] \<and>
     (bare_host host \<in> set LOCAL_HOSTS \<or> starts_with ''127.'' (bare_host host))"

definition hint_for :: "string \<Rightarrow> diagnosis \<Rightarrow> bool \<Rightarrow> string" where
  "hint_for host d proxy_configured =
     (if local_transport_host host then LOCAL_HINT
      else if dg_reachable d \<or> proxy_configured then []
      else PROXY_HINT)"

record transport_failure =
  tf_code :: string
  tf_cause :: string
  tf_hint :: string

definition describe_transport_failure :: "bool \<Rightarrow> json \<Rightarrow> transport_failure option" where
  "describe_transport_failure proxy_configured error =
     (case transport_failure_code error of None \<Rightarrow> None
      | Some code \<Rightarrow>
          (case map_of DIAGNOSES code of None \<Rightarrow> None
           | Some d \<Rightarrow>
               let host = (case transport_failure_host error of Some h \<Rightarrow> h | None \<Rightarrow> ''the upstream'')
               in Some \<lparr>tf_code = code, tf_cause = dg_before d @ host @ dg_after d, tf_hint = hint_for host d proxy_configured\<rparr>))"

section \<open>The marker\<close>

definition PROVIDER_TRANSPORT_ERROR :: string where "PROVIDER_TRANSPORT_ERROR = ''provider_transport_error''"

definition provider_transport_error :: "bool \<Rightarrow> json \<Rightarrow> json option" where
  "provider_transport_error proxy_configured error =
     map_option (\<lambda>f. JObj [(''type'', JStr PROVIDER_TRANSPORT_ERROR), (''code'', JStr (tf_code f)),
       (''message'', JStr ''The provider connection failed before a response was available.'')])
     (describe_transport_failure proxy_configured error)"

definition has_transport_error :: "string option \<Rightarrow> bool" where
  "has_transport_error body = (case body of None \<Rightarrow> False | Some s \<Rightarrow> contains_sub s PROVIDER_TRANSPORT_ERROR)"

section \<open>A marker survives wrapping\<close>

definition plain_text :: "string \<Rightarrow> bool" where
  "plain_text x \<longleftrightarrow> x \<noteq> [] \<and> list_all (\<lambda>c. 32 \<le> byte_of c \<and> byte_of c < 128 \<and> c \<noteq> CHR 0x22 \<and> c \<noteq> CHR 0x5C) x"

lemma plain_marker: "plain_text PROVIDER_TRANSPORT_ERROR"
  by code_simp

lemma byte_order: "(a \<le> b) = (byte_of a \<le> byte_of b)" "(a < b) = (byte_of a < byte_of b)"
  by (simp_all add: less_eq_char_def less_char_def)

lemma plain_no_surrogate: "byte_of c < 128 \<Longrightarrow> \<not> surrogate_at (c # s)"
  by (auto simp: surrogate_at_def split: list.splits)

lemma plain_char: "32 \<le> byte_of c \<Longrightarrow> c \<noteq> CHR 0x22 \<Longrightarrow> c \<noteq> CHR 0x5C \<Longrightarrow> esc_char c = [c]"
  by (auto simp: esc_char_def byte_order LF_def CR_def)

lemma plain_escape: "list_all (\<lambda>c. 32 \<le> byte_of c \<and> byte_of c < 128 \<and> c \<noteq> CHR 0x22 \<and> c \<noteq> CHR 0x5C) x \<Longrightarrow>
    json_escape (x @ s) = x @ json_escape s"
  by (induction x) (auto simp: plain_no_surrogate plain_char)

text \<open>A lone surrogate in front of plain text ends before it.\<close>

lemma surrogate_before:
  assumes "surrogate_at (c # a @ x @ b)" "plain_text x"
  shows "\<exists>d e a'. a = d # e # a'"
proof -
  obtain p ps where x: "x = p # ps" "byte_of p < 128" using assms(2) by (cases x) (auto simp: plain_text_def)
  show ?thesis using assms(1) x
    by (cases a rule: list.exhaust; cases "tl a") (auto simp: surrogate_at_def is_cont_def byte_order split: list.splits)
qed

lemma escape_keeps_at: "plain_text x \<Longrightarrow> piece_of x (json_escape (a @ x @ b))"
proof (induction a rule: measure_induct_rule [of length])
  case (less a)
  show ?case
  proof (cases a)
    case Nil
    then show ?thesis using less.prems plain_escape [of x b] piece_prefix by (simp add: plain_text_def)
  next
    case (Cons c cs)
    show ?thesis
    proof (cases "surrogate_at (c # cs @ x @ b)")
      case True
      then obtain d e cs' where cs: "cs = d # e # cs'" using surrogate_before less.prems by blast
      have "piece_of x (json_escape (cs' @ x @ b))" using less Cons cs by simp
      then show ?thesis using True Cons cs named_in(1) by simp
    next
      case False
      have "piece_of x (json_escape (cs @ x @ b))" using less Cons by simp
      then show ?thesis using False Cons named_in(1) by simp
    qed
  qed
qed

lemma quote_keeps: "plain_text x \<Longrightarrow> piece_of x s \<Longrightarrow> piece_of x (quote s)"
  using escape_keeps_at named_in [of x _ "[CHR 0x22]"] unfolding quote_def piece_of_def by (metis append_Cons)

lemma join_keeps: "s \<in> set ss \<Longrightarrow> piece_of s (join sep ss)"
proof (induction ss)
  case (Cons t ss)
  show ?case
  proof (cases ss)
    case Nil
    with Cons show ?thesis by simp
  next
    case (Cons u us)
    with Cons.IH Cons.prems show ?thesis using piece_prefix named_in(1) by auto
  qed
qed simp

lemma named_inside: "piece_of x s \<Longrightarrow> piece_of x (a @ s @ b)"
  by (intro named_in)

text \<open>What carries a value: the value itself, and whatever has it as an element, as a property or in
  printed form in a string.\<close>

inductive carries :: "json \<Rightarrow> json \<Rightarrow> bool" for e where
  carries_self: "carries e e"
| carries_text: "carries e j \<Longrightarrow> carries e (JStr (before @ json_stringify j @ after))"
| carries_element: "carries e j \<Longrightarrow> j \<in> set xs \<Longrightarrow> carries e (JArr xs)"
| carries_property: "carries e j \<Longrightarrow> (k, j) \<in> set kvs \<Longrightarrow> carries e (JObj kvs)"

lemma carried_text:
  assumes "carries e j" "plain_text x" "piece_of x (json_stringify e)"
  shows "piece_of x (json_stringify j)"
  using assms(1)
proof induction
  case carries_self
  show ?case by (rule assms(3))
next
  case (carries_text j before after)
  have "piece_of x (before @ json_stringify j @ after)" using carries_text.IH named_in by blast
  then show ?case using quote_keeps [OF assms(2)] by simp
next
  case (carries_element j xs)
  have "piece_of (json_stringify j) (join '','' (map json_stringify xs))"
    using carries_element.hyps(2) by (intro join_keeps) simp
  then have "piece_of x (join '','' (map json_stringify xs))" using carries_element.IH piece_trans by blast
  then show ?case unfolding json_stringify.simps by (rule named_inside)
next
  case (carries_property j k kvs)
  have "piece_of x (quote k @ '':'' @ json_stringify j)" using carries_property.IH named_in(1) by blast
  moreover have "piece_of (quote k @ '':'' @ json_stringify j)
      (join '','' (map (\<lambda>(k, v). quote k @ '':'' @ json_stringify v) kvs))"
    using carries_property.hyps(2) by (intro join_keeps) force
  ultimately have "piece_of x (join '','' (map (\<lambda>(k, v). quote k @ '':'' @ json_stringify v) kvs))"
    using piece_trans by blast
  then show ?case unfolding json_stringify.simps by (rule named_inside)
qed

lemma marker_in_error:
  assumes "provider_transport_error pc error = Some e"
  shows "piece_of PROVIDER_TRANSPORT_ERROR (json_stringify e)"
proof (rule carried_text [OF _ plain_marker])
  show "carries (JStr PROVIDER_TRANSPORT_ERROR) e"
    using assms carries_property [OF carries_self, of "''type''" "JStr PROVIDER_TRANSPORT_ERROR"]
    by (auto simp: provider_transport_error_def)
  show "piece_of PROVIDER_TRANSPORT_ERROR (json_stringify (JStr PROVIDER_TRANSPORT_ERROR))"
    using quote_keeps [OF plain_marker piece_refl] by simp
qed

lemma marker_survives:
  assumes "provider_transport_error pc error = Some e" "carries e j"
  shows "has_transport_error (Some (json_stringify j))"
  using carried_text [OF assms(2) plain_marker marker_in_error [OF assms(1)]]
  by (simp add: has_transport_error_def contains_piece)

section \<open>Advice\<close>

text \<open>A proxy is advised only for a failure that a proxy can fix on an install that has none, and
  never for a process of the install itself, which is sent to the doctor instead.\<close>

theorem advice_fits_failure:
  assumes "describe_transport_failure proxy_configured error = Some f"
  shows "\<exists>d. (tf_code f, d) \<in> set DIAGNOSES \<and>
    (case transport_failure_host error of
       None \<Rightarrow> tf_cause f = dg_before d @ ''the upstream'' @ dg_after d \<and> tf_hint f \<noteq> LOCAL_HINT
     | Some h \<Rightarrow> tf_cause f = dg_before d @ h @ dg_after d \<and> (tf_hint f = LOCAL_HINT \<longleftrightarrow> local_transport_host h)) \<and>
    (tf_hint f = PROXY_HINT \<longrightarrow> \<not> dg_reachable d \<and> \<not> proxy_configured)"
proof -
  obtain code d where d: "map_of DIAGNOSES code = Some d" and f: "f = \<lparr>tf_code = code,
      tf_cause = dg_before d @ (case transport_failure_host error of Some h \<Rightarrow> h | None \<Rightarrow> ''the upstream'') @ dg_after d,
      tf_hint = hint_for (case transport_failure_host error of Some h \<Rightarrow> h | None \<Rightarrow> ''the upstream'') d proxy_configured\<rparr>"
    using assms by (auto simp: describe_transport_failure_def Let_def split: option.splits)
  have distinct: "LOCAL_HINT \<noteq> PROXY_HINT" "LOCAL_HINT \<noteq> []" "PROXY_HINT \<noteq> []" "\<not> local_transport_host ''the upstream''"
    by code_simp+
  show ?thesis
    using map_of_SomeD [OF d] distinct f by (intro exI [of _ d]) (auto simp: hint_for_def split: option.splits)
qed

text \<open>The intermediary error depends on nothing of the failure but its code.\<close>

theorem marker_hides_host:
  assumes "transport_failure_code first = transport_failure_code second"
  shows "provider_transport_error p first = provider_transport_error q second"
  using assms by (simp add: provider_transport_error_def describe_transport_failure_def option.map_comp comp_def Let_def split: option.splits)

end
