(* ===== verification/Iso_Time.thy ===== *)
theory Iso_Time
  imports Json_Laws
begin

text \<open>
  \<open>Date.prototype.toISOString\<close> and \<open>Date.parse\<close> on the texts it writes: milliseconds since 1970
  and the form \<open>YYYY-MM-DDTHH:MM:SS.sssZ\<close>, with or without the fraction. The calendar is the
  proleptic Gregorian one, by counting years and months. What the engine makes of other texts is
  an argument of \<open>date_parse\<close>.
\<close>

section \<open>The calendar\<close>

definition leap_year :: "nat \<Rightarrow> bool" where
  "leap_year y \<longleftrightarrow> y mod 4 = 0 \<and> (y mod 100 \<noteq> 0 \<or> y mod 400 = 0)"

definition year_days :: "nat \<Rightarrow> nat" where
  "year_days y = (if leap_year y then 366 else 365)"

definition month_lengths :: "nat \<Rightarrow> nat list" where
  "month_lengths y = [31, if leap_year y then 29 else 28, 31, 30, 31, 30, 31, 31, 30, 31, 30, 31]"

function split_year :: "nat \<Rightarrow> nat \<Rightarrow> nat \<times> nat" where
  "split_year y d = (if d < year_days y then (y, d) else split_year (Suc y) (d - year_days y))"
  by pat_completeness auto
termination
  by (relation "measure snd") (auto simp: year_days_def split: if_splits)

declare split_year.simps [simp del]

fun split_month :: "nat \<Rightarrow> nat list \<Rightarrow> nat \<Rightarrow> nat \<times> nat" where
  "split_month k [] d = (k, d)"
| "split_month k (l # ls) d = (if d < l then (k, d) else split_month (Suc k) ls (d - l))"

definition day_number :: "nat \<Rightarrow> nat \<Rightarrow> nat \<Rightarrow> int" where
  "day_number y m d =
     (if 1970 \<le> y then int (sum_list (map year_days [1970..<y])) else - int (sum_list (map year_days [y..<1970]))) +
     int (sum_list (take (m - 1) (month_lengths y))) + int d - 1"

lemma sum_list_map_upt_Suc: "a < b \<Longrightarrow> sum_list (map f [a..<b]) = f a + sum_list (map f [Suc a..<b])" for f :: "nat \<Rightarrow> nat"
  by (simp add: upt_rec)

lemma split_year_sound:
  "split_year y d = (y', r) \<Longrightarrow> y \<le> y' \<and> r < year_days y' \<and> d = sum_list (map year_days [y..<y']) + r"
proof (induction y d rule: split_year.induct)
  case (1 y d)
  show ?case
  proof (cases "d < year_days y")
    case True
    with 1(2) show ?thesis by (simp add: split_year.simps [of y d])
  next
    case False
    with 1(2) have rec: "split_year (Suc y) (d - year_days y) = (y', r)" by (simp add: split_year.simps [of y d])
    from 1(1) [OF False rec] have ih: "Suc y \<le> y'" "r < year_days y'" "d - year_days y = sum_list (map year_days [Suc y..<y']) + r"
      by simp_all
    with False sum_list_map_upt_Suc [of y y' year_days] show ?thesis by simp
  qed
qed

lemma split_month_sound:
  "split_month k ls d = (k', r) \<Longrightarrow> d < sum_list ls \<Longrightarrow>
     k \<le> k' \<and> k' - k < length ls \<and> r < ls ! (k' - k) \<and> d = sum_list (take (k' - k) ls) + r"
proof (induction ls arbitrary: k d)
  case (Cons l ls)
  show ?case
  proof (cases "d < l")
    case True
    with Cons.prems show ?thesis by simp
  next
    case False
    with Cons.prems have rec: "split_month (Suc k) ls (d - l) = (k', r)" "d - l < sum_list ls" by simp_all
    from Cons.IH [OF rec] have ih: "Suc k \<le> k'" "k' - Suc k < length ls" "r < ls ! (k' - Suc k)"
      "d - l = sum_list (take (k' - Suc k) ls) + r" by simp_all
    then have "k' - k = Suc (k' - Suc k)" by simp
    with ih False show ?thesis by simp
  qed
qed simp

lemma month_lengths_sum: "sum_list (month_lengths y) = year_days y"
  by (simp add: month_lengths_def year_days_def)

section \<open>Printing\<close>

definition pad2 :: "nat \<Rightarrow> string" where "pad2 n = [digit (n div 10), digit (n mod 10)]"
definition pad3 :: "nat \<Rightarrow> string" where "pad3 n = digit (n div 100) # pad2 (n mod 100)"
definition pad4 :: "nat \<Rightarrow> string" where "pad4 n = pad2 (n div 100) @ pad2 (n mod 100)"

definition year_text :: "nat \<Rightarrow> string" where
  "year_text y = (if y \<le> 9999 then pad4 y else ''+'' @ pad3 (y div 1000) @ pad3 (y mod 1000))"

definition DAY_MS :: nat where "DAY_MS = 86400000"

text \<open>\<open>new Date(t).toISOString()\<close>, for a time from 1970 on\<close>

definition iso_string :: "nat \<Rightarrow> string" where
  "iso_string t =
     (let (y, dy) = split_year 1970 (t div DAY_MS);
          (m, d) = split_month 1 (month_lengths y) dy;
          r = t mod DAY_MS
      in year_text y @ ''-'' @ pad2 m @ ''-'' @ pad2 (Suc d) @ ''T'' @ pad2 (r div 3600000) @ '':'' @
         pad2 (r div 60000 mod 60) @ '':'' @ pad2 (r div 1000 mod 60) @ ''.'' @ pad3 (r mod 1000) @ ''Z'')"

section \<open>Parsing\<close>

definition digit_at :: "string \<Rightarrow> nat \<Rightarrow> nat" where "digit_at s i = byte_of (s ! i) - 48"
definition two_at :: "string \<Rightarrow> nat \<Rightarrow> nat" where "two_at s i = 10 * digit_at s i + digit_at s (Suc i)"

definition ISO_SHAPE :: string where "ISO_SHAPE = ''0000-00-00T00:00:00''"

definition fits_shape :: "string \<Rightarrow> string \<Rightarrow> bool" where
  "fits_shape shape s \<longleftrightarrow> list_all2 (\<lambda>p c. if p = CHR ''0'' then is_digit c else c = p) shape s"

text \<open>The hour 24 is midnight at the end of the day; a day may be up to 31 in any month.\<close>

definition iso_parse :: "string \<Rightarrow> int option" where
  "iso_parse s =
     (let y = 100 * two_at s 0 + two_at s 2; m = two_at s 5; d = two_at s 8;
          h = two_at s 11; mi = two_at s 14; se = two_at s 17;
          f = drop 19 s; ms = (if f = ''Z'' then 0 else 100 * digit_at f 1 + two_at f 2) in
      if fits_shape ISO_SHAPE (take 19 s) \<and> (f = ''Z'' \<or> fits_shape ''.000Z'' f) \<and>
         1 \<le> m \<and> m \<le> 12 \<and> 1 \<le> d \<and> d \<le> 31 \<and> mi \<le> 59 \<and> se \<le> 59 \<and>
         (h \<le> 23 \<or> (h = 24 \<and> mi = 0 \<and> se = 0 \<and> ms = 0))
      then Some (day_number y m d * int DAY_MS + int (h * 3600000 + mi * 60000 + se * 1000 + ms))
      else None)"

definition date_parse :: "(string \<Rightarrow> int option) \<Rightarrow> string \<Rightarrow> int option" where
  "date_parse other s = (case iso_parse s of Some t \<Rightarrow> Some t | None \<Rightarrow> other s)"


section \<open>What is written is read back\<close>

lemma digit_byte: "n < 10 \<Longrightarrow> byte_of (digit n) = 48 + n"
  by (simp add: digit_def of_char_of)

lemma two_at_digits: "s ! i = digit (n div 10) \<Longrightarrow> s ! Suc i = digit (n mod 10) \<Longrightarrow> n < 100 \<Longrightarrow> two_at s i = n"
  using digit_byte [of "n div 10"] digit_byte [of "n mod 10"] by (simp add: two_at_def digit_at_def)

lemma clock_sum: "a * 60 + b = c \<Longrightarrow> c * 60 + d = e \<Longrightarrow> e * 1000 + f = (r :: nat) \<Longrightarrow>
    a * 3600000 + b * 60000 + d * 1000 + f = r"
  by simp

lemma clock_parts: "r div 3600000 * 3600000 + r div 60000 mod 60 * 60000 + r div 1000 mod 60 * 1000 + r mod 1000 = (r :: nat)"
proof -
  have "r div 60000 = r div 1000 div 60" "r div 3600000 = r div 60000 div 60" by (simp_all flip: div_mult2_eq)
  then show ?thesis by (intro clock_sum [where c = "r div 60000" and e = "r div 1000"]) simp_all
qed

lemma month_bound: "k < 12 \<Longrightarrow> month_lengths y ! k \<le> 31"
proof -
  have "list_all (\<lambda>l. l \<le> 31) (month_lengths y)" "length (month_lengths y) = 12" by (simp_all add: month_lengths_def)
  then show "k < 12 \<Longrightarrow> month_lengths y ! k \<le> 31" by (simp add: list_all_length)
qed

lemma iso_fields:
  assumes "split_year 1970 (t div DAY_MS) = (y, dy)" and "split_month 1 (month_lengths y) dy = (m, d)"
  shows "1970 \<le> y \<and> 1 \<le> m \<and> m \<le> 12 \<and> Suc d \<le> 31 \<and>
    day_number y m (Suc d) = int (t div DAY_MS)"
proof -
  have year: "1970 \<le> y" "dy < year_days y" "t div DAY_MS = sum_list (map year_days [1970..<y]) + dy"
    using split_year_sound [OF assms(1)] by simp_all
  have month: "1 \<le> m" "m - 1 < length (month_lengths y)" "d < month_lengths y ! (m - 1)"
    "dy = sum_list (take (m - 1) (month_lengths y)) + d"
    using split_month_sound [OF assms(2)] year(2) by (simp_all add: month_lengths_sum)
  have "m - 1 < 12" using month(2) by (simp add: month_lengths_def)
  with month(3) month_bound [of "m - 1" y] have "Suc d \<le> 31" by simp
  with year month \<open>m - 1 < 12\<close> show ?thesis by (simp add: day_number_def)
qed

definition year_of :: "nat \<Rightarrow> nat" where "year_of t = fst (split_year 1970 (t div DAY_MS))"

lemma iso_round_trip:
  assumes "year_of t \<le> 9999"
  shows "iso_parse (iso_string t) = Some (int t)"
proof -
  obtain y dy where y: "split_year 1970 (t div DAY_MS) = (y, dy)" by fastforce
  obtain m d where m: "split_month 1 (month_lengths y) dy = (m, d)" by fastforce
  have y4: "y \<le> 9999" using assms y by (simp add: year_of_def)
  note f = iso_fields [OF y m]
  let ?r = "t mod DAY_MS"
  have r: "?r < 86400000" by (simp add: DAY_MS_def)
  have hr: "?r div 3600000 < 24" using r by (simp add: less_mult_imp_div_less)
  let ?s = "iso_string t"
  have s: "?s = [digit (y div 100 div 10), digit (y div 100 mod 10), digit (y mod 100 div 10), digit (y mod 100 mod 10), CHR ''-'',
      digit (m div 10), digit (m mod 10), CHR ''-'', digit (Suc d div 10), digit (Suc d mod 10), CHR ''T'',
      digit (?r div 3600000 div 10), digit (?r div 3600000 mod 10), CHR '':'',
      digit (?r div 60000 mod 60 div 10), digit (?r div 60000 mod 60 mod 10), CHR '':'',
      digit (?r div 1000 mod 60 div 10), digit (?r div 1000 mod 60 mod 10), CHR ''.'',
      digit (?r mod 1000 div 100), digit (?r mod 1000 mod 100 div 10), digit (?r mod 1000 mod 100 mod 10), CHR ''Z'']"
    using y m y4 by (simp add: iso_string_def year_text_def pad4_def pad3_def pad2_def Let_def)
  have ranges: "y div 100 < 100" "m < 100" "Suc d < 100" using y4 f by auto
  have num: "two_at ?s 0 = y div 100" "two_at ?s 2 = y mod 100" "two_at ?s 5 = m" "two_at ?s 8 = Suc d"
    "two_at ?s 11 = ?r div 3600000" "two_at ?s 14 = ?r div 60000 mod 60" "two_at ?s 17 = ?r div 1000 mod 60"
    unfolding s using ranges hr by (auto intro!: two_at_digits)
  have frac: "drop 19 ?s = [CHR ''.'', digit (?r mod 1000 div 100), digit (?r mod 1000 mod 100 div 10), digit (?r mod 1000 mod 100 mod 10), CHR ''Z'']"
    unfolding s by simp
  have fnum: "digit_at (drop 19 ?s) 1 = ?r mod 1000 div 100" "two_at (drop 19 ?s) 2 = ?r mod 1000 mod 100"
    unfolding frac using digit_byte [of "?r mod 1000 div 100"] by (auto intro!: two_at_digits simp: digit_at_def)
  have shape: "fits_shape ISO_SHAPE (take 19 ?s)" "fits_shape ''.000Z'' (drop 19 ?s)"
    unfolding s using ranges hr by (simp_all add: fits_shape_def ISO_SHAPE_def)
  have ms: "100 * (?r mod 1000 div 100) + ?r mod 1000 mod 100 = ?r mod 1000" by simp
  have hours: "?r div 3600000 \<le> 23" "?r div 60000 mod 60 \<le> 59" "?r div 1000 mod 60 \<le> 59" using hr by auto
  have whole: "int (t div DAY_MS) * int DAY_MS + int ?r = int t"
    by (metis mult.commute div_mult_mod_eq of_nat_add of_nat_mult)
  have "iso_parse ?s = Some (day_number y m (Suc d) * int DAY_MS + int (?r div 3600000 * 3600000 + ?r div 60000 mod 60 * 60000 + ?r div 1000 mod 60 * 1000 + ?r mod 1000))"
    using shape hours f unfolding iso_parse_def Let_def num fnum ms by (simp add: frac)
  then show ?thesis using f unfolding clock_parts by (simp add: whole)
qed

end
