(* ===== verification/Model_Failover.thy ===== *)
theory Model_Failover
  imports Transport_Failure Iso_Time Caller_Auth
begin

text \<open>
  \<open>model-failover.mjs\<close>, with \<open>provider-cooldown.mjs\<close> and the questions of
  \<open>search-capability.mjs\<close>: which failures move a turn to another
  model, how long a provider that said it was empty is believed, and which models may take over.
  Times are milliseconds since 1970. The registry, the search sidecar, collation, the file system
  and what \<open>Date.parse\<close> makes of texts that are no ISO times are the environment. A thrown
  \<open>RangeError\<close> is the outer \<open>None\<close> of a result. Scopes are no names of \<open>Object.prototype\<close>.
\<close>

section \<open>Models and providers\<close>

record provider =
  pr_keyless :: bool
  pr_anonymous :: bool
  pr_variant_of :: "string option"

record model_card =
  mc_slug :: string
  mc_provider :: string
  mc_window :: "int option"
  mc_image :: bool
  mc_no_bridge :: bool
  mc_agents :: "string option"
  mc_priority :: "int option"
  mc_search_tool :: "string option option"
  mc_search_history :: bool

record failover_env =
  fe_providers :: "string \<Rightarrow> provider option"
  fe_binding :: "string option \<Rightarrow> string option"
  fe_search_ready :: "string \<Rightarrow> bool"
  fe_parse :: "string \<Rightarrow> int option"
  fe_parse_value :: "json \<Rightarrow> int option"
  fe_number :: "json \<Rightarrow> int option"
  fe_collate :: "string \<Rightarrow> string \<Rightarrow> int"
  fe_writable :: bool

text \<open>\<open>canonicalProviderId\<close>, \<open>cooldownScope\<close>\<close>

definition canonical_provider_id :: "failover_env \<Rightarrow> string \<Rightarrow> string" where
  "canonical_provider_id env pid =
     (case Option.bind (fe_providers env pid) pr_variant_of of Some parent \<Rightarrow> if parent = [] then pid else parent
      | None \<Rightarrow> pid)"

definition ZEN :: string where "ZEN = ''opencode-zen''"

definition cooldown_scope :: "failover_env \<Rightarrow> string \<Rightarrow> string" where
  "cooldown_scope env pid =
     (if pid = ZEN \<or> starts_with (ZEN @ ''-'') pid then ZEN else canonical_provider_id env pid)"

section \<open>Search\<close>

text \<open>\<open>sidecarSearchAvailable\<close>, \<open>routedModelSearchMode\<close>, \<open>routedModelPreservesSearchContract\<close>\<close>

definition sidecar_search_available :: "failover_env \<Rightarrow> model_card option \<Rightarrow> bool" where
  "sidecar_search_available env m =
     (case fe_binding env (map_option mc_slug m) of None \<Rightarrow> False
      | Some pid \<Rightarrow> Option.bind m mc_search_tool = None \<and> fe_search_ready env pid)"

definition routed_model_search_mode :: "failover_env \<Rightarrow> model_card option \<Rightarrow> string option" where
  "routed_model_search_mode env m =
     (case Option.bind (Option.bind m mc_search_tool) id of
        Some mode \<Rightarrow> if mode \<in> set [''hosted'', ''standalone''] then Some mode
          else if sidecar_search_available env m then Some ''standalone'' else None
      | None \<Rightarrow> if sidecar_search_available env m then Some ''standalone'' else None)"

definition search_mode_preserves :: "string option \<Rightarrow> string option \<Rightarrow> bool" where
  "search_mode_preserves mode required \<longleftrightarrow>
     (case required of None \<Rightarrow> True | Some r \<Rightarrow> r = [] \<or> mode = Some r)"

definition preserves_search_contract :: "failover_env \<Rightarrow> model_card \<Rightarrow> string option \<Rightarrow> bool \<Rightarrow> bool" where
  "preserves_search_contract env m required history =
     (if history \<and> (required = None \<or> required = Some []) then mc_search_history m
      else search_mode_preserves (routed_model_search_mode env (Some m)) required)"

section \<open>Which failures qualify\<close>

definition MIN_RATE_LIMIT_SECONDS :: nat where "MIN_RATE_LIMIT_SECONDS = 60"
definition MAX_COOLDOWN_MS :: nat where "MAX_COOLDOWN_MS = 6 * 60 * 60 * 1000"
definition MAX_COOLDOWN_ENTRIES :: nat where "MAX_COOLDOWN_ENTRIES = 64"

datatype verdict = Stay | Swap string "string option"

definition capped_until :: "nat \<Rightarrow> nat \<Rightarrow> string" where
  "capped_until now duration = iso_string (now + min duration MAX_COOLDOWN_MS)"

definition PROVIDER_NAMED_RESET :: re where
  "PROVIDER_NAMED_RESET =
     (let d2 = seqs [digits, digits] in
      seqs [Word_Edge, lit ''reset'', maybe (lit ''s''), plus space, lit ''at'', plus space,
        Cap 1 (seqs [d2, d2, lit ''-'', d2, lit ''-'', d2]), Cls False [(84, 84), (32, 32)],
        Cap 2 (seqs [d2, lit '':'', d2, lit '':'', d2])])"

definition UTC_OFFSET_MINUTES :: "int list" where
  "UTC_OFFSET_MINUTES =
    [-720, -660, -600, -570, -540, -480, -420, -360, -300, -240, -210, -180, -120, -60, 0, 60, 120,
     180, 210, 240, 270, 300, 330, 345, 360, 390, 420, 480, 525, 540, 570, 600, 630, 660, 720, 765,
     780, 840]"

text \<open>The loop over the offsets: the earliest instant the stamp can mean that is still ahead.\<close>

definition earlier :: "nat \<Rightarrow> int \<Rightarrow> int option \<Rightarrow> int \<Rightarrow> int option" where
  "earlier now wall best offset =
     (let instant = wall - offset * 60000 in
      if instant \<le> int now then best
      else case best of None \<Rightarrow> Some instant | Some b \<Rightarrow> if instant < b then Some instant else best)"

definition named_stamp :: "string option \<Rightarrow> string option" where
  "named_stamp body =
     (case Option.bind body (exec True PROVIDER_NAMED_RESET) of None \<Rightarrow> None
      | Some (i, m) \<Rightarrow> Some (capture 1 m @ ''T'' @ capture 2 m @ ''Z''))"

definition provider_named_reset :: "failover_env \<Rightarrow> string option \<Rightarrow> nat \<Rightarrow> string option" where
  "provider_named_reset env body now =
     (case Option.bind (named_stamp body) (date_parse (fe_parse env)) of None \<Rightarrow> None
      | Some wall \<Rightarrow>
          map_option (\<lambda>t. capped_until now (nat (t - int now))) (foldl (earlier now wall) None UTC_OFFSET_MINUTES))"

text \<open>A number of seconds is a decimal, \<open>m / 10 ^ e\<close>.\<close>

definition wait_ms :: "int \<times> nat \<Rightarrow> nat" where
  "wait_ms = (\<lambda>(m, e). nat (m * 1000 div 10 ^ e))"

definition classify_routed_failure ::
  "failover_env \<Rightarrow> int option \<Rightarrow> string option \<Rightarrow> (int \<times> nat) option \<Rightarrow> nat \<Rightarrow> verdict" where
  "classify_routed_failure env status body retry now =
     (case status of None \<Rightarrow> Stay
      | Some code \<Rightarrow>
          if code < 400 then Stay
          else if local_conversion_failure body then Stay
          else if 500 \<le> code then (if has_transport_error body then Swap ''transport'' None else Stay)
          else let kind = upstream_failure_kind code body in
            if kind = Some ''entitlement'' then Stay
            else if kind = Some ''out_of_usage'' \<or> code = 402 then
              Swap ''out_of_usage''
                (case retry of
                   Some (m, e) \<Rightarrow> if 0 < m then Some (capped_until now (wait_ms (m, e))) else provider_named_reset env body now
                 | None \<Rightarrow> provider_named_reset env body now)
            else (case retry of
                Some (m, e) \<Rightarrow>
                  if code = 429 \<and> int MIN_RATE_LIMIT_SECONDS * 10 ^ e < m
                  then Swap ''rate_limited'' (Some (capped_until now (wait_ms (m, e)))) else Stay
              | None \<Rightarrow> Stay))"

section \<open>How long an empty provider is believed\<close>

datatype stored = Missing | Unreadable | Stored json

definition read_document :: "stored \<Rightarrow> (string \<times> json) list" where
  "read_document st = (case st of Stored (JObj kvs) \<Rightarrow> kvs | _ \<Rightarrow> [])"

text \<open>\<open>String(v)\<close>\<close>

fun json_text :: "json \<Rightarrow> string" where
  "json_text JNull = ''null''"
| "json_text (JBool b) = (if b then ''true'' else ''false'')"
| "json_text (JNum m e) = num_str m e"
| "json_text (JStr s) = s"
| "json_text (JArr xs) = join '','' (map (\<lambda>x. if x = JNull then [] else json_text x) xs)"
| "json_text (JObj kvs) = ''[object Object]''"

definition until_text :: "json \<Rightarrow> string" where
  "until_text entry = (case obj_get entry ''until'' of None \<Rightarrow> ''undefined'' | Some v \<Rightarrow> json_text v)"

text \<open>\<open>Array.sort\<close> with a comparator is stable.\<close>

fun insort_by :: "('a \<Rightarrow> 'a \<Rightarrow> int) \<Rightarrow> 'a \<Rightarrow> 'a list \<Rightarrow> 'a list" where
  "insort_by cmp x [] = [x]"
| "insort_by cmp x (y # ys) = (if cmp x y \<le> 0 then x # y # ys else y # insort_by cmp x ys)"

definition sort_by :: "('a \<Rightarrow> 'a \<Rightarrow> int) \<Rightarrow> 'a list \<Rightarrow> 'a list" where
  "sort_by cmp xs = foldr (insort_by cmp) xs []"

definition write_document :: "failover_env \<Rightarrow> (string \<times> json) list \<Rightarrow> stored \<Rightarrow> stored" where
  "write_document env doc st =
     (if \<not> fe_writable env then st
      else Stored (JObj (take MAX_COOLDOWN_ENTRIES
        (sort_by (\<lambda>l r. fe_collate env (until_text (snd r)) (until_text (snd l))) doc))))"

text \<open>\<open>isoOrUndefined\<close>, as an instant: the text of an instant is written only when it lies ahead.\<close>

datatype instant = No_Time | Bad_Time | At int

definition MAX_TIME :: int where "MAX_TIME = 8640000000000000"

definition truncated :: "int \<Rightarrow> nat \<Rightarrow> int" where
  "truncated m e = (if 0 \<le> m then m div 10 ^ e else - ((- m) div 10 ^ e))"

definition iso_or_undefined :: "failover_env \<Rightarrow> json option \<Rightarrow> instant" where
  "iso_or_undefined env v =
     (case v of
        None \<Rightarrow> No_Time
      | Some (JStr s) \<Rightarrow> (case date_parse (fe_parse env) s of None \<Rightarrow> No_Time | Some t \<Rightarrow> At t)
      | Some JNull \<Rightarrow> At 0
      | Some (JBool b) \<Rightarrow> At (if b then 1 else 0)
      | Some (JNum m e) \<Rightarrow> if MAX_TIME * 10 ^ e < \<bar>m\<bar> then Bad_Time else At (truncated m e)
      | Some (JArr xs) \<Rightarrow> (case fe_number env (JArr xs) of None \<Rightarrow> No_Time
          | Some t \<Rightarrow> if MAX_TIME < \<bar>t\<bar> then Bad_Time else At t)
      | Some (JObj _) \<Rightarrow> No_Time)"

fun live_entries :: "failover_env \<Rightarrow> nat \<Rightarrow> (string \<times> json) list \<Rightarrow> (string \<times> json) list option" where
  "live_entries env now [] = Some []"
| "live_entries env now ((k, entry) # r) =
     (case iso_or_undefined env (obj_get entry ''until'') of
        Bad_Time \<Rightarrow> None
      | No_Time \<Rightarrow> live_entries env now r
      | At t \<Rightarrow>
          if int now < t
          then map_option (Cons (k, with_prop entry ''until'' (JStr (iso_string (nat t))))) (live_entries env now r)
          else live_entries env now r)"

definition read_provider_cooldowns :: "failover_env \<Rightarrow> nat \<Rightarrow> stored \<Rightarrow> (string \<times> json) list option" where
  "read_provider_cooldowns env now st = live_entries env now (read_document st)"

definition scope_key :: "failover_env \<Rightarrow> string option \<Rightarrow> string" where
  "scope_key env pid = cooldown_scope env (trim (case pid of Some p \<Rightarrow> p | None \<Rightarrow> []))"

definition provider_cooldown :: "failover_env \<Rightarrow> string option \<Rightarrow> nat \<Rightarrow> stored \<Rightarrow> json option option" where
  "provider_cooldown env pid now st =
     (if scope_key env pid = [] then Some None
      else map_option (\<lambda>es. map_of es (scope_key env pid)) (read_provider_cooldowns env now st))"

definition parse_until :: "failover_env \<Rightarrow> json option \<Rightarrow> int option" where
  "parse_until env v = (case v of None \<Rightarrow> None | Some (JStr s) \<Rightarrow> date_parse (fe_parse env) s | Some j \<Rightarrow> fe_parse_value env j)"

definition live_entry :: "failover_env \<Rightarrow> nat \<Rightarrow> json option \<Rightarrow> json option" where
  "live_entry env now existing =
     (if \<not> truthy existing then None
      else case parse_until env (opt_get existing ''until'') of
          Some t \<Rightarrow> if int now < t then existing else None
        | None \<Rightarrow> None)"

definition record_provider_cooldown ::
  "failover_env \<Rightarrow> string option \<Rightarrow> json option \<Rightarrow> string option \<Rightarrow> nat \<Rightarrow> stored \<Rightarrow> (stored \<times> json option) option" where
  "record_provider_cooldown env pid until reason now st =
     (let k = scope_key env pid; doc = read_document st; live = live_entry env now (map_of doc k);
          why = (case reason of Some r \<Rightarrow> if r = [] then None else Some r | None \<Rightarrow> None) in
      if k = [] then Some (st, None)
      else case iso_or_undefined env until of
          Bad_Time \<Rightarrow> None
        | No_Time \<Rightarrow>
            (case (live, why) of
               (Some entry, Some r) \<Rightarrow>
                 if obj_get entry ''reason'' = Some (JStr r) then Some (st, None)
                 else let e = with_prop entry ''reason'' (JStr r)
                   in Some (write_document env (AList.update k e doc) st, Some e)
             | _ \<Rightarrow> Some (st, None))
        | At t \<Rightarrow>
            let capped = min t (int now + int MAX_COOLDOWN_MS) in
            if capped \<le> int now then Some (st, None)
            else let e = JObj ([(''until'', JStr (iso_string (nat capped)))] @
                     (case why of Some r \<Rightarrow> [(''reason'', JStr r)] | None \<Rightarrow> []) @
                     [(''observedAt'', JStr (iso_string now))])
              in Some (write_document env (AList.update k e doc) st, Some e))"

definition clear_provider_cooldown :: "failover_env \<Rightarrow> string option \<Rightarrow> stored \<Rightarrow> stored \<times> bool" where
  "clear_provider_cooldown env pid st =
     (let k = scope_key env pid; doc = read_document st in
      if k = [] \<or> map_of doc k = None then (st, False)
      else (write_document env (AList.delete k doc) st, True))"

definition clear_all_provider_cooldowns :: "failover_env \<Rightarrow> stored \<Rightarrow> stored \<times> bool" where
  "clear_all_provider_cooldowns env st = (write_document env [] st, True)"

section \<open>The operator's answer\<close>

record settings =
  fs_enabled :: bool
  fs_chain :: "string list"
  fs_defaulted :: bool

definition trimmed :: "string list \<Rightarrow> string list" where
  "trimmed xs = filter (\<lambda>s. s \<noteq> []) (map trim xs)"

definition read_failover_settings :: "stored \<Rightarrow> settings" where
  "read_failover_settings st =
     (case st of
        Missing \<Rightarrow> \<lparr>fs_enabled = True, fs_chain = [], fs_defaulted = True\<rparr>
      | Unreadable \<Rightarrow> \<lparr>fs_enabled = False, fs_chain = [], fs_defaulted = False\<rparr>
      | Stored j \<Rightarrow>
          (case (as_int (obj_get j ''version''), obj_get j ''enabled'') of
             (Some v, Some (JBool b)) \<Rightarrow>
               if v = 1 then
                 \<lparr>fs_enabled = b,
                  fs_chain = (case as_arr (obj_get j ''chain'') of Some xs \<Rightarrow> trimmed (map json_text xs) | None \<Rightarrow> []),
                  fs_defaulted = False\<rparr>
               else \<lparr>fs_enabled = False, fs_chain = [], fs_defaulted = False\<rparr>
           | _ \<Rightarrow> \<lparr>fs_enabled = False, fs_chain = [], fs_defaulted = False\<rparr>))"

definition settings_json :: "settings \<Rightarrow> json" where
  "settings_json s = JObj [(''version'', JInt 1), (''enabled'', JBool (fs_enabled s)), (''chain'', JArr (map JStr (fs_chain s)))]"

definition set_failover_enabled :: "bool \<Rightarrow> stored \<Rightarrow> stored \<times> settings" where
  "set_failover_enabled enabled st =
     (let s = \<lparr>fs_enabled = enabled, fs_chain = fs_chain (read_failover_settings st), fs_defaulted = False\<rparr>
      in (Stored (settings_json s), s))"

definition set_failover_chain :: "string list \<Rightarrow> stored \<Rightarrow> stored \<times> settings" where
  "set_failover_chain slugs st =
     (let s = \<lparr>fs_enabled = fs_enabled (read_failover_settings st),
               fs_chain = trimmed (concat (map (split_at_char (CHR '','')) slugs)), fs_defaulted = False\<rparr>
      in (Stored (settings_json s), s))"

section \<open>Which candidates are eligible\<close>

definition FREE_TIER :: int where "FREE_TIER = 0"
definition NATIVE_TIER :: int where "NATIVE_TIER = 1"
definition SUBSCRIPTION_TIER :: int where "SUBSCRIPTION_TIER = 2"

definition keyless :: "failover_env \<Rightarrow> model_card \<Rightarrow> bool" where
  "keyless env m = (case fe_providers env (mc_provider m) of Some p \<Rightarrow> pr_keyless p | None \<Rightarrow> False)"

definition anonymous :: "failover_env \<Rightarrow> model_card \<Rightarrow> bool" where
  "anonymous env m = (case fe_providers env (mc_provider m) of Some p \<Rightarrow> pr_anonymous p | None \<Rightarrow> False)"

definition failover_tier :: "failover_env \<Rightarrow> model_card \<Rightarrow> int" where
  "failover_tier env m = (if keyless env m \<or> anonymous env m then FREE_TIER else SUBSCRIPTION_TIER)"

record tier_counts =
  tc_free :: nat
  tc_local :: nat
  tc_subscription :: nat

definition count_tier :: "failover_env \<Rightarrow> tier_counts \<Rightarrow> model_card \<Rightarrow> tier_counts" where
  "count_tier env c m =
     (if keyless env m then c\<lparr>tc_local := Suc (tc_local c)\<rparr>
      else if anonymous env m then c\<lparr>tc_free := Suc (tc_free c)\<rparr>
      else c\<lparr>tc_subscription := Suc (tc_subscription c)\<rparr>)"

definition failover_tier_counts :: "failover_env \<Rightarrow> model_card list \<Rightarrow> tier_counts" where
  "failover_tier_counts env ms = foldl (count_tier env) \<lparr>tc_free = 0, tc_local = 0, tc_subscription = 0\<rparr> ms"

record rank_options =
  ro_from :: "model_card option"
  ro_tokens :: "int option"
  ro_image :: bool
  ro_agents_v2 :: bool
  ro_search :: bool
  ro_history :: bool
  ro_required :: "string option option"
  ro_chain :: "string list"
  ro_same_family :: bool

definition eligible :: "failover_env \<Rightarrow> rank_options \<Rightarrow> string option \<Rightarrow> string list \<Rightarrow> model_card \<Rightarrow> bool" where
  "eligible env opts required cooled m =
     (let from_scope = cooldown_scope env (case ro_from opts of Some f \<Rightarrow> mc_provider f | None \<Rightarrow> []);
          scope = cooldown_scope env (mc_provider m) in
      if mc_slug m = [] then False
      else if \<not> ro_same_family opts \<and> scope = from_scope then False
      else if scope \<in> set cooled then False
      else if (case (ro_tokens opts, mc_window m) of (Some t, Some w) \<Rightarrow> w < t | _ \<Rightarrow> False) then False
      else if ro_image opts \<and> \<not> mc_image m \<and> mc_no_bridge m then False
      else if ro_agents_v2 opts \<and> filled (map_option JStr (mc_agents m)) \<noteq> Some ''v2'' then False
      else preserves_search_contract env m required (ro_history opts))"

definition required_mode :: "failover_env \<Rightarrow> rank_options \<Rightarrow> string option" where
  "required_mode env opts =
     (case ro_required opts of Some r \<Rightarrow> r
      | None \<Rightarrow> if ro_search opts \<or> ro_history opts then routed_model_search_mode env (ro_from opts) else None)"

definition priority_of :: "model_card \<Rightarrow> int" where
  "priority_of m = (case mc_priority m of Some p \<Rightarrow> p | None \<Rightarrow> 999)"

definition compare_candidates :: "failover_env \<Rightarrow> int \<times> model_card \<Rightarrow> int \<times> model_card \<Rightarrow> int" where
  "compare_candidates env l r =
     (if fst l \<noteq> fst r then fst l - fst r
      else if priority_of (snd l) \<noteq> priority_of (snd r) then priority_of (snd l) - priority_of (snd r)
      else fe_collate env (mc_slug (snd l)) (mc_slug (snd r)))"

definition available :: "failover_env \<Rightarrow> rank_options \<Rightarrow> string list \<Rightarrow> model_card list \<Rightarrow> model_card list" where
  "available env opts cooled ms =
     filter (\<lambda>m. (case ro_from opts of Some f \<Rightarrow> mc_slug m \<noteq> mc_slug f | None \<Rightarrow> True) \<and>
       eligible env opts (required_mode env opts) cooled m) ms"

definition by_slug :: "model_card list \<Rightarrow> string \<Rightarrow> model_card option" where
  "by_slug ms = map_of (rev (map (\<lambda>m. (mc_slug m, m)) ms))"

definition rank_failover_candidates ::
  "failover_env \<Rightarrow> model_card list \<Rightarrow> rank_options \<Rightarrow> nat \<Rightarrow> stored \<Rightarrow> (int \<times> model_card) list option" where
  "rank_failover_candidates env ms opts now st =
     map_option (\<lambda>es.
       let fit = available env opts (map fst es) ms; tiered = map (\<lambda>m. (failover_tier env m, m)) in
       if ro_chain opts \<noteq> [] then
         tiered (List.map_filter (by_slug fit) (ro_chain opts))
       else sort_by (compare_candidates env) (tiered (filter (\<lambda>m. \<not> keyless env m) fit)))
     (read_provider_cooldowns env now st)"


section \<open>Sorting and windows\<close>

lemma mset_insort_by [simp]: "mset (insort_by cmp x xs) = add_mset x (mset xs)"
  by (induction xs) auto

lemma mset_sort_by [simp]: "mset (sort_by cmp xs) = mset xs"
  by (induction xs) (simp_all add: sort_by_def)

lemma set_sort_by [simp]: "set (sort_by cmp xs) = set xs"
  by (rule mset_eq_setD) simp

lemma length_sort_by [simp]: "length (sort_by cmp xs) = length xs"
  by (rule mset_eq_length) simp

text \<open>A sort keeps what every comparison decides, if that is transitive, whatever the comparator
  does with ties.\<close>

lemma insort_by_sorted:
  assumes le: "\<And>a b. cmp a b \<le> 0 \<Longrightarrow> P a b" and gt: "\<And>a b. \<not> cmp a b \<le> 0 \<Longrightarrow> P b a"
    and trans: "\<And>a b c. P a b \<Longrightarrow> P b c \<Longrightarrow> P a c"
  shows "sorted_wrt P ys \<Longrightarrow> sorted_wrt P (insort_by cmp x ys)"
proof (induction ys)
  case (Cons y ys)
  have members: "set (insort_by cmp x ys) = insert x (set ys)"
    by (metis mset_insort_by set_mset_add_mset_insert set_mset_mset)
  show ?case
  proof (cases "cmp x y \<le> 0")
    case True
    have "P x y" using le True by blast
    moreover have "P x z" if "z \<in> set ys" for z using \<open>P x y\<close> trans that Cons.prems by auto
    ultimately show ?thesis using Cons.prems True by simp
  next
    case False
    then have "P y x" using gt by blast
    with Cons members False show ?thesis by simp
  qed
qed simp

lemma sort_by_sorted:
  assumes "\<And>a b. cmp a b \<le> 0 \<Longrightarrow> P a b" "\<And>a b. \<not> cmp a b \<le> 0 \<Longrightarrow> P b a"
    and "\<And>a b c. P a b \<Longrightarrow> P b c \<Longrightarrow> P a c"
  shows "sorted_wrt P (sort_by cmp xs)"
proof (induction xs)
  case (Cons x xs)
  have "sorted_wrt P (insort_by cmp x (sort_by cmp xs))"
    by (rule insort_by_sorted [where P = P]) (use assms Cons.IH in blast)+
  then show ?case by (simp add: sort_by_def)
qed (simp add: sort_by_def)

text \<open>Whatever is in the store, what a read returns are entries of the store whose time lies
  ahead.\<close>

definition entry_time :: "failover_env \<Rightarrow> json \<Rightarrow> instant" where
  "entry_time env entry = iso_or_undefined env (obj_get entry ''until'')"

definition entry_ahead :: "failover_env \<Rightarrow> nat \<Rightarrow> json \<Rightarrow> bool" where
  "entry_ahead env now entry \<longleftrightarrow> (case entry_time env entry of At t \<Rightarrow> int now < t | _ \<Rightarrow> False)"

definition readable :: "failover_env \<Rightarrow> (string \<times> json) list \<Rightarrow> bool" where
  "readable env doc = list_all (\<lambda>(k, e). entry_time env e \<noteq> Bad_Time) doc"

lemma live_entries_readable: "live_entries env now doc \<noteq> None \<longleftrightarrow> readable env doc"
  by (induction doc) (auto simp: readable_def entry_time_def split: instant.splits if_splits)

lemma live_entries_keys: "live_entries env now doc = Some es \<Longrightarrow>
    map fst es = map fst (filter (\<lambda>(k, e). entry_ahead env now e) doc)"
proof (induction doc arbitrary: es)
  case (Cons kv doc)
  obtain k e where kv: "kv = (k, e)" by (cases kv)
  show ?case
  proof (cases "entry_time env e")
    case (At t)
    with Cons kv show ?thesis by (cases "int now < t") (auto simp: entry_ahead_def entry_time_def)
  next
    case No_Time
    with Cons kv show ?thesis by (auto simp: entry_ahead_def entry_time_def)
  next
    case Bad_Time
    with Cons.prems(1) kv show ?thesis by (simp add: entry_time_def)
  qed
qed simp

lemma live_entries_get: "live_entries env now doc = Some es \<Longrightarrow> distinct (map fst doc) \<Longrightarrow>
    map_of es k = (case map_of doc k of
        Some e \<Rightarrow> (case entry_time env e of
            At t \<Rightarrow> if int now < t then Some (with_prop e ''until'' (JStr (iso_string (nat t)))) else None | _ \<Rightarrow> None)
      | None \<Rightarrow> None)"
proof (induction doc arbitrary: es)
  case (Cons kv doc)
  obtain j e where kv: "kv = (j, e)" by (cases kv)
  have fresh: "map_of doc j = None" using Cons.prems(2) kv by (simp add: map_of_eq_None_iff)
  show ?case
  proof (cases "entry_time env e")
    case (At t)
    with Cons.prems kv Cons.IH fresh show ?thesis
      by (cases "int now < t") (auto simp: entry_time_def split: option.splits)
  next
    case No_Time
    with Cons.prems kv Cons.IH fresh show ?thesis by (auto simp: entry_time_def split: option.splits)
  next
    case Bad_Time
    with Cons.prems(1) kv show ?thesis by (simp add: entry_time_def)
  qed
qed simp

lemma map_of_sorted:
  assumes "distinct (map fst doc)"
  shows "map_of (sort_by cmp doc) = map_of doc" and "distinct (map fst (sort_by cmp doc))"
proof -
  have "mset (map fst (sort_by cmp doc)) = mset (map fst doc)" by (simp add: mset_map)
  then show d: "distinct (map fst (sort_by cmp doc))" using assms by (metis mset_eq_imp_distinct_iff)
  show "map_of (sort_by cmp doc) = map_of doc" using map_of_inject_set [OF d assms] by simp
qed

lemma written_document:
  assumes "fe_writable env" and "length doc \<le> MAX_COOLDOWN_ENTRIES"
  shows "\<exists>doc'. write_document env doc st = Stored (JObj doc') \<and> mset doc' = mset doc \<and>
    (distinct (map fst doc) \<longrightarrow> map_of doc' = map_of doc \<and> distinct (map fst doc'))"
  using assms map_of_sorted [of doc] by (auto simp: write_document_def)

lemma readable_mset: "mset doc' = mset doc \<Longrightarrow> readable env doc' = readable env doc"
  unfolding readable_def list_all_iff by (metis set_mset_mset)


section \<open>Windows and verdicts\<close>

definition window :: "nat \<Rightarrow> string \<Rightarrow> bool" where
  "window now u \<longleftrightarrow> (\<exists>t. u = iso_string t \<and> now \<le> t \<and> t \<le> now + MAX_COOLDOWN_MS)"

lemma capped_window: "window now (capped_until now d)"
  unfolding window_def capped_until_def by (rule exI [of _ "now + min d MAX_COOLDOWN_MS"]) simp

lemma named_window: "provider_named_reset env body now = Some u \<Longrightarrow> window now u"
  using capped_window by (auto simp: provider_named_reset_def split: option.splits)

text \<open>The loop over the offsets keeps the least instant that lies ahead.\<close>

definition ahead_by :: "nat \<Rightarrow> int \<Rightarrow> int \<Rightarrow> bool" where
  "ahead_by now wall offset \<longleftrightarrow> int now < wall - offset * 60000"

definition least_ahead :: "nat \<Rightarrow> int \<Rightarrow> int list \<Rightarrow> int option \<Rightarrow> bool" where
  "least_ahead now wall os best \<longleftrightarrow> (case best of
       None \<Rightarrow> list_all (\<lambda>offset. \<not> ahead_by now wall offset) os
     | Some b \<Rightarrow> int now < b \<and> list_ex (\<lambda>offset. b = wall - offset * 60000) os \<and>
         list_all (\<lambda>offset. \<not> ahead_by now wall offset \<or> b \<le> wall - offset * 60000) os)"

lemma earlier_least:
  "least_ahead now wall os best \<Longrightarrow> least_ahead now wall (os @ [offset]) (earlier now wall best offset)"
  by (cases best) (auto simp: least_ahead_def earlier_def ahead_by_def list_all_iff list_ex_iff Let_def)

lemma foldl_earlier: "least_ahead now wall os (foldl (earlier now wall) None os)"
  by (induction os rule: rev_induct) (simp_all add: earlier_least, simp add: least_ahead_def)

lemma tier_values: "failover_tier env m \<in> {FREE_TIER, SUBSCRIPTION_TIER}"
  by (simp add: failover_tier_def)

section \<open>Entries that are kept\<close>

lemma with_same_prop: "obj_get j k = Some v \<Longrightarrow> with_prop j k v = j"
proof (cases j)
  case (JObj kvs)
  have "map_of xs k = Some v \<Longrightarrow> AList.update k v xs = xs" for xs :: "(string \<times> json) list"
    by (induction xs) (auto split: if_splits)
  then show "obj_get j k = Some v \<Longrightarrow> ?thesis" using JObj by simp
qed simp_all

lemma iso_read: "year_of t \<le> 9999 \<Longrightarrow> iso_or_undefined env (Some (JStr (iso_string t))) = At (int t)"
  by (simp add: iso_or_undefined_def date_parse_def iso_round_trip)

lemma update_length: "length (AList.update k v xs) \<le> Suc (length xs)"
  by (induction xs) auto

lemma update_length_old: "map_of xs k = Some w \<Longrightarrow> length (AList.update k v xs) = length xs"
  by (induction xs) (auto split: if_splits)

lemma update_readable:
  "readable env doc \<Longrightarrow> entry_time env e \<noteq> Bad_Time \<Longrightarrow> readable env (AList.update k e doc)"
  by (induction doc) (auto simp: readable_def)

lemma map_of_take: "distinct (map fst xs) \<Longrightarrow> map_of (take n xs) k = Some v \<Longrightarrow> map_of xs k = Some v"
  by (metis in_set_takeD map_of_SomeD map_of_eq_Some_iff)

lemma take_readable: "readable env doc \<Longrightarrow> readable env (take n doc)"
  unfolding readable_def list_all_iff using in_set_takeD by fast

lemma cooldown_read:
  assumes "distinct (map fst doc)"
  shows "provider_cooldown env pid now (Stored (JObj doc)) = (if scope_key env pid = [] then Some None
    else if \<not> readable env doc then None
    else Some (case map_of doc (scope_key env pid) of
        Some e \<Rightarrow> (case entry_time env e of
            At t \<Rightarrow> if int now < t then Some (with_prop e ''until'' (JStr (iso_string (nat t)))) else None | _ \<Rightarrow> None)
      | None \<Rightarrow> None))"
proof (cases "live_entries env now doc")
  case None
  then show ?thesis using live_entries_readable [of env now doc]
    by (simp add: provider_cooldown_def read_provider_cooldowns_def read_document_def)
next
  case (Some es)
  then show ?thesis using live_entries_readable [of env now doc] live_entries_get [OF Some assms]
    by (simp add: provider_cooldown_def read_provider_cooldowns_def read_document_def)
qed

section \<open>Samples\<close>

definition sample_env :: failover_env where
  "sample_env = \<lparr>fe_providers = (\<lambda>p. if p = ''box'' then Some \<lparr>pr_keyless = True, pr_anonymous = False, pr_variant_of = None\<rparr> else None),
     fe_binding = (\<lambda>_. None), fe_search_ready = (\<lambda>_. False), fe_parse = (\<lambda>_. None), fe_parse_value = (\<lambda>_. None),
     fe_number = (\<lambda>_. None), fe_collate = (\<lambda>_ _. 0), fe_writable = True\<rparr>"

definition sample_card :: "string \<Rightarrow> string \<Rightarrow> int option \<Rightarrow> model_card" where
  "sample_card slug pid priority = \<lparr>mc_slug = slug, mc_provider = pid, mc_window = None, mc_image = False,
     mc_no_bridge = False, mc_agents = None, mc_priority = priority, mc_search_tool = None, mc_search_history = False\<rparr>"

definition sample_options :: "string list \<Rightarrow> rank_options" where
  "sample_options chain = \<lparr>ro_from = Some (sample_card ''a'' ''p'' None), ro_tokens = None, ro_image = False,
     ro_agents_v2 = False, ro_search = False, ro_history = False, ro_required = None, ro_chain = chain, ro_same_family = False\<rparr>"

definition sample_models :: "model_card list" where
  "sample_models = [sample_card ''a'' ''p'' None, sample_card ''b'' ''q'' None, sample_card ''c'' ''box'' None, sample_card ''d'' ''r'' (Some 5)]"

lemma sample_ranked: "rank_failover_candidates sample_env sample_models (sample_options []) 0 Missing =
    Some [(2, sample_card ''d'' ''r'' (Some 5)), (2, sample_card ''b'' ''q'' None)]"
  by code_simp

lemma sample_chain: "rank_failover_candidates sample_env sample_models (sample_options [''c'', ''x'', ''b'']) 0 Missing =
    Some [(0, sample_card ''c'' ''box'' None), (2, sample_card ''b'' ''q'' None)]"
  by code_simp

lemma sample_stamp: "provider_named_reset sample_env (Some ''reset at 1970-01-01 21:00:00'') 0 = Some (iso_string (6 * 60 * 60 * 1000))"
  by code_simp

lemma sample_limited: "classify_routed_failure sample_env (Some 429) None (Some (120, 0)) 0 = Swap ''rate_limited'' (Some (iso_string 120000))"
  by code_simp

lemma sample_time: "iso_or_undefined sample_env (Some (JStr ''1970-01-01T00:00:05.000Z'')) = At 5000"
  by code_simp

lemma sample_year: "year_of 5000 \<le> 9999"
  by code_simp

lemma sample_scope: "scope_key sample_env (Some ''p'') = ''p''"
  by code_simp

lemma sample_writes: "fe_writable sample_env"
  by (simp add: sample_env_def)

definition sample_doc :: stored where
  "sample_doc = Stored (JObj [(''p'', JObj [(''until'', JStr ''1970-01-01T00:00:05.000Z'')])])"

lemma sample_named: "record_provider_cooldown sample_env (Some ''p'') None (Some ''out_of_usage'') 0 sample_doc =
    (let e = JObj [(''until'', JStr ''1970-01-01T00:00:05.000Z''), (''reason'', JStr ''out_of_usage'')]
     in Some (Stored (JObj [(''p'', e)]), Some e))"
  by code_simp

lemma sample_over: "provider_cooldown sample_env (Some ''p'') 6000 sample_doc = Some None"
  by code_simp

section \<open>What is recorded\<close>

definition cooled_entry :: "nat \<Rightarrow> string option \<Rightarrow> nat \<Rightarrow> json" where
  "cooled_entry t why now = JObj ([(''until'', JStr (iso_string t))] @
     (case why of Some r \<Rightarrow> if r = [] then [] else [(''reason'', JStr r)] | None \<Rightarrow> []) @
     [(''observedAt'', JStr (iso_string now))])"

lemma record_ahead:
  assumes "scope_key env pid \<noteq> []" "iso_or_undefined env until = At t" "int now < t"
  shows "record_provider_cooldown env pid until reason now st =
    (let e = cooled_entry (nat (min t (int now + int MAX_COOLDOWN_MS))) reason now in
     Some (write_document env (AList.update (scope_key env pid) e (read_document st)) st, Some e))"
  using assms by (auto simp: record_provider_cooldown_def cooled_entry_def Let_def MAX_COOLDOWN_MS_def split: option.splits)

lemma cooled_entry_time: "year_of t \<le> 9999 \<Longrightarrow> entry_time env (cooled_entry t why now) = At (int t)"
  by (simp add: entry_time_def cooled_entry_def iso_read)

lemma cooled_entry_kept: "with_prop (cooled_entry t why now) ''until'' (JStr (iso_string t)) = cooled_entry t why now"
  by (rule with_same_prop) (simp add: cooled_entry_def)

text \<open>C27: A window that a provider named for itself is believed until it is over, at most six hours,
  and no longer: a later read of the written document finds the entry exactly until then.\<close>

theorem window_is_believed:
  assumes "fe_writable env" and "scope_key env pid \<noteq> []"
    and "distinct (map fst (read_document st))" "length (read_document st) < MAX_COOLDOWN_ENTRIES"
    and "readable env (read_document st)"
    and "iso_or_undefined env until = At t" "int now < t"
    and "finish = nat (min t (int now + int MAX_COOLDOWN_MS))" "year_of finish \<le> 9999"
  shows "\<exists>st' e. record_provider_cooldown env pid until reason now st = Some (st', Some e) \<and>
    provider_cooldown env pid later st' = Some (if later < finish then Some e else None)"
proof -
  let ?k = "scope_key env pid" and ?e = "cooled_entry finish reason now"
  let ?doc = "AList.update ?k ?e (read_document st)"
  have len: "length ?doc \<le> MAX_COOLDOWN_ENTRIES" using update_length assms(4) by (meson Suc_leI le_trans)
  obtain doc' where doc': "write_document env ?doc st = Stored (JObj doc')" "mset doc' = mset ?doc"
      "map_of doc' = map_of ?doc" "distinct (map fst doc')"
    using written_document [OF assms(1) len] distinct_update [OF assms(3)] by blast
  have time: "entry_time env ?e = At (int finish)" by (rule cooled_entry_time [OF assms(9)])
  have "readable env doc'" unfolding readable_mset [OF doc'(2)]
    by (rule update_readable [OF assms(5)]) (simp add: time)
  then have "provider_cooldown env pid later (Stored (JObj doc')) = Some (if later < finish then Some ?e else None)"
    using assms(2) doc'(3,4) by (simp add: cooldown_read time cooled_entry_kept update_conv')
  then show ?thesis using record_ahead [OF assms(2,6,7)] assms(8) doc'(1) by (simp add: Let_def)
qed

lemma window_is_believed_witness:
  "\<exists>st' e. record_provider_cooldown sample_env (Some ''p'') (Some (JStr ''1970-01-01T00:00:05.000Z'')) None 0 Missing =
      Some (st', Some e) \<and> provider_cooldown sample_env (Some ''p'') 4999 st' = Some (Some e)"
  using window_is_believed [where env = sample_env and pid = "Some ''p''" and st = Missing and now = 0
      and until = "Some (JStr ''1970-01-01T00:00:05.000Z'')" and t = 5000 and finish = 5000 and reason = None and later = 4999]
  by (simp add: sample_time sample_year sample_scope sample_writes MAX_COOLDOWN_MS_def MAX_COOLDOWN_ENTRIES_def
      read_document_def readable_def)

lemma reason_keeps_time: "entry_time env (with_prop e ''reason'' v) = entry_time env e"
  by (cases e) (simp_all add: entry_time_def update_conv')

lemma unwritable: "\<not> fe_writable env \<Longrightarrow> write_document env doc st = st"
  by (simp add: write_document_def)

lemma not_cooled:
  assumes "distinct (map fst doc)" "readable env doc"
  shows "provider_cooldown env pid now (Stored (JObj doc)) = Some None \<longleftrightarrow>
    scope_key env pid = [] \<or> (case map_of doc (scope_key env pid) of None \<Rightarrow> True | Some e \<Rightarrow> \<not> entry_ahead env now e)"
  using assms by (auto simp: cooldown_read entry_ahead_def split: option.splits instant.splits)

lemma write_keeps_uncooled:
  assumes "distinct (map fst doc)" "readable env doc" "k = scope_key env pid"
    and "case map_of doc k of None \<Rightarrow> True | Some e \<Rightarrow> \<not> entry_ahead env now e"
    and "fe_writable env"
  shows "provider_cooldown env pid now (write_document env doc st) = Some None"
proof -
  obtain cmp where w: "write_document env doc st = Stored (JObj (take MAX_COOLDOWN_ENTRIES (sort_by cmp doc)))"
    using assms(5) by (auto simp: write_document_def)
  let ?kept = "take MAX_COOLDOWN_ENTRIES (sort_by cmp doc)"
  have sorted: "map_of (sort_by cmp doc) = map_of doc" "distinct (map fst (sort_by cmp doc))"
    using map_of_sorted [OF assms(1)] by auto
  have distinct: "distinct (map fst ?kept)" using sorted(2) by (simp add: take_map [symmetric])
  have readable: "readable env ?kept"
    using take_readable readable_mset [OF mset_sort_by] assms(2) by blast
  have "map_of ?kept k = None \<or> map_of ?kept k = map_of doc k"
    using map_of_take [OF sorted(2)] sorted(1) by (metis option.exhaust)
  then show ?thesis using not_cooled [OF distinct readable] assms(3,4) unfolding w
    by (auto split: option.splits)
qed

text \<open>C35: What is recorded without a window of its own never cools a provider that was not cooled,
  whatever the document holds and whether or not it can be written.\<close>

theorem no_window_invented:
  assumes "distinct (map fst (read_document st))"
    and "iso_or_undefined env until = No_Time"
    and "record_provider_cooldown env pid until reason now st = Some (st', result)"
    and "provider_cooldown env other later st = Some None"
  shows "provider_cooldown env other later st' = Some None"
proof (cases "st' = st \<or> scope_key env other = []")
  case True
  then show ?thesis using assms(4) by (auto simp: provider_cooldown_def)
next
  case False
  let ?k = "scope_key env pid" and ?doc = "read_document st" and ?j = "scope_key env other"
  obtain entry r where live: "live_entry env now (map_of ?doc ?k) = Some entry"
    and st': "st' = write_document env (AList.update ?k (with_prop entry ''reason'' (JStr r)) ?doc) st"
    using assms(2,3) False
    by (auto simp: record_provider_cooldown_def Let_def split: option.splits if_splits)
  have entry: "map_of ?doc ?k = Some entry"
    using live by (auto simp: live_entry_def split: if_splits option.splits)
  have stored: "st = Stored (JObj ?doc)"
    using entry by (auto simp: read_document_def split: stored.splits json.splits)
  have readable: "readable env ?doc"
    using assms(1,4) False cooldown_read stored by (metis option.distinct(1))
  have can_write: "fe_writable env" using False st' unwritable by metis
  have old: "case map_of ?doc ?j of None \<Rightarrow> True | Some e \<Rightarrow> \<not> entry_ahead env later e"
    using assms(4) not_cooled [OF assms(1) readable] stored False by metis
  show ?thesis unfolding st'
  proof (rule write_keeps_uncooled [OF _ _ refl _ can_write])
    show "distinct (map fst (AList.update ?k (with_prop entry ''reason'' (JStr r)) ?doc))"
      by (rule distinct_update [OF assms(1)])
    have "entry_time env entry \<noteq> Bad_Time"
      using readable map_of_SomeD [OF entry] by (auto simp: readable_def list_all_iff)
    then show "readable env (AList.update ?k (with_prop entry ''reason'' (JStr r)) ?doc)"
      by (intro update_readable [OF readable]) (simp add: reason_keeps_time)
    show "case map_of (AList.update ?k (with_prop entry ''reason'' (JStr r)) ?doc) ?j of
        None \<Rightarrow> True | Some e \<Rightarrow> \<not> entry_ahead env later e"
      using old entry by (auto simp: update_conv' entry_ahead_def reason_keeps_time split: option.splits)
  qed
qed

lemma no_window_invented_witness:
  "provider_cooldown sample_env (Some ''p'') 6000
     (Stored (JObj [(''p'', JObj [(''until'', JStr ''1970-01-01T00:00:05.000Z''), (''reason'', JStr ''out_of_usage'')])])) = Some None"
  by (rule no_window_invented [OF _ _ sample_named [unfolded Let_def] sample_over])
    (simp_all add: sample_doc_def read_document_def iso_or_undefined_def)

section \<open>Verdicts and candidates\<close>

text \<open>C26: A turn moves to another model only on a failure that warrants it, and a window goes with it
  only when the provider named one, never for more than six hours.\<close>

theorem swap_is_warranted:
  assumes "classify_routed_failure env status body retry now = Swap reason u"
  shows "\<exists>code. status = Some code \<and> 400 \<le> code \<and> \<not> local_conversion_failure body \<and>
    (u = None \<or> window now (the u)) \<and>
    (reason = ''transport'' \<and> 500 \<le> code \<and> has_transport_error body \<and> u = None \<or>
     reason = ''out_of_usage'' \<and> code < 500 \<and> upstream_failure_kind code body \<noteq> Some ''entitlement'' \<and>
       (upstream_failure_kind code body = Some ''out_of_usage'' \<or> code = 402) \<and>
       (u = None \<or> (\<exists>m e. retry = Some (m, e) \<and> 0 < m) \<or> named_stamp body \<noteq> None) \<or>
     reason = ''rate_limited'' \<and> code = 429 \<and> (\<exists>m e. retry = Some (m, e) \<and> 60 * 10 ^ e < m) \<and> u \<noteq> None)"
proof -
  obtain code where code: "status = Some code" using assms by (auto simp: classify_routed_failure_def split: option.splits)
  have named: "provider_named_reset env body now = Some w \<Longrightarrow> window now w \<and> named_stamp body \<noteq> None" for w
    using named_window [of env body now w] unfolding provider_named_reset_def
    by (cases "named_stamp body") simp_all
  show ?thesis
  proof (cases "500 \<le> code")
    case True
    then show ?thesis using assms code by (auto simp: classify_routed_failure_def split: if_splits)
  next
    case False
    show ?thesis
    proof (cases "upstream_failure_kind code body = Some ''out_of_usage'' \<or> code = 402")
      case True
      then show ?thesis using assms code False named capped_window
        by (cases "provider_named_reset env body now")
          (auto simp: classify_routed_failure_def Let_def split: if_splits option.splits prod.splits)
    next
      case limited: False
      then show ?thesis using assms code False capped_window
        by (auto simp: classify_routed_failure_def Let_def MIN_RATE_LIMIT_SECONDS_def split: if_splits option.splits)
    qed
  qed
qed

lemma swap_is_warranted_witness:
  "window 0 (iso_string 120000)"
  using swap_is_warranted [OF sample_limited] by auto

text \<open>C38: The two ends of the gateway agree: what the forwarder reports of a connection that failed
  before any response moves the turn, however deep the gateway wraps it, as JSON or as text.\<close>

theorem marker_moves_the_turn:
  assumes "provider_transport_error proxy_configured error = Some e" "carries e j"
    and "500 \<le> code" "\<not> local_conversion_failure (Some (json_stringify j))"
  shows "classify_routed_failure env (Some code) (Some (json_stringify j)) retry now = Swap ''transport'' None"
  using assms marker_survives [OF assms(1,2)] by (simp add: classify_routed_failure_def)

definition sample_error :: json where
  "sample_error = JObj [(''cause'', JObj [(''code'', JStr ''ETIMEDOUT'')])]"

definition sample_marker :: json where
  "sample_marker = JObj [(''type'', JStr ''provider_transport_error''), (''code'', JStr ''ETIMEDOUT''),
     (''message'', JStr ''The provider connection failed before a response was available.'')]"

definition sample_body :: json where
  "sample_body = JObj [(''error'', JObj [(''message'', JStr (''APIError - '' @ json_stringify sample_marker @ []))])]"

lemma sample_reported: "provider_transport_error False sample_error = Some sample_marker"
  by code_simp

lemma sample_carried: "carries sample_marker sample_body"
proof -
  have "carries sample_marker (JStr (''APIError - '' @ json_stringify sample_marker @ []))"
    by (rule carries_text [OF carries_self])
  then have "carries sample_marker (JObj [(''message'', JStr (''APIError - '' @ json_stringify sample_marker @ []))])"
    by (rule carries_property) (rule list.set_intros)
  then show ?thesis unfolding sample_body_def by (rule carries_property) (rule list.set_intros)
qed

lemma marker_moves_the_turn_witness:
  "classify_routed_failure sample_env (Some 502) (Some (json_stringify sample_body)) None 0 = Swap ''transport'' None"
proof -
  have "\<not> local_conversion_failure (Some (json_stringify sample_body))" by code_simp
  then show ?thesis using marker_moves_the_turn [OF sample_reported sample_carried, of 502] by simp
qed



text \<open>What makes a model able to take the turn over: it is another model, its provider is neither the
  one that failed nor one that is cooling, and it holds the conversation, its images, its agents
  and its searches.\<close>

definition takes_over :: "failover_env \<Rightarrow> rank_options \<Rightarrow> string list \<Rightarrow> model_card \<Rightarrow> bool" where
  "takes_over env opts cooled m \<longleftrightarrow> mc_slug m \<noteq> [] \<and>
     (case ro_from opts of None \<Rightarrow> True | Some f \<Rightarrow> mc_slug m \<noteq> mc_slug f \<and>
        (ro_same_family opts \<or> cooldown_scope env (mc_provider m) \<noteq> cooldown_scope env (mc_provider f))) \<and>
     cooldown_scope env (mc_provider m) \<notin> set cooled \<and>
     (ro_tokens opts = None \<or> mc_window m = None \<or> the (ro_tokens opts) \<le> the (mc_window m)) \<and>
     (mc_image m \<or> \<not> mc_no_bridge m \<or> \<not> ro_image opts) \<and>
     (mc_agents m = Some ''v2'' \<or> \<not> ro_agents_v2 opts) \<and>
     (case required_mode env opts of
        None \<Rightarrow> mc_search_history m \<or> \<not> ro_history opts
      | Some r \<Rightarrow> r = [] \<or> routed_model_search_mode env (Some m) = Some r)"

lemma filled_text: "filled (map_option JStr v) = Some s \<Longrightarrow> v = Some s"
  by (cases v) (auto simp: filled_def split: if_splits)

lemma search_kept: "preserves_search_contract env m required history \<Longrightarrow>
    (case required of None \<Rightarrow> mc_search_history m \<or> \<not> history
      | Some r \<Rightarrow> r = [] \<or> routed_model_search_mode env (Some m) = Some r)"
  by (auto simp: preserves_search_contract_def search_mode_preserves_def split: if_splits option.splits)

lemma eligible_takes_over:
  assumes "eligible env opts (required_mode env opts) cooled m"
    and "case ro_from opts of Some f \<Rightarrow> mc_slug m \<noteq> mc_slug f | None \<Rightarrow> True"
  shows "takes_over env opts cooled m"
proof -
  have search: "preserves_search_contract env m (required_mode env opts) (ro_history opts)"
    and agents: "ro_agents_v2 opts \<longrightarrow> mc_agents m = Some ''v2''"
    and rest: "mc_slug m \<noteq> []" "cooldown_scope env (mc_provider m) \<notin> set cooled"
      "ro_image opts \<longrightarrow> mc_image m \<or> \<not> mc_no_bridge m"
    and family: "ro_same_family opts \<or> cooldown_scope env (mc_provider m) \<noteq>
      cooldown_scope env (case ro_from opts of Some f \<Rightarrow> mc_provider f | None \<Rightarrow> [])"
    and room: "\<not> (case (ro_tokens opts, mc_window m) of (Some t, Some w) \<Rightarrow> w < t | _ \<Rightarrow> False)"
    using assms(1) by (auto simp: eligible_def Let_def filled_text split: if_splits)
  have "ro_tokens opts = None \<or> mc_window m = None \<or> the (ro_tokens opts) \<le> the (mc_window m)"
    using room by (auto split: option.splits)
  then show ?thesis using search_kept [OF search] agents rest family assms(2)
    unfolding takes_over_def by (auto split: option.splits)
qed

definition keeps_order :: "int \<times> model_card \<Rightarrow> int \<times> model_card \<Rightarrow> bool" where
  "keeps_order l r \<longleftrightarrow> fst l < fst r \<or> fst l = fst r \<and> priority_of (snd l) \<le> priority_of (snd r)"

lemma ranked_order: "sorted_wrt keeps_order (sort_by (compare_candidates env) xs)"
  by (rule sort_by_sorted) (auto simp: keeps_order_def compare_candidates_def split: if_splits)

lemma rank_cases:
  assumes "rank_failover_candidates env ms opts now st = Some ranked"
  obtains es where "read_provider_cooldowns env now st = Some es"
    and "ro_chain opts \<noteq> [] \<Longrightarrow> ranked = map (\<lambda>m. (failover_tier env m, m)) (List.map_filter
        (by_slug (available env opts (map fst es) ms)) (ro_chain opts))"
    and "ro_chain opts = [] \<Longrightarrow> ranked = sort_by (compare_candidates env) (map (\<lambda>m. (failover_tier env m, m))
        (filter (\<lambda>m. \<not> keyless env m) (available env opts (map fst es) ms)))"
  using assms by (auto simp: rank_failover_candidates_def Let_def split: if_splits)

lemma by_slug_some: "by_slug fit s = Some m \<Longrightarrow> m \<in> set fit \<and> mc_slug m = s"
  by (auto simp: by_slug_def dest!: map_of_SomeD)

lemma by_slug_none: "by_slug fit s = None \<longleftrightarrow> s \<notin> mc_slug ` set fit"
  by (simp add: by_slug_def map_of_eq_None_iff image_image)

lemma named_members: "m \<in> set (List.map_filter (by_slug fit) chain) \<Longrightarrow> m \<in> set fit \<and> mc_slug m \<in> set chain"
  by (induction chain) (auto simp: List.map_filter_simps dest: by_slug_some split: option.splits)

lemma named_slugs: "map mc_slug (List.map_filter (by_slug fit) chain) = filter (\<lambda>s. s \<in> mc_slug ` set fit) chain"
proof (induction chain)
  case (Cons s chain)
  show ?case
  proof (cases "by_slug fit s")
    case None
    moreover have "s \<notin> mc_slug ` set fit" using None by_slug_none by blast
    ultimately show ?thesis using Cons by (simp add: List.map_filter_simps)
  next
    case (Some m)
    then have "mc_slug m = s" "s \<in> mc_slug ` set fit" using by_slug_some by blast+
    then show ?thesis using Cons Some by (simp add: List.map_filter_simps)
  qed
qed (simp add: List.map_filter_simps)

text \<open>C28: Every candidate can take the turn over, its tier is that of its provider, and a model served
  from this machine is one only when the operator named it.\<close>

theorem candidates_can_take_over:
  assumes "rank_failover_candidates env ms opts now st = Some ranked" "(tier, m) \<in> set ranked"
  shows "\<exists>es. read_provider_cooldowns env now st = Some es \<and> m \<in> set ms \<and>
    takes_over env opts (map fst es) m \<and> tier = failover_tier env m \<and>
    (\<not> keyless env m \<or> mc_slug m \<in> set (ro_chain opts))"
proof (rule rank_cases [OF assms(1)])
  fix es :: "(string \<times> json) list"
  let ?fit = "available env opts (map fst es) ms"
  assume es: "read_provider_cooldowns env now st = Some es"
    and chain: "ro_chain opts \<noteq> [] \<Longrightarrow> ranked =
      map (\<lambda>m. (failover_tier env m, m)) (List.map_filter (by_slug ?fit) (ro_chain opts))"
    and free: "ro_chain opts = [] \<Longrightarrow> ranked = sort_by (compare_candidates env)
      (map (\<lambda>m. (failover_tier env m, m)) (filter (\<lambda>m. \<not> keyless env m) ?fit))"
  have "m \<in> set ?fit \<and> tier = failover_tier env m \<and> (\<not> keyless env m \<or> mc_slug m \<in> set (ro_chain opts))"
  proof (cases "ro_chain opts = []")
    case True
    show ?thesis using assms(2) unfolding free [OF True] by auto
  next
    case False
    then show ?thesis using assms(2) named_members unfolding chain [OF False] by auto
  qed
  moreover have "takes_over env opts (map fst es) m" if "m \<in> set ?fit"
    using that eligible_takes_over by (simp add: available_def)
  ultimately show ?thesis using es by (auto simp: available_def)
qed

lemma candidates_can_take_over_witness:
  "\<exists>es. read_provider_cooldowns sample_env 0 Missing = Some es \<and>
    takes_over sample_env (sample_options []) (map fst es) (sample_card ''b'' ''q'' None)"
  using candidates_can_take_over [OF sample_ranked, of 2 "sample_card ''b'' ''q'' None"] by auto



text \<open>A named chain is the operator's order, verbatim, minus the models that cannot take over.\<close>

theorem chain_is_verbatim:
  assumes "rank_failover_candidates env ms opts now st = Some ranked" "ro_chain opts \<noteq> []"
  shows "\<exists>es. read_provider_cooldowns env now st = Some es \<and> map (mc_slug \<circ> snd) ranked =
    filter (\<lambda>s. s \<in> mc_slug ` set (available env opts (map fst es) ms)) (ro_chain opts)"
proof (rule rank_cases [OF assms(1)])
  fix es :: "(string \<times> json) list"
  let ?named = "List.map_filter (by_slug (available env opts (map fst es) ms)) (ro_chain opts)"
  assume es: "read_provider_cooldowns env now st = Some es"
    and "ro_chain opts \<noteq> [] \<Longrightarrow> ranked = map (\<lambda>m. (failover_tier env m, m)) ?named"
  then have "map (mc_slug \<circ> snd) ranked = map mc_slug ?named" using assms(2) by simp
  then show ?thesis using es named_slugs by metis
qed

lemma chain_is_verbatim_witness:
  "\<exists>es. read_provider_cooldowns sample_env 0 Missing = Some es \<and> [''c'', ''b''] =
    filter (\<lambda>s. s \<in> mc_slug ` set (available sample_env (sample_options [''c'', ''x'', ''b'']) (map fst es) sample_models))
      [''c'', ''x'', ''b'']"
  using chain_is_verbatim [OF sample_chain] by (simp add: sample_options_def sample_card_def)

text \<open>A stored time outside what a date can hold makes every read of the windows throw, and
  nothing else in the document does.\<close>

theorem absurd_time_fails_reads:
  "(read_provider_cooldowns env now st = None) = list_ex (\<lambda>(k, e). entry_time env e = Bad_Time) (read_document st) \<and>
   read_provider_cooldowns env now (Stored (JObj [(''p'', JObj [(''until'', JNum 10000000000000000 0)])])) = None"
proof
  show "(read_provider_cooldowns env now st = None) = list_ex (\<lambda>(k, e). entry_time env e = Bad_Time) (read_document st)"
    using live_entries_readable [of env now "read_document st"]
    by (auto simp: read_provider_cooldowns_def readable_def list_all_iff list_ex_iff)
  show "read_provider_cooldowns env now (Stored (JObj [(''p'', JObj [(''until'', JNum 10000000000000000 0)])])) = None"
    by (simp add: read_provider_cooldowns_def read_document_def iso_or_undefined_def MAX_TIME_def)
qed

end
