(* ===== verification/Search_Capability.thy ===== *)
theory Search_Capability
  imports Call_Arguments
begin

text \<open>
  The request side of \<open>search-capability.mjs\<close>: what \<open>stripUnsupportedHostedSearch\<close> takes out of a
  request for a model that has no search of its own, and when it refuses the request instead.
  Which models have search is asked in \<open>Model_Failover\<close>.
\<close>

section \<open>Stripping\<close>

definition HOSTED_SEARCH_TOOL_TYPES :: "string list" where
  "HOSTED_SEARCH_TOOL_TYPES = [''web_search'', ''web_search_preview'']"

definition hosted_search_tool :: "json option \<Rightarrow> bool" where
  "hosted_search_tool tool \<longleftrightarrow>
     (case as_str (opt_get tool ''type'') of Some t \<Rightarrow> t \<in> set HOSTED_SEARCH_TOOL_TYPES | None \<Rightarrow> False)"

datatype search_error = Search_Error string

definition model_label :: "string option \<Rightarrow> string" where
  "model_label model = (case model of Some m \<Rightarrow> if m = [] then ''The selected model'' else ''Model '' @ m
     | None \<Rightarrow> ''The selected model'')"

definition unsupported_search_contract :: "string option \<Rightarrow> search_error" where
  "unsupported_search_contract model =
     Search_Error (model_label model @ '' can no longer preserve this turn'' @ [CHR 0x27] @ ''s web-search execution contract.'')"

definition call_include :: "json \<Rightarrow> bool" where
  "call_include v = (case v of JStr s \<Rightarrow> starts_with ''web_search_call.'' s | _ \<Rightarrow> False)"

text \<open>\<open>if (removed) { if (stripped.length) next[k] = stripped; else delete next[k]; }\<close>\<close>

definition replace_list :: "string \<Rightarrow> json list option \<Rightarrow> json list option \<Rightarrow> json \<Rightarrow> json" where
  "replace_list k old stripped v =
     (case (old, stripped) of
        (Some xs, Some ys) \<Rightarrow>
          if length ys = length xs then v
          else if ys = [] then without_prop v k
          else with_prop v k (JArr ys)
      | _ \<Rightarrow> v)"

definition shortened :: "json list option \<Rightarrow> json list option \<Rightarrow> bool" where
  "shortened old stripped \<longleftrightarrow> (case (old, stripped) of (Some xs, Some ys) \<Rightarrow> length ys \<noteq> length xs | _ \<Rightarrow> False)"

definition strip_hosted_search :: "string option \<Rightarrow> json \<Rightarrow> search_error + json" where
  "strip_hosted_search model payload =
     (if \<not> is_obj payload then Inr payload
      else
        let tools = as_arr (obj_get payload ''tools'');
            stripped_tools = map_option (filter (\<lambda>t. \<not> hosted_search_tool (Some t))) tools;
            removed_tools = shortened tools stripped_tools;
            incl = as_arr (obj_get payload ''include'');
            stripped_incl = map_option (filter (\<lambda>v. \<not> call_include v)) incl;
            removed_incl = shortened incl stripped_incl;
            removed_options = obj_get payload ''web_search_options'' \<noteq> None;
            explicit_choice = hosted_search_tool (obj_get payload ''tool_choice'')
        in
        if \<not> removed_tools \<and> \<not> removed_incl \<and> \<not> removed_options \<and> \<not> explicit_choice then Inr payload
        else if explicit_choice then
          Inl (Search_Error (model_label model @ '' does not advertise web search, but tool_choice explicitly selects it.''))
        else if removed_tools \<and> obj_get payload ''tool_choice'' = Some (JStr ''required'') \<and> stripped_tools = Some [] then
          Inl (Search_Error (model_label model @
            '' does not advertise web search, and no supported tool remains for tool_choice required.''))
        else
          let v1 = without_prop payload ''web_search_options'';
              v2 = replace_list ''tools'' tools stripped_tools v1;
              v3 = replace_list ''include'' incl stripped_incl v2
          in Inr (if removed_tools \<and> stripped_tools = Some [] \<and>
                    (obj_get v3 ''tool_choice'' = Some (JStr ''auto'') \<or> obj_get v3 ''tool_choice'' = Some (JStr ''none''))
                  then without_prop v3 ''tool_choice'' else v3))"

section \<open>What is left of a request\<close>

definition has_some :: "(json \<Rightarrow> bool) \<Rightarrow> json option \<Rightarrow> bool" where
  "has_some p v \<longleftrightarrow> (case as_arr v of Some xs \<Rightarrow> list_ex p xs | None \<Rightarrow> False)"

definition hosted_tool :: "json \<Rightarrow> bool" where "hosted_tool t = hosted_search_tool (Some t)"

definition searches :: "json \<Rightarrow> bool" where
  "searches v \<longleftrightarrow> has_some hosted_tool (obj_get v ''tools'') \<or> has_some call_include (obj_get v ''include'') \<or>
     obj_get v ''web_search_options'' \<noteq> None \<or> hosted_search_tool (obj_get v ''tool_choice'')"

text \<open>What a list property becomes: without the entries that are taken out, and gone when it had
  some and none remain.\<close>

definition kept_list :: "(json \<Rightarrow> bool) \<Rightarrow> json option \<Rightarrow> json option" where
  "kept_list p v =
     (case as_arr v of
        Some xs \<Rightarrow> if xs \<noteq> [] \<and> list_all p xs then None else Some (JArr (filter (\<lambda>x. \<not> p x) xs))
      | None \<Rightarrow> v)"

lemma length_kept: "length (filter (\<lambda>x. \<not> p x) xs) = length xs \<longleftrightarrow> \<not> list_ex p xs"
  by (induction xs) (auto dest: le_less_trans [OF length_filter_le] simp: Suc_le_eq le_imp_less_Suc,
    metis Suc_n_not_le_n length_filter_le)

lemma shortened_filter: "shortened (as_arr v) (map_option (filter (\<lambda>x. \<not> p x)) (as_arr v)) \<longleftrightarrow> has_some p v"
  by (cases "as_arr v") (simp_all add: shortened_def has_some_def length_kept)

lemma has_some_kept [simp]: "\<not> has_some p (kept_list p v)"
  by (cases "as_arr v") (auto simp: has_some_def kept_list_def list_ex_iff)

lemma kept_same: "\<not> has_some p v \<Longrightarrow> kept_list p v = v"
  by (cases "as_arr v") (auto simp: has_some_def kept_list_def list_ex_iff list_all_iff filter_id_conv)

lemma without_is_obj [simp]: "is_obj (without_prop v k) = is_obj v"
  by (cases v) auto

lemma is_obj_replace [simp]: "is_obj v \<Longrightarrow> is_obj (replace_list k old stripped v)"
  by (auto simp: replace_list_def split: option.splits)

lemma replace_list_get:
  assumes "is_obj v" "as_arr (obj_get v k) = old"
  shows "obj_get (replace_list k old (map_option (filter (\<lambda>x. \<not> p x)) old) v) k' =
    (if k' = k then kept_list p (obj_get v k) else obj_get v k')"
proof (cases "has_some p (obj_get v k)")
  case True
  then obtain xs where xs: "obj_get v k = Some (JArr xs)" "list_ex p xs"
    by (cases "as_arr (obj_get v k)") (auto simp: has_some_def)
  then have "old = Some xs" "xs \<noteq> []" using assms(2) by auto
  moreover have "filter (\<lambda>x. \<not> p x) xs = [] \<longleftrightarrow> list_all p xs" by (simp add: filter_empty_conv list_all_iff)
  ultimately show ?thesis using xs assms(1) length_kept [of p xs] by (auto simp: replace_list_def kept_list_def)
next
  case False
  then have "replace_list k old (map_option (filter (\<lambda>x. \<not> p x)) old) v = v"
    using assms(2) by (cases old) (auto simp: replace_list_def has_some_def length_kept)
  then show ?thesis using kept_same [OF False] by simp
qed

text \<open>The request that is sent, property by property.\<close>

definition all_tools_hosted :: "json \<Rightarrow> bool" where
  "all_tools_hosted payload \<longleftrightarrow> (case as_arr (obj_get payload ''tools'') of
     Some ts \<Rightarrow> ts \<noteq> [] \<and> list_all hosted_tool ts | None \<Rightarrow> False)"

definition without_search :: "json \<Rightarrow> string \<Rightarrow> json option" where
  "without_search payload k =
     (if k = ''tools'' then kept_list hosted_tool (obj_get payload k)
      else if k = ''include'' then kept_list call_include (obj_get payload k)
      else if k = ''web_search_options'' then None
      else if k = ''tool_choice'' \<and> all_tools_hosted payload \<and>
          (obj_get payload k = Some (JStr ''auto'') \<or> obj_get payload k = Some (JStr ''none'')) then None
      else obj_get payload k)"

lemma some_all: "list_ex p xs \<and> list_all p xs \<longleftrightarrow> xs \<noteq> [] \<and> list_all p xs"
  by (cases xs) auto

lemma all_hosted: "has_some hosted_tool (obj_get payload ''tools'') \<and>
    map_option (filter (\<lambda>x. \<not> hosted_tool x)) (as_arr (obj_get payload ''tools'')) = Some [] \<longleftrightarrow> all_tools_hosted payload"
  by (cases "as_arr (obj_get payload ''tools'')")
    (use some_all [of hosted_tool] in \<open>auto simp: has_some_def all_tools_hosted_def filter_empty_conv list_all_iff\<close>)

lemma all_hosted_some: "all_tools_hosted payload \<Longrightarrow> has_some hosted_tool (obj_get payload ''tools'')"
  using all_hosted by blast

lemma no_choice [simp]: "\<not> hosted_search_tool None"
  by (simp add: hosted_search_tool_def opt_get_def)

lemma untouched: "\<not> searches payload \<Longrightarrow> without_search payload k = obj_get payload k"
  using all_hosted_some [of payload] by (auto simp: searches_def without_search_def kept_same)

lemma search_free:
  assumes "\<not> hosted_search_tool (obj_get payload ''tool_choice'')" "\<And>k. obj_get v k = without_search payload k"
  shows "\<not> searches v"
  using assms(1) unfolding searches_def assms(2) by (simp add: without_search_def)

lemma strip_not_object: "\<not> is_obj payload \<Longrightarrow> strip_hosted_search model payload = Inr payload \<and> \<not> searches payload"
  by (cases payload) (simp_all add: strip_hosted_search_def searches_def has_some_def)

text \<open>The code's tests, as questions about the request.\<close>

definition stripped :: "json \<Rightarrow> json" where
  "stripped payload =
     (let tools = as_arr (obj_get payload ''tools''); incl = as_arr (obj_get payload ''include'');
          v = replace_list ''include'' incl (map_option (filter (\<lambda>x. \<not> call_include x)) incl)
            (replace_list ''tools'' tools (map_option (filter (\<lambda>x. \<not> hosted_tool x)) tools)
              (without_prop payload ''web_search_options''))
      in if all_tools_hosted payload \<and>
            (obj_get v ''tool_choice'' = Some (JStr ''auto'') \<or> obj_get v ''tool_choice'' = Some (JStr ''none''))
         then without_prop v ''tool_choice'' else v)"

lemma strip_object:
  assumes "is_obj payload"
  shows "strip_hosted_search model payload =
    (if \<not> searches payload then Inr payload
     else if hosted_search_tool (obj_get payload ''tool_choice'') then
       Inl (Search_Error (model_label model @ '' does not advertise web search, but tool_choice explicitly selects it.''))
     else if all_tools_hosted payload \<and> obj_get payload ''tool_choice'' = Some (JStr ''required'') then
       Inl (Search_Error (model_label model @
         '' does not advertise web search, and no supported tool remains for tool_choice required.''))
     else Inr (stripped payload))"
  using assms unfolding strip_hosted_search_def searches_def stripped_def Let_def hosted_tool_def [symmetric]
    shortened_filter all_hosted [symmetric] by auto

lemma stripped_get:
  assumes "is_obj payload"
  shows "obj_get (stripped payload) k = without_search payload k"
proof -
  let ?tools = "as_arr (obj_get payload ''tools'')" and ?incl = "as_arr (obj_get payload ''include'')"
  let ?v1 = "without_prop payload ''web_search_options''"
  let ?v2 = "replace_list ''tools'' ?tools (map_option (filter (\<lambda>x. \<not> hosted_tool x)) ?tools) ?v1"
  let ?v3 = "replace_list ''include'' ?incl (map_option (filter (\<lambda>x. \<not> call_include x)) ?incl) ?v2"
  have v2: "obj_get ?v2 k = (if k = ''tools'' then kept_list hosted_tool (obj_get payload k) else obj_get ?v1 k)" for k
    using replace_list_get [of ?v1 "''tools''" ?tools hosted_tool k] assms by simp
  have v3: "obj_get ?v3 k = (if k = ''include'' then kept_list call_include (obj_get payload k) else obj_get ?v2 k)" for k
    using replace_list_get [of ?v2 "''include''" ?incl call_include k] assms v2 by simp
  have "is_obj ?v3" using assms by simp
  then show ?thesis using assms v2 v3 unfolding stripped_def Let_def without_search_def by simp
qed

text \<open>C40: A request is refused exactly when its tool choice names the hosted search, or demands a tool
  while every tool it offers is one.\<close>

theorem search_refusals:
  "(\<exists>e. strip_hosted_search model payload = Inl e) \<longleftrightarrow>
     hosted_search_tool (obj_get payload ''tool_choice'') \<or>
     all_tools_hosted payload \<and> obj_get payload ''tool_choice'' = Some (JStr ''required'')"
proof (cases "is_obj payload")
  case True
  then show ?thesis using all_hosted_some [of payload] by (auto simp: strip_object searches_def)
next
  case False
  then show ?thesis using strip_not_object by (auto simp: searches_def dest: all_hosted_some)
qed

text \<open>C39: What is sent to a model without search asks for none, and every other property, with every
  tool and include of the caller's own, is there as it was.\<close>

theorem search_is_stripped:
  assumes "strip_hosted_search model payload = Inr sent"
  shows "\<not> searches sent \<and> obj_get sent k = without_search payload k \<and> strip_hosted_search model sent = Inr sent"
proof -
  have "\<not> searches sent \<and> obj_get sent k = without_search payload k"
  proof (cases "is_obj payload \<and> searches payload")
    case True
    then have "sent = stripped payload" "\<not> hosted_search_tool (obj_get payload ''tool_choice'')"
      using assms by (auto simp: strip_object split: if_splits)
    then show ?thesis using stripped_get search_free True by blast
  next
    case False
    then have "sent = payload" "\<not> searches payload" using assms strip_not_object [of payload model]
      by (cases "is_obj payload"; auto simp: strip_object)+
    then show ?thesis using untouched by simp
  qed
  then show ?thesis using strip_object strip_not_object by (metis (full_types))
qed

definition sample_request :: json where
  "sample_request = JObj [(''tools'', JArr [JObj [(''type'', JStr ''web_search'')]]), (''tool_choice'', JStr ''auto'')]"

lemma sample_stripped: "strip_hosted_search None sample_request = Inr (JObj [])"
  by code_simp

lemma search_is_stripped_witness: "\<not> searches (JObj []) \<and> without_search sample_request ''tools'' = None"
  using search_is_stripped [OF sample_stripped, of "''tools''"] by simp

end
