(* ===== verification/Spec2Isabelle.thy ===== *)
theory Spec2Isabelle
  imports Item_Lifecycle Sse_Prefix Message_Phase Conversation_Window Upstream_Retry Protobuf_Lite
    Early_Tool_Done Ws_Frames Tool_Fold Transcript_Chunker
    Tool_Aging Protobuf_Wire Caller_Auth Key_Rotation Think_Stage Retention Ws_Turn Call_Arguments
    Model_Failover Search_Capability
begin

text \<open>
  Verification development of the Codex Router that Jev Assist embeds (\<open>src/router\<close>).

  \<^bold>\<open>The program.\<close> The router is a local process between coding clients and model providers. A
  client request is authorised by a capability in its path, its conversation is repaired and
  shortened, it is sent upstream with a bounded number of retries, and the response, an event
  stream of the Responses API, runs through a chain of byte-stream stages that repair it before it
  reaches the client over HTTP or over a WebSocket. Providers that speak protobuf are reached
  through two hand-written codecs. Beside the request path the router rotates the caller key on
  disk and keeps, ages and expires large tool results.

  \<^bold>\<open>Conventions.\<close> Strings and buffers are lists of bytes (UTF-8, a lone surrogate in its
  three-byte generalised form); \<open>length\<close> of a JavaScript string is \<open>js_length\<close>, its number of
  UTF-16 units; \<open>undefined\<close> is \<open>None\<close>. A class is a record of its private fields, a method returns
  the new record and the list of what it pushed or sent. Exceptions are values of a sum type,
  early returns are branches. JSON is concrete: \<open>json_parse\<close> and \<open>json_stringify\<close> are defined and
  proved inverse. What is not in the repository (the file system, the clock, the network, SHA-256, \<open>new URL\<close>) is an
  argument of the definitions that use it.

  \<^bold>\<open>Foundations.\<close>
  \<^item> \<open>Router_Prelude\<close>: bytes, strings, searches, white space, UTF-16 length; the shared lemmas.
  \<^item> \<open>Utf8_Text\<close>: the fatal and the replacing UTF-8 decoder and \<open>TextEncoder\<close>.
  \<^item> \<open>Json\<close>, \<open>Json_Laws\<close>: \<open>JSON.parse\<close> and \<open>JSON.stringify\<close>, their round trip, and that printed text
    holds no line break; the locale \<open>json_codec\<close>, interpreted on them as \<open>js\<close>.
  \<^item> \<open>Sse_Frames\<close>: where a frame of an event stream ends, and the locale \<open>frame_stage\<close>, the contract
    of a stage that buffers, cuts frames and handles them one by one; its consequence is that the
    cuts of the network are invisible. It is interpreted on the normalizer (\<open>nz\<close>), the phase labels
    (\<open>ph\<close>) and the tag stripper (\<open>tg\<close>).

  \<^bold>\<open>The response path.\<close>
  \<^item> \<open>Sse_Prefix\<close> (\<open>sse-prefix.mjs\<close>): is a body without a content type an event stream? Verdicts are
    final and do not depend on the cuts, except around U+2028 and U+2029 (a finding).
  \<^item> \<open>Item_Lifecycle\<close> (\<open>item-lifecycle-normalizer.mjs\<close>): interleaved output items are put one after
    another. The lemmas show sequential items in the output, conservation of frames, order within an item,
    and transparency on clean streams; \<open>normalizer\<close> is the record of the class's fields.
  \<^item> \<open>Early_Tool_Done\<close> (\<open>early-tool-item-done.mjs\<close>): closes a tool item when the next one opens. Strictly
    rising sequence numbers, no tool closed twice, complete arguments. The growing byte pool of
    the class is the list of bytes it holds. The locale \<open>event_relation\<close> carries a relation between the state before,
    the output and the state after through every handler; it is interpreted on sequence numbers (\<open>sq\<close>) and on
    closed items (\<open>once\<close>).
  \<^item> \<open>Message_Phase\<close> (\<open>message-phase.mjs\<close>): labels messages as commentary or final answer; streamed
    labels agree with those of the finished snapshot and nothing else changes.
  \<^item> \<open>Think_Tags\<close>, \<open>Think_Stream\<close>, \<open>Think_Stage\<close> (\<open>reasoning-tag-stripper.mjs\<close>): the tag grammars as
    instances of the locales \<open>tag_matcher\<close> and \<open>held_matcher\<close>, the complete and the incremental stripper, the refinement of the
    one-pass specification \<open>scan\<close> by the incremental stripper, and the stage on the wire.
  \<^item> \<open>Ws_Frames\<close> (\<open>responses-websocket.mjs\<close>, class \<open>ResponsesWebSocketPeer\<close> and the frame functions): client
    frames to queued requests, control frames, close codes, memory bounds.
  \<^item> \<open>Ws_Headers\<close>, \<open>Ws_Limits\<close>, \<open>Ws_Turn\<close> (the same file): the handshake and the headers of the internal
    request; the rate limits that reach the client; and one turn, \<open>process\<close>, from the request message to
    the last event. \<open>turn_env\<close> is what surrounds a turn (the answer of \<open>fetch\<close>, the reads of the body,
    when the peer leaves), \<open>session\<close> what the peer keeps between turns, \<open>turn\<close> what a turn has
    sent and seen. The locale \<open>stream_step\<close> lifts what every event keeps to the whole stream; it is
    interpreted on the account of the messages sent (\<open>told\<close>). The lemmas show that a turn ends, that the cuts of the
    network do not show, that follow-ups continue the conversation, and that the caller's key and
    line breaks do not travel on.

  \<^bold>\<open>The request path.\<close>
  \<^item> \<open>Caller_Auth\<close> (\<open>caller-auth.mjs\<close>, \<open>codex-patch-hook-endpoint.mjs\<close>): routes need the key, redaction
    hides it.
  \<^item> \<open>Conversation_Window\<close> (\<open>conversation-window.mjs\<close>): the newest slice of a conversation; pinned items
    and calls of surviving results stay, the report is true.
  \<^item> \<open>Tool_Fold\<close> (\<open>http-utils.mjs\<close>): tool calls are answered directly behind their message. The re-seating loop
    inserts into the list it walks; it is a partial function and its termination is a property.
  \<^item> \<open>Tool_Aging\<close> (\<open>tool-result-aging.mjs\<close>): old results are replaced by receipts; what may change and
    what the counters say.
  \<^item> \<open>Upstream_Retry\<close> (\<open>upstream-retry.mjs\<close>): when a request is sent again, how often, how long it waits.
  \<^item> \<open>Protobuf_Lite\<close>, \<open>Protobuf_Wire\<close> (\<open>protobuf-lite.mjs\<close>, \<open>protobuf-wire.mjs\<close>): varints, fields,
    Connect envelopes and the schema-driven codec, with their round trips and the type of what is decoded.

  \<^bold>\<open>Beside the request path.\<close>
  \<^item> \<open>Transcript_Chunker\<close> (\<open>transcript-chunker.mjs\<close>): slices of a log within a token budget.
  \<^item> \<open>Key_Rotation\<close> (\<open>caller-key-rotation.mjs\<close>): swap, rollback and restore over a disk whose operations may
    fail and a log of all its states; a crash at any of them can be repaired.
  \<^item> \<open>Retention\<close> (\<open>tool-result-retention.mjs\<close>): usage, purge and expiry of stored results; what a run may remove.

  \<^bold>\<open>Loops.\<close> The parser of JSON texts recurses on a bound, \<open>2 * length + 2\<close>: every level and every element
  takes at least one character and at most two steps. Nothing else runs on fuel. Loops over a buffer are functions on the rest of the buffer with a measure on
  its length; \<open>fetch_with_retry\<close> has the remaining retries as its measure; \<open>reseat\<close> is a
  \<open>partial_function (option)\<close> and \<open>fold_intervening_returns\<close> shows that it always answers.

  \<^bold>\<open>Limits of the model.\<close>
  \<^item> JSON numbers are decimals in lowest terms, which is the program's number as long as it is a double that prints
    without an exponent; rounding is not modelled. Objects keep insertion order; the move of
    integer-like keys to the front, which JavaScript does, is not modelled.
  \<^item> A string is decoded piece by piece: two lone surrogates that meet by concatenation stay two three-byte forms.
  \<^item> Stream backpressure, callbacks and timers are left out: a transform is its list of pushed buffers, and a
    timer is a step of the environment.
  \<^item> Floats of \<open>protobuf-wire.mjs\<close> and the coercion of ill-typed values there (left \<open>Not_Covered\<close>); a double is its
    eight bytes.
  \<^item> File modes and permissions; paths are POSIX paths and directories come resolved.
  \<^item> \<open>describeRetentionTtl\<close> and \<open>retentionTtlDaysFromMs\<close>, whose division is not exact in binary.

  \<^bold>\<open>Not modelled.\<close> The HTTP server and control plane (\<open>router.mjs\<close>, \<open>control.mjs\<close>), the request driver
  \<open>namespace-relay.mjs\<close>, the DeepSeek compatibility pass, the forwarders, the configuration managers, the desktop and browser
  user interfaces and the LAN gateway: process wiring, network and files of other programs
  around the stages above. The vendored \<open>canny\<close> tree is third-party code.
\<close>

end
